(* ===== verification/AK_Prelude.thy ===== *)
theory AK_Prelude
  imports Main "HOL-Library.Word" "HOL-Library.Multiset"
begin

unbundle bit_operations_syntax

text \<open>
  Shared vocabulary of the development: the machine types of \<open>AK/Types.h\<close>, the error values of
  \<open>AK/Error.h\<close>, the collections of simplification rules that the component theories extend, and
  the generic lemmas on lists, words and iteration that several components use.
\<close>

section \<open>Machine types and results\<close>

type_synonym u8 = "8 word"
type_synonym u16 = "16 word"
type_synonym u32 = "32 word"
type_synonym u64 = "64 word"

text \<open>
  A failed \<open>VERIFY\<close> stops the program and a failed allocation surfaces as \<open>ENOMEM\<close>; both are
  values here, so that every early exit of the source is a branch of the model. What C++ leaves undefined
  is an error value too: \<open>BadPointer\<close> is the access through a null or dangling pointer or outside a buffer,
  \<open>IntOverflow\<close> the arithmetic on \<open>int\<close> whose result is no \<open>int\<close>.
\<close>

datatype ak_error =
    VerifyFailed
  | ENOMEM
  | EINVAL
  | StringLiteral string
  | Panic string
  | BadPointer
  | IntOverflow

type_synonym 'a error_or = "ak_error + 'a"

definition verify :: "bool \<Rightarrow> 'a error_or \<Rightarrow> 'a error_or" where
  "verify b r = (if b then r else Inl VerifyFailed)"

fun try_then :: "'a error_or \<Rightarrow> ('a \<Rightarrow> 'b error_or) \<Rightarrow> 'b error_or" where
  "try_then (Inl e) f = Inl e"
| "try_then (Inr x) f = f x"

lemma verify_True [simp]: "b \<Longrightarrow> verify b r = r"
  and verify_False [simp]: "\<not> b \<Longrightarrow> verify b r = Inl VerifyFailed"
  by (simp_all add: verify_def)

lemma verify_eq_Inr_iff [simp]: "verify b r = Inr x \<longleftrightarrow> b \<and> r = Inr x"
  by (simp add: verify_def)

lemma try_then_eq_Inr_iff: "try_then r f = Inr y \<longleftrightarrow> (\<exists>x. r = Inr x \<and> f x = Inr y)"
  by (cases r) auto

lemma try_then_cong [fundef_cong]:
  "r = r' \<Longrightarrow> (\<And>x. r' = Inr x \<Longrightarrow> f x = g x) \<Longrightarrow> try_then r f = try_then r' g"
  by (cases r') auto

section \<open>Arithmetic on int\<close>

text \<open>
  An \<open>int\<close> of the code is a mathematical integer whose arithmetic is checked: \<open>int32\<close> is the result of an
  operation. A conversion to \<open>int\<close> from a wider type keeps the low 32 bits.
\<close>

definition int32 :: "int \<Rightarrow> int error_or" where
  "int32 v = (if - 2147483648 \<le> v \<and> v < 2147483648 then Inr v else Inl IntOverflow)"

definition narrow_int :: "int \<Rightarrow> int" where
  "narrow_int v = (v + 2147483648) mod 4294967296 - 2147483648"

lemma int32_in_range [simp]: "- 2147483648 \<le> v \<Longrightarrow> v < 2147483648 \<Longrightarrow> int32 v = Inr v"
  by (simp add: int32_def)

lemma int32_eq_Inr_iff: "int32 v = Inr w \<longleftrightarrow> w = v \<and> - 2147483648 \<le> v \<and> v < 2147483648"
  by (auto simp: int32_def)

lemma narrow_int_in_range [simp]: "- 2147483648 \<le> v \<Longrightarrow> v < 2147483648 \<Longrightarrow> narrow_int v = v"
  by (simp add: narrow_int_def)

lemma narrow_int_le: "0 \<le> v \<Longrightarrow> narrow_int v \<le> v"
proof -
  assume "0 \<le> v"
  then have "(v + 2147483648) mod 4294967296 \<le> v + 2147483648" by (intro zmod_le_nonneg_dividend) simp
  then show ?thesis by (simp add: narrow_int_def)
qed

text \<open>Indexing an array by an \<open>int\<close>; an index outside fails a \<open>VERIFY\<close>.\<close>

definition item_at :: "'a list \<Rightarrow> int \<Rightarrow> 'a error_or" where
  "item_at xs i = verify (0 \<le> i \<and> i < int (length xs)) (Inr (xs ! nat i))"

lemma item_at_nat [simp]: "i < length xs \<Longrightarrow> item_at xs (int i) = Inr (xs ! i)"
  by (simp add: item_at_def)

lemma item_at_in_range [simp]: "0 \<le> i \<Longrightarrow> i < int (length xs) \<Longrightarrow> item_at xs i = Inr (xs ! nat i)"
  by (simp add: item_at_def)

lemma item_at_eq_Inr_iff: "item_at xs i = Inr x \<longleftrightarrow> 0 \<le> i \<and> i < int (length xs) \<and> x = xs ! nat i"
  by (auto simp: item_at_def)

section \<open>Loops that may not end\<close>

text \<open>
  Code with a loop that may not end returns an \<open>outcome\<close>: \<open>None\<close> when it does not return, else an
  error or a value. \<open>and_then\<close> is sequencing with early exit, usable in \<open>partial_function\<close>.
\<close>

type_synonym 'a outcome = "'a error_or option"

definition and_then :: "'a outcome \<Rightarrow> ('a \<Rightarrow> 'b outcome) \<Rightarrow> 'b outcome" where
  "and_then r f = Option.bind r (\<lambda>x. case x of Inl e \<Rightarrow> Some (Inl e) | Inr y \<Rightarrow> f y)"

lemma and_then_simps [simp]:
  "and_then None f = None"
  "and_then (Some (Inl e)) f = Some (Inl e)"
  "and_then (Some (Inr x)) f = f x"
  by (simp_all add: and_then_def)

lemma and_then_eq_Inr_iff:
  "and_then r f = Some (Inr y) \<longleftrightarrow> (\<exists>x. r = Some (Inr x) \<and> f x = Some (Inr y))"
  by (cases r; cases "the r") auto

lemma and_then_assoc: "and_then (and_then r f) g = and_then r (\<lambda>x. and_then (f x) g)"
  by (cases r; cases "the r") auto

lemma and_then_mono [partial_function_mono]:
  assumes "mono_option r" and "\<And>x. mono_option (\<lambda>f. g x f)"
  shows "mono_option (\<lambda>f. and_then (r f) (\<lambda>x. g x f))"
  unfolding and_then_def
proof (rule bind_mono [OF assms(1)])
  show "mono_option (\<lambda>f. case x of Inl e \<Rightarrow> Some (Inl e) | Inr y \<Rightarrow> g y f)" for x
    using assms(2) by (cases x) (simp_all add: option.const_mono)
qed

text \<open>\<open>MUST\<close> on a fallible call: an error stops the program.\<close>

fun must :: "'a error_or \<Rightarrow> 'a error_or" where
  "must (Inl e) = Inl VerifyFailed"
| "must (Inr x) = Inr x"

lemma must_eq_Inr_iff [simp]: "must r = Inr x \<longleftrightarrow> r = Inr x"
  by (cases r) auto

text \<open>
  The allocator, counted in elements of the container that calls it: whether an allocation of \<open>n\<close>
  elements succeeds, and \<open>kmalloc_good_size\<close>.
\<close>

record allocator =
  can_allocate :: "nat \<Rightarrow> bool"
  good_size :: "nat \<Rightarrow> nat"

section \<open>Bits of natural numbers\<close>

lemma less_power_if_no_bits: "(\<And>i. k \<le> i \<Longrightarrow> \<not> bit (m :: nat) i) \<Longrightarrow> m < 2 ^ k"
proof -
  assume no: "\<And>i. k \<le> i \<Longrightarrow> \<not> bit m i"
  have "take_bit k m = m"
    by (rule bit_eqI) (use no in \<open>auto simp: bit_take_bit_iff not_le [symmetric]\<close>)
  then show ?thesis by (metis take_bit_nat_less_exp)
qed

lemma power_le_if_bit: "bit (m :: nat) k \<Longrightarrow> 2 ^ k \<le> m"
  by (rule ccontr) (simp add: bit_iff_odd)

section \<open>Lists updated by index\<close>

text \<open>\<open>AK::swap\<close> on two elements of an array.\<close>

definition swap_at :: "'a list \<Rightarrow> nat \<Rightarrow> nat \<Rightarrow> 'a list" where
  "swap_at xs i j = xs[i := xs ! j, j := xs ! i]"

lemma length_swap_at [simp]: "length (swap_at xs i j) = length xs"
  by (simp add: swap_at_def)

lemma nth_swap_at:
  "i < length xs \<Longrightarrow> j < length xs \<Longrightarrow> k < length xs \<Longrightarrow>
   swap_at xs i j ! k = (if k = i then xs ! j else if k = j then xs ! i else xs ! k)"
  by (auto simp: swap_at_def nth_list_update)

lemma mset_swap_at: "i < length xs \<Longrightarrow> j < length xs \<Longrightarrow> mset (swap_at xs i j) = mset xs"
  by (cases "i = j") (simp_all add: swap_at_def mset_swap)

lemma find_append:
  "List.find P (xs @ ys) = (case List.find P xs of None \<Rightarrow> List.find P ys | Some x \<Rightarrow> Some x)"
  by (induction xs) auto

section \<open>Iteration of a function\<close>

lemma funpow_swap_apply: "(f ^^ n) (f x) = f ((f ^^ n) x)"
  by (simp add: funpow_swap1)

lemma funpow_mult_fixed:
  assumes "(f ^^ d) x = x"
  shows "(f ^^ (d * q)) x = x"
  using assms by (induction q) (simp_all add: funpow_add)

lemma funpow_mod_period:
  assumes "(f ^^ d) x = x"
  shows "(f ^^ n) x = (f ^^ (n mod d)) x"
proof -
  have "(f ^^ n) x = (f ^^ (n mod d + d * (n div d))) x" by simp
  also have "\<dots> = (f ^^ (n mod d)) x"
    using funpow_mult_fixed [OF assms] by (simp only: funpow_add comp_apply)
  finally show ?thesis .
qed

end
