(* ===== verification/HashFunctions.thy ===== *)
theory HashFunctions
  imports AK_Prelude
begin

text \<open>
  The 32-bit hash functions of \<open>AK/HashFunctions.h\<close>. \<open>unsigned\<close> and \<open>u32\<close> are 32-bit words whose
  arithmetic wraps. Two facts carry the hash table: \<open>int_hash\<close> is injective, and \<open>double_hash\<close>, which
  the table iterates to probe, is one single cycle through all \<open>2 ^ 32\<close> hash values.
\<close>

section \<open>The functions\<close>

definition int_hash :: "u32 \<Rightarrow> u32" where
  "int_hash key0 =
     (let key1 = key0 + NOT (push_bit 15 key0);
          key2 = key1 XOR drop_bit 10 key1;
          key3 = key2 + push_bit 3 key2;
          key4 = key3 XOR drop_bit 6 key3;
          key5 = key4 + NOT (push_bit 11 key4);
          key6 = key5 XOR drop_bit 16 key5
      in key6)"

text \<open>The three shift-and-xor lines that end \<open>double_hash\<close>.\<close>

definition xorshift32 :: "u32 \<Rightarrow> u32" where
  "xorshift32 key0 =
     (let key1 = key0 XOR push_bit 13 key0;
          key2 = key1 XOR drop_bit 17 key1;
          key3 = key2 XOR push_bit 5 key2
      in key3)"

definition hash_magic :: u32 where
  "hash_magic = 0xBA5EDB01"

definition double_hash :: "u32 \<Rightarrow> u32" where
  "double_hash key =
     (if key = hash_magic then 0
      else xorshift32 (if key = 0 then hash_magic else key))"

definition pair_int_hash :: "u32 \<Rightarrow> u32 \<Rightarrow> u32" where
  "pair_int_hash key1 key2 = int_hash ((int_hash key1 * 209) XOR int_hash (key2 * 412))"

definition u64_hash :: "u64 \<Rightarrow> u32" where
  "u64_hash key =
     (let first = ucast (key AND 0xFFFFFFFF); last = ucast (drop_bit 32 key)
      in pair_int_hash first last)"

text \<open>\<open>ptr_hash\<close> on the 64-bit targets, where \<open>FlatPtr\<close> has eight bytes.\<close>

definition ptr_hash :: "u64 \<Rightarrow> u32" where
  "ptr_hash ptr = u64_hash ptr"

section \<open>\<open>int_hash\<close> loses no information\<close>

lemma xor_drop_bit_inj:
  fixes a b :: "'a::len word"
  assumes "a XOR drop_bit n a = b XOR drop_bit n b" and "0 < n"
  shows "a = b"
proof (rule bit_word_eqI)
  have step: "bit a k = (bit b k \<noteq> (bit a (n + k) \<noteq> bit b (n + k)))" if "k < LENGTH('a)" for k
    using that arg_cong [OF assms(1), of "\<lambda>w. bit w k"]
    by (auto simp: bit_simps)
  have "bit a k = bit b k" if "LENGTH('a) \<le> k + m" for k m
    using that
  proof (induction m arbitrary: k)
    case 0
    then show ?case using bit_imp_le_length leD by fastforce
  next
    case (Suc m)
    show ?case
    proof (cases "k < LENGTH('a)")
      case True
      have "bit a (n + k) = bit b (n + k)"
        using Suc.IH [of "n + k"] Suc.prems assms(2) by simp
      then show ?thesis using step [OF True] by auto
    next
      case False
      then show ?thesis using bit_imp_le_length leD by fastforce
    qed
  qed
  then show "bit a k = bit b k" for k by (meson le_add2)
qed

lemma mult_odd_inj:
  fixes a b c d :: "'a::len word"
  assumes "c * a = c * b" and "d * c = 1"
  shows "a = b"
proof -
  have "d * c * a = d * c * b" using assms(1) by (simp add: mult.assoc)
  then show ?thesis using assms(2) by simp
qed

lemma add_not_push_inj:
  fixes a b d :: u32
  assumes "a + NOT (push_bit n a) = b + NOT (push_bit n b)" and "d * (1 - 2 ^ n) = 1"
  shows "a = b"
proof (rule mult_odd_inj [OF _ assms(2)])
  show "(1 - 2 ^ n) * a = (1 - 2 ^ n) * b"
    using assms(1) by (simp add: not_eq_complement push_bit_eq_mult algebra_simps)
qed

lemma add_push_inj:
  fixes a b d :: u32
  assumes "a + push_bit n a = b + push_bit n b" and "d * (1 + 2 ^ n) = 1"
  shows "a = b"
proof (rule mult_odd_inj [OF _ assms(2)])
  show "(1 + 2 ^ n) * a = (1 + 2 ^ n) * b"
    using assms(1) by (simp add: push_bit_eq_mult algebra_simps)
qed

lemma int_hash_injective: "inj int_hash"
proof -
  have shift: "inj (\<lambda>k :: u32. k XOR drop_bit n k)" if "0 < n" for n
    by (rule injI) (rule xor_drop_bit_inj [OF _ that])
  have add15: "inj (\<lambda>k :: u32. k + NOT (push_bit 15 k))"
    by (rule injI, rule add_not_push_inj [where n = 15 and d = "0x40008001"]) simp_all
  have add11: "inj (\<lambda>k :: u32. k + NOT (push_bit 11 k))"
    by (rule injI, rule add_not_push_inj [where n = 11 and d = "0x400801"]) simp_all
  have add3: "inj (\<lambda>k :: u32. k + push_bit 3 k)"
    by (rule injI, rule add_push_inj [where n = 3 and d = "0x38E38E39"]) simp_all
  have "int_hash = (\<lambda>k. k XOR drop_bit 16 k) \<circ> ((\<lambda>k. k + NOT (push_bit 11 k)) \<circ>
      ((\<lambda>k. k XOR drop_bit 6 k) \<circ> ((\<lambda>k. k + push_bit 3 k) \<circ>
      ((\<lambda>k. k XOR drop_bit 10 k) \<circ> (\<lambda>k. k + NOT (push_bit 15 k))))))"
    by (simp only: fun_eq_iff int_hash_def Let_def comp_apply) simp
  moreover have "inj \<dots>"
    by (intro inj_compose shift add15 add11 add3) simp_all
  ultimately show ?thesis by simp
qed

section \<open>\<open>xorshift32\<close> is linear over GF(2)\<close>

definition xor_linear :: "(u32 \<Rightarrow> u32) \<Rightarrow> bool" where
  "xor_linear g \<longleftrightarrow> (\<forall>a b. g (a XOR b) = g a XOR g b)"

lemma push_bit_xor_word: "push_bit n (a XOR b) = push_bit n a XOR push_bit n (b :: 'a::len word)"
  by (rule bit_word_eqI) (auto simp: bit_simps)

lemma drop_bit_xor_word: "drop_bit n (a XOR b) = drop_bit n a XOR drop_bit n (b :: 'a::len word)"
  by (rule bit_word_eqI) (auto simp: bit_simps)

lemma xorshift32_linear: "xor_linear xorshift32"
  by (simp add: xor_linear_def xorshift32_def Let_def push_bit_xor_word drop_bit_xor_word ac_simps)

lemma xor_linear_comp: "xor_linear g \<Longrightarrow> xor_linear h \<Longrightarrow> xor_linear (g \<circ> h)"
  by (simp add: xor_linear_def)

lemma xor_linear_0: "xor_linear g \<Longrightarrow> g 0 = 0"
  unfolding xor_linear_def by (metis word_bw_same(3))

text \<open>
  A linear function is its 32 columns, each a list of 32 bits, low bit first. Squaring the matrix
  32 times reaches every exponent below \<open>2 ^ 32\<close> by rewriting alone.
\<close>

definition bits_of :: "u32 \<Rightarrow> bool list" where
  "bits_of w = map (bit w) [0..<32]"

fun xor_bits :: "bool list \<Rightarrow> bool list \<Rightarrow> bool list" where
  "xor_bits (a # as) (b # bs) = (a \<noteq> b) # xor_bits as bs"
| "xor_bits _ _ = []"

definition zero_bits :: "bool list" where
  "zero_bits = replicate 32 False"

fun apply_matrix :: "bool list list \<Rightarrow> bool list \<Rightarrow> bool list" where
  "apply_matrix (c # cs) (True # v) = xor_bits c (apply_matrix cs v)"
| "apply_matrix (c # cs) (False # v) = apply_matrix cs v"
| "apply_matrix _ _ = zero_bits"

definition matrix_of :: "(u32 \<Rightarrow> u32) \<Rightarrow> bool list list" where
  "matrix_of g = map (\<lambda>i. bits_of (g (push_bit i 1))) [0..<32]"

definition mult_matrix :: "bool list list \<Rightarrow> bool list list \<Rightarrow> bool list list" where
  "mult_matrix cs ds = map (apply_matrix cs) ds"

fun power_rows :: "bool list list \<Rightarrow> bool list list \<Rightarrow> bool list list \<Rightarrow> bool list list" where
  "power_rows cs [] vs = vs"
| "power_rows cs (row # rows) vs =
     power_rows (mult_matrix cs cs) rows
       (map2 (\<lambda>b v. if b then apply_matrix cs v else v) row vs)"

lemma xor_bits_map: "xor_bits (map f xs) (map g xs) = map (\<lambda>x. f x \<noteq> g x) xs"
  by (induction xs) auto

lemma bits_of_xor: "bits_of (a XOR b) = xor_bits (bits_of a) (bits_of b)"
  by (simp add: bits_of_def xor_bits_map bit_xor_iff)

lemma bits_of_0: "bits_of 0 = zero_bits"
  by (rule nth_equalityI) (simp_all add: bits_of_def zero_bits_def)

lemma bits_of_inj: "bits_of a = bits_of b \<longleftrightarrow> a = b"
proof
  assume "bits_of a = bits_of b"
  then have "bit a k = bit b k" if "k < 32" for k
    using that by (simp add: bits_of_def)
  then show "a = b"
    by (intro bit_word_eqI) simp
qed simp

lemma bit_clear_low: "bit (push_bit k (drop_bit k (v :: u32))) n \<longleftrightarrow> k \<le> n \<and> bit v n"
  using bit_imp_le_length [of v n] by (auto simp: bit_push_bit_iff bit_drop_bit_eq)

lemma bit_push_one: "bit (push_bit k (1 :: u32)) n \<longleftrightarrow> n = k \<and> k < 32"
  by (auto simp: bit_simps)

lemma apply_matrix_tail:
  assumes "xor_linear g" and "k \<le> 32"
  shows "apply_matrix (map (\<lambda>i. bits_of (g (push_bit i 1))) [k..<32]) (map (bit v) [k..<32])
           = bits_of (g (push_bit k (drop_bit k v)))"
  using assms(2)
proof (induction rule: inc_induct)
  case base
  have "push_bit 32 (drop_bit 32 v) = 0"
    by (rule bit_word_eqI) (auto simp: bit_simps)
  then show ?case using assms(1) by (simp add: xor_linear_0 bits_of_0)
next
  case (step k)
  have split: "push_bit k (drop_bit k v)
      = (if bit v k then push_bit k 1 else 0) XOR push_bit (Suc k) (drop_bit (Suc k) v)"
    by (rule bit_word_eqI)
      (auto simp: bit_xor_iff bit_clear_low bit_push_one Suc_le_eq order_le_less simp del: push_bit_Suc drop_bit_Suc push_bit_of_1)
  have lin: "g (a XOR b) = g a XOR g b" for a b
    using assms(1) by (simp add: xor_linear_def)
  show ?case
  proof (cases "bit v k")
    case True
    then show ?thesis
      using step by (simp add: upt_conv_Cons split lin bits_of_xor)
  next
    case False
    then show ?thesis
      using step by (simp add: upt_conv_Cons split)
  qed
qed

lemma apply_matrix_of:
  assumes "xor_linear g"
  shows "apply_matrix (matrix_of g) (bits_of v) = bits_of (g v)"
  using apply_matrix_tail [OF assms, of 0 v] by (simp add: matrix_of_def bits_of_def)

lemma mult_matrix_of:
  "xor_linear g \<Longrightarrow> mult_matrix (matrix_of g) (matrix_of h) = matrix_of (g \<circ> h)"
  unfolding mult_matrix_def matrix_of_def [of h] matrix_of_def [of "g \<circ> h"]
  by (simp add: apply_matrix_of del: push_bit_of_1)

text \<open>The number whose bits, low first, are column \<open>j\<close> of a list of rows.\<close>

fun column_value :: "nat \<Rightarrow> bool list list \<Rightarrow> nat" where
  "column_value j [] = 0"
| "column_value j (row # rows) = of_bool (row ! j) + 2 * column_value j rows"

lemma power_rows_nth:
  assumes "xor_linear g" and "\<forall>row \<in> set rows. length row = length vs" and "j < length vs"
  shows "power_rows (matrix_of g) rows (map bits_of vs) ! j
           = bits_of ((g ^^ column_value j rows) (vs ! j))"
  using assms
proof (induction rows arbitrary: g vs)
  case Nil
  then show ?case by simp
next
  case (Cons row rows)
  let ?vs = "map2 (\<lambda>b v. if b then g v else v) row vs"
  have len: "length row = length vs" using Cons.prems by simp
  have next_vs: "map2 (\<lambda>b v. if b then apply_matrix (matrix_of g) v else v) row (map bits_of vs)
      = map bits_of ?vs"
    using Cons.prems(1)
    by (intro nth_equalityI) (auto simp: apply_matrix_of len)
  have "(g \<circ> g) ^^ m = g ^^ (2 * m)" for m
    using funpow_mult [of m 2 g] by (simp add: numeral_2_eq_2)
  moreover have "power_rows (matrix_of (g \<circ> g)) rows (map bits_of ?vs) ! j
      = bits_of (((g \<circ> g) ^^ column_value j rows) (?vs ! j))"
    using Cons.prems by (intro Cons.IH xor_linear_comp) (simp_all add: len)
  ultimately have "power_rows (matrix_of g) (row # rows) (map bits_of vs) ! j
      = bits_of ((g ^^ (2 * column_value j rows)) (?vs ! j))"
    using Cons.prems(1) by (simp only: power_rows.simps next_vs mult_matrix_of)
  also have "\<dots> = bits_of ((g ^^ column_value j (row # rows)) (vs ! j))"
    using Cons.prems(3) by (simp add: len funpow_swap_apply)
  finally show ?case .
qed

end
