(* ===== verification/HashTable.thy ===== *)
theory HashTable
  imports HashFunctions
begin

text \<open>
  The open-addressing table of \<open>AK/HasTable.h\<close>, in its unordered form (\<open>IsOrdered = false\<close>): bucket
  states, the sentinel behind the last bucket, the probing loops, insertion, removal, the two ways
  of rehashing and the growth policy. \<open>TraitsForT\<close> is the pair of arguments \<open>hash\<close> and \<open>equals\<close>. The
  allocator is a parameter: \<open>can_allocate n\<close> tells whether \<open>kcalloc\<close> of a table of \<open>n\<close> buckets
  succeeds, and \<open>good_size n\<close> is \<open>kmalloc_good_size\<close> in buckets. A loop that need not end is a
  \<open>partial_function\<close>; \<open>None\<close> is "does not return".
\<close>

section \<open>Buckets and tables\<close>

datatype hash_set_result = InsertedNewEntry | ReplacedExistingEntry | KeptExistingEntry

datatype existing_entry_behavior = Keep | Replace

datatype bucket_state = Free | Used | Deleted | Rehashed | End

fun bucket_code :: "bucket_state \<Rightarrow> u8" where
  "bucket_code Free = 0x00"
| "bucket_code Used = 0x10"
| "bucket_code Deleted = 0x01"
| "bucket_code Rehashed = 0x12"
| "bucket_code End = 0xFF"

definition is_used_bucket :: "bucket_state \<Rightarrow> bool" where
  "is_used_bucket state \<longleftrightarrow> bucket_code state AND 0xf0 = 0x10"

definition is_free_bucket :: "bucket_state \<Rightarrow> bool" where
  "is_free_bucket state \<longleftrightarrow> bucket_code state AND 0xf0 = 0x00"

text \<open>\<open>storage\<close> is \<open>None\<close> while no object lives in the bucket's bytes.\<close>

record 'a bucket =
  bstate :: bucket_state
  storage :: "'a option"

definition slot :: "'a bucket \<Rightarrow> 'a" where
  "slot b = the (storage b)"

text \<open>\<open>m_buckets\<close> is empty for the null pointer; otherwise it has \<open>m_capacity + 1\<close> buckets.\<close>

record 'a hash_table =
  m_buckets :: "'a bucket list"
  m_size :: nat
  m_capacity :: nat
  m_deleted_count :: nat

record allocator =
  can_allocate :: "nat \<Rightarrow> bool"
  good_size :: "nat \<Rightarrow> nat"

definition free_bucket :: "'a bucket" where
  "free_bucket = \<lparr>bstate = Free, storage = None\<rparr>"

definition end_bucket :: "'a bucket" where
  "end_bucket = \<lparr>bstate = End, storage = None\<rparr>"

definition empty_table :: "'a hash_table" where
  "empty_table = \<lparr>m_buckets = [], m_size = 0, m_capacity = 0, m_deleted_count = 0\<rparr>"

definition is_empty :: "'a hash_table \<Rightarrow> bool" where
  "is_empty t \<longleftrightarrow> m_size t = 0"

definition used_bucket_count :: "'a hash_table \<Rightarrow> nat" where
  "used_bucket_count t = m_size t + m_deleted_count t"

definition load_factor_in_percent :: nat where
  "load_factor_in_percent = 60"

definition should_grow :: "'a hash_table \<Rightarrow> bool" where
  "should_grow t \<longleftrightarrow> (used_bucket_count t + 1) * 100 \<ge> m_capacity t * load_factor_in_percent"

section \<open>Iteration\<close>

text \<open>\<open>HashTableIterator::skip_to_next\<close>: the next used bucket behind \<open>i\<close>, none at the sentinel.\<close>

function skip_to_next :: "'a bucket list \<Rightarrow> nat \<Rightarrow> nat option" where
  "skip_to_next bs i =
     (if Suc i < length bs then
        (if bstate (bs ! Suc i) = Used then Some (Suc i)
         else if bstate (bs ! Suc i) \<noteq> End then skip_to_next bs (Suc i)
         else None)
      else None)"
  by pat_completeness auto
termination by (relation "measure (\<lambda>(bs, i). length bs - i)") auto

declare skip_to_next.simps [simp del]

lemma skip_to_next_greater:
  "skip_to_next bs i = Some j \<Longrightarrow> i < j \<and> j < length bs \<and> bstate (bs ! j) = Used"
proof (induction bs i rule: skip_to_next.induct)
  case (1 bs i)
  from "1.prems" show ?case
    by (subst (asm) skip_to_next.simps) (auto split: if_splits dest: "1.IH")
qed

definition begin_index :: "'a hash_table \<Rightarrow> nat option" where
  "begin_index t = List.find (\<lambda>i. is_used_bucket (bstate (m_buckets t ! i))) [0..<m_capacity t]"

text \<open>The loop \<open>for (auto it = begin(); it != end(); ++it)\<close> as the list of the values it visits.\<close>

function iterate_from :: "'a bucket list \<Rightarrow> nat option \<Rightarrow> 'a list" where
  "iterate_from bs None = []"
| "iterate_from bs (Some i) =
     slot (bs ! i) # (if i < length bs then iterate_from bs (skip_to_next bs i) else [])"
  by pat_completeness auto

termination
  by (relation "measure (\<lambda>(bs, i). case i of None \<Rightarrow> 0 | Some i \<Rightarrow> Suc (length bs) - i)")
    (auto split: option.splits dest: skip_to_next_greater)

definition elements :: "'a hash_table \<Rightarrow> 'a list" where
  "elements t = iterate_from (m_buckets t) (begin_index t)"

section \<open>Probing\<close>

definition probe_index :: "'a hash_table \<Rightarrow> u32 \<Rightarrow> nat" where
  "probe_index t h = unat h mod m_capacity t"

definition probe_bucket :: "'a hash_table \<Rightarrow> u32 \<Rightarrow> 'a bucket" where
  "probe_bucket t h = m_buckets t ! probe_index t h"

partial_function (option) lookup_loop ::
  "'a hash_table \<Rightarrow> ('a \<Rightarrow> bool) \<Rightarrow> u32 \<Rightarrow> nat option option" where
  "lookup_loop t predicate h =
     (let bucket = probe_bucket t h in
      if is_used_bucket (bstate bucket) \<and> predicate (slot bucket) then Some (Some (probe_index t h))
      else if bstate bucket \<noteq> Used \<and> bstate bucket \<noteq> Deleted then Some None
      else lookup_loop t predicate (double_hash h))"

definition lookup_with_hash ::
  "'a hash_table \<Rightarrow> u32 \<Rightarrow> ('a \<Rightarrow> bool) \<Rightarrow> nat option option" where
  "lookup_with_hash t h predicate = (if is_empty t then Some None else lookup_loop t predicate h)"

definition find_value ::
  "('a \<Rightarrow> u32) \<Rightarrow> ('a \<Rightarrow> 'a \<Rightarrow> bool) \<Rightarrow> 'a hash_table \<Rightarrow> 'a \<Rightarrow> nat option option" where
  "find_value hash equals t v = lookup_with_hash t (hash v) (\<lambda>other. equals v other)"

definition contains ::
  "('a \<Rightarrow> u32) \<Rightarrow> ('a \<Rightarrow> 'a \<Rightarrow> bool) \<Rightarrow> 'a hash_table \<Rightarrow> 'a \<Rightarrow> bool option" where
  "contains hash equals t v = map_option (\<lambda>it. it \<noteq> None) (find_value hash equals t v)"

text \<open>The loop of \<open>try_lookup_for_writing\<close>; \<open>first\<close> is \<open>first_empty_bucket\<close>.\<close>

partial_function (option) write_loop ::
  "('a \<Rightarrow> 'a \<Rightarrow> bool) \<Rightarrow> 'a hash_table \<Rightarrow> 'a \<Rightarrow> nat option \<Rightarrow> u32 \<Rightarrow> nat option" where
  "write_loop equals t v first h =
     (let bucket = probe_bucket t h; i = probe_index t h in
      if is_used_bucket (bstate bucket) \<and> equals (slot bucket) v then Some i
      else if \<not> is_used_bucket (bstate bucket) then
        (let first_empty = (case first of None \<Rightarrow> i | Some j \<Rightarrow> j) in
         if bstate bucket \<noteq> Deleted then Some first_empty
         else write_loop equals t v (Some first_empty) (double_hash h))
      else write_loop equals t v first (double_hash h))"

section \<open>Rehashing in place\<close>

definition put_bucket :: "'a hash_table \<Rightarrow> nat \<Rightarrow> 'a bucket \<Rightarrow> 'a hash_table" where
  "put_bucket t i b = t\<lparr>m_buckets := (m_buckets t)[i := b]\<rparr>"

definition set_bstate :: "'a hash_table \<Rightarrow> nat \<Rightarrow> bucket_state \<Rightarrow> 'a hash_table" where
  "set_bstate t i st = put_bucket t i ((m_buckets t ! i)\<lparr>bstate := st\<rparr>)"

text \<open>The \<open>while\<close> loop that moves the content of bucket \<open>i\<close> (\<open>to_move_hash\<close>) into place.\<close>

partial_function (option) move_loop ::
  "('a \<Rightarrow> u32) \<Rightarrow> 'a hash_table \<Rightarrow> nat \<Rightarrow> u32 \<Rightarrow> 'a hash_table outcome" where
  "move_loop hash t i target_hash =
     (let bucket_to_move = m_buckets t ! i;
          j = probe_index t target_hash;
          target_bucket = m_buckets t ! j in
      if is_free_bucket (bstate bucket_to_move) then Some (Inr t)
      else if i = j then Some (Inr (set_bstate t i Rehashed))
      else if is_free_bucket (bstate target_bucket) then
        move_loop hash
          (put_bucket (put_bucket t j \<lparr>bstate = Rehashed, storage = storage bucket_to_move\<rparr>)
             i \<lparr>bstate = Free, storage = None\<rparr>) i target_hash
      else if bstate target_bucket = Rehashed then move_loop hash t i (double_hash target_hash)
      else if bstate target_bucket = End then Some (Inl VerifyFailed)
      else
        (let t' = put_bucket (put_bucket t j \<lparr>bstate = Rehashed, storage = storage bucket_to_move\<rparr>)
               i \<lparr>bstate = bstate target_bucket, storage = storage target_bucket\<rparr>;
             target_hash' = hash (slot (m_buckets t' ! i)) in
         if probe_index t' target_hash' = i then Some (Inr (set_bstate t' i Rehashed))
         else move_loop hash t' i target_hash'))"

text \<open>One round of the first \<open>for\<close> loop of \<open>rehash_in_place\<close>.\<close>

definition rehash_bucket ::
  "('a \<Rightarrow> u32) \<Rightarrow> 'a hash_table \<Rightarrow> nat \<Rightarrow> 'a hash_table outcome" where
  "rehash_bucket hash t i =
     (let bucket = m_buckets t ! i in
      if bstate bucket = Rehashed \<or> bstate bucket = End \<or> bstate bucket = Free then Some (Inr t)
      else if bstate bucket = Deleted then Some (Inr (set_bstate t i Free))
      else
        (let new_hash = hash (slot bucket) in
         if probe_index t new_hash = i then Some (Inr (set_bstate t i Rehashed))
         else and_then (move_loop hash t i new_hash) (\<lambda>t.
           Some (Inr (if bstate (m_buckets t ! i) = Deleted then set_bstate t i Free else t)))))"

fun rehash_buckets ::
  "('a \<Rightarrow> u32) \<Rightarrow> nat list \<Rightarrow> 'a hash_table \<Rightarrow> 'a hash_table outcome" where
  "rehash_buckets hash [] t = Some (Inr t)"
| "rehash_buckets hash (i # is) t = and_then (rehash_bucket hash t i) (rehash_buckets hash is)"

definition finish_rehash :: "'a hash_table \<Rightarrow> 'a hash_table" where
  "finish_rehash t = t\<lparr>
     m_buckets := map (\<lambda>b. if bstate b = Rehashed then b\<lparr>bstate := Used\<rparr> else b) (m_buckets t),
     m_deleted_count := 0\<rparr>"

definition rehash_in_place :: "('a \<Rightarrow> u32) \<Rightarrow> 'a hash_table \<Rightarrow> 'a hash_table outcome" where
  "rehash_in_place hash t =
     and_then (rehash_buckets hash [0..<m_capacity t] t) (\<lambda>t. Some (Inr (finish_rehash t)))"

definition rehash_in_place_if_needed ::
  "('a \<Rightarrow> u32) \<Rightarrow> 'a hash_table \<Rightarrow> 'a hash_table outcome" where
  "rehash_in_place_if_needed hash t =
     (if m_deleted_count t \<ge> m_size t \<and> should_grow t then rehash_in_place hash t
      else Some (Inr t))"

section \<open>Rehashing into new buckets\<close>

definition with_new_buckets :: "'a hash_table \<Rightarrow> nat \<Rightarrow> 'a hash_table" where
  "with_new_buckets t n = t\<lparr>
     m_buckets := replicate n free_bucket @ [end_bucket], m_capacity := n, m_deleted_count := 0\<rparr>"

definition place :: "'a hash_table \<Rightarrow> nat \<Rightarrow> 'a \<Rightarrow> 'a hash_table" where
  "place t i v = put_bucket t i \<lparr>bstate = Used, storage = Some v\<rparr>"

text \<open>
  The insertion loop of \<open>try_rehash\<close>. Each \<open>insert_during_rehash\<close> goes through
  \<open>try_lookup_for_writing\<close>, which may itself grow the half-filled table, so the loop calls itself
  once for the elements of that table; \<open>MUST\<close> turns an allocation failure there into a crash.
\<close>

partial_function (option) insert_all ::
  "allocator \<Rightarrow> ('a \<Rightarrow> u32) \<Rightarrow> ('a \<Rightarrow> 'a \<Rightarrow> bool) \<Rightarrow> 'a list \<Rightarrow> 'a hash_table \<Rightarrow> 'a hash_table outcome"
where
  "insert_all env hash equals vs t =
     (case vs of
        [] \<Rightarrow> Some (Inr t)
      | v # vs' \<Rightarrow>
          and_then
            (if should_grow t then
               (let n = good_size env (max (m_capacity t * 2) 4) in
                if can_allocate env n then
                  insert_all env hash equals (elements t) (with_new_buckets t n)
                else Some (Inl VerifyFailed))
             else Some (Inr t))
            (\<lambda>t'. Option.bind (write_loop equals t' v None (hash v)) (\<lambda>i.
               insert_all env hash equals vs' (place t' i v))))"

definition try_rehash ::
  "allocator \<Rightarrow> ('a \<Rightarrow> u32) \<Rightarrow> ('a \<Rightarrow> 'a \<Rightarrow> bool) \<Rightarrow> 'a hash_table \<Rightarrow> nat \<Rightarrow> 'a hash_table outcome"
where
  "try_rehash env hash equals t new_capacity =
     (if new_capacity = m_capacity t \<and> new_capacity \<ge> 4 then rehash_in_place hash t
      else
        (let n = good_size env (max new_capacity 4) in
         if \<not> can_allocate env n then Some (Inl ENOMEM)
         else if m_buckets t = [] then Some (Inr (with_new_buckets t n))
         else insert_all env hash equals (elements t) (with_new_buckets t n)))"

section \<open>The public operations\<close>

definition try_ensure_capacity ::
  "allocator \<Rightarrow> ('a \<Rightarrow> u32) \<Rightarrow> ('a \<Rightarrow> 'a \<Rightarrow> bool) \<Rightarrow> 'a hash_table \<Rightarrow> nat \<Rightarrow> 'a hash_table outcome"
where
  "try_ensure_capacity env hash equals t capacity =
     (if capacity \<ge> m_size t then try_rehash env hash equals t (capacity * 2)
      else Some (Inl VerifyFailed))"

definition try_lookup_for_writing ::
  "allocator \<Rightarrow> ('a \<Rightarrow> u32) \<Rightarrow> ('a \<Rightarrow> 'a \<Rightarrow> bool) \<Rightarrow> 'a hash_table \<Rightarrow> 'a \<Rightarrow> ('a hash_table \<times> nat) outcome"
where
  "try_lookup_for_writing env hash equals t v =
     and_then
       (if should_grow t then try_rehash env hash equals t (m_capacity t * 2) else Some (Inr t))
       (\<lambda>t'. map_option (\<lambda>i. Inr (t', i)) (write_loop equals t' v None (hash v)))"

text \<open>The part of \<open>try_set\<close> behind the lookup: bucket \<open>i\<close> is the one to write.\<close>

definition set_at ::
  "'a hash_table \<Rightarrow> nat \<Rightarrow> 'a \<Rightarrow> existing_entry_behavior \<Rightarrow> 'a hash_table \<times> hash_set_result" where
  "set_at t i v existing_entry_behavior =
     (let bucket = m_buckets t ! i in
      if is_used_bucket (bstate bucket) then
        (if existing_entry_behavior = Keep then (t, KeptExistingEntry)
         else (put_bucket t i (bucket\<lparr>storage := Some v\<rparr>), ReplacedExistingEntry))
      else
        (let deleted = (if bstate bucket = Deleted then m_deleted_count t - 1 else m_deleted_count t)
         in ((place t i v)\<lparr>m_deleted_count := deleted, m_size := m_size t + 1\<rparr>, InsertedNewEntry)))"

definition try_set ::
  "allocator \<Rightarrow> ('a \<Rightarrow> u32) \<Rightarrow> ('a \<Rightarrow> 'a \<Rightarrow> bool) \<Rightarrow> 'a hash_table \<Rightarrow> 'a \<Rightarrow> existing_entry_behavior
    \<Rightarrow> ('a hash_table \<times> hash_set_result) outcome" where
  "try_set env hash equals t v existing_entry_behavior =
     and_then (try_lookup_for_writing env hash equals t v)
       (\<lambda>(t', i). Some (Inr (set_at t' i v existing_entry_behavior)))"

text \<open>\<open>MUST\<close> on a fallible call: an error stops the program.\<close>

definition must :: "'a outcome \<Rightarrow> 'a outcome" where
  "must r = map_option (\<lambda>x. case x of Inl e \<Rightarrow> Inl VerifyFailed | Inr y \<Rightarrow> Inr y) r"

fun try_set_from ::
  "allocator \<Rightarrow> ('a \<Rightarrow> u32) \<Rightarrow> ('a \<Rightarrow> 'a \<Rightarrow> bool) \<Rightarrow> 'a hash_table \<Rightarrow> 'a list \<Rightarrow> 'a hash_table outcome"
where
  "try_set_from env hash equals t [] = Some (Inr t)"
| "try_set_from env hash equals t (v # vs) =
     and_then (try_set env hash equals t v Replace) (\<lambda>(t', _). try_set_from env hash equals t' vs)"

definition set_from ::
  "allocator \<Rightarrow> ('a \<Rightarrow> u32) \<Rightarrow> ('a \<Rightarrow> 'a \<Rightarrow> bool) \<Rightarrow> 'a hash_table \<Rightarrow> 'a list \<Rightarrow> 'a hash_table outcome"
where
  "set_from env hash equals t vs = must (try_set_from env hash equals t vs)"

text \<open>The copy constructor: \<open>rehash(other.capacity())\<close>, then \<open>set\<close> of every element in order.\<close>

definition copy_table ::
  "allocator \<Rightarrow> ('a \<Rightarrow> u32) \<Rightarrow> ('a \<Rightarrow> 'a \<Rightarrow> bool) \<Rightarrow> 'a hash_table \<Rightarrow> 'a hash_table outcome" where
  "copy_table env hash equals other =
     and_then (must (try_rehash env hash equals empty_table (m_capacity other)))
       (\<lambda>t. set_from env hash equals t (elements other))"

definition delete_bucket :: "'a hash_table \<Rightarrow> nat \<Rightarrow> 'a hash_table" where
  "delete_bucket t i = put_bucket t i \<lparr>bstate = Deleted, storage = None\<rparr>"

text \<open>\<open>remove(Iterator)\<close>; the null iterator and a bucket that is not used fail a \<open>VERIFY\<close>.\<close>

definition remove_at :: "('a \<Rightarrow> u32) \<Rightarrow> 'a hash_table \<Rightarrow> nat option \<Rightarrow> 'a hash_table outcome" where
  "remove_at hash t it =
     (case it of
        None \<Rightarrow> Some (Inl VerifyFailed)
      | Some i \<Rightarrow>
          if is_used_bucket (bstate (m_buckets t ! i)) then
            rehash_in_place_if_needed hash
              ((delete_bucket t i)\<lparr>m_size := m_size t - 1, m_deleted_count := m_deleted_count t + 1\<rparr>)
          else Some (Inl VerifyFailed))"

definition remove_value ::
  "('a \<Rightarrow> u32) \<Rightarrow> ('a \<Rightarrow> 'a \<Rightarrow> bool) \<Rightarrow> 'a hash_table \<Rightarrow> 'a \<Rightarrow> ('a hash_table \<times> bool) outcome" where
  "remove_value hash equals t v =
     Option.bind (find_value hash equals t v) (\<lambda>it.
       if it \<noteq> None then and_then (remove_at hash t it) (\<lambda>t'. Some (Inr (t', True)))
       else Some (Inr (t, False)))"

definition remove_all_matching ::
  "('a \<Rightarrow> u32) \<Rightarrow> 'a hash_table \<Rightarrow> ('a \<Rightarrow> bool) \<Rightarrow> ('a hash_table \<times> bool) outcome" where
  "remove_all_matching hash t predicate =
     (let matching = filter (\<lambda>i. is_used_bucket (bstate (m_buckets t ! i))
                               \<and> predicate (slot (m_buckets t ! i))) [0..<m_capacity t];
          removed_count = length matching;
          t' = (fold (\<lambda>i t. delete_bucket t i) matching t)
                 \<lparr>m_deleted_count := m_deleted_count t + removed_count,
                  m_size := m_size t - removed_count\<rparr>
      in and_then (rehash_in_place_if_needed hash t') (\<lambda>t''. Some (Inr (t'', removed_count \<noteq> 0))))"

definition clear :: "'a hash_table \<Rightarrow> 'a hash_table" where
  "clear t = empty_table"

text \<open>
  \<open>clear_with_capacity\<close> writes the sentinel's bytes even when there are no buckets; on a table that
  never allocated, that is a write through the null pointer, an error value here.
\<close>

datatype clear_result = NullPointerWrite | Cleared

definition clear_with_capacity :: "'a hash_table \<Rightarrow> clear_result \<times> 'a hash_table" where
  "clear_with_capacity t =
     (if m_buckets t = [] then (NullPointerWrite, t)
      else (Cleared, t\<lparr>m_buckets := replicate (m_capacity t) free_bucket @ [end_bucket],
                        m_size := 0, m_deleted_count := 0\<rparr>))"

end
