(* ===== verification/ProbeCycle.thy ===== *)
theory ProbeCycle
  imports HashFunctions
begin

text \<open>
  \<open>double_hash\<close> of \<open>AK/HashFunctions.h\<close> is one cycle: from any hash value the iteration reaches
  every other. \<open>xorshift32\<close> returns 1 to itself after \<open>2 ^ 32 - 1\<close> steps and after none of the
  maximal proper divisors of that number, which the kernel computes by squaring the \<open>32 \<times> 32\<close>
  matrix of the function; the value 0 is spliced into the cycle at \<open>hash_magic\<close>. Every probe
  sequence of the hash table therefore visits every bucket.
\<close>

section \<open>The orbit of 1 has length \<open>2 ^ 32 - 1\<close>\<close>

text \<open>
  The exponents \<open>(2 ^ 32 - 1) div p\<close> for the five prime factors \<open>p\<close> of \<open>2 ^ 32 - 1\<close>, and
  \<open>2 ^ 32 - 1\<close> itself, one per column.
\<close>

definition period32 :: nat where
  "period32 = 4294967295"

definition exponent_rows :: "bool list list" where
  "exponent_rows = map (\<lambda>i. [i mod 2 < 1, i mod 4 < 2, i mod 8 < 4, i mod 16 < 8, i mod 32 < 16, True]) [0..<32]"

lemma exponent_rows_values:
  "map (\<lambda>j. column_value j exponent_rows) [0, 1, 2, 3, 4, 5]
     = [period32 div 3, period32 div 5, period32 div 17, period32 div 257, period32 div 65537, period32]"
  by (simp add: exponent_rows_def upt_rec numeral_eq_Suc [of "num.One"] period32_def)

lemma upt_32: "[0..<32] = [0,1,2,3,4,5,6,7,8,9,10,11,12,13,14,15,
     16,17,18,19,20,21,22,23,24,25,26,27,28,29,30,31]"
  by (simp add: upt_conv_Cons)

lemma bits_of_unfold: "bits_of w = map (bit w) [0,1,2,3,4,5,6,7,8,9,10,11,12,13,14,15,
     16,17,18,19,20,21,22,23,24,25,26,27,28,29,30,31]"
  by (simp add: bits_of_def upt_32)

lemma matrix_of_unfold:
  "matrix_of g = map (\<lambda>i. bits_of (g (push_bit i 1))) [0,1,2,3,4,5,6,7,8,9,10,11,12,13,14,15,
     16,17,18,19,20,21,22,23,24,25,26,27,28,29,30,31]"
  by (simp add: matrix_of_def upt_32)

lemma zero_bits_unfold: "zero_bits = [False, False, False, False, False, False, False, False,
     False, False, False, False, False, False, False, False,
     False, False, False, False, False, False, False, False,
     False, False, False, False, False, False, False, False]"
  by (simp add: zero_bits_def numeral_eq_Suc)

lemma xor_bits_eval:
  "xor_bits [] [] = []"
  "xor_bits (True # as) (True # bs) = False # xor_bits as bs"
  "xor_bits (True # as) (False # bs) = True # xor_bits as bs"
  "xor_bits (False # as) (True # bs) = True # xor_bits as bs"
  "xor_bits (False # as) (False # bs) = False # xor_bits as bs"
  by simp_all

lemma apply_matrix_Nil: "apply_matrix [] [] = zero_bits"
  by simp

lemma mult_matrix_eval:
  "mult_matrix cs [] = []"
  "mult_matrix cs (d # ds) = apply_matrix cs d # mult_matrix cs ds"
  by (simp_all add: mult_matrix_def)

lemma power_step_eval:
  "map2 (\<lambda>b v. if b then apply_matrix cs v else v) [] [] = []"
  "map2 (\<lambda>b v. if b then apply_matrix cs v else v) (True # bs) (v # vs)
     = apply_matrix cs v # map2 (\<lambda>b v. if b then apply_matrix cs v else v) bs vs"
  "map2 (\<lambda>b v. if b then apply_matrix cs v else v) (False # bs) (v # vs)
     = v # map2 (\<lambda>b v. if b then apply_matrix cs v else v) bs vs"
  by simp_all

lemmas power_rows_eval =
  power_rows.simps power_step_eval mult_matrix_eval apply_matrix.simps(1,2) apply_matrix_Nil
  xor_bits_eval

text \<open>32 squarings of the matrix, evaluated by the simplifier; this is the slow step (about a minute).\<close>

lemma power_rows_xorshift32:
  "map (\<lambda>v. v = bits_of 1)
     (power_rows (matrix_of xorshift32) exponent_rows
        [bits_of 1, bits_of 1, bits_of 1, bits_of 1, bits_of 1, bits_of 1])
   = [False, False, False, False, False, True]"
  supply power_rows.simps [simp del] apply_matrix.simps [simp del] xor_bits.simps [simp del]
  apply (simp add: matrix_of_unfold xorshift32_def Let_def bits_of_unfold exponent_rows_def upt_32)
  apply (simp only: power_rows_eval zero_bits_unfold)
  apply simp
  done

lemma xorshift32_power_1:
  "(xorshift32 ^^ period32) 1 = 1"
  "q \<in> {3, 5, 17, 257, 65537} \<Longrightarrow> (xorshift32 ^^ (period32 div q)) 1 \<noteq> 1"
proof -
  let ?vs = "[1, 1, 1, 1, 1, 1] :: u32 list"
  let ?rs = "power_rows (matrix_of xorshift32) exponent_rows (map bits_of ?vs)"
  have len: "\<forall>row \<in> set exponent_rows. length row = length ?vs"
    by (simp add: exponent_rows_def)
  have nth: "?rs ! j = bits_of ((xorshift32 ^^ column_value j exponent_rows) 1)" if "j < 6" for j
  proof -
    have "?vs ! j = 1"
      using that by (auto simp: less_Suc_eq numeral_eq_Suc)
    then show ?thesis
      using power_rows_nth [OF xorshift32_linear len, of j] that by simp
  qed
  have vs: "map bits_of ?vs = [bits_of 1, bits_of 1, bits_of 1, bits_of 1, bits_of 1, bits_of 1]"
    by simp
  have eval: "map (\<lambda>v. v = bits_of 1) ?rs = [False, False, False, False, False, True]"
    using power_rows_xorshift32 by (simp only: vs)
  have len_rs: "length ?rs = 6"
    using arg_cong [OF eval, of length] by (simp only: length_map) simp
  have "(?rs ! j = bits_of 1) = [False, False, False, False, False, True] ! j" if "j < 6" for j
    using arg_cong [OF eval, of "\<lambda>xs. xs ! j"] that len_rs by (simp only: nth_map)
  then have fixed: "((xorshift32 ^^ column_value j exponent_rows) 1 = 1)
      = [False, False, False, False, False, True] ! j" if "j < 6" for j
    using that by (metis nth bits_of_inj)
  show "(xorshift32 ^^ period32) 1 = 1"
    using fixed [of 5] exponent_rows_values by simp
  show "(xorshift32 ^^ (period32 div q)) 1 \<noteq> 1" if "q \<in> {3, 5, 17, 257, 65537}"
    using that fixed [of 0] fixed [of 1] fixed [of 2] fixed [of 3] fixed [of 4]
      exponent_rows_values by auto
qed

section \<open>From the period to one cycle\<close>

lemma period32_factors: "period32 = 3 * 5 * 17 * 257 * 65537"
  by (simp add: period32_def)

lemma divisor_trivial:
  fixes q :: nat
  assumes "list_all (\<lambda>m. q mod m \<noteq> 0) [2..<Suc r]" and "0 < q" and "q < Suc r * Suc r"
    and "g dvd q"
  shows "g = 1 \<or> g = q"
proof -
  obtain k where k: "q = g * k" using assms(4) by (elim dvdE)
  have small: "m \<le> 1" if "m dvd q" and "m \<le> r" for m
  proof (rule ccontr)
    assume "\<not> m \<le> 1"
    with that(2) have "m \<in> set [2..<Suc r]" by auto
    with assms(1) have "q mod m \<noteq> 0" unfolding list_all_iff by blast
    with that(1) show False by (simp add: dvd_imp_mod_0)
  qed
  show ?thesis
  proof (cases "g \<le> r")
    case True
    with small [OF assms(4)] k assms(2) show ?thesis by (cases g) auto
  next
    case False
    have "k \<le> r"
    proof (rule ccontr)
      assume "\<not> k \<le> r"
      with False have "Suc r * Suc r \<le> g * k" by (intro mult_le_mono) auto
      with k assms(3) show False by simp
    qed
    moreover have "k dvd q" using k by simp
    ultimately show ?thesis using small [of k] k assms(2) by (cases k) auto
  qed
qed

lemma prime_3: "g dvd (3::nat) \<Longrightarrow> g = 1 \<or> g = 3"
  by (rule divisor_trivial [where r = 1]) (simp_all add: upt_conv_Cons)

lemma prime_5: "g dvd (5::nat) \<Longrightarrow> g = 1 \<or> g = 5"
  by (rule divisor_trivial [where r = 2]) (simp_all add: upt_conv_Cons)

lemma prime_17: "g dvd (17::nat) \<Longrightarrow> g = 1 \<or> g = 17"
  by (rule divisor_trivial [where r = 4]) (simp_all add: upt_conv_Cons)

lemma prime_257: "g dvd (257::nat) \<Longrightarrow> g = 1 \<or> g = 257"
  by (rule divisor_trivial [where r = 16]) (simp_all add: upt_conv_Cons)

lemma prime_65537: "g dvd (65537::nat) \<Longrightarrow> g = 1 \<or> g = 65537"
  by (rule divisor_trivial [where r = 256]) (simp_all add: upt_conv_Cons)

lemma period32_factor_divisors:
  assumes "q \<in> {3, 5, 17, 257, 65537}" and "g dvd q"
  shows "g = 1 \<or> g = (q::nat)"
  using assms by (elim insertE emptyE; simp only:)
    (rule prime_3 prime_5 prime_17 prime_257 prime_65537; assumption)+

lemma coprime_period32:
  assumes "\<forall>q \<in> {3, 5, 17, 257, 65537}. \<not> q dvd e"
  shows "coprime e period32"
proof -
  have "coprime e q" if "q \<in> {3, 5, 17, 257, 65537}" for q
    using period32_factor_divisors [OF that, of "gcd e q"] assms that
    by (metis coprime_iff_gcd_eq_1 gcd_dvd1 gcd_dvd2)
  then show ?thesis
    unfolding period32_factors by (intro coprime_mult_right_iff [THEN iffD2] conjI) simp_all
qed

text \<open>A proper divisor of the period divides it with one of its prime factors left out.\<close>

lemma prime_factor_of_period:
  assumes "d dvd period32" and "d \<noteq> period32"
  shows "\<exists>q \<in> {3, 5, 17, 257, 65537}. d dvd period32 div q"
proof -
  obtain e where e: "period32 = d * e" using assms(1) by (elim dvdE)
  have "\<not> coprime e period32"
    using e assms(2) by (metis coprime_absorb_left dvd_triv_right mult.right_neutral is_unit_mult_iff nat_dvd_1_iff_1)
  then obtain q where q: "q \<in> {3, 5, 17, 257, 65537}" "q dvd e"
    using coprime_period32 by blast
  from q(2) obtain k where "e = q * k" by (elim dvdE)
  moreover have "q \<noteq> 0" using q(1) by auto
  ultimately have "period32 div q = d * k"
    using e by (metis mult.left_commute nonzero_mult_div_cancel_left)
  with q(1) show ?thesis by (metis dvd_triv_left)
qed

lemma xorshift32_orbit_1:
  assumes "0 < n" and "n < period32"
  shows "(xorshift32 ^^ n) 1 \<noteq> 1"
proof
  assume n: "(xorshift32 ^^ n) 1 = 1"
  define d where "d = (LEAST n. 0 < n \<and> (xorshift32 ^^ n) 1 = 1)"
  have d: "0 < d \<and> (xorshift32 ^^ d) 1 = 1"
    unfolding d_def by (rule LeastI [of _ n]) (use n assms(1) in simp)
  have least: "d \<le> m" if "0 < m" and "(xorshift32 ^^ m) 1 = 1" for m
    unfolding d_def by (rule Least_le) (use that in simp)
  have dvd: "d dvd m" if "(xorshift32 ^^ m) 1 = 1" for m
  proof -
    have "(xorshift32 ^^ (m mod d)) 1 = 1"
      using funpow_mod_period [of d xorshift32 1 m] d that by simp
    with least [of "m mod d"] d show ?thesis
      by (metis mod_0_imp_dvd mod_less_divisor neq0_conv not_le)
  qed
  have "d dvd period32" by (rule dvd) (rule xorshift32_power_1)
  moreover have "d \<noteq> period32" using least [OF assms(1) n] assms(2) by simp
  ultimately obtain q where q: "q \<in> {3, 5, 17, 257, 65537}" "d dvd period32 div q"
    using prime_factor_of_period by blast
  from q(2) obtain k where "period32 div q = d * k" by (elim dvdE)
  then have "(xorshift32 ^^ (period32 div q)) 1 = 1"
    using funpow_mult_fixed [of d xorshift32 1 k] d by simp
  with xorshift32_power_1(2) [OF q(1)] show False by simp
qed

lemma xorshift32_orbit_inj: "inj_on (\<lambda>n. (xorshift32 ^^ n) 1) {..<period32}"
proof (rule linorder_inj_onI)
  fix i j :: nat
  assume ij: "i < j" "i \<in> {..<period32}" "j \<in> {..<period32}"
  show "(xorshift32 ^^ i) 1 \<noteq> (xorshift32 ^^ j) 1"
  proof
    assume "(xorshift32 ^^ i) 1 = (xorshift32 ^^ j) 1"
    then have "(xorshift32 ^^ (period32 - j + i)) 1 = (xorshift32 ^^ (period32 - j + j)) 1"
      by (simp only: funpow_add comp_apply)
    also have "\<dots> = 1" using ij(3) xorshift32_power_1(1) by simp
    finally have eq: "(xorshift32 ^^ (period32 - j + i)) 1 = 1" .
    have "0 < period32 - j + i" and "period32 - j + i < period32"
      using ij by auto
    from xorshift32_orbit_1 [OF this] eq show False by (rule notE)
  qed
qed auto

lemma xorshift32_0: "xorshift32 0 = 0"
  by (simp add: xorshift32_def)

lemma xorshift32_orbit_not_0: "(xorshift32 ^^ n) 1 \<noteq> 0"
proof
  assume n: "(xorshift32 ^^ n) 1 = 0"
  have zero: "(xorshift32 ^^ m) 0 = 0" for m
    by (induction m) (simp_all add: xorshift32_0)
  have "(xorshift32 ^^ (n * (period32 - 1) + n)) 1 = 0"
    using n zero by (simp only: funpow_add comp_apply)
  moreover have "n * (period32 - 1) + n = period32 * n"
    by (simp add: period32_def)
  ultimately show False
    using funpow_mult_fixed [OF xorshift32_power_1(1), of n] by simp
qed

lemma xorshift32_orbit_all: "(\<lambda>n. (xorshift32 ^^ n) 1) ` {..<period32} = UNIV - {0}"
proof (rule card_subset_eq)
  show "finite (UNIV - {0 :: u32})" by simp
  show "(\<lambda>n. (xorshift32 ^^ n) 1) ` {..<period32} \<subseteq> UNIV - {0}"
    using xorshift32_orbit_not_0 by auto
  show "card ((\<lambda>n. (xorshift32 ^^ n) 1) ` {..<period32}) = card (UNIV - {0 :: u32})"
    unfolding card_image [OF xorshift32_orbit_inj]
    by (simp add: card_Diff_singleton card_word period32_def)
qed

lemma xorshift32_reaches:
  assumes "a \<noteq> 0" and "b \<noteq> 0"
  shows "\<exists>n. (xorshift32 ^^ n) a = b"
proof -
  obtain i where i: "i < period32" "a = (xorshift32 ^^ i) 1"
    using assms(1) xorshift32_orbit_all by (metis (no_types, lifting) DiffI UNIV_I imageE lessThan_iff singletonD)
  obtain j where j: "j < period32" "b = (xorshift32 ^^ j) 1"
    using assms(2) xorshift32_orbit_all by (metis (no_types, lifting) DiffI UNIV_I imageE lessThan_iff singletonD)
  have "(xorshift32 ^^ (j + period32 - i)) a = (xorshift32 ^^ (j + period32 - i + i)) 1"
    by (simp only: i(2) funpow_add comp_apply)
  also have "j + period32 - i + i = j + period32" using i(1) by simp
  also have "(xorshift32 ^^ (j + period32)) 1 = b"
    by (simp only: j(2) funpow_add comp_apply xorshift32_power_1(1))
  finally show ?thesis by blast
qed

text \<open>
  Between two visits of \<open>hash_magic\<close> the two functions agree; at \<open>hash_magic\<close> the detour through 0
  takes the place of one step.
\<close>

lemma double_hash_eq_xorshift32: "key \<noteq> 0 \<Longrightarrow> key \<noteq> hash_magic \<Longrightarrow> double_hash key = xorshift32 key"
  and double_hash_0: "double_hash 0 = xorshift32 hash_magic"
  and double_hash_magic: "double_hash hash_magic = 0"
  by (simp_all add: double_hash_def hash_magic_def)

lemma double_hash_follows:
  assumes "\<forall>i < n. (xorshift32 ^^ i) a \<noteq> hash_magic \<and> (xorshift32 ^^ i) a \<noteq> 0"
  shows "(double_hash ^^ n) a = (xorshift32 ^^ n) a"
  using assms by (induction n) (simp_all add: double_hash_eq_xorshift32)

lemma xorshift32_power_not_0: "a \<noteq> 0 \<Longrightarrow> (xorshift32 ^^ n) a \<noteq> 0"
proof -
  assume "a \<noteq> 0"
  then obtain i where "a = (xorshift32 ^^ i) 1"
    using xorshift32_reaches [of 1 a] by auto
  then have "(xorshift32 ^^ n) a = (xorshift32 ^^ (n + i)) 1" by (simp only: funpow_add comp_apply)
  then show ?thesis using xorshift32_orbit_not_0 by simp
qed

lemma double_hash_reaches_magic:
  assumes "a \<noteq> 0"
  shows "\<exists>n. (double_hash ^^ n) a = hash_magic"
proof -
  have ex: "\<exists>n. (xorshift32 ^^ n) a = hash_magic"
    by (rule xorshift32_reaches [OF assms]) (simp add: hash_magic_def)
  define n where "n = (LEAST n. (xorshift32 ^^ n) a = hash_magic)"
  have "(xorshift32 ^^ n) a = hash_magic"
    unfolding n_def by (rule LeastI_ex [OF ex])
  moreover have "\<forall>i < n. (xorshift32 ^^ i) a \<noteq> hash_magic"
    unfolding n_def using not_less_Least by blast
  ultimately show ?thesis
    using double_hash_follows [of n a] xorshift32_power_not_0 [OF assms] by auto
qed

lemma double_hash_from_0:
  assumes "b \<noteq> 0"
  shows "\<exists>n. (double_hash ^^ n) 0 = b"
proof -
  let ?P = "\<lambda>n. (xorshift32 ^^ n) (xorshift32 hash_magic) = b"
  have start: "xorshift32 hash_magic \<noteq> 0"
    using xorshift32_power_not_0 [of hash_magic 1] by (simp add: hash_magic_def)
  have ex: "\<exists>n. ?P n" by (rule xorshift32_reaches [OF start assms])
  define n where "n = (LEAST n. ?P n)"
  have n: "?P n" unfolding n_def by (rule LeastI_ex [OF ex])
  have before: "\<not> ?P i" if "i < n" for i
    using that unfolding n_def by (rule not_less_Least)
  have magic: "(xorshift32 ^^ i) (xorshift32 hash_magic) \<noteq> hash_magic" if "i < n" for i
  proof
    assume "(xorshift32 ^^ i) (xorshift32 hash_magic) = hash_magic"
    then have "(xorshift32 ^^ (n - Suc i)) (xorshift32 hash_magic)
        = (xorshift32 ^^ (n - Suc i)) (xorshift32 ((xorshift32 ^^ i) (xorshift32 hash_magic)))"
      by simp
    also have "\<dots> = (xorshift32 ^^ (n - Suc i + Suc i)) (xorshift32 hash_magic)"
      by (simp only: funpow_add comp_apply funpow.simps)
    also have "\<dots> = b" using n that by simp
    finally show False using before [of "n - Suc i"] that by simp
  qed
  have "(double_hash ^^ n) (xorshift32 hash_magic) = b"
    using n magic double_hash_follows [of n] xorshift32_power_not_0 [OF start] by simp
  then have "(double_hash ^^ Suc n) 0 = b"
    by (simp only: funpow_Suc_right comp_apply double_hash_0)
  then show ?thesis by blast
qed

lemma double_hash_single_cycle: "\<exists>n. (double_hash ^^ n) a = b"
proof -
  have to_0: "\<exists>n. (double_hash ^^ n) a = 0"
  proof (cases "a = 0")
    case True
    then show ?thesis by (intro exI [of _ 0]) simp
  next
    case False
    then obtain n where "(double_hash ^^ n) a = hash_magic"
      using double_hash_reaches_magic by blast
    then show ?thesis by (intro exI [of _ "Suc n"]) (simp add: double_hash_magic)
  qed
  then obtain m where m: "(double_hash ^^ m) a = 0" by blast
  have "\<exists>n. (double_hash ^^ n) 0 = b"
    using double_hash_from_0 by (cases "b = 0") (auto intro: exI [of _ 0])
  then obtain n where "(double_hash ^^ n) 0 = b" by blast
  then have "(double_hash ^^ (n + m)) a = b" using m by (simp add: funpow_add)
  then show ?thesis by blast
qed

end
