(* ===== verification/HashTable_Probing.thy ===== *)
theory HashTable_Probing
  imports HashTable ProbeCycle
begin

text \<open>
  The invariant of a hash table, what the two probing loops return and that they return at all,
  and the locale \<open>hash_traits\<close>: what the table relies on in \<open>TraitsForT\<close>, with the correctness of
  lookup and of placing one value.
\<close>

section \<open>Probe sequences\<close>

definition probe :: "'a hash_table \<Rightarrow> u32 \<Rightarrow> nat \<Rightarrow> nat" where
  "probe t h n = probe_index t ((double_hash ^^ n) h)"

definition bst :: "'a hash_table \<Rightarrow> nat \<Rightarrow> bucket_state" where
  "bst t i = bstate (m_buckets t ! i)"

definition val :: "'a hash_table \<Rightarrow> nat \<Rightarrow> 'a" where
  "val t i = slot (m_buckets t ! i)"

lemma is_used_bucket_simps [simp]:
  "is_used_bucket Used" "is_used_bucket Rehashed"
  "\<not> is_used_bucket Free" "\<not> is_used_bucket Deleted" "\<not> is_used_bucket End"
  by (simp_all add: is_used_bucket_def)

lemma is_free_bucket_simps [simp]:
  "is_free_bucket Free" "is_free_bucket Deleted"
  "\<not> is_free_bucket Used" "\<not> is_free_bucket Rehashed" "\<not> is_free_bucket End"
  by (simp_all add: is_free_bucket_def)

lemma probe_0 [simp]: "probe t h 0 = probe_index t h"
  by (simp add: probe_def)

lemma probe_Suc: "probe t h (Suc n) = probe t (double_hash h) n"
  by (simp add: probe_def funpow_swap1)

lemma probe_less: "0 < m_capacity t \<Longrightarrow> probe t h n < m_capacity t"
  by (simp add: probe_def probe_index_def)

text \<open>
  Since \<open>double_hash\<close> is one cycle, the probe sequence of every hash value visits every bucket of a
  table of at most \<open>2 ^ 32\<close> buckets.
\<close>

lemma probe_covers:
  assumes "i < m_capacity t" and "m_capacity t \<le> 2 ^ 32"
  shows "\<exists>n. probe t h n = i"
proof -
  obtain n where n: "(double_hash ^^ n) h = (of_nat i :: u32)"
    using double_hash_single_cycle by blast
  have "unat (of_nat i :: u32) = i"
    using assms by (simp add: unat_of_nat)
  with n assms(1) show ?thesis
    by (intro exI [of _ n]) (simp add: probe_def probe_index_def)
qed

section \<open>The invariant\<close>

definition used_at :: "'a hash_table \<Rightarrow> nat \<Rightarrow> bool" where
  "used_at t i \<longleftrightarrow> i < m_capacity t \<and> bst t i = Used"

definition state_count :: "'a hash_table \<Rightarrow> bucket_state \<Rightarrow> nat" where
  "state_count t st = card {i. i < m_capacity t \<and> bst t i = st}"

definition held :: "'a hash_table \<Rightarrow> 'a set" where
  "held t = val t ` {i. used_at t i}"

definition table_shape :: "'a hash_table \<Rightarrow> bool" where
  "table_shape t \<longleftrightarrow>
     m_capacity t \<le> 2 ^ 32 \<and>
     (if m_capacity t = 0 then m_buckets t = []
      else length (m_buckets t) = Suc (m_capacity t) \<and> bst t (m_capacity t) = End) \<and>
     (\<forall>i < m_capacity t. bst t i \<in> {Free, Used, Deleted})"

text \<open>Every value is reached from its hash before a free bucket.\<close>

definition reached :: "('a \<Rightarrow> u32) \<Rightarrow> 'a hash_table \<Rightarrow> nat \<Rightarrow> bool" where
  "reached hash t i \<longleftrightarrow>
     (\<exists>n. probe t (hash (val t i)) n = i \<and>
          (\<forall>m < n. bst t (probe t (hash (val t i)) m) \<in> {Used, Deleted}))"

definition table_core :: "('a \<Rightarrow> u32) \<Rightarrow> ('a \<Rightarrow> 'a \<Rightarrow> bool) \<Rightarrow> 'a hash_table \<Rightarrow> bool" where
  "table_core hash equals t \<longleftrightarrow>
     table_shape t \<and>
     (\<forall>i. used_at t i \<longrightarrow> reached hash t i) \<and>
     (\<forall>i j. used_at t i \<longrightarrow> used_at t j \<longrightarrow> equals (val t i) (val t j) \<longrightarrow> i = j)"

definition table_ok :: "('a \<Rightarrow> u32) \<Rightarrow> ('a \<Rightarrow> 'a \<Rightarrow> bool) \<Rightarrow> 'a hash_table \<Rightarrow> bool" where
  "table_ok hash equals t \<longleftrightarrow>
     table_core hash equals t \<and>
     m_size t = state_count t Used \<and> m_deleted_count t = state_count t Deleted \<and>
     (m_capacity t = 0 \<or> used_bucket_count t * 100 < m_capacity t * load_factor_in_percent)"

lemma state_count_sum:
  assumes "table_shape t"
  shows "state_count t Free + state_count t Used + state_count t Deleted = m_capacity t"
proof -
  let ?S = "\<lambda>st. {i. i < m_capacity t \<and> bst t i = st}"
  have fin: "finite (?S st)" for st by simp
  have "{..<m_capacity t} = ?S Free \<union> ?S Used \<union> ?S Deleted"
    using assms by (auto simp: table_shape_def)
  moreover have "card (?S Free \<union> ?S Used \<union> ?S Deleted) = card (?S Free) + card (?S Used) + card (?S Deleted)"
    by (subst card_Un_disjoint; auto simp: fin)+
  ultimately have "card {..<m_capacity t} = card (?S Free) + card (?S Used) + card (?S Deleted)"
    by simp
  then show ?thesis by (simp add: state_count_def)
qed

lemma state_count_pos: "0 < state_count t st \<longleftrightarrow> (\<exists>i < m_capacity t. bst t i = st)"
  by (auto simp: state_count_def card_gt_0_iff)

lemma table_ok_core: "table_ok hash equals t \<Longrightarrow> table_core hash equals t"
  by (simp add: table_ok_def)

lemma table_core_shape: "table_core hash equals t \<Longrightarrow> table_shape t"
  by (simp add: table_core_def)

text \<open>The load factor leaves a free bucket, which is what stops the probing loops.\<close>

lemma table_ok_free:
  assumes "table_ok hash equals t" and "0 < m_capacity t"
  shows "0 < state_count t Free"
proof -
  have "used_bucket_count t < m_capacity t"
    using assms by (simp add: table_ok_def load_factor_in_percent_def)
  then show ?thesis
    using assms(1) state_count_sum [of t]
    by (simp add: table_ok_def table_core_def used_bucket_count_def)
qed

section \<open>The probing loops return\<close>

lemma lookup_loop_skip:
  assumes "\<forall>m < n. bst t (probe t h m) \<in> {Used, Deleted} \<and>
                   \<not> (bst t (probe t h m) = Used \<and> P (val t (probe t h m)))"
  shows "lookup_loop t P h = lookup_loop t P ((double_hash ^^ n) h)"
  using assms
proof (induction n arbitrary: h)
  case 0
  then show ?case by simp
next
  case (Suc n)
  have "\<forall>m < n. bst t (probe t (double_hash h) m) \<in> {Used, Deleted} \<and>
          \<not> (bst t (probe t (double_hash h) m) = Used \<and> P (val t (probe t (double_hash h) m)))"
    using Suc.prems by (auto simp flip: probe_Suc)
  then have "lookup_loop t P (double_hash h) = lookup_loop t P ((double_hash ^^ Suc n) h)"
    using Suc.IH by (simp add: funpow_swap1)
  moreover have "lookup_loop t P h = lookup_loop t P (double_hash h)"
    using Suc.prems [rule_format, of 0]
    by (subst lookup_loop.simps) (auto simp: probe_bucket_def bst_def val_def)
  ultimately show ?case by simp
qed

lemma lookup_loop_result:
  assumes "\<exists>n. bst t (probe t h n) = Free" and "\<forall>n. bst t (probe t h n) \<in> {Free, Used, Deleted}"
  obtains (found) n where "lookup_loop t P h = Some (Some (probe t h n))"
      and "bst t (probe t h n) = Used" and "P (val t (probe t h n))"
      and "\<forall>m < n. bst t (probe t h m) \<in> {Used, Deleted}"
    | (not_found) n where "lookup_loop t P h = Some None" and "bst t (probe t h n) = Free"
      and "\<forall>m < n. bst t (probe t h m) \<in> {Used, Deleted} \<and>
                   \<not> (bst t (probe t h m) = Used \<and> P (val t (probe t h m)))"
proof -
  let ?stop = "\<lambda>n. bst t (probe t h n) = Free \<or> (bst t (probe t h n) = Used \<and> P (val t (probe t h n)))"
  have "\<exists>n. ?stop n" using assms(1) by blast
  then obtain n where stop: "?stop n" and least: "\<forall>m < n. \<not> ?stop m"
    using exists_least_iff [of ?stop] by blast
  have before: "\<forall>m < n. bst t (probe t h m) \<in> {Used, Deleted} \<and>
                   \<not> (bst t (probe t h m) = Used \<and> P (val t (probe t h m)))"
    using least assms(2) by auto
  have eq: "lookup_loop t P h = lookup_loop t P ((double_hash ^^ n) h)"
    by (rule lookup_loop_skip [OF before])
  show thesis
  proof (cases "bst t (probe t h n) = Free")
    case True
    then have "lookup_loop t P h = Some None"
      by (subst eq, subst lookup_loop.simps) (simp add: probe_bucket_def probe_def bst_def)
    then show thesis using True before by (rule not_found)
  next
    case False
    with stop have "bst t (probe t h n) = Used" "P (val t (probe t h n))" by auto
    moreover from this have "lookup_loop t P h = Some (Some (probe t h n))"
      by (subst eq, subst lookup_loop.simps) (simp add: probe_bucket_def probe_def bst_def val_def)
    ultimately show thesis using before by (intro found) auto
  qed
qed

text \<open>
  \<open>try_lookup_for_writing\<close> returns the bucket of an equal value, or the first bucket without a value
  on the way to the first free one.
\<close>

definition first_deleted :: "'a hash_table \<Rightarrow> u32 \<Rightarrow> nat \<Rightarrow> nat option" where
  "first_deleted t h n =
     map_option (probe t h) (List.find (\<lambda>m. bst t (probe t h m) = Deleted) [0..<n])"

lemma write_loop_skip:
  assumes "\<forall>m < n. bst t (probe t h m) \<in> {Used, Deleted} \<and>
                   \<not> (bst t (probe t h m) = Used \<and> equals (val t (probe t h m)) v)"
  shows "write_loop equals t v None h =
         write_loop equals t v (first_deleted t h n) ((double_hash ^^ n) h)"
  using assms
proof (induction n)
  case 0
  then show ?case by (simp add: first_deleted_def)
next
  case (Suc n)
  let ?h = "(double_hash ^^ n) h"
  have n: "bst t (probe t h n) \<in> {Used, Deleted}"
    and no: "\<not> (bst t (probe t h n) = Used \<and> equals (val t (probe t h n)) v)"
    using Suc.prems by auto
  have "write_loop equals t v (first_deleted t h n) ?h
      = write_loop equals t v (first_deleted t h (Suc n)) (double_hash ?h)"
  proof (cases "bst t (probe t h n) = Used")
    case True
    then have "first_deleted t h (Suc n) = first_deleted t h n"
      by (simp add: first_deleted_def find_append split: option.splits)
    with True no show ?thesis
      by (subst write_loop.simps) (simp add: probe_bucket_def probe_def bst_def val_def)
  next
    case False
    with n have "bst t (probe t h n) = Deleted" by auto
    moreover from this have "first_deleted t h (Suc n)
        = Some (case first_deleted t h n of None \<Rightarrow> probe t h n | Some j \<Rightarrow> j)"
      by (simp add: first_deleted_def find_append split: option.splits)
    ultimately show ?thesis
      by (subst write_loop.simps)
        (auto simp: probe_bucket_def bst_def simp flip: probe_def split: option.splits)
  qed
  with Suc show ?case by simp
qed

lemma first_deleted_cases:
  assumes "\<forall>m < n. bst t (probe t h m) \<in> {Used, Deleted}"
  shows "case first_deleted t h n of
           None \<Rightarrow> \<forall>m < n. bst t (probe t h m) = Used
         | Some j \<Rightarrow> \<exists>k < n. j = probe t h k \<and> bst t j = Deleted \<and> (\<forall>m < k. bst t (probe t h m) = Used)"
  using assms
proof (induction n)
  case 0
  then show ?case by (simp add: first_deleted_def)
next
  case (Suc n)
  then have IH: "case first_deleted t h n of
           None \<Rightarrow> \<forall>m < n. bst t (probe t h m) = Used
         | Some j \<Rightarrow> \<exists>k < n. j = probe t h k \<and> bst t j = Deleted \<and> (\<forall>m < k. bst t (probe t h m) = Used)"
    and n: "bst t (probe t h n) \<in> {Used, Deleted}"
    by auto
  show ?case
  proof (cases "first_deleted t h n")
    case None
    then have "first_deleted t h (Suc n)
        = (if bst t (probe t h n) = Deleted then Some (probe t h n) else None)"
      by (auto simp: first_deleted_def find_append split: option.splits)
    with None IH n show ?thesis by (auto simp: less_Suc_eq)
  next
    case (Some j)
    then have "first_deleted t h (Suc n) = Some j"
      by (auto simp: first_deleted_def find_append split: option.splits)
    with Some IH show ?thesis by (auto intro: less_SucI)
  qed
qed

lemma write_loop_result:
  assumes "\<exists>n. bst t (probe t h n) = Free" and "\<forall>n. bst t (probe t h n) \<in> {Free, Used, Deleted}"
  obtains (found) n where "write_loop equals t v None h = Some (probe t h n)"
      and "bst t (probe t h n) = Used" and "equals (val t (probe t h n)) v"
    | (vacant) k n where "write_loop equals t v None h = Some (probe t h k)"
      and "bst t (probe t h k) \<in> {Free, Deleted}" and "\<forall>m < k. bst t (probe t h m) = Used"
      and "k \<le> n" and "bst t (probe t h n) = Free"
      and "\<forall>m < n. bst t (probe t h m) \<in> {Used, Deleted} \<and>
                   \<not> (bst t (probe t h m) = Used \<and> equals (val t (probe t h m)) v)"
proof -
  let ?stop = "\<lambda>n. bst t (probe t h n) = Free \<or>
                   (bst t (probe t h n) = Used \<and> equals (val t (probe t h n)) v)"
  have "\<exists>n. ?stop n" using assms(1) by blast
  then obtain n where stop: "?stop n" and least: "\<forall>m < n. \<not> ?stop m"
    using exists_least_iff [of ?stop] by blast
  have before: "\<forall>m < n. bst t (probe t h m) \<in> {Used, Deleted} \<and>
                   \<not> (bst t (probe t h m) = Used \<and> equals (val t (probe t h m)) v)"
    using least assms(2) by auto
  note eq = write_loop_skip [of n t h equals v, OF before]
  show thesis
  proof (cases "bst t (probe t h n) = Free")
    case True
    have res: "write_loop equals t v None h
        = Some (case first_deleted t h n of None \<Rightarrow> probe t h n | Some j \<Rightarrow> j)"
      using True
      by (subst eq, subst write_loop.simps)
        (auto simp: probe_bucket_def probe_def bst_def split: option.splits)
    have fd: "case first_deleted t h n of
           None \<Rightarrow> \<forall>m < n. bst t (probe t h m) = Used
         | Some j \<Rightarrow> \<exists>k < n. j = probe t h k \<and> bst t j = Deleted \<and> (\<forall>m < k. bst t (probe t h m) = Used)"
      by (rule first_deleted_cases) (use before in auto)
    show thesis
    proof (cases "first_deleted t h n")
      case None
      with res True before fd show thesis
        by (intro vacant [of n n]) auto
    next
      case (Some j)
      with fd obtain k where "k < n" "j = probe t h k" "bst t j = Deleted" "\<forall>m < k. bst t (probe t h m) = Used"
        by auto
      with res Some True before show thesis
        by (intro vacant [of k n]) auto
    qed
  next
    case False
    with stop have "bst t (probe t h n) = Used" "equals (val t (probe t h n)) v" by auto
    moreover from this have "write_loop equals t v None h = Some (probe t h n)"
      by (subst eq, subst write_loop.simps) (simp add: probe_bucket_def probe_def bst_def val_def)
    ultimately show thesis by (intro found) auto
  qed
qed

section \<open>Placing one value\<close>

lemma m_capacity_put_bucket [simp]: "m_capacity (put_bucket t i b) = m_capacity t"
  and m_size_put_bucket [simp]: "m_size (put_bucket t i b) = m_size t"
  and m_deleted_put_bucket [simp]: "m_deleted_count (put_bucket t i b) = m_deleted_count t"
  and length_put_bucket [simp]: "length (m_buckets (put_bucket t i b)) = length (m_buckets t)"
  by (simp_all add: put_bucket_def)

lemma bst_put_bucket:
  "i < length (m_buckets t) \<Longrightarrow> bst (put_bucket t i b) j = (if j = i then bstate b else bst t j)"
  by (simp add: bst_def put_bucket_def nth_list_update)

lemma val_put_bucket:
  "i < length (m_buckets t) \<Longrightarrow> val (put_bucket t i b) j = (if j = i then slot b else val t j)"
  by (simp add: val_def put_bucket_def nth_list_update)

lemma slot_simps [simp]: "slot \<lparr>bstate = st, storage = Some v\<rparr> = v"
  by (simp add: slot_def)

lemma probe_same_capacity: "m_capacity t' = m_capacity t \<Longrightarrow> probe t' h n = probe t h n"
  by (simp add: probe_def probe_index_def)

lemma table_shape_length: "table_shape t \<Longrightarrow> i < m_capacity t \<Longrightarrow> i < length (m_buckets t)"
  by (auto simp: table_shape_def split: if_splits)

lemma table_shape_probes:
  "table_shape t \<Longrightarrow> 0 < m_capacity t \<Longrightarrow> bst t (probe t h n) \<in> {Free, Used, Deleted}"
  by (simp add: table_shape_def probe_less)

lemma table_shape_put:
  assumes "table_shape t" and "i < m_capacity t" and "bstate b \<in> {Free, Used, Deleted}"
  shows "table_shape (put_bucket t i b)"
  using assms table_shape_length [OF assms(1,2)]
  by (auto simp: table_shape_def bst_put_bucket)

lemma state_count_put_same:
  assumes "i < length (m_buckets t)" and "bst t i = bstate b"
  shows "state_count (put_bucket t i b) st = state_count t st"
proof -
  have "bst (put_bucket t i b) j = bst t j" for j
    using assms by (simp add: bst_put_bucket)
  then show ?thesis by (simp add: state_count_def)
qed

lemma state_count_put:
  assumes "i < length (m_buckets t)" and "i < m_capacity t" and "bst t i \<noteq> bstate b"
  shows "state_count (put_bucket t i b) st =
     (if st = bstate b then Suc (state_count t st)
      else if st = bst t i then state_count t st - 1 else state_count t st)"
proof -
  let ?S = "{j. j < m_capacity t \<and> bst t j = st}"
  have eq: "{j. j < m_capacity t \<and> bst (put_bucket t i b) j = st}
      = (if st = bstate b then insert i ?S else ?S - {i})"
    using assms by (auto simp: bst_put_bucket)
  have "finite ?S" by simp
  then show ?thesis
    using assms by (auto simp: state_count_def eq card_insert_if card_Diff_singleton_if)
qed

text \<open>
  The effect of writing \<open>v\<close> into a vacant bucket on the way of its own hash: reachability of the
  other values is kept because a bucket only turns from vacant to used.
\<close>

lemma reached_put_used:
  assumes "reached hash t j" and "j \<noteq> i" and "i < length (m_buckets t)"
  shows "reached hash (put_bucket t i \<lparr>bstate = Used, storage = Some v\<rparr>) j"
  using assms unfolding reached_def
  by (simp add: val_put_bucket bst_put_bucket probe_same_capacity [of "put_bucket t i _" t]) metis

locale hash_traits =
  fixes hash :: "'a \<Rightarrow> u32"
    and equals :: "'a \<Rightarrow> 'a \<Rightarrow> bool"
  assumes equals_refl: "equals x x"
    and equals_sym: "equals x y \<Longrightarrow> equals y x"
    and equals_trans: "equals x y \<Longrightarrow> equals y z \<Longrightarrow> equals x z"
    and equals_hash: "equals x y \<Longrightarrow> hash x = hash y"
begin

abbreviation core :: "'a hash_table \<Rightarrow> bool" where
  "core t \<equiv> table_core hash equals t"

abbreviation ok :: "'a hash_table \<Rightarrow> bool" where
  "ok t \<equiv> table_ok hash equals t"

lemma free_on_probe:
  assumes "core t" and "0 < state_count t Free"
  shows "\<exists>n. bst t (probe t h n) = Free"
    and "\<forall>n. bst t (probe t h n) \<in> {Free, Used, Deleted}"
proof -
  obtain f where f: "f < m_capacity t" "bst t f = Free"
    using assms(2) by (auto simp: state_count_pos)
  then show "\<exists>n. bst t (probe t h n) = Free"
    using probe_covers [of f t h] assms(1) by (metis table_core_def table_shape_def)
  show "\<forall>n. bst t (probe t h n) \<in> {Free, Used, Deleted}"
    using table_shape_probes [of t h] f(1) assms(1) by (auto simp: table_core_def)
qed

text \<open>No value equal to \<open>v\<close> is stored when the probe sequence of \<open>v\<close> meets none before a free bucket.\<close>

lemma absent_before_free:
  assumes "core t" and "bst t (probe t (hash v) n) = Free"
    and "\<forall>m < n. \<not> (bst t (probe t (hash v) m) = Used \<and> equals v (val t (probe t (hash v) m)))"
  shows "\<forall>x \<in> held t. \<not> equals v x"
proof
  fix x
  assume "x \<in> held t"
  then obtain j where j: "used_at t j" "x = val t j" by (auto simp: held_def)
  show "\<not> equals v x"
  proof
    assume eq: "equals v x"
    obtain n' where n': "probe t (hash v) n' = j"
        "\<forall>m < n'. bst t (probe t (hash v) m) \<in> {Used, Deleted}"
      using assms(1) equals_hash [OF eq] j by (auto simp: table_core_def reached_def)
    show False
    proof (cases "n' < n")
      case True
      then show False using assms(3) n'(1) j eq by (auto simp: used_at_def)
    next
      case False
      then have "bst t (probe t (hash v) n) \<in> {Used, Deleted}"
        using n' j by (cases "n = n'") (auto simp: used_at_def)
      then show False using assms(2) by simp
    qed
  qed
qed

lemma ok_empty: "ok t \<Longrightarrow> m_size t = 0 \<Longrightarrow> held t = {}"
  by (auto simp: table_ok_def held_def used_at_def state_count_def)

lemma find_value_result:
  assumes "ok t"
  obtains (found) i where "find_value hash equals t v = Some (Some i)" "used_at t i" "equals v (val t i)"
    | (absent) "find_value hash equals t v = Some None" "\<forall>x \<in> held t. \<not> equals v x"
proof (cases "m_size t = 0")
  case True
  with ok_empty [OF assms] show thesis
    by (intro absent) (simp_all add: find_value_def lookup_with_hash_def is_empty_def)
next
  case False
  then have "0 < state_count t Used" using assms by (simp add: table_ok_def)
  then have cap: "0 < m_capacity t" by (auto simp: state_count_pos)
  have core: "core t" and free: "0 < state_count t Free"
    using assms table_ok_core table_ok_free cap by blast+
  have find: "find_value hash equals t v = lookup_loop t (\<lambda>other. equals v other) (hash v)"
    using False by (simp add: find_value_def lookup_with_hash_def is_empty_def)
  from free_on_probe [OF core free, of "hash v"] show thesis
  proof (cases rule: lookup_loop_result [where P = "equals v"])
    case (found n)
    then show thesis
      using find probe_less [OF cap] by (intro that(1)) (auto simp: used_at_def)
  next
    case (not_found n)
    then have "\<forall>x \<in> held t. \<not> equals v x"
      by (intro absent_before_free [OF core, of v n]) auto
    with find not_found(1) show thesis by (intro absent) simp_all
  qed
qed

lemma contains_correct:
  assumes "ok t"
  shows "contains hash equals t v = Some (\<exists>x \<in> held t. equals v x)"
  using assms by (cases rule: find_value_result [of t v]) (auto simp: contains_def held_def)

lemma write_loop_ok:
  assumes "core t" and "0 < state_count t Free"
  obtains (found) i where "write_loop equals t v None (hash v) = Some i" "used_at t i" "equals (val t i) v"
    | (vacant) i k where "write_loop equals t v None (hash v) = Some i" "i < m_capacity t"
      "bst t i \<in> {Free, Deleted}" "probe t (hash v) k = i" "\<forall>m < k. bst t (probe t (hash v) m) = Used"
      "\<forall>x \<in> held t. \<not> equals v x"
proof -
  have cap: "0 < m_capacity t" using assms(2) by (auto simp: state_count_pos)
  from free_on_probe [OF assms, of "hash v"] show thesis
  proof (cases rule: write_loop_result [where equals = equals and v = v])
    case (found n)
    then show thesis using probe_less [OF cap] by (intro that(1)) (auto simp: used_at_def)
  next
    case (vacant k n)
    have "\<forall>x \<in> held t. \<not> equals v x"
      using vacant by (intro absent_before_free [OF assms(1), of v n]) (auto dest: equals_sym)
    with vacant probe_less [OF cap] show thesis by (intro that(2)) auto
  qed
qed

text \<open>Placing a value nothing stored is equal to, in the vacant bucket that the probe returned.\<close>

lemma place_core:
  assumes "core t" and "i < m_capacity t" and "bst t i \<in> {Free, Deleted}"
    and "probe t (hash v) k = i" and "\<forall>m < k. bst t (probe t (hash v) m) = Used"
    and "\<forall>x \<in> held t. \<not> equals v x"
  shows "core (place t i v)" and "held (place t i v) = insert v (held t)"
proof -
  let ?t = "place t i v"
  have shape: "table_shape t" using assms(1) by (simp add: table_core_def)
  note len = table_shape_length [OF shape assms(2)]
  have bst': "bst ?t j = (if j = i then Used else bst t j)"
    and val': "val ?t j = (if j = i then v else val t j)" for j
    by (simp_all add: place_def bst_put_bucket [OF len] val_put_bucket [OF len])
  have cap: "m_capacity ?t = m_capacity t" by (simp add: place_def)
  have same: "probe ?t h n = probe t h n" for h n by (rule probe_same_capacity [OF cap])
  have used: "used_at ?t j \<longleftrightarrow> j = i \<or> used_at t j" for j
    using assms(2) by (auto simp: used_at_def bst' cap)
  have not_used: "\<not> used_at t i" using assms(3) by (auto simp: used_at_def)
  have old: "\<not> equals v (val t j)" if "used_at t j" for j
    using assms(6) that by (auto simp: held_def)
  have reached: "reached hash ?t j" if "used_at ?t j" for j
  proof (cases "j = i")
    case True
    then show ?thesis
      unfolding reached_def using assms(4,5) by (intro exI [of _ k]) (auto simp: same bst' val')
  next
    case False
    with that have "reached hash t j" using assms(1) by (auto simp: used table_core_def)
    then show ?thesis using reached_put_used [OF _ False len] by (simp add: place_def)
  qed
  have distinct: "a = b" if ab: "used_at ?t a" "used_at ?t b" "equals (val ?t a) (val ?t b)" for a b
  proof (cases "a = i \<or> b = i")
    case True
    then show ?thesis using ab old equals_sym by (auto simp: used val' split: if_splits)
  next
    case False
    then have "used_at t a" "used_at t b" "equals (val t a) (val t b)"
      using ab by (simp_all add: used val')
    then show ?thesis using assms(1) by (simp add: table_core_def)
  qed
  show "core ?t"
    using reached distinct table_shape_put [OF shape assms(2)]
    unfolding table_core_def by (simp add: place_def)
  show "held ?t = insert v (held t)"
  proof (rule set_eqI)
    fix x
    have "x \<in> held ?t \<longleftrightarrow> (\<exists>j. (j = i \<or> used_at t j) \<and> x = (if j = i then v else val t j))"
      by (auto simp: held_def used val')
    also have "\<dots> \<longleftrightarrow> x = v \<or> (\<exists>j. used_at t j \<and> x = val t j)"
      using not_used by metis
    also have "\<dots> \<longleftrightarrow> x \<in> insert v (held t)" by (auto simp: held_def)
    finally show "x \<in> held ?t \<longleftrightarrow> x \<in> insert v (held t)" .
  qed
qed

end

end
