(* ===== verification/HashTable_Correct.thy ===== *)
theory HashTable_Correct
  imports HashTable_Probing "HOL-Library.Multiset"
begin

text \<open>
  The hash table as a multiset of values, \<open>contents\<close>: what insertion, growth, removal and the two
  ways of rehashing do to it, and that each of them returns with a table that satisfies the
  invariant again.
\<close>

section \<open>The values a table holds\<close>

definition live :: "'a hash_table \<Rightarrow> nat set" where
  "live t = {i. i < m_capacity t \<and> is_used_bucket (bst t i)}"

definition contents :: "'a hash_table \<Rightarrow> 'a multiset" where
  "contents t = image_mset (val t) (mset_set (live t))"

lemma finite_live [simp]: "finite (live t)"
  by (simp add: live_def)

lemma contents_split:
  assumes "i < m_capacity t"
  shows "contents t = image_mset (val t) (mset_set (live t - {i}))
                      + (if is_used_bucket (bst t i) then {#val t i#} else {#})"
proof (cases "is_used_bucket (bst t i)")
  case True
  with assms have "i \<in> live t" by (simp add: live_def)
  then have "mset_set (live t) = add_mset i (mset_set (live t - {i}))"
    by (simp add: mset_set.remove)
  with True show ?thesis by (simp add: contents_def)
next
  case False
  then have "live t - {i} = live t" by (auto simp: live_def)
  with False show ?thesis by (simp add: contents_def)
qed

lemma contents_put:
  assumes "i < m_capacity t" and "i < length (m_buckets t)"
  shows "contents (put_bucket t i b) + (if is_used_bucket (bst t i) then {#val t i#} else {#})
       = contents t + (if is_used_bucket (bstate b) then {#slot b#} else {#})"
proof -
  let ?t = "put_bucket t i b"
  have "live ?t - {i} = live t - {i}"
    using assms by (auto simp: live_def bst_put_bucket)
  moreover have "image_mset (val ?t) (mset_set (live t - {i})) = image_mset (val t) (mset_set (live t - {i}))"
    using assms by (intro image_mset_cong) (auto simp: val_put_bucket)
  ultimately show ?thesis
    using contents_split [of i t] contents_split [of i ?t] assms
    by (simp add: bst_put_bucket val_put_bucket)
qed

lemma live_used_at: "table_shape t \<Longrightarrow> live t = {i. used_at t i}"
  by (auto simp: live_def used_at_def table_shape_def)

lemma set_contents: "table_shape t \<Longrightarrow> set_mset (contents t) = held t"
  by (simp add: contents_def held_def live_used_at flip: live_used_at)

lemma size_contents:
  assumes "table_shape t"
  shows "size (contents t) = state_count t Used"
proof -
  have "size (contents t) = card (live t)" by (simp add: contents_def)
  also have "live t = {i. i < m_capacity t \<and> bst t i = Used}"
    using live_used_at [OF assms] by (simp add: used_at_def)
  finally show ?thesis by (simp add: state_count_def)
qed

section \<open>Iteration visits every value once\<close>

lemma skip_to_next_filter:
  assumes "table_shape t" and "i < m_capacity t"
  shows "skip_to_next (m_buckets t) i
       = (case filter (\<lambda>j. bst t j = Used) [Suc i..<m_capacity t] of [] \<Rightarrow> None | j # _ \<Rightarrow> Some j)"
  using assms(2)
proof (induction "m_capacity t - i" arbitrary: i)
  case 0
  then show ?case by simp
next
  case (Suc d)
  have len: "length (m_buckets t) = Suc (m_capacity t)" "bst t (m_capacity t) = End"
    using assms(1) Suc.prems by (auto simp: table_shape_def split: if_splits)
  show ?case
  proof (cases "Suc i < m_capacity t")
    case True
    then have "bst t (Suc i) \<noteq> End" using assms(1) by (auto simp: table_shape_def)
    moreover have "skip_to_next (m_buckets t) (Suc i)
        = (case filter (\<lambda>j. bst t j = Used) [Suc (Suc i)..<m_capacity t] of [] \<Rightarrow> None | j # _ \<Rightarrow> Some j)"
      using Suc True by (intro Suc.hyps) auto
    ultimately show ?thesis
      using True len by (subst skip_to_next.simps) (simp add: bst_def upt_conv_Cons)
  next
    case False
    then have "Suc i = m_capacity t" using Suc.prems by simp
    then show ?thesis
      using len by (subst skip_to_next.simps) (simp add: bst_def)
  qed
qed

lemma iterate_from_filter:
  assumes "table_shape t"
  shows "iterate_from (m_buckets t)
           (case filter (\<lambda>j. bst t j = Used) [k..<m_capacity t] of [] \<Rightarrow> None | j # _ \<Rightarrow> Some j)
       = map (val t) (filter (\<lambda>j. bst t j = Used) [k..<m_capacity t])"
proof (induction "m_capacity t - k" arbitrary: k)
  case 0
  then show ?case by simp
next
  case (Suc d)
  then have k: "k < m_capacity t" by simp
  have IH: "iterate_from (m_buckets t)
           (case filter (\<lambda>j. bst t j = Used) [Suc k..<m_capacity t] of [] \<Rightarrow> None | j # _ \<Rightarrow> Some j)
       = map (val t) (filter (\<lambda>j. bst t j = Used) [Suc k..<m_capacity t])"
    using Suc by (intro Suc.hyps) auto
  show ?case
    using k IH table_shape_length [OF assms k] skip_to_next_filter [OF assms k]
    by (cases "bst t k = Used") (simp_all add: upt_conv_Cons val_def)
qed

lemma find_filter: "List.find P xs = (case filter P xs of [] \<Rightarrow> None | x # _ \<Rightarrow> Some x)"
  by (induction xs) auto

lemma elements_eq:
  assumes "table_shape t"
  shows "elements t = map (val t) (filter (\<lambda>j. bst t j = Used) [0..<m_capacity t])"
proof -
  have "filter (\<lambda>i. is_used_bucket (bstate (m_buckets t ! i))) [0..<m_capacity t]
      = filter (\<lambda>j. bst t j = Used) [0..<m_capacity t]"
    using assms by (intro filter_cong) (auto simp: table_shape_def bst_def)
  then show ?thesis
    using iterate_from_filter [OF assms, of 0] by (simp add: elements_def begin_index_def find_filter)
qed

lemma mset_elements:
  assumes "table_shape t"
  shows "mset (elements t) = contents t"
proof -
  have "live t = set (filter (\<lambda>j. bst t j = Used) [0..<m_capacity t])"
    using live_used_at [OF assms] by (auto simp: used_at_def)
  then have "mset_set (live t) = mset (filter (\<lambda>j. bst t j = Used) [0..<m_capacity t])"
    by (simp add: mset_set_set)
  then show ?thesis by (simp add: elements_eq [OF assms] contents_def)
qed

lemma elements_distinct:
  assumes "table_core hash equals t"
  shows "sorted_wrt (\<lambda>x y. \<not> equals x y) (elements t)"
proof -
  note shape = table_core_shape [OF assms]
  let ?js = "filter (\<lambda>j. bst t j = Used) [0..<m_capacity t]"
  have "sorted_wrt (<) ?js" by (simp add: sorted_wrt_filter)
  moreover have "\<not> equals (val t i) (val t j)" if "i \<in> set ?js" "j \<in> set ?js" "i < j" for i j
  proof -
    have "equals (val t i) (val t j) \<longrightarrow> i = j"
      using that(1,2) assms by (simp add: table_core_def used_at_def)
    with that(3) show ?thesis by auto
  qed
  ultimately have "sorted_wrt (\<lambda>i j. \<not> equals (val t i) (val t j)) ?js"
    by (rule sorted_wrt_mono_rel [rotated])
  then show ?thesis by (simp add: elements_eq [OF shape] sorted_wrt_map)
qed

section \<open>Insertion into new buckets\<close>

lemma with_new_buckets_simps [simp]:
  "m_capacity (with_new_buckets t n) = n" "m_size (with_new_buckets t n) = m_size t"
  "m_deleted_count (with_new_buckets t n) = 0"
  by (simp_all add: with_new_buckets_def)

lemma bst_with_new_buckets: "bst (with_new_buckets t n) i = Free" if "i < n"
  using that by (simp add: bst_def with_new_buckets_def nth_append free_bucket_def)

lemma live_with_new_buckets: "live (with_new_buckets t n) = {}"
  by (auto simp: live_def bst_with_new_buckets)

lemma core_with_new_buckets:
  assumes "0 < n" and "n \<le> 2 ^ 32"
  shows "table_core hash equals (with_new_buckets t n)"
proof -
  have "bst (with_new_buckets t n) n = End"
    by (simp add: bst_def with_new_buckets_def nth_append end_bucket_def)
  moreover have "length (m_buckets (with_new_buckets t n)) = Suc n"
    by (simp add: with_new_buckets_def)
  ultimately show ?thesis
    using assms by (auto simp: table_core_def table_shape_def used_at_def bst_with_new_buckets)
qed

lemma contents_with_new_buckets [simp]: "contents (with_new_buckets t n) = {#}"
  by (simp add: contents_def live_with_new_buckets)

lemma state_count_with_new_buckets:
  "state_count (with_new_buckets t n) Used = 0" "state_count (with_new_buckets t n) Deleted = 0"
  by (auto simp: state_count_def bst_with_new_buckets)

lemma place_simps [simp]:
  "m_capacity (place t i v) = m_capacity t" "m_size (place t i v) = m_size t"
  "m_deleted_count (place t i v) = m_deleted_count t"
  by (simp_all add: place_def)

lemma contents_place:
  assumes "i < m_capacity t" and "i < length (m_buckets t)" and "\<not> is_used_bucket (bst t i)"
  shows "contents (place t i v) = add_mset v (contents t)"
  using contents_put [OF assms(1,2), of "\<lparr>bstate = Used, storage = Some v\<rparr>"] assms(3)
  by (simp add: place_def)

lemma state_count_place:
  assumes "table_shape t" and "i < m_capacity t" and "bst t i \<in> {Free, Deleted}"
  shows "state_count (place t i v) Used = Suc (state_count t Used)"
    and "state_count (place t i v) Deleted
       = (if bst t i = Deleted then state_count t Deleted - 1 else state_count t Deleted)"
  using state_count_put [OF table_shape_length [OF assms(1,2)] assms(2),
      of "\<lparr>bstate = Used, storage = Some v\<rparr>"] assms(3)
  by (auto simp: place_def)

definition sizes_agree :: "'a hash_table \<Rightarrow> bool" where
  "sizes_agree t \<longleftrightarrow> m_size t = state_count t Used \<and> m_deleted_count t = state_count t Deleted"

lemma table_ok_eq:
  "table_ok hash equals t \<longleftrightarrow> table_core hash equals t \<and> sizes_agree t \<and>
     (m_capacity t = 0 \<or> used_bucket_count t * 100 < m_capacity t * load_factor_in_percent)"
  by (simp add: table_ok_def sizes_agree_def)

text \<open>A table being refilled: fewer values than \<open>m_size\<close>, no deleted buckets, no growth due.\<close>

definition filling :: "('a \<Rightarrow> u32) \<Rightarrow> ('a \<Rightarrow> 'a \<Rightarrow> bool) \<Rightarrow> 'a hash_table \<Rightarrow> nat \<Rightarrow> bool" where
  "filling hash equals t missing \<longleftrightarrow>
     table_core hash equals t \<and> state_count t Deleted = 0 \<and> m_deleted_count t = 0 \<and>
     m_size t = state_count t Used + missing"

lemma filling_free:
  assumes "filling hash equals t n" and "\<not> should_grow t"
  shows "0 < state_count t Free"
proof -
  have "used_bucket_count t < m_capacity t"
    using assms(2) by (simp add: should_grow_def load_factor_in_percent_def)
  then show ?thesis
    using assms(1) state_count_sum [OF table_core_shape, of hash equals t]
    by (simp add: filling_def used_bucket_count_def)
qed

context hash_traits
begin

lemma insert_all_no_growth:
  assumes "filling hash equals t (length vs)" and "\<not> should_grow t"
    and "sorted_wrt (\<lambda>x y. \<not> equals x y) vs" and "\<forall>x \<in> set vs. \<forall>y \<in> held t. \<not> equals x y"
  shows "\<exists>t'. insert_all env hash equals vs t = Some (Inr t') \<and> filling hash equals t' 0 \<and>
              contents t' = contents t + mset vs \<and> m_capacity t' = m_capacity t \<and> m_size t' = m_size t"
  using assms
proof (induction vs arbitrary: t)
  case Nil
  then show ?case by (subst insert_all.simps) simp
next
  case (Cons v vs)
  have core: "core t" using Cons.prems(1) by (simp add: filling_def)
  note shape = table_core_shape [OF core]
  from core filling_free [OF Cons.prems(1,2)] show ?case
  proof (cases rule: write_loop_ok [of t v])
    case (found i)
    then have "val t i \<in> held t" by (auto simp: held_def)
    with Cons.prems(4) found(3) equals_sym show ?thesis by auto
  next
    case (vacant i k)
    let ?t = "place t i v"
    have i: "i < length (m_buckets t)" "\<not> is_used_bucket (bst t i)" "bst t i = Free"
      using table_shape_length [OF shape vacant(2)] vacant(2,3) Cons.prems(1)
        state_count_pos [of t Deleted]
      by (auto simp: filling_def)
    have "core ?t" "held ?t = insert v (held t)"
      using place_core [OF core vacant(2-6)] by simp_all
    moreover have "filling hash equals ?t (length vs)"
      using \<open>core ?t\<close> Cons.prems(1) state_count_place [OF shape vacant(2,3)] i
      by (simp add: filling_def)
    moreover have "\<not> should_grow ?t"
      using Cons.prems(2) by (simp add: should_grow_def used_bucket_count_def)
    moreover have "\<forall>x \<in> set vs. \<not> equals x v"
      using Cons.prems(3) equals_sym by auto
    ultimately obtain t' where t': "insert_all env hash equals vs ?t = Some (Inr t')"
        "filling hash equals t' 0" "contents t' = contents ?t + mset vs"
        "m_capacity t' = m_capacity ?t" "m_size t' = m_size ?t"
      using Cons.IH [of ?t] Cons.prems(3,4) by auto
    have "insert_all env hash equals (v # vs) t = Some (Inr t')"
      using Cons.prems(2) vacant(1) t'(1) by (subst insert_all.simps) simp
    with t' show ?thesis by (simp add: contents_place [OF vacant(2) i(1,2)])
  qed
qed

lemma refill:
  assumes "core t" and "m_size t = state_count t Used" and "4 \<le> n" and "n \<le> 2 ^ 32"
    and "(m_size t + 1) * 100 < n * 60"
  shows "\<exists>t'. insert_all env hash equals (elements t) (with_new_buckets t n) = Some (Inr t') \<and>
              filling hash equals t' 0 \<and> contents t' = contents t \<and> m_capacity t' = n \<and> m_size t' = m_size t"
proof -
  note shape = table_core_shape [OF assms(1)]
  let ?t = "with_new_buckets t n"
  have "length (elements t) = state_count t Used"
    using mset_elements [OF shape] size_contents [OF shape] by (metis size_mset)
  then have "filling hash equals ?t (length (elements t))"
    using assms by (simp add: filling_def core_with_new_buckets state_count_with_new_buckets)
  moreover have "\<not> should_grow ?t"
    using assms(5) by (simp add: should_grow_def used_bucket_count_def load_factor_in_percent_def)
  moreover have "held ?t = {}"
    by (auto simp: held_def used_at_def bst_with_new_buckets)
  ultimately obtain t' where "insert_all env hash equals (elements t) ?t = Some (Inr t') \<and>
      filling hash equals t' 0 \<and> contents t' = contents ?t + mset (elements t) \<and>
      m_capacity t' = m_capacity ?t \<and> m_size t' = m_size ?t"
    using insert_all_no_growth [of ?t "elements t" env] elements_distinct [OF assms(1)] by auto
  then show ?thesis by (auto simp: mset_elements [OF shape])
qed

end

end
