(* ===== verification/HashTable_InPlace.thy ===== *)
theory HashTable_InPlace
  imports HashTable_Correct
begin

text \<open>
  \<open>rehash_in_place\<close>: the loop that moves values between buckets ends, keeps every value, and leaves
  a table without deleted buckets in which every value is reached from its hash.
\<close>

section \<open>The invariant while rehashing\<close>

text \<open>A value that has been moved lies on its probe sequence behind moved values only.\<close>

definition in_place :: "('a \<Rightarrow> u32) \<Rightarrow> 'a hash_table \<Rightarrow> 'a \<Rightarrow> nat \<Rightarrow> bool" where
  "in_place hash t v i \<longleftrightarrow>
     (\<exists>n. probe t (hash v) n = i \<and> (\<forall>m < n. bst t (probe t (hash v) m) = Rehashed))"

definition rehashing :: "('a \<Rightarrow> u32) \<Rightarrow> 'a hash_table \<Rightarrow> bool" where
  "rehashing hash t \<longleftrightarrow>
     0 < m_capacity t \<and> m_capacity t \<le> 2 ^ 32 \<and> length (m_buckets t) = Suc (m_capacity t) \<and>
     bst t (m_capacity t) = End \<and> (\<forall>i < m_capacity t. bst t i \<noteq> End) \<and>
     (\<forall>i < m_capacity t. bst t i = Rehashed \<longrightarrow> in_place hash t (val t i) i)"

text \<open>What one move leaves alone: \<open>t'\<close> comes from \<open>t\<close> by work on bucket \<open>i\<close>.\<close>

definition moved :: "'a hash_table \<Rightarrow> nat \<Rightarrow> 'a hash_table \<Rightarrow> bool" where
  "moved t i t' \<longleftrightarrow>
     m_capacity t' = m_capacity t \<and> m_size t' = m_size t \<and> contents t' = contents t \<and>
     (\<forall>k. k \<noteq> i \<longrightarrow> bst t' k = bst t k \<or> bst t' k = Rehashed)"

lemma moved_refl: "moved t i t"
  by (simp add: moved_def)

lemma moved_trans: "moved t i t' \<Longrightarrow> moved t' i t'' \<Longrightarrow> moved t i t''"
  unfolding moved_def by metis

lemma rehashing_put:
  assumes "rehashing hash t" and "i < m_capacity t" and "bst t i \<noteq> Rehashed" and "bstate b \<noteq> End"
    and "bstate b = Rehashed \<Longrightarrow> in_place hash t (slot b) i"
  shows "rehashing hash (put_bucket t i b)"
proof -
  let ?t = "put_bucket t i b"
  have len: "i < length (m_buckets t)" using assms(1,2) by (simp add: rehashing_def)
  have keep: "in_place hash ?t v k" if kept: "in_place hash t v k" for v k
  proof -
    obtain n where "probe t (hash v) n = k" "\<forall>m < n. bst t (probe t (hash v) m) = Rehashed"
      using kept by (auto simp: in_place_def)
    moreover from this have "\<forall>m < n. bst ?t (probe t (hash v) m) = Rehashed"
      using assms(3) by (auto simp: bst_put_bucket [OF len])
    ultimately show ?thesis
      unfolding in_place_def by (intro exI [of _ n]) (simp add: probe_same_capacity [of ?t t])
  qed
  have "in_place hash ?t (val ?t k) k" if "k < m_capacity t" "bst ?t k = Rehashed" for k
    using that assms keep
    by (auto simp: bst_put_bucket [OF len] val_put_bucket [OF len] rehashing_def split: if_splits)
  then show ?thesis
    using assms by (auto simp: rehashing_def bst_put_bucket [OF len])
qed

lemma moved_put_rehashed:
  assumes "rehashing hash t" and "i < m_capacity t" and "bst t i = Used"
  shows "moved t i (set_bstate t i Rehashed)" and "bst (set_bstate t i Rehashed) i = Rehashed"
proof -
  have len: "i < length (m_buckets t)" using assms(1,2) by (simp add: rehashing_def)
  show "bst (set_bstate t i Rehashed) i = Rehashed"
    by (simp add: set_bstate_def bst_put_bucket [OF len])
  show "moved t i (set_bstate t i Rehashed)"
    using contents_put [OF assms(2) len, of "(m_buckets t ! i)\<lparr>bstate := Rehashed\<rparr>"] assms(3)
    by (simp add: moved_def set_bstate_def bst_put_bucket [OF len] slot_def val_def)
qed

lemma rehashing_set_rehashed:
  assumes "rehashing hash t" and "i < m_capacity t" and "bst t i = Used" and "in_place hash t (val t i) i"
  shows "rehashing hash (set_bstate t i Rehashed)"
  unfolding set_bstate_def
  using assms by (intro rehashing_put) (simp_all add: slot_def val_def)

text \<open>Moving the value of bucket \<open>i\<close> into bucket \<open>j\<close> and the value of \<open>j\<close>, if any, back into \<open>i\<close>.\<close>

lemma moved_swap:
  assumes inv: "rehashing hash t" and i: "i < m_capacity t" "bst t i = Used"
    and j: "j < m_capacity t" "j \<noteq> i" "bst t j \<noteq> Rehashed" "in_place hash t (val t i) j"
    and b: "bstate b = Used \<and> bst t j = Used \<and> slot b = val t j
            \<or> bstate b = Free \<and> \<not> is_used_bucket (bst t j)"
  defines "t' \<equiv> put_bucket (put_bucket t j \<lparr>bstate = Rehashed, storage = storage (m_buckets t ! i)\<rparr>) i b"
  shows "rehashing hash t'" and "moved t i t'" and "bst t' i = bstate b" and "val t' i = slot b"
    and "state_count t' Used < state_count t Used"
proof -
  let ?b = "\<lparr>bstate = Rehashed, storage = storage (m_buckets t ! i)\<rparr>"
  let ?t = "put_bucket t j ?b"
  have len: "i < length (m_buckets t)" "j < length (m_buckets t)" "i < length (m_buckets ?t)"
    using inv i(1) j(1) by (simp_all add: rehashing_def)
  have slot: "slot ?b = val t i" by (simp add: slot_def val_def)
  have inv': "rehashing hash ?t"
    using j by (intro rehashing_put [OF inv]) (simp_all add: slot)
  have i': "bst ?t i = Used" "val ?t i = val t i"
    using i(2) j(2) by (simp_all add: bst_put_bucket [OF len(2)] val_put_bucket [OF len(2)])
  show "rehashing hash t'"
    unfolding t'_def using i(1) i' b by (intro rehashing_put [OF inv']) auto
  show "bst t' i = bstate b" "val t' i = slot b"
    by (simp_all add: t'_def bst_put_bucket [OF len(3)] val_put_bucket [OF len(3)])
  have "contents t' = contents t"
    using contents_put [OF j(1) len(2), of ?b] contents_put [of i ?t b] i i' b len(3)
    by (auto simp: t'_def slot)
  then show "moved t i t'"
    by (auto simp: moved_def t'_def bst_put_bucket [OF len(2)] bst_put_bucket [OF len(3)])
  show "state_count t' Used < state_count t Used"
  proof -
    let ?S = "\<lambda>t. {k. k < m_capacity t \<and> bst t k = Used}" and ?w = "if bstate b = Used then j else i"
    have bst': "bst t' k = (if k = i then bstate b else if k = j then Rehashed else bst t k)" for k
      by (simp add: t'_def bst_put_bucket [OF len(2)] bst_put_bucket [OF len(3)])
    have cap: "m_capacity t' = m_capacity t" by (simp add: t'_def)
    have "?S t' \<subseteq> ?S t" using b i(2) by (auto simp: bst' cap)
    moreover have "?w \<in> ?S t" using b i j(1) by auto
    moreover have "?w \<notin> ?S t'" using b j(2) by (auto simp: bst')
    ultimately have "?S t' \<subset> ?S t" by blast
    then show ?thesis unfolding state_count_def by (intro psubset_card_mono) simp_all
  qed
qed

section \<open>The moving loop\<close>

lemma move_loop_skip:
  assumes "bst t i = Used" and "\<forall>m < n. bst t (probe t h m) = Rehashed"
  shows "move_loop hash t i h = move_loop hash t i ((double_hash ^^ n) h)"
  using assms(2)
proof (induction n)
  case 0
  then show ?case by simp
next
  case (Suc n)
  then have "bst t (probe t h n) = Rehashed" by simp
  moreover from this assms(1) have "probe t h n \<noteq> i" by auto
  ultimately have "move_loop hash t i ((double_hash ^^ n) h) = move_loop hash t i ((double_hash ^^ Suc n) h)"
    using assms(1) by (subst move_loop.simps) (simp add: bst_def probe_def)
  with Suc show ?case by simp
qed

lemma move_loop_correct:
  assumes "rehashing hash t" and "i < m_capacity t" and "bst t i = Used"
  shows "\<exists>t'. move_loop hash t i (hash (val t i)) = Some (Inr t') \<and> rehashing hash t' \<and>
              moved t i t' \<and> bst t' i \<in> {Free, Rehashed}"
  using assms
proof (induction "state_count t Used" arbitrary: t rule: less_induct)
  case less
  note inv = less.prems(1) and i = less.prems(2,3)
  let ?h = "hash (val t i)"
  obtain n0 where "probe t ?h n0 = i"
    using probe_covers [of i t ?h] inv i(1) by (auto simp: rehashing_def)
  then have "\<exists>n. bst t (probe t ?h n) \<noteq> Rehashed" using i(2) by (intro exI [of _ n0]) simp
  then obtain n where n: "bst t (probe t ?h n) \<noteq> Rehashed" "\<forall>m < n. bst t (probe t ?h m) = Rehashed"
    using exists_least_iff [of "\<lambda>n. bst t (probe t ?h n) \<noteq> Rehashed"] by blast
  let ?j = "probe t ?h n"
  have j: "?j < m_capacity t" "bst t ?j \<noteq> End" "in_place hash t (val t i) ?j"
    using inv n(2) probe_less [of t ?h n] by (auto simp: rehashing_def in_place_def)
  have loop: "move_loop hash t i ?h = move_loop hash t i ((double_hash ^^ n) ?h)"
    by (rule move_loop_skip [OF i(2) n(2)])
  have idx: "probe_index t ((double_hash ^^ n) ?h) = ?j" by (simp add: probe_def)
  show ?case
  proof (cases "?j = i")
    case True
    have "move_loop hash t i ?h = Some (Inr (set_bstate t i Rehashed))"
      using True i(2) by (subst loop, subst move_loop.simps) (simp add: idx bst_def)
    then show ?thesis
      using moved_put_rehashed [OF inv i] rehashing_set_rehashed [OF inv i] j(3) True by simp
  next
    case False
    note swap = moved_swap [OF inv i j(1) False n(1) j(3)]
    consider "is_free_bucket (bst t ?j)" | "bst t ?j = Used"
      using n(1) j(2) by (cases "bst t ?j") auto
    then show ?thesis
    proof cases
      case 1
      let ?b = "\<lparr>bstate = Free, storage = None\<rparr> :: 'a bucket"
      let ?t = "put_bucket (put_bucket t ?j \<lparr>bstate = Rehashed, storage = storage (m_buckets t ! i)\<rparr>) i ?b"
      have b: "bstate ?b = Used \<and> bst t ?j = Used \<and> slot ?b = val t ?j
            \<or> bstate ?b = Free \<and> \<not> is_used_bucket (bst t ?j)"
        using 1 by (cases "bst t ?j") auto
      have "move_loop hash t i ?h = move_loop hash ?t i ((double_hash ^^ n) ?h)"
        using False i(2) 1 by (subst loop, subst move_loop.simps) (simp add: idx bst_def)
      also have "\<dots> = Some (Inr ?t)"
        using swap(3) [OF b] by (subst move_loop.simps) (simp add: bst_def)
      finally show ?thesis using swap(1,2,3) [OF b] by auto
    next
      case 2
      let ?b = "\<lparr>bstate = bstate (m_buckets t ! ?j), storage = storage (m_buckets t ! ?j)\<rparr>"
      let ?t = "put_bucket (put_bucket t ?j \<lparr>bstate = Rehashed, storage = storage (m_buckets t ! i)\<rparr>) i ?b"
      have b: "bstate ?b = Used \<and> bst t ?j = Used \<and> slot ?b = val t ?j
            \<or> bstate ?b = Free \<and> \<not> is_used_bucket (bst t ?j)"
        using 2 by (simp add: bst_def val_def slot_def)
      have i': "i < m_capacity ?t" "bst ?t i = Used" using i(1) swap(3) [OF b] 2 by (simp_all add: bst_def)
      have loop': "move_loop hash t i ?h =
          (if probe_index ?t (hash (val ?t i)) = i then Some (Inr (set_bstate ?t i Rehashed))
           else move_loop hash ?t i (hash (val ?t i)))"
        using False i(2) 2
        by (subst loop, subst move_loop.simps) (simp add: idx [unfolded val_def] bst_def val_def Let_def)
      show ?thesis
      proof (cases "probe_index ?t (hash (val ?t i)) = i")
        case True
        then have "in_place hash ?t (val ?t i) i"
          unfolding in_place_def by (intro exI [of _ 0]) simp
        with True loop' show ?thesis
          using moved_put_rehashed [OF swap(1) [OF b] i'] rehashing_set_rehashed [OF swap(1) [OF b] i']
            moved_trans [OF swap(2) [OF b]] by auto
      next
        case False
        with less.hyps [OF swap(5) [OF b] swap(1) [OF b] i'] loop' show ?thesis
          using moved_trans [OF swap(2) [OF b]] by auto
      qed
    qed
  qed
qed

section \<open>The loop over all buckets\<close>

lemma rehash_bucket_correct:
  assumes "rehashing hash t" and "i < m_capacity t"
  shows "\<exists>t'. rehash_bucket hash t i = Some (Inr t') \<and> rehashing hash t' \<and> moved t i t' \<and>
              bst t' i \<in> {Free, Rehashed}"
proof -
  have len: "i < length (m_buckets t)" and no_end: "bst t i \<noteq> End"
    using assms by (simp_all add: rehashing_def)
  consider "bst t i = Rehashed \<or> bst t i = Free" | "bst t i = Deleted" | "bst t i = Used"
    using no_end by (cases "bst t i") auto
  then show ?thesis
  proof cases
    case 1
    then show ?thesis using assms moved_refl by (auto simp: rehash_bucket_def bst_def)
  next
    case 2
    let ?t = "set_bstate t i Free"
    have "rehash_bucket hash t i = Some (Inr ?t)" using 2 by (simp add: rehash_bucket_def bst_def)
    moreover have "rehashing hash ?t"
      unfolding set_bstate_def using 2 by (intro rehashing_put assms) simp_all
    moreover have "bst ?t i = Free" by (simp add: set_bstate_def bst_put_bucket [OF len])
    moreover have "moved t i ?t"
      using contents_put [OF assms(2) len, of "(m_buckets t ! i)\<lparr>bstate := Free\<rparr>"] 2
      by (simp add: moved_def set_bstate_def bst_put_bucket [OF len])
    ultimately show ?thesis by simp
  next
    case 3
    show ?thesis
    proof (cases "probe_index t (hash (val t i)) = i")
      case True
      then have "in_place hash t (val t i) i"
        unfolding in_place_def by (intro exI [of _ 0]) simp
      with True 3 show ?thesis
        using moved_put_rehashed [OF assms 3] rehashing_set_rehashed [OF assms 3]
        by (simp add: rehash_bucket_def bst_def val_def)
    next
      case False
      obtain t' where t': "move_loop hash t i (hash (val t i)) = Some (Inr t')" "rehashing hash t'"
          "moved t i t'" "bst t' i \<in> {Free, Rehashed}"
        using move_loop_correct [OF assms 3] by blast
      then have "rehash_bucket hash t i = Some (Inr t')"
        using False 3 by (auto simp: rehash_bucket_def bst_def val_def)
      with t' show ?thesis by blast
    qed
  qed
qed

lemma rehash_buckets_correct:
  assumes "rehashing hash t" and "\<forall>i \<in> set is. i < m_capacity t"
  shows "\<exists>t'. rehash_buckets hash is t = Some (Inr t') \<and> rehashing hash t' \<and>
              m_capacity t' = m_capacity t \<and> m_size t' = m_size t \<and> contents t' = contents t \<and>
              (\<forall>k. bst t k \<in> {Free, Rehashed} \<or> k \<in> set is \<longrightarrow> bst t' k \<in> {Free, Rehashed})"
  using assms
proof (induction "is" arbitrary: t)
  case Nil
  then show ?case by simp
next
  case (Cons i "is")
  obtain t1 where t1: "rehash_bucket hash t i = Some (Inr t1)" "rehashing hash t1" "moved t i t1"
      "bst t1 i \<in> {Free, Rehashed}"
    using rehash_bucket_correct [of hash t i] Cons.prems by auto
  then obtain t' where t': "rehash_buckets hash is t1 = Some (Inr t')" "rehashing hash t'"
      "m_capacity t' = m_capacity t1" "m_size t' = m_size t1" "contents t' = contents t1"
      "\<forall>k. bst t1 k \<in> {Free, Rehashed} \<or> k \<in> set is \<longrightarrow> bst t' k \<in> {Free, Rehashed}"
    using Cons.IH [of t1] Cons.prems by (auto simp: moved_def)
  have "bst t1 k \<in> {Free, Rehashed}" if "bst t k \<in> {Free, Rehashed} \<or> k = i" for k
    using that t1(3,4) by (cases "k = i") (auto simp: moved_def)
  with t1 t' show ?case by (intro exI [of _ t']) (auto simp: moved_def)
qed

section \<open>The whole operation\<close>

context hash_traits
begin

text \<open>That no two stored values are equal depends only on the contents.\<close>

lemma distinct_contents:
  assumes "table_shape t"
  shows "(\<forall>i j. used_at t i \<longrightarrow> used_at t j \<longrightarrow> equals (val t i) (val t j) \<longrightarrow> i = j)
     \<longleftrightarrow> (\<forall>x. size (filter_mset (equals x) (contents t)) \<le> 1)"
proof -
  have "finite {i. used_at t i}"
    by (rule finite_subset [of _ "{..<m_capacity t}"]) (auto simp: used_at_def)
  then have "size (filter_mset (equals x) (contents t)) = card {i. used_at t i \<and> equals x (val t i)}" for x
    by (simp add: contents_def live_used_at [OF assms] filter_mset_image_mset filter_mset_mset_set)
  moreover have "finite {i. used_at t i \<and> equals x (val t i)}" for x
    by (rule finite_subset [of _ "{..<m_capacity t}"]) (auto simp: used_at_def)
  ultimately have "(\<forall>x. size (filter_mset (equals x) (contents t)) \<le> 1)
      \<longleftrightarrow> (\<forall>x i j. used_at t i \<and> equals x (val t i) \<longrightarrow> used_at t j \<and> equals x (val t j) \<longrightarrow> i = j)"
    by (simp add: card_le_Suc0_iff_eq)
  then show ?thesis
    using equals_refl equals_sym equals_trans by meson
qed

lemma finish_rehash_correct:
  assumes inv: "rehashing hash t" and settled: "\<forall>k < m_capacity t. bst t k \<in> {Free, Rehashed}"
    and unique: "\<forall>x. size (filter_mset (equals x) (contents t)) \<le> 1"
  shows "core (finish_rehash t)" and "contents (finish_rehash t) = contents t"
    and "state_count (finish_rehash t) Deleted = 0"
proof -
  let ?t = "finish_rehash t"
  have cap: "m_capacity ?t = m_capacity t" by (simp add: finish_rehash_def)
  have len: "length (m_buckets t) = Suc (m_capacity t)" and at_end: "bst t (m_capacity t) = End"
    using inv by (auto simp: rehashing_def)
  have bst': "bst ?t k = (if bst t k = Rehashed then Used else bst t k)"
    and val': "val ?t k = val t k" if "k \<le> m_capacity t" for k
    using that len by (simp_all add: bst_def val_def slot_def finish_rehash_def)
  have shape: "table_shape ?t"
  proof -
    have "length (m_buckets ?t) = Suc (m_capacity t)" using len by (simp add: finish_rehash_def)
    then show ?thesis
      using inv settled at_end by (auto simp: table_shape_def rehashing_def cap bst')
  qed
  have live: "live ?t = live t" using settled by (auto simp: live_def cap bst')
  show cont: "contents ?t = contents t"
    unfolding contents_def live by (intro image_mset_cong) (auto simp: live_def val')
  show "state_count ?t Deleted = 0" using settled by (auto simp: state_count_def cap bst')
  have "reached hash ?t i" if "used_at ?t i" for i
  proof -
    have i: "i < m_capacity t" "bst t i = Rehashed"
      using that settled by (auto simp: used_at_def cap bst' split: if_splits)
    then obtain n where "probe t (hash (val t i)) n = i" "\<forall>m < n. bst t (probe t (hash (val t i)) m) = Rehashed"
      using inv by (auto simp: rehashing_def in_place_def)
    then show ?thesis
      unfolding reached_def using i(1) probe_less [of t]
      by (intro exI [of _ n]) (simp add: probe_same_capacity [OF cap] val' bst' less_imp_le)
  qed
  moreover have "\<forall>i j. used_at ?t i \<longrightarrow> used_at ?t j \<longrightarrow> equals (val ?t i) (val ?t j) \<longrightarrow> i = j"
    using unique distinct_contents [OF shape] unfolding cont by blast
  ultimately show "core ?t" using shape by (simp add: table_core_def)
qed

lemma rehash_in_place_correct:
  assumes "ok t"
  shows "\<exists>t'. rehash_in_place hash t = Some (Inr t') \<and> ok t' \<and> contents t' = contents t \<and>
              m_capacity t' = m_capacity t \<and> m_size t' = m_size t \<and> m_deleted_count t' = 0"
proof -
  note core = table_ok_core [OF assms]
  note shape = table_core_shape [OF core]
  show ?thesis
  proof (cases "m_capacity t = 0")
    case True
    then have "finish_rehash t = t"
      using shape assms by (cases t) (auto simp: finish_rehash_def table_shape_def table_ok_def state_count_def)
    with True assms show ?thesis by (auto simp: rehash_in_place_def table_ok_def state_count_def)
  next
    case False
    then have "rehashing hash t"
      using shape by (auto simp: table_shape_def rehashing_def)
    then obtain t1 where t1: "rehash_buckets hash [0..<m_capacity t] t = Some (Inr t1)" "rehashing hash t1"
        "m_capacity t1 = m_capacity t" "m_size t1 = m_size t" "contents t1 = contents t"
        "\<forall>k. bst t k \<in> {Free, Rehashed} \<or> k \<in> set [0..<m_capacity t] \<longrightarrow> bst t1 k \<in> {Free, Rehashed}"
      using rehash_buckets_correct [of hash t "[0..<m_capacity t]"] by auto
    have "\<forall>x. size (filter_mset (equals x) (contents t1)) \<le> 1"
      using core distinct_contents [OF shape] by (simp add: t1(5) table_core_def)
    from finish_rehash_correct [OF t1(2) _ this] t1
    have fin: "core (finish_rehash t1)" "contents (finish_rehash t1) = contents t"
        "state_count (finish_rehash t1) Deleted = 0"
      by simp_all
    have "m_size t = state_count (finish_rehash t1) Used"
      using size_contents [OF table_core_shape [OF fin(1)]] size_contents [OF shape] fin(2) assms
      by (simp add: table_ok_def)
    moreover have "m_size (finish_rehash t1) = m_size t" "m_capacity (finish_rehash t1) = m_capacity t"
        "m_deleted_count (finish_rehash t1) = 0"
      using t1 by (simp_all add: finish_rehash_def)
    ultimately have "ok (finish_rehash t1)"
      using fin assms by (auto simp: table_ok_def used_bucket_count_def)
    with t1 fin show ?thesis
      by (simp add: rehash_in_place_def finish_rehash_def)
  qed
qed

lemma rehash_in_place_if_needed_correct:
  assumes "ok t"
  shows "\<exists>t'. rehash_in_place_if_needed hash t = Some (Inr t') \<and> ok t' \<and> contents t' = contents t \<and>
              m_capacity t' = m_capacity t \<and> m_size t' = m_size t"
  using assms rehash_in_place_correct [OF assms] by (auto simp: rehash_in_place_if_needed_def)

end

end
