(* ===== verification/HashTable_Ops.thy ===== *)
theory HashTable_Ops
  imports HashTable_InPlace
begin

text \<open>
  The public operations of the hash table on its contents: growth, \<open>ensure_capacity\<close>, \<open>set\<close> with
  both policies for an existing entry, the three ways of removing, and \<open>clear\<close>.
\<close>

section \<open>The counters do not matter for the contents\<close>

lemma counters_bst [simp]:
  "bst (t\<lparr>m_size := s\<rparr>) = bst t" "bst (t\<lparr>m_deleted_count := d\<rparr>) = bst t"
  "val (t\<lparr>m_size := s\<rparr>) = val t" "val (t\<lparr>m_deleted_count := d\<rparr>) = val t"
  by (simp_all add: fun_eq_iff bst_def val_def)

lemma counters_probe [simp]:
  "probe (t\<lparr>m_size := s\<rparr>) h n = probe t h n" "probe (t\<lparr>m_deleted_count := d\<rparr>) h n = probe t h n"
  by (rule probe_same_capacity, simp)+

lemma counters_live [simp]:
  "live (t\<lparr>m_size := s\<rparr>) = live t" "live (t\<lparr>m_deleted_count := d\<rparr>) = live t"
  by (simp_all add: live_def)

lemma counters_contents [simp]:
  "contents (t\<lparr>m_size := s\<rparr>) = contents t" "contents (t\<lparr>m_deleted_count := d\<rparr>) = contents t"
  "state_count (t\<lparr>m_size := s\<rparr>) st = state_count t st"
  "state_count (t\<lparr>m_deleted_count := d\<rparr>) st = state_count t st"
  by (simp_all add: contents_def state_count_def)

lemma counters_core [simp]:
  "table_core hash equals (t\<lparr>m_size := s\<rparr>) = table_core hash equals t"
  "table_core hash equals (t\<lparr>m_deleted_count := d\<rparr>) = table_core hash equals t"
  by (simp_all add: table_core_def table_shape_def used_at_def reached_def)

section \<open>Growth\<close>

text \<open>\<open>kmalloc_good_size\<close> never rounds down, and a table stays below \<open>2 ^ 32\<close> buckets.\<close>

definition rounds_up :: "allocator \<Rightarrow> bool" where
  "rounds_up env \<longleftrightarrow> (\<forall>n. n \<le> good_size env n)"

definition new_size :: "allocator \<Rightarrow> nat \<Rightarrow> nat" where
  "new_size env n = good_size env (max n 4)"

lemma new_size_ge: "rounds_up env \<Longrightarrow> n \<le> new_size env n \<and> 4 \<le> new_size env n"
  by (metis max.bounded_iff new_size_def rounds_up_def)

lemma table_ok_sizes:
  "table_ok hash equals t \<Longrightarrow> m_size t = state_count t Used"
  "table_ok hash equals t \<Longrightarrow> m_deleted_count t = state_count t Deleted"
  by (simp_all add: table_ok_def)

lemma should_grow_eq: "should_grow t \<longleftrightarrow> (used_bucket_count t + 1) * 100 \<ge> m_capacity t * 60"
  by (simp add: should_grow_def load_factor_in_percent_def)

context hash_traits
begin

lemma filling_ok:
  assumes "filling hash equals t 0" and "(m_size t + 1) * 100 < m_capacity t * 60"
  shows "ok t"
  using assms by (simp add: filling_def table_ok_def used_bucket_count_def load_factor_in_percent_def)

text \<open>Moving to \<open>n\<close> new buckets that leave room for one more value.\<close>

lemma rehash_into:
  assumes "ok t" and "4 \<le> n" and "n \<le> 2 ^ 32" and "(m_size t + 1) * 100 < n * 60"
  shows "\<exists>t'. (if m_buckets t = [] then Some (Inr (with_new_buckets t n))
               else insert_all env hash equals (elements t) (with_new_buckets t n)) = Some (Inr t') \<and>
              ok t' \<and> contents t' = contents t \<and> m_capacity t' = n \<and> m_size t' = m_size t \<and>
              m_deleted_count t' = 0"
proof (cases "m_buckets t = []")
  case True
  then have cap: "m_capacity t = 0"
    using assms(1) by (auto simp: table_ok_def table_core_def table_shape_def split: if_splits)
  then have "m_size t = 0" "contents t = {#}"
    using assms(1) by (simp_all add: table_ok_def state_count_def contents_def live_def)
  moreover from this have "filling hash equals (with_new_buckets t n) 0"
    using assms(2,3) by (simp add: filling_def core_with_new_buckets state_count_with_new_buckets)
  ultimately show ?thesis
    using True assms by (simp add: filling_ok)
next
  case False
  from refill [OF table_ok_core [OF assms(1)] table_ok_sizes(1) [OF assms(1)] assms(2-4)] obtain t'
    where "insert_all env hash equals (elements t) (with_new_buckets t n) = Some (Inr t')"
      "filling hash equals t' 0" "contents t' = contents t" "m_capacity t' = n" "m_size t' = m_size t"
    by blast
  with False assms(4) show ?thesis
    using filling_ok [of t'] by (auto simp: filling_def)
qed

lemma try_rehash_grow:
  assumes "ok t" and "rounds_up env" and "\<not> (n = m_capacity t \<and> n \<ge> 4)"
    and "new_size env n \<le> 2 ^ 32" and "(m_size t + 1) * 100 < new_size env n * 60"
  shows "if can_allocate env (new_size env n)
         then \<exists>t'. try_rehash env hash equals t n = Some (Inr t') \<and> ok t' \<and> contents t' = contents t \<and>
                   m_capacity t' = new_size env n \<and> m_size t' = m_size t \<and> m_deleted_count t' = 0
         else try_rehash env hash equals t n = Some (Inl ENOMEM)"
  using rehash_into [OF assms(1) _ assms(4,5), of env] new_size_ge [OF assms(2)] assms(3)
  by (auto simp: try_rehash_def new_size_def [symmetric] Let_def)

lemma grow_result:
  assumes "ok t" and "rounds_up env" and "should_grow t" and "new_size env (m_capacity t * 2) \<le> 2 ^ 32"
  shows "if can_allocate env (new_size env (m_capacity t * 2))
         then \<exists>t'. try_rehash env hash equals t (m_capacity t * 2) = Some (Inr t') \<and> ok t' \<and>
                   contents t' = contents t \<and> m_size t' = m_size t \<and> \<not> should_grow t'
         else try_rehash env hash equals t (m_capacity t * 2) = Some (Inl ENOMEM)"
proof -
  let ?n = "new_size env (m_capacity t * 2)"
  have n: "m_capacity t * 2 \<le> ?n" "4 \<le> ?n" using new_size_ge [OF assms(2)] by auto
  have "m_capacity t = 0 \<Longrightarrow> m_size t = 0" using assms(1) by (simp add: table_ok_def state_count_def)
  moreover have "m_capacity t = 0 \<or> m_size t * 100 < m_capacity t * 60"
    using assms(1) by (auto simp: table_ok_def used_bucket_count_def load_factor_in_percent_def)
  ultimately have room: "(m_size t + 1) * 100 < ?n * 60"
    using n by (cases "m_capacity t < 2") auto
  have "\<not> (m_capacity t * 2 = m_capacity t \<and> m_capacity t * 2 \<ge> 4)" by auto
  from try_rehash_grow [OF assms(1,2) this assms(4) room] show ?thesis
    using room by (auto simp: should_grow_eq used_bucket_count_def split: if_splits)
qed

text \<open>
  \<open>ensure_capacity\<close>: with a small table, re-inserting the values can itself trigger growth; the
  table is then replaced a second time before the first value goes in.
\<close>

lemma insert_all_nested_growth:
  assumes "should_grow t" and "vs \<noteq> []" and "elements t = []"
    and "can_allocate env (new_size env (m_capacity t * 2))"
    and "\<not> should_grow (with_new_buckets t (new_size env (m_capacity t * 2)))"
  shows "insert_all env hash equals vs t
       = insert_all env hash equals vs (with_new_buckets t (new_size env (m_capacity t * 2)))"
proof (cases vs)
  case (Cons v vs')
  let ?t = "with_new_buckets t (new_size env (m_capacity t * 2))"
  have nil: "insert_all env hash equals [] ?t = Some (Inr ?t)"
    by (subst insert_all.simps) simp
  show ?thesis
    unfolding Cons
    by (subst (1 2) insert_all.simps) (use assms nil in \<open>simp add: new_size_def Let_def\<close>)
qed (use assms in simp)

lemma room_after_doubling:
  assumes "m \<le> c" and "c * 2 \<le> n" and "4 \<le> n" and "n * 2 \<le> n2"
  shows "(m + 1) * 100 < n2 * (60 :: nat)"
proof -
  have "100 * m \<le> 50 * n" "100 < 70 * n" "120 * n \<le> 60 * n2" using assms by simp_all
  then show ?thesis by simp
qed

lemma try_ensure_capacity_correct:
  assumes "ok t" and "rounds_up env" and "m_size t \<le> capacity" and "\<forall>n. can_allocate env n"
    and "new_size env (capacity * 2) \<le> 2 ^ 32" and "new_size env (new_size env (capacity * 2) * 2) \<le> 2 ^ 32"
  shows "\<exists>t'. try_ensure_capacity env hash equals t capacity = Some (Inr t') \<and> ok t' \<and>
              contents t' = contents t \<and> capacity * 2 \<le> m_capacity t'"
proof -
  let ?n = "new_size env (capacity * 2)" and ?n2 = "new_size env (new_size env (capacity * 2) * 2)"
  have n: "capacity * 2 \<le> ?n" "4 \<le> ?n" "?n * 2 \<le> ?n2" "4 \<le> ?n2"
    using new_size_ge [OF assms(2)] by auto
  have call: "try_ensure_capacity env hash equals t capacity = try_rehash env hash equals t (capacity * 2)"
    using assms(3) by (simp add: try_ensure_capacity_def)
  consider (same) "capacity * 2 = m_capacity t \<and> 4 \<le> capacity * 2"
    | (room) "\<not> (capacity * 2 = m_capacity t \<and> capacity * 2 \<ge> 4)" "(m_size t + 1) * 100 < ?n * 60"
    | (tight) "\<not> (capacity * 2 = m_capacity t \<and> capacity * 2 \<ge> 4)" "(m_size t + 1) * 100 \<ge> ?n * 60"
    by fastforce
  then show ?thesis
  proof cases
    case same
    then have "try_rehash env hash equals t (capacity * 2) = rehash_in_place hash t"
      by (simp add: try_rehash_def)
    with rehash_in_place_correct [OF assms(1)] same call show ?thesis by auto
  next
    case room
    from try_rehash_grow [OF assms(1,2) room(1) assms(5) room(2)] n(1) assms(4) call
    show ?thesis by auto
  next
    case tight
    let ?t = "with_new_buckets t ?n"
    have room2: "(m_size t + 1) * 100 < ?n2 * 60" using n assms(3) by (intro room_after_doubling)
    have size: "0 < m_size t" using tight n by (cases "m_size t") auto
    note shape = table_core_shape [OF table_ok_core [OF assms(1)]]
    have used: "size (elements t) = m_size t"
      using mset_elements [OF shape] size_contents [OF shape] table_ok_sizes(1) [OF assms(1)]
      by (metis size_mset)
    have "0 < state_count t Used" using size table_ok_sizes(1) [OF assms(1)] by simp
    then have "m_capacity t \<noteq> 0" by (auto simp: state_count_pos)
    then have "m_buckets t \<noteq> []"
      using shape by (auto simp: table_shape_def)
    then have "try_rehash env hash equals t (capacity * 2) = insert_all env hash equals (elements t) ?t"
      using tight(1) assms(4) by (auto simp: try_rehash_def new_size_def [symmetric] Let_def)
    also have "\<dots> = insert_all env hash equals (elements t) (with_new_buckets ?t ?n2)"
    proof (subst insert_all_nested_growth)
      show "elements ?t = []"
        using mset_elements [OF table_core_shape [OF core_with_new_buckets [of ?n hash equals t]]] n(2) assms(5)
        by simp
      show "elements t \<noteq> []" using used size by auto
    qed (use tight(2) room2 assms(4) in \<open>simp_all add: should_grow_eq used_bucket_count_def\<close>)
    also have "with_new_buckets ?t ?n2 = with_new_buckets t ?n2"
      by (simp add: with_new_buckets_def)
    finally show ?thesis
      using rehash_into [OF assms(1) n(4) assms(6) room2, of env] \<open>m_buckets t \<noteq> []\<close> call n(1,3)
      by auto
  qed
qed

section \<open>Insertion\<close>

lemma ok_or_empty_free: "ok t \<Longrightarrow> \<not> should_grow t \<Longrightarrow> 0 < state_count t Free"
  by (rule table_ok_free) (auto simp: should_grow_eq)

text \<open>Writing \<open>v\<close> over an equal value.\<close>

lemma replace_core:
  assumes "core t" and "used_at t i" and "equals (val t i) v"
  defines "t' \<equiv> put_bucket t i ((m_buckets t ! i)\<lparr>storage := Some v\<rparr>)"
  shows "core t'" and "contents t' + {#val t i#} = add_mset v (contents t)"
    and "state_count t' st = state_count t st"
proof -
  let ?b = "(m_buckets t ! i)\<lparr>storage := Some v\<rparr>"
  note shape = table_core_shape [OF assms(1)]
  have i: "i < m_capacity t" "bst t i = Used" using assms(2) by (auto simp: used_at_def)
  note len = table_shape_length [OF shape i(1)]
  have bst': "bst t' j = bst t j" and val': "val t' j = (if j = i then v else val t j)" for j
    by (simp_all add: t'_def bst_put_bucket [OF len] val_put_bucket [OF len] slot_def)
      (simp add: bst_def)
  have cap: "m_capacity t' = m_capacity t" by (simp add: t'_def)
  have hash: "hash (val t' j) = hash (val t j)" for j
    using equals_hash [OF assms(3)] by (simp add: val')
  have "reached hash t' j" if "used_at t' j" for j
    using that assms(1)
    by (simp add: reached_def hash bst' probe_same_capacity [OF cap] table_core_def used_at_def cap)
  moreover have "equals (val t a) (val t b)" if "equals (val t' a) (val t' b)" for a b
  proof -
    have eqv: "equals (val t c) (val t' c)" for c using assms(3) equals_refl by (simp add: val')
    from equals_trans [OF eqv equals_trans [OF that equals_sym [OF eqv]]] show ?thesis .
  qed
  moreover have "table_shape t'"
  proof -
    have "length (m_buckets t') = length (m_buckets t)" by (simp add: t'_def)
    then show ?thesis using shape i(1) by (simp add: table_shape_def cap bst')
  qed
  ultimately show "core t'"
    using assms(1) by (simp add: table_core_def used_at_def cap bst')
  show "contents t' + {#val t i#} = add_mset v (contents t)"
    using contents_put [OF i(1) len, of ?b] i(2) by (simp add: t'_def bst_def slot_def)
  show "state_count t' st = state_count t st" by (simp add: state_count_def cap bst')
qed

lemma insert_ok:
  assumes "ok t" and "\<not> should_grow t" and "i < m_capacity t" and "bst t i \<in> {Free, Deleted}"
    and "probe t (hash v) k = i" and "\<forall>m < k. bst t (probe t (hash v) m) = Used"
    and "\<forall>x \<in> held t. \<not> equals v x"
  defines "t' \<equiv> (place t i v)\<lparr>m_deleted_count :=
      (if bst t i = Deleted then m_deleted_count t - 1 else m_deleted_count t), m_size := m_size t + 1\<rparr>"
  shows "ok t'" and "contents t' = add_mset v (contents t)"
proof -
  note core = table_ok_core [OF assms(1)]
  note shape = table_core_shape [OF core]
  note len = table_shape_length [OF shape assms(3)]
  have same: "contents t' = contents (place t i v)" "state_count t' st = state_count (place t i v) st"
    "core t' \<longleftrightarrow> core (place t i v)" for st
    by (simp_all add: t'_def)
  show "contents t' = add_mset v (contents t)"
    using assms(4) contents_place [OF assms(3) len] by (auto simp: same)
  have "core t'" using place_core [OF core assms(3-7)] by (simp add: same)
  moreover have "used_bucket_count t' * 100 < m_capacity t' * load_factor_in_percent"
  proof -
    have "used_bucket_count t' \<le> used_bucket_count t + 1"
      by (simp add: t'_def used_bucket_count_def)
    then have "used_bucket_count t' * 100 \<le> (used_bucket_count t + 1) * 100" by simp
    also have "\<dots> < m_capacity t' * load_factor_in_percent"
      using assms(2) by (simp add: t'_def should_grow_def)
    finally show ?thesis .
  qed
  ultimately show "ok t'"
    using state_count_place [OF shape assms(3,4)] table_ok_sizes [OF assms(1)]
    by (simp add: table_ok_def same) (simp add: t'_def)
qed

text \<open>\<open>set\<close>: an equal value is kept or overwritten, another value is added.\<close>

definition set_result ::
  "('a hash_table \<times> hash_set_result) \<Rightarrow> 'a hash_table \<Rightarrow> 'a \<Rightarrow> existing_entry_behavior \<Rightarrow> bool" where
  "set_result r t v behavior \<longleftrightarrow>
     (\<exists>t' res. r = (t', res) \<and> ok t' \<and>
       (if \<exists>x \<in># contents t. equals x v
        then m_size t' = m_size t \<and>
             (if behavior = Keep then res = KeptExistingEntry \<and> contents t' = contents t
              else res = ReplacedExistingEntry \<and>
                   (\<exists>x \<in># contents t. equals x v \<and> contents t' = add_mset v (contents t - {#x#})))
        else res = InsertedNewEntry \<and> m_size t' = m_size t + 1 \<and>
             contents t' = add_mset v (contents t)))"

lemma set_result_cong:
  "contents t' = contents t \<Longrightarrow> m_size t' = m_size t \<Longrightarrow>
   set_result r t' v behavior \<longleftrightarrow> set_result r t v behavior"
  by (simp add: set_result_def)

lemma set_after_growth:
  assumes "ok t" and "\<not> should_grow t"
  shows "\<exists>i. write_loop equals t v None (hash v) = Some i \<and> set_result (set_at t i v behavior) t v behavior"
proof -
  note core = table_ok_core [OF assms(1)]
  note held = set_contents [OF table_core_shape [OF core]]
  from core ok_or_empty_free [OF assms] show ?thesis
  proof (cases rule: write_loop_ok [of t v])
    case (found i)
    have i: "bstate (m_buckets t ! i) = Used" using found(2) by (simp add: used_at_def bst_def)
    have mem: "val t i \<in># contents t" using found(2) by (auto simp: held held_def)
    note r = replace_core [OF core found(2,3)]
    let ?t = "put_bucket t i ((m_buckets t ! i)\<lparr>storage := Some v\<rparr>)"
    have "ok ?t"
      using r(1) assms(1) by (auto simp: table_ok_eq sizes_agree_def r(3) used_bucket_count_def)
    moreover have "contents ?t = add_mset v (contents t - {#val t i#})"
    proof -
      obtain R where R: "contents t = add_mset (val t i) R" using multi_member_split [OF mem] by blast
      then have "add_mset (val t i) (contents ?t) = add_mset (val t i) (add_mset v R)"
        using r(2) by (simp add: add_mset_commute)
      then show ?thesis by (simp add: R)
    qed
    ultimately show ?thesis
      using found(1,3) i mem assms(1) by (auto simp: set_result_def set_at_def)
  next
    case (vacant i k)
    have i: "bstate (m_buckets t ! i) = bst t i" "\<not> is_used_bucket (bst t i)"
      using vacant(3) by (auto simp: bst_def)
    have "\<not> (\<exists>x \<in># contents t. equals x v)"
      using vacant(6) equals_sym by (auto simp: held)
    with insert_ok [OF assms vacant(2-6)] vacant(1) i show ?thesis
      by (simp add: set_result_def set_at_def Let_def)
  qed
qed

lemma try_set_eq:
  "try_set env hash equals t v behavior =
     and_then (if should_grow t then try_rehash env hash equals t (m_capacity t * 2) else Some (Inr t))
       (\<lambda>t'. map_option (\<lambda>i. Inr (set_at t' i v behavior)) (write_loop equals t' v None (hash v)))"
proof -
  have "and_then (map_option (\<lambda>i. Inr (t', i)) w) (\<lambda>(t', i). Some (Inr (set_at t' i v behavior)))
      = map_option (\<lambda>i. Inr (set_at t' i v behavior)) w" for t' w
    by (cases w) simp_all
  then show ?thesis
    by (simp add: try_set_def try_lookup_for_writing_def and_then_assoc)
qed

lemma try_set_result:
  assumes "ok t" and "rounds_up env" and "new_size env (m_capacity t * 2) \<le> 2 ^ 32"
  shows "if should_grow t \<and> \<not> can_allocate env (new_size env (m_capacity t * 2))
         then try_set env hash equals t v behavior = Some (Inl ENOMEM)
         else \<exists>r. try_set env hash equals t v behavior = Some (Inr r) \<and> set_result r t v behavior"
proof (cases "should_grow t")
  case False
  then show ?thesis
    using set_after_growth [OF assms(1) False, of v behavior]
    by (auto simp: try_set_eq simp del: split_paired_Ex)
next
  case True
  show ?thesis
  proof (cases "can_allocate env (new_size env (m_capacity t * 2))")
    case False
    then show ?thesis using grow_result [OF assms(1,2) True assms(3)] True by (simp add: try_set_eq)
  next
    case alloc: True
    then obtain t' where t': "try_rehash env hash equals t (m_capacity t * 2) = Some (Inr t')" "ok t'"
        "contents t' = contents t" "m_size t' = m_size t" "\<not> should_grow t'"
      using grow_result [OF assms(1,2) True assms(3)] by auto
    from set_after_growth [OF t'(2,5), of v behavior] show ?thesis
      using True alloc t'(1) 
      by (auto simp: try_set_eq set_result_cong [OF t'(3,4)] simp del: split_paired_Ex)
  qed
qed

text \<open>Adding new, pairwise different values to a table that has room for all of them.\<close>

lemma try_set_from_fresh:
  assumes "ok t" and "m_deleted_count t = 0" and "(m_size t + length vs) * 100 < m_capacity t * 60"
    and "sorted_wrt (\<lambda>x y. \<not> equals x y) vs" and "\<forall>x \<in> set vs. \<forall>y \<in> held t. \<not> equals x y"
  shows "\<exists>t'. try_set_from env hash equals t vs = Some (Inr t') \<and> ok t' \<and>
              contents t' = contents t + mset vs \<and> m_capacity t' = m_capacity t"
  using assms
proof (induction vs arbitrary: t)
  case Nil
  then show ?case by simp
next
  case (Cons v vs)
  have room: "\<not> should_grow t"
    using Cons.prems(2,3) by (simp add: should_grow_eq used_bucket_count_def)
  note core = table_ok_core [OF Cons.prems(1)]
  from core ok_or_empty_free [OF Cons.prems(1) room] show ?case
  proof (cases rule: write_loop_ok [of t v])
    case (found i)
    then have "val t i \<in> held t" by (auto simp: held_def)
    with Cons.prems(5) found(3) equals_sym show ?thesis by auto
  next
    case (vacant i k)
    let ?t = "(place t i v)\<lparr>m_deleted_count :=
      (if bst t i = Deleted then m_deleted_count t - 1 else m_deleted_count t), m_size := m_size t + 1\<rparr>"
    note new = insert_ok [OF Cons.prems(1) room vacant(2-6)]
    have set: "try_set env hash equals t v Replace = Some (Inr (?t, InsertedNewEntry))"
      using vacant(1,3) room by (auto simp: try_set_eq set_at_def Let_def bst_def)
    have "held ?t = insert v (held t)"
      using new(2) set_contents [OF table_core_shape [OF table_ok_core [OF new(1)]]]
        set_contents [OF table_core_shape [OF core]] by simp
    moreover have "\<forall>x \<in> set vs. \<not> equals x v"
      using Cons.prems(4) equals_sym by auto
    moreover have "m_deleted_count ?t = 0" "(m_size ?t + length vs) * 100 < m_capacity ?t * 60"
      using Cons.prems(2,3) by simp_all
    ultimately obtain t' where "try_set_from env hash equals ?t vs = Some (Inr t')" "ok t'"
        "contents t' = contents ?t + mset vs" "m_capacity t' = m_capacity ?t"
      using Cons.IH [OF new(1)] Cons.prems(4,5) by auto
    with set new(2) show ?thesis by simp
  qed
qed

lemma copy_result:
  assumes "ok t" and "rounds_up env" and "new_size env (m_capacity t) \<le> 2 ^ 32"
  shows "if can_allocate env (new_size env (m_capacity t))
         then \<exists>t'. copy_table env hash equals t = Some (Inr t') \<and> ok t' \<and> contents t' = contents t
         else copy_table env hash equals t = Some (Inl VerifyFailed)"
proof -
  let ?n = "new_size env (m_capacity t)" and ?e = "empty_table :: 'a hash_table"
  note shape = table_core_shape [OF table_ok_core [OF assms(1)]]
  have n: "m_capacity t \<le> ?n" "4 \<le> ?n" using new_size_ge [OF assms(2)] by auto
  have e: "ok ?e" "m_capacity ?e = 0" "m_size ?e = 0" "contents ?e = {#}"
    by (simp_all add: empty_table_def table_ok_def table_core_def table_shape_def used_at_def
        state_count_def contents_def live_def)
  have len: "length (elements t) = m_size t"
    using mset_elements [OF shape] size_contents [OF shape] table_ok_sizes(1) [OF assms(1)]
    by (metis size_mset)
  have "m_capacity t = 0 \<Longrightarrow> m_size t = 0"
    using table_ok_sizes(1) [OF assms(1)] by (simp add: state_count_def)
  then have room: "m_size t * 100 < ?n * 60"
    using assms(1) n by (cases "m_capacity t = 0")
      (auto simp: table_ok_def used_bucket_count_def load_factor_in_percent_def)
  have "\<not> (m_capacity t = m_capacity ?e \<and> m_capacity t \<ge> 4)" by (auto simp: e(2))
  from try_rehash_grow [OF e(1) assms(2) this assms(3)] n(2)
  have grow: "if can_allocate env ?n
      then \<exists>t'. try_rehash env hash equals ?e (m_capacity t) = Some (Inr t') \<and> ok t' \<and> contents t' = {#} \<and>
             m_capacity t' = ?n \<and> m_size t' = 0 \<and> m_deleted_count t' = 0
      else try_rehash env hash equals ?e (m_capacity t) = Some (Inl ENOMEM)"
    by (auto simp: e(3,4) split: if_splits)
  show ?thesis
  proof (cases "can_allocate env ?n")
    case False
    with grow show ?thesis by (simp add: copy_table_def must_def)
  next
    case True
    with grow obtain t1 where t1: "try_rehash env hash equals ?e (m_capacity t) = Some (Inr t1)" "ok t1"
        "contents t1 = {#}" "m_capacity t1 = ?n" "m_size t1 = 0" "m_deleted_count t1 = 0"
      by auto
    have "held t1 = {}" using set_contents [OF table_core_shape [OF table_ok_core [OF t1(2)]]] t1(3) by simp
    then obtain t' where "try_set_from env hash equals t1 (elements t) = Some (Inr t')" "ok t'"
        "contents t' = contents t1 + mset (elements t)"
      using try_set_from_fresh [OF t1(2,6), of "elements t" env] room t1(4,5)
        elements_distinct [OF table_ok_core [OF assms(1)]]
      by (auto simp: len)
    with True t1 show ?thesis
      by (simp add: copy_table_def must_def set_from_def mset_elements [OF shape])
  qed
qed

section \<open>Removal\<close>

lemma delete_core:
  assumes "core t" and "used_at t i"
  shows "core (delete_bucket t i)" and "contents (delete_bucket t i) + {#val t i#} = contents t"
    and "Suc (state_count (delete_bucket t i) Used) = state_count t Used"
    and "state_count (delete_bucket t i) Deleted = Suc (state_count t Deleted)"
proof -
  let ?b = "\<lparr>bstate = Deleted, storage = None\<rparr> :: 'a bucket" and ?t = "delete_bucket t i"
  note shape = table_core_shape [OF assms(1)]
  have i: "i < m_capacity t" "bst t i = Used" using assms(2) by (auto simp: used_at_def)
  note len = table_shape_length [OF shape i(1)]
  have bst': "bst ?t j = (if j = i then Deleted else bst t j)"
    and val': "j \<noteq> i \<Longrightarrow> val ?t j = val t j" for j
    by (simp_all add: delete_bucket_def bst_put_bucket [OF len] val_put_bucket [OF len])
  have cap: "m_capacity ?t = m_capacity t" by (simp add: delete_bucket_def)
  have used: "used_at ?t j \<longleftrightarrow> used_at t j \<and> j \<noteq> i" for j
    by (auto simp: used_at_def cap bst')
  have "reached hash ?t j" if j: "used_at ?t j" for j
  proof -
    obtain n where "probe t (hash (val t j)) n = j" "\<forall>m < n. bst t (probe t (hash (val t j)) m) \<in> {Used, Deleted}"
      using j assms(1) unfolding used table_core_def reached_def by blast
    then show ?thesis
      using j unfolding reached_def
      by (intro exI [of _ n]) (auto simp: used val' bst' probe_same_capacity [OF cap])
  qed
  moreover have "table_shape ?t"
    unfolding delete_bucket_def by (intro table_shape_put shape i(1)) simp
  ultimately show "core ?t"
    using assms(1) by (auto simp: table_core_def used val')
  show "contents ?t + {#val t i#} = contents t"
    using contents_put [OF i(1) len, of ?b] i(2) by (simp add: delete_bucket_def)
  have "0 < state_count t Used" using i by (auto simp: state_count_pos)
  then show "Suc (state_count ?t Used) = state_count t Used"
    "state_count ?t Deleted = Suc (state_count t Deleted)"
    using state_count_put [OF len i(1), of ?b] i(2) by (simp_all add: delete_bucket_def)
qed

lemma remove_at_result:
  assumes "ok t" and "used_at t i"
  shows "\<exists>t'. remove_at hash t (Some i) = Some (Inr t') \<and> ok t' \<and>
              contents t' = contents t - {#val t i#} \<and> m_size t' = m_size t - 1"
proof -
  let ?t = "(delete_bucket t i)\<lparr>m_size := m_size t - 1, m_deleted_count := m_deleted_count t + 1\<rparr>"
  note d = delete_core [OF table_ok_core [OF assms(1)] assms(2)]
  have used: "bstate (m_buckets t ! i) = Used" "m_capacity t \<noteq> 0"
    using assms(2) by (auto simp: used_at_def bst_def)
  have "ok ?t"
    using assms(1) d(1,3,4) used(2) by (auto simp: table_ok_def used_bucket_count_def delete_bucket_def)
  from rehash_in_place_if_needed_correct [OF this] obtain t' where
    "rehash_in_place_if_needed hash ?t = Some (Inr t')" "ok t'" "contents t' = contents ?t"
    "m_size t' = m_size ?t"
    by blast
  moreover have "contents ?t = contents t - {#val t i#}"
    using d(2) by (metis add_diff_cancel_right' counters_contents(1,2))
  ultimately show ?thesis using used(1) by (simp add: remove_at_def)
qed

lemma remove_value_result:
  assumes "ok t"
  shows "if \<exists>x \<in># contents t. equals v x
         then \<exists>t' x. remove_value hash equals t v = Some (Inr (t', True)) \<and> ok t' \<and>
                x \<in># contents t \<and> equals v x \<and> contents t' = contents t - {#x#}
         else remove_value hash equals t v = Some (Inr (t, False))"
proof -
  note held = set_contents [OF table_core_shape [OF table_ok_core [OF assms]]]
  from assms show ?thesis
  proof (cases rule: find_value_result [of t v])
    case (found i)
    then have "val t i \<in># contents t" by (auto simp: held held_def)
    moreover obtain t' where "remove_at hash t (Some i) = Some (Inr t')" "ok t'"
        "contents t' = contents t - {#val t i#}"
      using remove_at_result [OF assms found(2)] by blast
    ultimately show ?thesis using found by (auto simp: remove_value_def)
  next
    case absent
    then show ?thesis by (auto simp: remove_value_def held)
  qed
qed

text \<open>Deleting a list of distinct used buckets.\<close>

lemma delete_many:
  assumes "core t" and "\<forall>i \<in> set js. used_at t i" and "distinct js"
  defines "t' \<equiv> fold (\<lambda>i t. delete_bucket t i) js t"
  shows "core t' \<and> contents t' + image_mset (val t) (mset js) = contents t \<and>
         state_count t' Used + length js = state_count t Used \<and>
         state_count t' Deleted = state_count t Deleted + length js \<and>
         m_capacity t' = m_capacity t \<and> (\<forall>k. k \<notin> set js \<longrightarrow> bst t' k = bst t k)"
  unfolding t'_def using assms(1-3)
proof (induction js arbitrary: t)
  case Nil
  then show ?case by simp
next
  case (Cons i js)
  have i: "used_at t i" using Cons.prems(2) by simp
  note shape = table_core_shape [OF Cons.prems(1)]
  have len: "i < length (m_buckets t)" using table_shape_length [OF shape] i by (simp add: used_at_def)
  let ?t = "delete_bucket t i"
  have other: "bst ?t k = bst t k" "val ?t k = val t k" if "k \<noteq> i" for k
    using that by (simp_all add: delete_bucket_def bst_put_bucket [OF len] val_put_bucket [OF len])
  have cap: "m_capacity ?t = m_capacity t" by (simp add: delete_bucket_def)
  note d = delete_core [OF Cons.prems(1) i]
  have ne: "k \<noteq> i" if "k \<in> set js" for k using that Cons.prems(3) by auto
  have "\<forall>k \<in> set js. used_at ?t k"
    using Cons.prems(2) ne by (simp add: used_at_def cap other)
  moreover have "image_mset (val ?t) (mset js) = image_mset (val t) (mset js)"
    by (intro image_mset_cong) (simp add: other ne)
  ultimately show ?case
    using Cons.IH [OF d(1)] Cons.prems(3) d(2-4) by (auto simp: cap other union_assoc [symmetric])
qed

lemma remove_all_matching_result:
  assumes "ok t"
  shows "\<exists>t'. remove_all_matching hash t P = Some (Inr (t', \<exists>x \<in># contents t. P x)) \<and> ok t' \<and>
              contents t' = filter_mset (\<lambda>x. \<not> P x) (contents t)"
proof -
  note core = table_ok_core [OF assms]
  note shape = table_core_shape [OF core]
  let ?js = "filter (\<lambda>i. is_used_bucket (bstate (m_buckets t ! i)) \<and> P (slot (m_buckets t ! i))) [0..<m_capacity t]"
  let ?d = "fold (\<lambda>i t. delete_bucket t i) ?js t"
  let ?t = "?d\<lparr>m_deleted_count := m_deleted_count t + length ?js, m_size := m_size t - length ?js\<rparr>"
  have js: "?js = filter (\<lambda>i. P (val t i)) (filter (\<lambda>j. bst t j = Used) [0..<m_capacity t])"
    using shape unfolding filter_filter
    by (intro filter_cong) (auto simp: table_shape_def bst_def val_def)
  have "image_mset (val t) (mset ?js) = filter_mset P (mset (elements t))"
    unfolding js elements_eq [OF shape] by (simp add: filter_mset_image_mset o_def)
  then have removed: "image_mset (val t) (mset ?js) = filter_mset P (contents t)"
    by (simp only: mset_elements [OF shape])
  have d: "core ?d" "contents ?d + filter_mset P (contents t) = contents t"
      "state_count ?d Used + length ?js = state_count t Used"
      "state_count ?d Deleted = state_count t Deleted + length ?js" "m_capacity ?d = m_capacity t"
    using delete_many [OF core, of ?js] by (auto simp: js used_at_def simp flip: removed)
  have cont: "contents ?t = filter_mset (\<lambda>x. \<not> P x) (contents t)"
  proof -
    have "contents ?d + filter_mset P (contents t) = filter_mset (\<lambda>x. \<not> P x) (contents t) + filter_mset P (contents t)"
      unfolding d(2) using multiset_partition [of "contents t" P] by (simp add: add.commute)
    then have "contents ?d = filter_mset (\<lambda>x. \<not> P x) (contents t)" by (rule add_right_imp_eq)
    then show ?thesis by (simp only: counters_contents)
  qed
  have "ok ?t"
    using d(1,3-5) assms by (auto simp: table_ok_def used_bucket_count_def)
  from rehash_in_place_if_needed_correct [OF this] obtain t' where t':
    "rehash_in_place_if_needed hash ?t = Some (Inr t')" "ok t'" "contents t' = contents ?t"
    by blast
  have "length ?js = size (filter_mset P (contents t))"
    unfolding removed [symmetric] by (simp only: size_image_mset size_mset)
  moreover have "filter_mset P (contents t) = {#} \<longleftrightarrow> set_mset (filter_mset P (contents t)) = {}"
    by (simp only: set_mset_eq_empty_iff)
  ultimately have "length ?js \<noteq> 0 \<longleftrightarrow> (\<exists>x \<in># contents t. P x)"
    by (simp only: size_eq_0_iff_empty) auto
  with t' show ?thesis
    unfolding remove_all_matching_def Let_def cont [symmetric] by (intro exI [of _ t']) simp
qed

lemma clear_ok: "ok (clear t)" and clear_contents: "contents (clear t) = {#}"
  by (simp_all add: clear_def empty_table_def table_ok_def table_core_def table_shape_def used_at_def
      state_count_def contents_def live_def)

lemma clear_with_capacity_ok:
  assumes "ok t" and "clear_with_capacity t = (Cleared, t')"
  shows "ok t' \<and> contents t' = {#} \<and> m_capacity t' = m_capacity t"
proof -
  note shape = table_core_shape [OF table_ok_core [OF assms(1)]]
  have ne: "m_buckets t \<noteq> []" using assms(2) by (auto simp: clear_with_capacity_def)
  then have cap: "0 < m_capacity t" "m_capacity t \<le> 2 ^ 32"
    using shape by (auto simp: table_shape_def split: if_splits)
  have "t' = (with_new_buckets t (m_capacity t))\<lparr>m_size := 0\<rparr>"
    using assms(2) ne by (cases t) (auto simp: clear_with_capacity_def with_new_buckets_def)
  then show ?thesis
    using core_with_new_buckets [OF cap, of hash equals t] cap(1)
    by (simp add: table_ok_def state_count_with_new_buckets used_bucket_count_def load_factor_in_percent_def)
qed

end

end
