(* ===== verification/HashTable_Properties.thy ===== *)
theory HashTable_Properties
  imports HashTable_Ops
begin

text \<open>
  The traits of the integer types as an instance of \<open>hash_traits\<close>, and the properties of the hash
  functions and of the hash table, stated over all traits that satisfy the locale's laws. The
  witnesses run them on a table of four buckets with two values.
\<close>

interpretation u32_traits: hash_traits int_hash "(=)"
  by unfold_locales simp_all

interpretation u64_traits: hash_traits u64_hash "(=)"
  by unfold_locales simp_all

section \<open>A concrete table\<close>

definition sample_table :: "u32 hash_table" where
  "sample_table = \<lparr>m_buckets = [\<lparr>bstate = Free, storage = None\<rparr>, \<lparr>bstate = Used, storage = Some 5\<rparr>,
      \<lparr>bstate = Deleted, storage = None\<rparr>, \<lparr>bstate = Free, storage = None\<rparr>,
      \<lparr>bstate = End, storage = None\<rparr>], m_size = 1, m_capacity = 4, m_deleted_count = 1\<rparr>"

definition sample_env :: allocator where
  "sample_env = \<lparr>can_allocate = (\<lambda>n. n < 100), good_size = (\<lambda>n. n)\<rparr>"

lemma less_four: "i < 4 \<longleftrightarrow> i = 0 \<or> i = 1 \<or> i = 2 \<or> i = (3 :: nat)"
  by auto

lemma identity_traits: "hash_traits (\<lambda>x. x) (=)"
  by unfold_locales simp_all

lemma sample_bst: "bst sample_table 0 = Free" "bst sample_table (Suc 0) = Used" "bst sample_table 2 = Deleted"
  "bst sample_table 3 = Free" "bst sample_table 4 = End" "val sample_table (Suc 0) = 5"
  by (simp_all add: sample_table_def bst_def val_def numeral_eq_Suc)

lemma sample_capacity: "m_capacity sample_table = 4" "m_size sample_table = 1" "m_deleted_count sample_table = 1"
  by (simp_all add: sample_table_def)

lemma sample_ok: "table_ok (\<lambda>x. x) (=) sample_table"
proof -
  have set: "{i. i < m_capacity sample_table \<and> bst sample_table i = st}
      = (if st = Used then {1} else if st = Deleted then {2} else if st = Free then {0, 3} else {})" for st
  proof -
    have "bst sample_table i = (if i = 1 then Used else if i = 2 then Deleted else Free)" if "i < 4" for i
      using that by (auto simp: less_four sample_bst)
    then show ?thesis
      by (cases st) (auto simp: sample_capacity cong: conj_cong split: if_splits)
  qed
  have "reached (\<lambda>x. x) sample_table (Suc 0)"
    unfolding reached_def
    by (intro exI [of _ 0]) (simp add: sample_bst probe_index_def sample_capacity)
  moreover have "table_shape sample_table"
    by (simp add: table_shape_def sample_capacity less_four sample_bst) (simp add: sample_table_def)
  moreover have "state_count sample_table Used = 1" "state_count sample_table Deleted = 1"
    unfolding state_count_def set by simp_all
  ultimately show ?thesis
    by (auto simp: table_ok_def table_core_def used_at_def less_four sample_bst
        used_bucket_count_def load_factor_in_percent_def sample_capacity)
qed

lemma sample_contents: "contents sample_table = {#5#}"
proof -
  have "live sample_table = {Suc 0}"
    by (auto simp: live_def sample_capacity less_four sample_bst)
  then show ?thesis by (simp add: contents_def sample_bst)
qed

lemma sample_env_rounds_up: "rounds_up sample_env"
  by (simp add: rounds_up_def sample_env_def)

lemma sample_env_simps: "can_allocate sample_env n \<longleftrightarrow> n < 100" "new_size sample_env n = max n 4"
  by (simp_all add: sample_env_def new_size_def)

section \<open>Properties\<close>

text \<open>
  C6. \<open>double_hash\<close> is one cycle through all \<open>2 ^ 32\<close> hash values: from every value every other value
  is reached, so no probe sequence is caught in a short loop.
\<close>

theorem double_hash_reaches_every_hash: "\<exists>n. (double_hash ^^ n) a = b"
  by (rule double_hash_single_cycle)

text \<open>
  C2. Lookup returns, and it answers whether an equal value is stored, on every table that satisfies
  the invariant and whatever mixture of used, deleted and free buckets it consists of.
\<close>

theorem contains_iff_stored:
  assumes "hash_traits hash equals" and "table_ok hash equals t"
  shows "contains hash equals t v = Some (\<exists>x \<in># contents t. equals v x)"
  using hash_traits.contains_correct [OF assms] set_contents [of t] assms(2)
  by (simp add: table_ok_def table_core_def)

theorem contains_iff_stored_witness:
  "contains (\<lambda>x. x) (=) sample_table 5 = Some True \<and> contains (\<lambda>x. x) (=) sample_table 9 = Some False"
  by (simp add: contains_iff_stored [OF identity_traits sample_ok] sample_contents)

text \<open>
  C1. \<open>try_set\<close> returns: with \<open>ENOMEM\<close> and nothing else when the table has to grow and the allocation
  fails; otherwise with a table that satisfies the invariant, in which an equal value was kept or
  replaced as asked for, or to which the value was added.
\<close>

theorem try_set_correct:
  assumes "hash_traits hash equals" and "table_ok hash equals t" and "rounds_up env"
    and "new_size env (m_capacity t * 2) \<le> 2 ^ 32"
  shows "if should_grow t \<and> \<not> can_allocate env (new_size env (m_capacity t * 2))
         then try_set env hash equals t v behavior = Some (Inl ENOMEM)
         else \<exists>t' res. try_set env hash equals t v behavior = Some (Inr (t', res)) \<and>
                table_ok hash equals t' \<and>
                (if \<exists>x \<in># contents t. equals x v
                 then m_size t' = m_size t \<and>
                      (if behavior = Keep then res = KeptExistingEntry \<and> contents t' = contents t
                       else res = ReplacedExistingEntry \<and>
                            (\<exists>x \<in># contents t. equals x v \<and> contents t' = add_mset v (contents t - {#x#})))
                 else res = InsertedNewEntry \<and> m_size t' = m_size t + 1 \<and>
                      contents t' = add_mset v (contents t))"
proof -
  note result = hash_traits.try_set_result [OF assms(1-4), of v behavior]
  show ?thesis
  proof (cases "should_grow t \<and> \<not> can_allocate env (new_size env (m_capacity t * 2))")
    case True
    with result show ?thesis by simp
  next
    case False
    with result obtain r where "try_set env hash equals t v behavior = Some (Inr r)"
        "hash_traits.set_result hash equals r t v behavior"
      by (auto simp del: split_paired_Ex)
    with False show ?thesis
      unfolding hash_traits.set_result_def [OF assms(1)] by auto
  qed
qed

theorem try_set_correct_witness:
  "\<exists>t'. try_set sample_env (\<lambda>x. x) (=) sample_table 9 Replace = Some (Inr (t', InsertedNewEntry)) \<and>
        contents t' = {#9, 5#}"
  using try_set_correct [OF identity_traits sample_ok sample_env_rounds_up, of 9 Replace]
  by (auto simp: sample_env_simps sample_capacity sample_contents)

text \<open>
  C4. \<open>remove\<close> returns, takes away exactly one value equal to the argument and reports whether there
  was one, whether or not it rehashes in place afterwards.
\<close>

theorem remove_correct:
  assumes "hash_traits hash equals" and "table_ok hash equals t"
  shows "if \<exists>x \<in># contents t. equals v x
         then \<exists>t' x. remove_value hash equals t v = Some (Inr (t', True)) \<and> table_ok hash equals t' \<and>
                x \<in># contents t \<and> equals v x \<and> contents t' = contents t - {#x#}
         else remove_value hash equals t v = Some (Inr (t, False))"
  by (rule hash_traits.remove_value_result [OF assms])

theorem remove_correct_witness:
  "\<exists>t'. remove_value (\<lambda>x. x) (=) sample_table 5 = Some (Inr (t', True)) \<and> contents t' = {#}"
  using remove_correct [OF identity_traits sample_ok, of 5] by (auto simp: sample_contents)

text \<open>
  \<open>remove_all_matching\<close> returns, removes the values that satisfy the predicate and no other, and
  reports whether it removed any.
\<close>

theorem remove_all_matching_correct:
  assumes "hash_traits hash equals" and "table_ok hash equals t"
  shows "\<exists>t'. remove_all_matching hash t P = Some (Inr (t', \<exists>x \<in># contents t. P x)) \<and>
              table_ok hash equals t' \<and> contents t' = filter_mset (\<lambda>x. \<not> P x) (contents t)"
  by (rule hash_traits.remove_all_matching_result [OF assms])

theorem remove_all_matching_correct_witness:
  "\<exists>t'. remove_all_matching (\<lambda>x. x) sample_table (\<lambda>x. x < 9) = Some (Inr (t', True)) \<and> contents t' = {#}"
  using remove_all_matching_correct [OF identity_traits sample_ok, of "\<lambda>x. x < 9"]
  by (auto simp: sample_contents)

text \<open>
  C3. \<open>rehash_in_place\<close> returns although it moves values in a loop without a counter; it keeps every
  value, empties the deleted buckets and restores the invariant.
\<close>

theorem rehash_in_place_keeps_values:
  assumes "hash_traits hash equals" and "table_ok hash equals t"
  shows "\<exists>t'. rehash_in_place hash t = Some (Inr t') \<and> table_ok hash equals t' \<and>
              contents t' = contents t \<and> m_capacity t' = m_capacity t \<and> m_deleted_count t' = 0"
  using hash_traits.rehash_in_place_correct [OF assms] by auto

theorem rehash_in_place_keeps_values_witness:
  "\<exists>t'. rehash_in_place (\<lambda>x. x) sample_table = Some (Inr t') \<and> contents t' = {#5#} \<and> m_deleted_count t' = 0"
  using rehash_in_place_keeps_values [OF identity_traits sample_ok] by (auto simp: sample_contents)

text \<open>
  \<open>ensure_capacity\<close> returns and provides twice the capacity asked for, keeping every value, also
  when the half-filled table grows once more while the values are re-inserted.
\<close>

theorem ensure_capacity_correct:
  assumes "hash_traits hash equals" and "table_ok hash equals t" and "rounds_up env"
    and "m_size t \<le> capacity" and "\<forall>n. can_allocate env n"
    and "new_size env (capacity * 2) \<le> 2 ^ 32" and "new_size env (new_size env (capacity * 2) * 2) \<le> 2 ^ 32"
  shows "\<exists>t'. try_ensure_capacity env hash equals t capacity = Some (Inr t') \<and> table_ok hash equals t' \<and>
              contents t' = contents t \<and> capacity * 2 \<le> m_capacity t'"
  by (rule hash_traits.try_ensure_capacity_correct [OF assms])

theorem ensure_capacity_correct_witness:
  "\<exists>t'. try_ensure_capacity (sample_env\<lparr>can_allocate := \<lambda>n. True\<rparr>) (\<lambda>x. x) (=) sample_table 10 = Some (Inr t') \<and>
        contents t' = {#5#} \<and> 20 \<le> m_capacity t'"
  using ensure_capacity_correct [OF identity_traits sample_ok, of "sample_env\<lparr>can_allocate := \<lambda>n. True\<rparr>" 10]
  by (auto simp: rounds_up_def new_size_def sample_env_def sample_capacity sample_contents)

text \<open>
  The iterator visits every stored value exactly once and nothing else.
\<close>

theorem iteration_visits_contents:
  assumes "table_ok hash equals t"
  shows "mset (elements t) = contents t \<and> length (elements t) = m_size t"
proof -
  have shape: "table_shape t" using assms by (simp add: table_ok_def table_core_def)
  have "length (elements t) = size (contents t)" using mset_elements [OF shape] by (metis size_mset)
  then show ?thesis
    using mset_elements [OF shape] size_contents [OF shape] assms by (simp add: table_ok_def)
qed

theorem iteration_visits_contents_witness:
  "mset (elements sample_table) = {#5#} \<and> length (elements sample_table) = 1"
  using iteration_visits_contents [OF sample_ok] by (simp add: sample_contents sample_capacity)

text \<open>
  The copy constructor stops the program when the allocation fails and otherwise yields a table
  of the invariant with the same values, although it re-inserts them one by one.
\<close>

theorem copy_correct:
  assumes "hash_traits hash equals" and "table_ok hash equals t" and "rounds_up env"
    and "new_size env (m_capacity t) \<le> 2 ^ 32"
  shows "if can_allocate env (new_size env (m_capacity t))
         then \<exists>t'. copy_table env hash equals t = Some (Inr t') \<and> table_ok hash equals t' \<and>
                contents t' = contents t
         else copy_table env hash equals t = Some (Inl VerifyFailed)"
  by (rule hash_traits.copy_result [OF assms])

theorem copy_correct_witness:
  "\<exists>t'. copy_table sample_env (\<lambda>x. x) (=) sample_table = Some (Inr t') \<and> contents t' = {#5#}"
  using copy_correct [OF identity_traits sample_ok sample_env_rounds_up]
  by (auto simp: sample_env_simps sample_capacity sample_contents)

end
