(* ===== verification/HashMap.thy ===== *)
theory HashMap
  imports HashTable_Properties
begin

text \<open>
  \<open>AK/HashMap.h\<close>: a hash table of entries whose traits look at the key only. \<open>khash\<close> and \<open>kequals\<close>
  are \<open>KeyTraits\<close>; \<open>value_hash\<close> and \<open>key_hash\<close> in \<open>map_hash\<close> are the elements' own \<open>hash()\<close>. The
  locale \<open>key_traits\<close> gives the entries' traits as an instance of \<open>hash_traits\<close>, so that the lemmas
  of the table are the map's.
\<close>

section \<open>Entries and operations\<close>

record ('k, 'v) entry =
  key :: 'k
  val_of :: 'v

type_synonym ('k, 'v) hash_map = "('k, 'v) entry hash_table"

definition entry_hash :: "('k \<Rightarrow> u32) \<Rightarrow> ('k, 'v) entry \<Rightarrow> u32" where
  "entry_hash khash e = khash (key e)"

definition entry_equals :: "('k \<Rightarrow> 'k \<Rightarrow> bool) \<Rightarrow> ('k, 'v) entry \<Rightarrow> ('k, 'v) entry \<Rightarrow> bool" where
  "entry_equals kequals a b = kequals (key a) (key b)"

definition map_find ::
  "('k \<Rightarrow> u32) \<Rightarrow> ('k \<Rightarrow> 'k \<Rightarrow> bool) \<Rightarrow> ('k, 'v) hash_map \<Rightarrow> 'k \<Rightarrow> nat option option" where
  "map_find khash kequals m k = lookup_with_hash m (khash k) (\<lambda>e. kequals k (key e))"

definition map_try_set ::
  "allocator \<Rightarrow> ('k \<Rightarrow> u32) \<Rightarrow> ('k \<Rightarrow> 'k \<Rightarrow> bool) \<Rightarrow> ('k, 'v) hash_map \<Rightarrow> 'k \<Rightarrow> 'v
    \<Rightarrow> (('k, 'v) hash_map \<times> hash_set_result) outcome" where
  "map_try_set env khash kequals m k v =
     try_set env (entry_hash khash) (entry_equals kequals) m \<lparr>key = k, val_of = v\<rparr> Replace"

text \<open>\<open>set\<close> is \<open>MUST(try_set(...))\<close>: an allocation failure stops the program.\<close>

definition map_set ::
  "allocator \<Rightarrow> ('k \<Rightarrow> u32) \<Rightarrow> ('k \<Rightarrow> 'k \<Rightarrow> bool) \<Rightarrow> ('k, 'v) hash_map \<Rightarrow> 'k \<Rightarrow> 'v
    \<Rightarrow> (('k, 'v) hash_map \<times> hash_set_result) outcome" where
  "map_set env khash kequals m k v = must (map_try_set env khash kequals m k v)"

definition map_get ::
  "('k \<Rightarrow> u32) \<Rightarrow> ('k \<Rightarrow> 'k \<Rightarrow> bool) \<Rightarrow> ('k, 'v) hash_map \<Rightarrow> 'k \<Rightarrow> 'v option option" where
  "map_get khash kequals m k =
     map_option (\<lambda>it. case it of None \<Rightarrow> None | Some i \<Rightarrow> Some (val_of (slot (m_buckets m ! i))))
       (map_find khash kequals m k)"

definition map_contains ::
  "('k \<Rightarrow> u32) \<Rightarrow> ('k \<Rightarrow> 'k \<Rightarrow> bool) \<Rightarrow> ('k, 'v) hash_map \<Rightarrow> 'k \<Rightarrow> bool option" where
  "map_contains khash kequals m k = map_option (\<lambda>it. it \<noteq> None) (map_find khash kequals m k)"

definition map_remove ::
  "('k \<Rightarrow> u32) \<Rightarrow> ('k \<Rightarrow> 'k \<Rightarrow> bool) \<Rightarrow> ('k, 'v) hash_map \<Rightarrow> 'k
    \<Rightarrow> (('k, 'v) hash_map \<times> bool) outcome" where
  "map_remove khash kequals m k =
     Option.bind (map_find khash kequals m k) (\<lambda>it.
       if it \<noteq> None then and_then (remove_at (entry_hash khash) m it) (\<lambda>m'. Some (Inr (m', True)))
       else Some (Inr (m, False)))"

definition map_remove_all_matching ::
  "('k \<Rightarrow> u32) \<Rightarrow> ('k, 'v) hash_map \<Rightarrow> ('k \<Rightarrow> 'v \<Rightarrow> bool) \<Rightarrow> (('k, 'v) hash_map \<times> bool) outcome" where
  "map_remove_all_matching khash m predicate =
     remove_all_matching (entry_hash khash) m (\<lambda>e. predicate (key e) (val_of e))"

text \<open>
  \<open>ensure(key, callback)\<close> returns a reference to the entry's value; the model returns its bucket.
  \<open>initial\<close> is the value of the callback (\<open>V()\<close> in the overload without one).
\<close>

definition map_ensure ::
  "allocator \<Rightarrow> ('k \<Rightarrow> u32) \<Rightarrow> ('k \<Rightarrow> 'k \<Rightarrow> bool) \<Rightarrow> ('k, 'v) hash_map \<Rightarrow> 'k \<Rightarrow> 'v
    \<Rightarrow> (('k, 'v) hash_map \<times> nat) outcome" where
  "map_ensure env khash kequals m k initial =
     Option.bind (map_find khash kequals m k) (\<lambda>it.
       case it of
         Some i \<Rightarrow> Some (Inr (m, i))
       | None \<Rightarrow>
           and_then (map_set env khash kequals m k initial) (\<lambda>(m', result).
             if result \<noteq> InsertedNewEntry then Some (Inl VerifyFailed)
             else Option.bind (map_find khash kequals m' k) (\<lambda>it'.
               case it' of None \<Rightarrow> Some (Inl VerifyFailed) | Some i \<Rightarrow> Some (Inr (m', i)))))"

definition map_keys :: "('k, 'v) hash_map \<Rightarrow> 'k list" where
  "map_keys m = map key (elements m)"

definition map_hash :: "('k \<Rightarrow> u32) \<Rightarrow> ('v \<Rightarrow> u32) \<Rightarrow> ('k, 'v) hash_map \<Rightarrow> u32" where
  "map_hash key_hash value_hash m =
     fold (\<lambda>e hash. pair_int_hash hash (pair_int_hash (key_hash (key e)) (value_hash (val_of e))))
       (elements m) 0"

text \<open>\<open>HashMap(std::initializer_list)\<close>: reserve, then set in order.\<close>

fun map_set_all ::
  "allocator \<Rightarrow> ('k \<Rightarrow> u32) \<Rightarrow> ('k \<Rightarrow> 'k \<Rightarrow> bool) \<Rightarrow> ('k \<times> 'v) list \<Rightarrow> ('k, 'v) hash_map
    \<Rightarrow> ('k, 'v) hash_map outcome" where
  "map_set_all env khash kequals [] m = Some (Inr m)"
| "map_set_all env khash kequals ((k, v) # kvs) m =
     and_then (map_set env khash kequals m k v) (\<lambda>(m', _). map_set_all env khash kequals kvs m')"

definition map_of_list ::
  "allocator \<Rightarrow> ('k \<Rightarrow> u32) \<Rightarrow> ('k \<Rightarrow> 'k \<Rightarrow> bool) \<Rightarrow> ('k \<times> 'v) list \<Rightarrow> ('k, 'v) hash_map outcome" where
  "map_of_list env khash kequals kvs =
     and_then (must (try_ensure_capacity env (entry_hash khash) (entry_equals kequals) empty_table (length kvs)))
       (map_set_all env khash kequals kvs)"

section \<open>The map it stands for\<close>

text \<open>The entries of a table as a partial map; a key stands for all keys equal to it.\<close>

definition lookup_entries :: "('k \<Rightarrow> 'k \<Rightarrow> bool) \<Rightarrow> ('k, 'v) entry multiset \<Rightarrow> 'k \<Rightarrow> 'v \<Rightarrow> bool" where
  "lookup_entries kequals M k v \<longleftrightarrow> (\<exists>e \<in># M. kequals k (key e) \<and> val_of e = v)"

definition map_ok :: "('k \<Rightarrow> u32) \<Rightarrow> ('k \<Rightarrow> 'k \<Rightarrow> bool) \<Rightarrow> ('k, 'v) hash_map \<Rightarrow> bool" where
  "map_ok khash kequals m \<longleftrightarrow> table_ok (entry_hash khash) (entry_equals kequals) m"

text \<open>\<open>represents m f\<close>: the table holds exactly the bindings of the partial map \<open>f\<close>.\<close>

definition represents :: "('k \<Rightarrow> 'k \<Rightarrow> bool) \<Rightarrow> ('k, 'v) hash_map \<Rightarrow> ('k \<Rightarrow> 'v option) \<Rightarrow> bool" where
  "represents kequals m f \<longleftrightarrow> (\<forall>k v. lookup_entries kequals (contents m) k v \<longleftrightarrow> f k = Some v)"

text \<open>A map updated at every key equal to \<open>k\<close>.\<close>

definition update_class :: "('k \<Rightarrow> 'k \<Rightarrow> bool) \<Rightarrow> ('k \<Rightarrow> 'v option) \<Rightarrow> 'k \<Rightarrow> 'v option \<Rightarrow> 'k \<Rightarrow> 'v option" where
  "update_class kequals f k r = (\<lambda>k'. if kequals k' k then r else f k')"

lemma in_diff_single: "e \<noteq> x \<Longrightarrow> e \<in># M - {#x#} \<longleftrightarrow> e \<in># M"
  by (simp add: in_diff_count)

locale key_traits =
  fixes khash :: "'k \<Rightarrow> u32"
    and kequals :: "'k \<Rightarrow> 'k \<Rightarrow> bool"
  assumes key_refl: "kequals x x"
    and key_sym: "kequals x y \<Longrightarrow> kequals y x"
    and key_trans: "kequals x y \<Longrightarrow> kequals y z \<Longrightarrow> kequals x z"
    and key_hash: "kequals x y \<Longrightarrow> khash x = khash y"

sublocale key_traits \<subseteq> entries: hash_traits "entry_hash khash" "entry_equals kequals"
  by unfold_locales
    (auto simp: entry_hash_def entry_equals_def intro: key_refl key_sym key_trans key_hash)

context key_traits
begin

lemma unique_entry:
  assumes "map_ok khash kequals m" and "e \<in># contents m" and "e' \<in># contents m"
    and "kequals (key e) (key e')"
  shows "e = e'"
proof -
  have core: "table_core (entry_hash khash) (entry_equals kequals) m"
    using assms(1) by (simp add: map_ok_def table_ok_def)
  from assms(2,3) obtain i j where "used_at m i" "e = val m i" "used_at m j" "e' = val m j"
    by (auto simp: set_contents [OF table_core_shape [OF core]] held_def)
  with core assms(4) show ?thesis by (auto simp: table_core_def entry_equals_def)
qed

lemma find_entry:
  assumes "map_ok khash kequals m"
  obtains (found) i where "map_find khash kequals m k = Some (Some i)" "used_at m i"
      "kequals k (key (val m i))" "val m i \<in># contents m"
    | (absent) "map_find khash kequals m k = Some None" "\<forall>e \<in># contents m. \<not> kequals k (key e)"
proof -
  have eq: "map_find khash kequals m k
      = find_value (entry_hash khash) (entry_equals kequals) m \<lparr>key = k, val_of = v\<rparr>" for v
    by (simp add: map_find_def find_value_def entry_hash_def entry_equals_def)
  have ok: "table_ok (entry_hash khash) (entry_equals kequals) m" using assms by (simp add: map_ok_def)
  have held: "set_mset (contents m) = held m"
    using ok by (simp add: set_contents table_ok_def table_core_def)
  let ?e = "\<lparr>key = k, val_of = undefined\<rparr>"
  from ok show thesis
  proof (cases rule: entries.find_value_result [of m ?e])
    case (found i)
    then show thesis
      by (intro that(1) [of i]) (auto simp: eq [of undefined] entry_equals_def held held_def)
  next
    case absent
    then show thesis
      by (intro that(2)) (auto simp: eq [of undefined] entry_equals_def held)
  qed
qed

lemma get_represents:
  assumes "map_ok khash kequals m" and "represents kequals m f"
  shows "map_get khash kequals m k = Some (f k)"
  using assms(1)
proof (cases rule: find_entry [of m k])
  case (found i)
  then have "lookup_entries kequals (contents m) k (val_of (val m i))"
    by (auto simp: lookup_entries_def)
  with assms(2) have "f k = Some (val_of (val m i))" by (simp add: represents_def)
  with found(1) show ?thesis by (simp add: map_get_def val_def)
next
  case absent
  then have "\<not> lookup_entries kequals (contents m) k v" for v by (auto simp: lookup_entries_def)
  with assms(2) have "f k = None" by (cases "f k") (auto simp: represents_def)
  with absent(1) show ?thesis by (simp add: map_get_def)
qed

lemma contains_represents:
  assumes "map_ok khash kequals m" and "represents kequals m f"
  shows "map_contains khash kequals m k = Some (f k \<noteq> None)"
  using get_represents [OF assms, of k]
  by (cases "f k") (auto simp: map_contains_def map_get_def split: option.splits)

lemma entry_once:
  assumes "map_ok khash kequals m" and "e \<in># contents m"
  shows "e \<notin># contents m - {#e#}"
proof
  assume "e \<in># contents m - {#e#}"
  then obtain R where "contents m - {#e#} = add_mset e R" by (blast dest: multi_member_split)
  then have "contents m = add_mset e (add_mset e R)" using insert_DiffM [OF assms(2)] by simp
  moreover have core: "table_core (entry_hash khash) (entry_equals kequals) m"
    using assms(1) by (simp add: map_ok_def table_ok_def)
  then have "size (filter_mset (entry_equals kequals e) (contents m)) \<le> 1"
    using entries.distinct_contents [OF table_core_shape [OF core]] by (simp add: table_core_def)
  ultimately show False by (simp add: entry_equals_def key_refl)
qed

lemma represents_update:
  assumes "map_ok khash kequals m'" and "represents kequals m f" and "\<lparr>key = k, val_of = v\<rparr> \<in># contents m'"
    and "\<And>e. \<not> kequals k (key e) \<Longrightarrow> e \<in># contents m' \<longleftrightarrow> e \<in># contents m"
  shows "represents kequals m' (update_class kequals f k (Some v))"
  unfolding represents_def
proof (intro allI)
  fix k' v'
  let ?new = "\<lparr>key = k, val_of = v\<rparr>"
  show "lookup_entries kequals (contents m') k' v' \<longleftrightarrow> update_class kequals f k (Some v) k' = Some v'"
  proof (cases "kequals k' k")
    case True
    have new: "e = ?new" if "e \<in># contents m'" "kequals k' (key e)" for e
      using unique_entry [OF assms(1) that(1) assms(3)] key_trans [OF key_sym [OF that(2)] True] by simp
    then have "lookup_entries kequals (contents m') k' v' \<longleftrightarrow> v' = v"
    proof (intro iffI)
      assume "lookup_entries kequals (contents m') k' v'"
      then obtain e where "e \<in># contents m'" "kequals k' (key e)" "val_of e = v'"
        by (auto simp: lookup_entries_def)
      with new [of e] show "v' = v" by simp
    next
      assume "v' = v"
      then show "lookup_entries kequals (contents m') k' v'"
        using True unfolding lookup_entries_def by (intro bexI [OF _ assms(3)]) simp
    qed
    with True show ?thesis by (auto simp: update_class_def)
  next
    case False
    have "e \<in># contents m' \<longleftrightarrow> e \<in># contents m" if "kequals k' (key e)" for e
      using that False key_sym key_trans by (intro assms(4)) blast
    then have "lookup_entries kequals (contents m') k' v' \<longleftrightarrow> lookup_entries kequals (contents m) k' v'"
      by (auto simp: lookup_entries_def)
    with False assms(2) show ?thesis by (simp add: represents_def update_class_def)
  qed
qed

lemma represents_delete:
  assumes "map_ok khash kequals m" and "represents kequals m f" and "x \<in># contents m" and "kequals k (key x)"
    and "contents m' = contents m - {#x#}"
  shows "represents kequals m' (update_class kequals f k None)"
  unfolding represents_def
proof (intro allI)
  fix k' v'
  show "lookup_entries kequals (contents m') k' v' \<longleftrightarrow> update_class kequals f k None k' = Some v'"
  proof (cases "kequals k' k")
    case True
    have "\<not> kequals k' (key e)" if "e \<in># contents m'" for e
    proof
      assume "kequals k' (key e)"
      then have "kequals (key e) (key x)" using True assms(4) key_sym key_trans by blast
      moreover have "e \<in># contents m" using that assms(5) by (metis in_diffD)
      ultimately have "e = x" using unique_entry [OF assms(1) _ assms(3)] by blast
      then show False using that assms(5) entry_once [OF assms(1,3)] by simp
    qed
    with True show ?thesis by (auto simp: lookup_entries_def update_class_def)
  next
    case False
    have "e \<in># contents m' \<longleftrightarrow> e \<in># contents m" if "kequals k' (key e)" for e
    proof -
      have "e \<noteq> x" using that False assms(4) key_sym key_trans by blast
      then show ?thesis by (simp add: assms(5) in_diff_single)
    qed
    then have "lookup_entries kequals (contents m') k' v' \<longleftrightarrow> lookup_entries kequals (contents m) k' v'"
      by (auto simp: lookup_entries_def)
    with False assms(2) show ?thesis by (simp add: represents_def update_class_def)
  qed
qed

lemma set_represents:
  assumes "map_ok khash kequals m" and "represents kequals m f" and "rounds_up env"
    and "new_size env (m_capacity m * 2) \<le> 2 ^ 32"
  shows "if should_grow m \<and> \<not> can_allocate env (new_size env (m_capacity m * 2))
         then map_try_set env khash kequals m k v = Some (Inl ENOMEM)
         else \<exists>m' res. map_try_set env khash kequals m k v = Some (Inr (m', res)) \<and> map_ok khash kequals m' \<and>
                res = (if f k = None then InsertedNewEntry else ReplacedExistingEntry) \<and>
                represents kequals m' (update_class kequals f k (Some v))"
proof -
  let ?e = "\<lparr>key = k, val_of = v\<rparr>"
  have ok: "table_ok (entry_hash khash) (entry_equals kequals) m" using assms(1) by (simp add: map_ok_def)
  have present: "(\<exists>x \<in># contents m. entry_equals kequals x ?e) \<longleftrightarrow> f k \<noteq> None"
  proof -
    have "(\<exists>x \<in># contents m. entry_equals kequals x ?e) \<longleftrightarrow> (\<exists>v. lookup_entries kequals (contents m) k v)"
      using key_sym by (auto simp: entry_equals_def lookup_entries_def)
    with assms(2) show ?thesis by (auto simp: represents_def)
  qed
  note result = entries.try_set_result [OF ok assms(3,4), of ?e Replace]
  show ?thesis
  proof (cases "should_grow m \<and> \<not> can_allocate env (new_size env (m_capacity m * 2))")
    case True
    with result show ?thesis by (simp add: map_try_set_def)
  next
    case False
    with result obtain m' res where r: "try_set env (entry_hash khash) (entry_equals kequals) m ?e Replace
        = Some (Inr (m', res))" "entries.set_result (m', res) m ?e Replace"
      by auto
    then have ok': "map_ok khash kequals m'"
      and res: "res = (if f k = None then InsertedNewEntry else ReplacedExistingEntry)"
      and cont: "(f k = None \<longrightarrow> contents m' = add_mset ?e (contents m)) \<and>
        (f k \<noteq> None \<longrightarrow> (\<exists>x \<in># contents m. entry_equals kequals x ?e \<and> contents m' = add_mset ?e (contents m - {#x#})))"
      unfolding entries.set_result_def present by (auto simp: map_ok_def)
    have "e \<in># contents m' \<longleftrightarrow> e \<in># contents m" if ne: "\<not> kequals k (key e)" for e
    proof (cases "f k")
      case None
      then show ?thesis using cont ne key_refl by auto
    next
      case (Some _)
      with cont obtain x where x: "entry_equals kequals x ?e" "contents m' = add_mset ?e (contents m - {#x#})"
        by auto
      have "e \<noteq> x" "e \<noteq> ?e" using x(1) ne key_sym key_refl by (auto simp: entry_equals_def)
      then show ?thesis by (simp add: x(2) in_diff_single)
    qed
    moreover have "?e \<in># contents m'" using cont by (cases "f k") auto
    ultimately have "represents kequals m' (update_class kequals f k (Some v))"
      by (intro represents_update [OF ok' assms(2)])
    with False r(1) ok' res show ?thesis by (simp add: map_try_set_def)
  qed
qed

lemma remove_represents:
  assumes "map_ok khash kequals m" and "represents kequals m f"
  shows "\<exists>m'. map_remove khash kequals m k = Some (Inr (m', f k \<noteq> None)) \<and> map_ok khash kequals m' \<and>
              represents kequals m' (update_class kequals f k None)"
  using assms(1)
proof (cases rule: find_entry [of m k])
  case (found i)
  obtain m' where m': "remove_at (entry_hash khash) m (Some i) = Some (Inr m')" "map_ok khash kequals m'"
      "contents m' = contents m - {#val m i#}"
    using entries.remove_at_result [OF _ found(2)] assms(1) by (auto simp: map_ok_def)
  have "f k \<noteq> None"
  proof -
    have "lookup_entries kequals (contents m) k (val_of (val m i))"
      using found(3,4) by (auto simp: lookup_entries_def)
    with assms(2) show ?thesis by (simp add: represents_def)
  qed
  with found(1) m' represents_delete [OF assms found(4,3) m'(3)] show ?thesis
    by (simp add: map_remove_def)
next
  case absent
  have "\<not> kequals k' (key e)" if "kequals k' k" "e \<in># contents m" for k' e
    using absent(2) that(2) key_trans [OF key_sym [OF that(1)]] by blast
  then have "\<not> lookup_entries kequals (contents m) k' v" if "kequals k' k" for k' v
    using that by (auto simp: lookup_entries_def)
  then have none: "f k' = None" if "kequals k' k" for k'
    using that assms(2) by (cases "f k'") (auto simp: represents_def)
  then have "update_class kequals f k None = f"
    by (auto simp: update_class_def fun_eq_iff)
  with absent(1) none [OF key_refl] assms show ?thesis by (simp add: map_remove_def)
qed

text \<open>\<open>ensure\<close>: the bucket it returns holds the old value, or the initial one after an insertion.\<close>

lemma ensure_represents:
  assumes "map_ok khash kequals m" and "represents kequals m f" and "rounds_up env"
    and "new_size env (m_capacity m * 2) \<le> 2 ^ 32" and "\<forall>n. can_allocate env n"
  shows "\<exists>m' i. map_ensure env khash kequals m k initial = Some (Inr (m', i)) \<and> map_ok khash kequals m' \<and>
           (let v = (case f k of None \<Rightarrow> initial | Some v \<Rightarrow> v) in
            val_of (slot (m_buckets m' ! i)) = v \<and>
            represents kequals m' (update_class kequals f k (Some v)))"
  using assms(1)
proof (cases rule: find_entry [of m k])
  case (found i)
  have lookup: "lookup_entries kequals (contents m) k' (val_of (val m i))" if "kequals k' k" for k'
    using found(3,4) key_trans [OF that found(3)] unfolding lookup_entries_def by blast
  then have some: "f k' = Some (val_of (val m i))" if "kequals k' k" for k'
    using that assms(2) by (simp add: represents_def)
  then have "update_class kequals f k (Some (val_of (val m i))) = f"
    by (auto simp: update_class_def fun_eq_iff)
  with found(1) some [OF key_refl] assms show ?thesis
    by (simp add: map_ensure_def val_def)
next
  case absent
  then have "\<not> lookup_entries kequals (contents m) k v" for v by (auto simp: lookup_entries_def)
  with assms(2) have none: "f k = None" by (cases "f k") (auto simp: represents_def)
  obtain m' where m': "map_try_set env khash kequals m k initial = Some (Inr (m', InsertedNewEntry))"
      "map_ok khash kequals m'" "represents kequals m' (update_class kequals f k (Some initial))"
    using set_represents [OF assms(1-4), of k initial] assms(5) none by auto
  have "map_get khash kequals m' k = Some (Some initial)"
    using get_represents [OF m'(2,3), of k] by (simp add: update_class_def key_refl)
  then obtain i where "map_find khash kequals m' k = Some (Some i)" "val_of (slot (m_buckets m' ! i)) = initial"
    by (auto simp: map_get_def split: option.splits)
  with absent(1) m' none show ?thesis
    by (simp add: map_ensure_def map_set_def must_def)
qed

lemma represents_empty:
  "map_ok khash kequals (empty_table :: ('k, 'v) hash_map)"
  "represents kequals (empty_table :: ('k, 'v) hash_map) Map.empty"
  using entries.clear_ok [of "empty_table :: ('k, 'v) hash_map"]
    entries.clear_contents [of "empty_table :: ('k, 'v) hash_map"]
  by (simp_all add: map_ok_def clear_def represents_def lookup_entries_def)

end

section \<open>Integer keys\<close>

interpretation u32_keys: key_traits int_hash "(=)"
  by unfold_locales simp_all

lemma update_class_eq: "update_class (=) f k r = f(k := r)"
  by (simp add: update_class_def fun_eq_iff)

text \<open>
  Reading a map: \<open>get\<close> and \<open>contains\<close> return, with the value of the partial map that the table
  represents.
\<close>

theorem map_get_correct:
  assumes "map_ok int_hash (=) m" and "represents (=) m f"
  shows "map_get int_hash (=) m k = Some (f k) \<and> map_contains int_hash (=) m k = Some (f k \<noteq> None)"
  using u32_keys.get_represents [OF assms] u32_keys.contains_represents [OF assms] by simp

theorem map_get_correct_witness:
  "map_get int_hash (=) (empty_table :: (u32, nat) hash_map) 7 = Some None \<and>
   map_contains int_hash (=) (empty_table :: (u32, nat) hash_map) 7 = Some False"
  using map_get_correct [OF u32_keys.represents_empty, of 7] by simp

text \<open>
  C5. \<open>set\<close> on a map returns \<open>ENOMEM\<close> exactly when it has to grow and cannot; otherwise the table
  represents the updated partial map, and the result tells whether the key was new.
\<close>

theorem map_set_correct:
  assumes "map_ok int_hash (=) m" and "represents (=) m f" and "rounds_up env"
    and "new_size env (m_capacity m * 2) \<le> 2 ^ 32"
  shows "if should_grow m \<and> \<not> can_allocate env (new_size env (m_capacity m * 2))
         then map_try_set env int_hash (=) m k v = Some (Inl ENOMEM)
         else \<exists>m' res. map_try_set env int_hash (=) m k v = Some (Inr (m', res)) \<and>
                map_ok int_hash (=) m' \<and> represents (=) m' (f(k \<mapsto> v)) \<and>
                res = (if f k = None then InsertedNewEntry else ReplacedExistingEntry)"
  using u32_keys.set_represents [OF assms, of k v] by (auto simp: update_class_eq)

theorem map_set_correct_witness:
  "\<exists>m'. map_try_set sample_env int_hash (=) empty_table (7 :: u32) ''x'' = Some (Inr (m', InsertedNewEntry)) \<and>
        represents (=) m' [7 \<mapsto> ''x'']"
  using map_set_correct [OF u32_keys.represents_empty sample_env_rounds_up, of 7 "''x''"]
  by (auto simp: sample_env_simps empty_table_def)

text \<open>
  \<open>remove(key)\<close> on a map returns, reports whether the key was there, and afterwards the table
  represents the map without it.
\<close>

theorem map_remove_correct:
  assumes "map_ok int_hash (=) m" and "represents (=) m f"
  shows "\<exists>m'. map_remove int_hash (=) m k = Some (Inr (m', f k \<noteq> None)) \<and> map_ok int_hash (=) m' \<and>
              represents (=) m' (f(k := None))"
  using u32_keys.remove_represents [OF assms, of k] by (simp add: update_class_eq)

theorem map_remove_correct_witness:
  "\<exists>m'. map_remove int_hash (=) (empty_table :: (u32, nat) hash_map) 7 = Some (Inr (m', False)) \<and>
        represents (=) m' Map.empty"
  using map_remove_correct [OF u32_keys.represents_empty, of 7] by auto

end
