(* ===== verification/Vector.thy ===== *)
theory Vector
  imports AK_Prelude
begin

text \<open>
  \<open>AK/Vector.h\<close> for element types that are no references: a buffer of \<open>m_capacity\<close> slots, inline or
  on the heap, of which the first \<open>m_size\<close> hold an object. A slot is \<open>None\<close> while no object lives in
  it, so construction, destruction and the moves between slots are visible. \<open>ic\<close> is
  \<open>inline_capacity\<close>, \<open>triv\<close> tells whether \<open>Traits<T>::is_trivial()\<close> (elements copied as bytes) and
  \<open>env\<close> is the allocator. An operation that fails leaves its receiver as it was; where it does not,
  the result says so.
\<close>

section \<open>State\<close>

record 'a vec =
  vsize :: nat
  vcapacity :: nat
  slots :: "'a option list"
  outline :: bool

definition size_max :: nat where
  "size_max = 2 ^ 64 - 1"

definition vec_empty :: "nat \<Rightarrow> 'a vec" where
  "vec_empty ic = \<lparr>vsize = 0, vcapacity = ic, slots = replicate ic None, outline = False\<rparr>"

definition raw_at :: "'a vec \<Rightarrow> nat \<Rightarrow> 'a" where
  "raw_at v i = the (slots v ! i)"

definition elems :: "'a vec \<Rightarrow> 'a list" where
  "elems v = map (raw_at v) [0..<vsize v]"

definition vec_ok :: "'a vec \<Rightarrow> bool" where
  "vec_ok v \<longleftrightarrow> vsize v \<le> vcapacity v \<and> vcapacity v \<le> length (slots v) \<and> vcapacity v \<le> size_max \<and>
              (\<forall>i < vsize v. slots v ! i \<noteq> None)"

section \<open>Reading\<close>

definition vec_is_empty :: "'a vec \<Rightarrow> bool" where
  "vec_is_empty v \<longleftrightarrow> vsize v = 0"

definition vec_at :: "'a vec \<Rightarrow> nat \<Rightarrow> 'a error_or" where
  "vec_at v i = verify (i < vsize v) (Inr (raw_at v i))"

definition vec_first :: "'a vec \<Rightarrow> 'a error_or" where
  "vec_first v = vec_at v 0"

text \<open>\<open>size() - 1\<close> of an empty vector wraps around to the largest \<open>size_t\<close>.\<close>

definition last_index :: "'a vec \<Rightarrow> nat" where
  "last_index v = (if vsize v = 0 then size_max else vsize v - 1)"

definition vec_last :: "'a vec \<Rightarrow> 'a error_or" where
  "vec_last v = vec_at v (last_index v)"

definition first_matching :: "('a \<Rightarrow> bool) \<Rightarrow> 'a vec \<Rightarrow> 'a option" where
  "first_matching predicate v =
     map_option (raw_at v) (List.find (\<lambda>i. predicate (raw_at v i)) [0..<vsize v])"

definition last_matching :: "('a \<Rightarrow> bool) \<Rightarrow> 'a vec \<Rightarrow> 'a option" where
  "last_matching predicate v =
     map_option (raw_at v) (List.find (\<lambda>i. predicate (raw_at v i)) (rev [0..<vsize v]))"

definition vec_equals :: "('a \<Rightarrow> 'a \<Rightarrow> bool) \<Rightarrow> 'a vec \<Rightarrow> 'a vec \<Rightarrow> bool" where
  "vec_equals eq a b \<longleftrightarrow>
     (if vsize a \<noteq> vsize b then False else list_all (\<lambda>i. eq (raw_at a i) (raw_at b i)) [0..<vsize a])"

definition contains_slow :: "('a \<Rightarrow> 'b \<Rightarrow> bool) \<Rightarrow> 'a vec \<Rightarrow> 'b \<Rightarrow> bool" where
  "contains_slow eq v x \<longleftrightarrow> list_ex (\<lambda>i. eq (raw_at v i) x) [0..<vsize v]"

definition contains_in_range :: "('a \<Rightarrow> 'b \<Rightarrow> bool) \<Rightarrow> 'a vec \<Rightarrow> 'b \<Rightarrow> nat \<Rightarrow> nat \<Rightarrow> bool error_or" where
  "contains_in_range eq v x start finish =
     verify (start \<le> finish) (verify (finish < vsize v)
       (Inr (list_ex (\<lambda>i. eq (raw_at v i) x) [start..<Suc finish])))"

definition find_first_index :: "('a \<Rightarrow> 'b \<Rightarrow> bool) \<Rightarrow> 'a vec \<Rightarrow> 'b \<Rightarrow> nat option" where
  "find_first_index eq v x = List.find (\<lambda>i. eq (raw_at v i) x) [0..<vsize v]"

section \<open>Moving elements between slots\<close>

text \<open>\<open>n\<close> elements from \<open>i + k\<close> on, the lowest first, down by \<open>k\<close>; and from \<open>i\<close> on, the highest first, up by \<open>k\<close>.\<close>

fun move_down :: "'a option list \<Rightarrow> nat \<Rightarrow> nat \<Rightarrow> nat \<Rightarrow> 'a option list" where
  "move_down s k i 0 = s"
| "move_down s k i (Suc n) = move_down (s[i := s ! (i + k), i + k := None]) k (Suc i) n"

fun move_up :: "'a option list \<Rightarrow> nat \<Rightarrow> nat \<Rightarrow> nat \<Rightarrow> 'a option list" where
  "move_up s k i 0 = s"
| "move_up s k i (Suc n) = move_up (s[i + n + k := s ! (i + n), i + n := None]) k i n"

text \<open>\<open>TypedTransfer::copy\<close> and \<open>move\<close> between two places of one buffer: \<open>memmove\<close>.\<close>

definition transfer :: "'a option list \<Rightarrow> nat \<Rightarrow> 'a option list \<Rightarrow> nat \<Rightarrow> nat \<Rightarrow> 'a option list" where
  "transfer dst to src frm n =
     map (\<lambda>j. if to \<le> j \<and> j < to + n then src ! (frm + (j - to)) else dst ! j) [0..<length dst]"

section \<open>Capacity\<close>

definition padded_capacity :: "nat \<Rightarrow> nat" where
  "padded_capacity capacity = max 4 (capacity + capacity div 4 + 4)"

definition try_ensure_capacity_v :: "allocator \<Rightarrow> 'a vec \<Rightarrow> nat \<Rightarrow> 'a vec error_or" where
  "try_ensure_capacity_v env v needed_capacity =
     (if vcapacity v \<ge> needed_capacity then Inr v
      else
        (let new_capacity = good_size env needed_capacity in
         if \<not> can_allocate env new_capacity then Inl ENOMEM
         else Inr (v\<lparr>slots := transfer (replicate new_capacity None) 0 (slots v) 0 (vsize v),
                     outline := True, vcapacity := new_capacity\<rparr>)))"

definition try_grow_capacity :: "allocator \<Rightarrow> 'a vec \<Rightarrow> nat \<Rightarrow> 'a vec error_or" where
  "try_grow_capacity env v needed_capacity =
     (if vcapacity v \<ge> needed_capacity then Inr v
      else try_ensure_capacity_v env v (padded_capacity needed_capacity))"

definition clear_with_capacity_v :: "'a vec \<Rightarrow> 'a vec" where
  "clear_with_capacity_v v =
     v\<lparr>slots := map (\<lambda>i. if i < vsize v then None else slots v ! i) [0..<length (slots v)], vsize := 0\<rparr>"

text \<open>\<open>clear\<close> frees the heap buffer; \<open>reset_capacity\<close> leaves the inline one.\<close>

definition clear_v :: "nat \<Rightarrow> 'a vec \<Rightarrow> 'a vec" where
  "clear_v ic v =
     (if outline v then vec_empty ic else (clear_with_capacity_v v)\<lparr>vcapacity := ic\<rparr>)"

section \<open>Adding elements\<close>

definition put_slot :: "'a vec \<Rightarrow> nat \<Rightarrow> 'a \<Rightarrow> 'a vec" where
  "put_slot v i x = v\<lparr>slots := (slots v)[i := Some x]\<rparr>"

definition try_append :: "allocator \<Rightarrow> 'a vec \<Rightarrow> 'a \<Rightarrow> 'a vec error_or" where
  "try_append env v x =
     try_then (try_grow_capacity env v (vsize v + 1)) (\<lambda>v.
       Inr ((put_slot v (vsize v) x)\<lparr>vsize := vsize v + 1\<rparr>))"

definition unchecked_append :: "'a vec \<Rightarrow> 'a \<Rightarrow> 'a vec error_or" where
  "unchecked_append v x =
     verify (vsize v + 1 \<le> vcapacity v) (Inr ((put_slot v (vsize v) x)\<lparr>vsize := vsize v + 1\<rparr>))"

definition unchecked_append_values :: "'a vec \<Rightarrow> 'a list \<Rightarrow> 'a vec error_or" where
  "unchecked_append_values v xs =
     (if length xs = 0 then Inr v
      else verify (vsize v + length xs \<le> vcapacity v)
        (Inr (v\<lparr>slots := transfer (slots v) (vsize v) (map Some xs) 0 (length xs),
                vsize := vsize v + length xs\<rparr>)))"

definition try_append_values :: "allocator \<Rightarrow> 'a vec \<Rightarrow> 'a list \<Rightarrow> 'a vec error_or" where
  "try_append_values env v xs =
     (if length xs = 0 then Inr v
      else try_then (try_grow_capacity env v (vsize v + length xs)) (\<lambda>v.
        Inr (v\<lparr>slots := transfer (slots v) (vsize v) (map Some xs) 0 (length xs),
               vsize := vsize v + length xs\<rparr>)))"

text \<open>\<open>++m_size\<close> and the shift that frees the slot of the new element.\<close>

definition make_room :: "bool \<Rightarrow> 'a vec \<Rightarrow> nat \<Rightarrow> 'a vec" where
  "make_room triv v index =
     (let v = v\<lparr>vsize := vsize v + 1\<rparr> in
      v\<lparr>slots := (if triv then transfer (slots v) (index + 1) (slots v) index (vsize v - index - 1)
                  else move_up (slots v) 1 index (vsize v - 1 - index))\<rparr>)"

definition try_insert :: "allocator \<Rightarrow> bool \<Rightarrow> 'a vec \<Rightarrow> nat \<Rightarrow> 'a \<Rightarrow> 'a vec error_or" where
  "try_insert env triv v index x =
     (if index > vsize v then Inl EINVAL
      else if index = vsize v then try_append env v x
      else try_then (try_grow_capacity env v (vsize v + 1)) (\<lambda>v.
        Inr (put_slot (make_room triv v index) index x)))"

text \<open>Returns the index of the new element as well, as the out-parameter does.\<close>

definition try_insert_before_matching ::
  "allocator \<Rightarrow> bool \<Rightarrow> 'a vec \<Rightarrow> 'a \<Rightarrow> ('a \<Rightarrow> bool) \<Rightarrow> nat \<Rightarrow> ('a vec \<times> nat) error_or" where
  "try_insert_before_matching env triv v x predicate first_index =
     (case List.find (\<lambda>i. predicate (raw_at v i)) [first_index..<vsize v] of
        Some i \<Rightarrow> try_then (try_insert env triv v i x) (\<lambda>v. Inr (v, i))
      | None \<Rightarrow> try_then (try_append env v x) (\<lambda>v. Inr (v, vsize v - 1)))"

definition try_extend :: "allocator \<Rightarrow> 'a vec \<Rightarrow> 'a vec \<Rightarrow> 'a vec error_or" where
  "try_extend env v other =
     try_then (try_grow_capacity env v (vsize v + vsize other)) (\<lambda>v.
       Inr (v\<lparr>slots := transfer (slots v) (vsize v) (slots other) 0 (vsize other),
              vsize := vsize v + vsize other\<rparr>))"

text \<open>
  \<open>*this = move(other)\<close>: size, capacity and heap buffer are taken over; inline elements are moved
  into the own inline buffer. The receiver's old elements are destroyed first.
\<close>

definition move_assign :: "nat \<Rightarrow> 'a vec \<Rightarrow> 'a vec \<Rightarrow> 'a vec" where
  "move_assign ic v other =
     \<lparr>vsize = vsize other, vcapacity = vcapacity other,
      slots = (if outline other then slots other
               else transfer (replicate ic None) 0 (slots other) 0 (vsize other)),
      outline = outline other\<rparr>"

text \<open>
  \<open>try_extend(Vector&&)\<close> yields the error, if any, and both vectors: \<open>other\<close> has been moved into a
  temporary before the allocation is tried, so its elements are gone even when that fails.
\<close>

definition try_extend_move ::
  "allocator \<Rightarrow> nat \<Rightarrow> 'a vec \<Rightarrow> 'a vec \<Rightarrow> ak_error option \<times> 'a vec \<times> 'a vec" where
  "try_extend_move env ic v other =
     (if vec_is_empty v \<and> vcapacity v \<le> vcapacity other then
        (None, move_assign ic v other, vec_empty ic)
      else
        (case try_grow_capacity env v (vsize v + vsize other) of
           Inl e \<Rightarrow> (Some e, v, vec_empty ic)
         | Inr v' \<Rightarrow> (None,
             v'\<lparr>slots := transfer (slots v') (vsize v') (slots other) 0 (vsize other),
                vsize := vsize v' + vsize other\<rparr>, vec_empty ic)))"

definition try_prepend :: "allocator \<Rightarrow> bool \<Rightarrow> 'a vec \<Rightarrow> 'a \<Rightarrow> 'a vec error_or" where
  "try_prepend env triv v x = try_insert env triv v 0 x"

definition try_prepend_move ::
  "allocator \<Rightarrow> nat \<Rightarrow> 'a vec \<Rightarrow> 'a vec \<Rightarrow> ('a vec \<times> 'a vec) error_or" where
  "try_prepend_move env ic v other =
     (if vec_is_empty other then Inr (v, other)
      else if vec_is_empty v then Inr (move_assign ic v other, vec_empty ic)
      else try_then (try_grow_capacity env v (vsize v + vsize other)) (\<lambda>v.
        let up = move_up (slots v) (vsize other) 0 (vsize v)
        in Inr (v\<lparr>slots := transfer up 0 (slots other) 0 (vsize other), vsize := vsize v + vsize other\<rparr>,
                vec_empty ic)))"

definition try_prepend_values :: "allocator \<Rightarrow> 'a vec \<Rightarrow> 'a list \<Rightarrow> 'a vec error_or" where
  "try_prepend_values env v xs =
     (if length xs = 0 then Inr v
      else try_then (try_grow_capacity env v (vsize v + length xs)) (\<lambda>v.
        let up = transfer (slots v) (length xs) (slots v) 0 (vsize v)
        in Inr (v\<lparr>slots := transfer up 0 (map Some xs) 0 (length xs), vsize := vsize v + length xs\<rparr>)))"

text \<open>
  The copy constructor and the constructor from a list start with \<open>m_capacity { 0 }\<close> even when there
  is an inline buffer; \<open>operator=(Vector const&)\<close> starts from the cleared vector.
\<close>

definition copy_into :: "allocator \<Rightarrow> 'a vec \<Rightarrow> 'a vec \<Rightarrow> 'a vec error_or" where
  "copy_into env v other =
     try_then (must (try_ensure_capacity_v env v (vsize other))) (\<lambda>v.
       Inr (v\<lparr>slots := transfer (slots v) 0 (slots other) 0 (vsize other), vsize := vsize other\<rparr>))"

definition vec_copy :: "allocator \<Rightarrow> nat \<Rightarrow> 'a vec \<Rightarrow> 'a vec error_or" where
  "vec_copy env ic other = copy_into env ((vec_empty ic)\<lparr>vcapacity := 0\<rparr>) other"

definition copy_assign :: "allocator \<Rightarrow> nat \<Rightarrow> 'a vec \<Rightarrow> 'a vec \<Rightarrow> 'a vec error_or" where
  "copy_assign env ic v other = copy_into env (clear_v ic v) other"

fun append_list :: "'a vec \<Rightarrow> 'a list \<Rightarrow> 'a vec error_or" where
  "append_list v [] = Inr v"
| "append_list v (x # xs) = try_then (unchecked_append v x) (\<lambda>v. append_list v xs)"

definition vec_of_list :: "allocator \<Rightarrow> nat \<Rightarrow> 'a list \<Rightarrow> 'a vec error_or" where
  "vec_of_list env ic xs =
     try_then (must (try_ensure_capacity_v env ((vec_empty ic)\<lparr>vcapacity := 0\<rparr>) (length xs))) (\<lambda>v. append_list v xs)"

section \<open>Removing elements\<close>

definition remove_index :: "bool \<Rightarrow> 'a vec \<Rightarrow> nat \<Rightarrow> 'a vec error_or" where
  "remove_index triv v index =
     verify (index < vsize v)
       (Inr (v\<lparr>slots := (if triv then transfer (slots v) index (slots v) (index + 1) (vsize v - index - 1)
                         else move_down ((slots v)[index := None]) 1 index (vsize v - index - 1)),
               vsize := vsize v - 1\<rparr>))"

text \<open>\<open>cnt\<close> is the parameter \<open>count\<close>; \<open>VERIFY(index + count > index)\<close> is a test of the wrapped sum.\<close>

definition remove_count :: "bool \<Rightarrow> 'a vec \<Rightarrow> nat \<Rightarrow> nat \<Rightarrow> 'a vec error_or" where
  "remove_count triv v index cnt =
     (if cnt = 0 then Inr v
      else verify ((index + cnt) mod (size_max + 1) > index)
        (verify ((index + cnt) mod (size_max + 1) \<le> vsize v)
          (Inr (v\<lparr>slots :=
               (if triv then transfer (slots v) index (slots v) (index + cnt) (vsize v - index - cnt)
                else move_down
                  (map (\<lambda>j. if index \<le> j \<and> j < index + cnt then None else slots v ! j) [0..<length (slots v)])
                  cnt index (vsize v - index - cnt)),
               vsize := vsize v - cnt\<rparr>))))"

definition remove_first_matching :: "bool \<Rightarrow> ('a \<Rightarrow> bool) \<Rightarrow> 'a vec \<Rightarrow> ('a vec \<times> bool) error_or" where
  "remove_first_matching triv predicate v =
     (case List.find (\<lambda>i. predicate (raw_at v i)) [0..<vsize v] of
        None \<Rightarrow> Inr (v, False)
      | Some i \<Rightarrow> try_then (remove_index triv v i) (\<lambda>v. Inr (v, True)))"

function remove_matching_from ::
  "bool \<Rightarrow> ('a \<Rightarrow> bool) \<Rightarrow> nat \<Rightarrow> bool \<Rightarrow> 'a vec \<Rightarrow> ('a vec \<times> bool) error_or" where
  "remove_matching_from triv predicate i something v =
     (if i < vsize v then
        (if predicate (raw_at v i) then
           (case remove_index triv v i of
              Inl e \<Rightarrow> Inl e
            | Inr v' \<Rightarrow> remove_matching_from triv predicate i True v')
         else remove_matching_from triv predicate (Suc i) something v)
      else Inr (v, something))"
  by pat_completeness auto
termination
  by (relation "measure (\<lambda>(triv, predicate, i, something, v). vsize v - i)")
    (auto simp: remove_index_def verify_def split: if_splits)

declare remove_matching_from.simps [simp del]

definition remove_all_matching_v :: "bool \<Rightarrow> ('a \<Rightarrow> bool) \<Rightarrow> 'a vec \<Rightarrow> ('a vec \<times> bool) error_or" where
  "remove_all_matching_v triv predicate v = remove_matching_from triv predicate 0 False v"

definition take_last :: "'a vec \<Rightarrow> ('a \<times> 'a vec) error_or" where
  "take_last v =
     verify (\<not> vec_is_empty v)
       (Inr (raw_at v (vsize v - 1),
             v\<lparr>slots := (slots v)[vsize v - 1 := None], vsize := vsize v - 1\<rparr>))"

definition take_first :: "bool \<Rightarrow> 'a vec \<Rightarrow> ('a \<times> 'a vec) error_or" where
  "take_first triv v =
     verify (\<not> vec_is_empty v)
       (try_then (remove_index triv v 0) (\<lambda>v'. Inr (raw_at v 0, v')))"

definition take_index :: "bool \<Rightarrow> 'a vec \<Rightarrow> nat \<Rightarrow> ('a \<times> 'a vec) error_or" where
  "take_index triv v index = try_then (remove_index triv v index) (\<lambda>v'. Inr (raw_at v index, v'))"

definition unstable_take :: "'a vec \<Rightarrow> nat \<Rightarrow> ('a \<times> 'a vec) error_or" where
  "unstable_take v index =
     verify (index < vsize v) (take_last (v\<lparr>slots := swap_at (slots v) index (vsize v - 1)\<rparr>))"

section \<open>Resizing and reversing\<close>

definition shrink :: "nat \<Rightarrow> 'a vec \<Rightarrow> nat \<Rightarrow> bool \<Rightarrow> 'a vec error_or" where
  "shrink ic v new_size keep_capacity =
     verify (new_size \<le> vsize v)
       (if new_size = vsize v then Inr v
        else if new_size = 0 then Inr (if keep_capacity then clear_with_capacity_v v else clear_v ic v)
        else Inr (v\<lparr>slots := map (\<lambda>j. if new_size \<le> j \<and> j < vsize v then None else slots v ! j)
                               [0..<length (slots v)], vsize := new_size\<rparr>))"

text \<open>\<open>d\<close> is the value-initialised element \<open>StorageType {}\<close>.\<close>

definition try_resize :: "allocator \<Rightarrow> nat \<Rightarrow> 'a \<Rightarrow> 'a vec \<Rightarrow> nat \<Rightarrow> bool \<Rightarrow> 'a vec error_or" where
  "try_resize env ic d v new_size keep_capacity =
     (if new_size \<le> vsize v then shrink ic v new_size keep_capacity
      else try_then (try_ensure_capacity_v env v new_size) (\<lambda>v.
        Inr (v\<lparr>slots := map (\<lambda>j. if vsize v \<le> j \<and> j < new_size then Some d else slots v ! j)
                         [0..<length (slots v)], vsize := new_size\<rparr>)))"

fun reverse_steps :: "nat \<Rightarrow> nat \<Rightarrow> 'a option list \<Rightarrow> 'a option list" where
  "reverse_steps n 0 s = s"
| "reverse_steps n (Suc i) s = (let s' = reverse_steps n i s in swap_at s' i (n - i - 1))"

definition vec_reverse :: "'a vec \<Rightarrow> 'a vec" where
  "vec_reverse v = v\<lparr>slots := reverse_steps (vsize v) (vsize v div 2) (slots v)\<rparr>"

section \<open>The operations that may not fail\<close>

text \<open>They wrap their fallible counterparts in \<open>MUST\<close>.\<close>

definition vec_insert :: "allocator \<Rightarrow> bool \<Rightarrow> 'a vec \<Rightarrow> nat \<Rightarrow> 'a \<Rightarrow> 'a vec error_or" where
  "vec_insert env triv v index x = must (try_insert env triv v index x)"

definition vec_insert_before_matching ::
  "allocator \<Rightarrow> bool \<Rightarrow> 'a vec \<Rightarrow> 'a \<Rightarrow> ('a \<Rightarrow> bool) \<Rightarrow> nat \<Rightarrow> ('a vec \<times> nat) error_or" where
  "vec_insert_before_matching env triv v x predicate first_index =
     must (try_insert_before_matching env triv v x predicate first_index)"

definition vec_extend :: "allocator \<Rightarrow> 'a vec \<Rightarrow> 'a vec \<Rightarrow> 'a vec error_or" where
  "vec_extend env v other = must (try_extend env v other)"

definition vec_append :: "allocator \<Rightarrow> 'a vec \<Rightarrow> 'a \<Rightarrow> 'a vec error_or" where
  "vec_append env v x = must (try_append env v x)"

definition vec_append_values :: "allocator \<Rightarrow> 'a vec \<Rightarrow> 'a list \<Rightarrow> 'a vec error_or" where
  "vec_append_values env v xs = must (try_append_values env v xs)"

definition vec_prepend :: "allocator \<Rightarrow> bool \<Rightarrow> 'a vec \<Rightarrow> 'a \<Rightarrow> 'a vec error_or" where
  "vec_prepend env triv v x = must (try_insert env triv v 0 x)"

definition vec_prepend_move :: "allocator \<Rightarrow> nat \<Rightarrow> 'a vec \<Rightarrow> 'a vec \<Rightarrow> ('a vec \<times> 'a vec) error_or" where
  "vec_prepend_move env ic v other = must (try_prepend_move env ic v other)"

definition vec_prepend_values :: "allocator \<Rightarrow> 'a vec \<Rightarrow> 'a list \<Rightarrow> 'a vec error_or" where
  "vec_prepend_values env v xs = must (try_prepend_values env v xs)"

definition vec_resize :: "allocator \<Rightarrow> nat \<Rightarrow> 'a \<Rightarrow> 'a vec \<Rightarrow> nat \<Rightarrow> bool \<Rightarrow> 'a vec error_or" where
  "vec_resize env ic d v new_size keep_capacity = must (try_resize env ic d v new_size keep_capacity)"

end
