(* ===== verification/Vector_Correct.thy ===== *)
theory Vector_Correct
  imports Vector
begin

text \<open>
  The vector refines a list: \<open>elems\<close> is the abstraction function, \<open>vec_ok\<close> the invariant. Each
  operation keeps the invariant and acts on the list as its name says, in the byte-wise and in the
  element-wise variant alike; it fails only with the errors the code names.
\<close>

section \<open>Slots\<close>

lemma length_move_down [simp]: "length (move_down s k i n) = length s"
  by (induction s k i n rule: move_down.induct) simp_all

lemma length_move_up [simp]: "length (move_up s k i n) = length s"
  by (induction s k i n rule: move_up.induct) simp_all

lemma length_transfer [simp]: "length (transfer dst to src frm n) = length dst"
  by (simp add: transfer_def)

lemma nth_transfer:
  "j < length dst \<Longrightarrow>
   transfer dst to src frm n ! j = (if to \<le> j \<and> j < to + n then src ! (frm + (j - to)) else dst ! j)"
  by (simp add: transfer_def)

lemma nth_move_down:
  assumes "0 < k" and "i + n + k \<le> length s" and "j < length s"
  shows "move_down s k i n ! j =
    (if i \<le> j \<and> j < i + n then s ! (j + k) else if i + k \<le> j \<and> j < i + n + k then None else s ! j)"
  using assms
proof (induction s k i n rule: move_down.induct)
  case (1 s k i)
  then show ?case by auto
next
  case (2 s k i n)
  have "i < length s" "i + k < length s" using "2.prems" by auto
  with 2 show ?case by (auto simp: nth_list_update simp del: length_greater_0_conv)
qed

lemma nth_move_up:
  assumes "0 < k" and "i + n + k \<le> length s" and "j < length s"
  shows "move_up s k i n ! j =
    (if i + k \<le> j \<and> j < i + n + k then s ! (j - k) else if i \<le> j \<and> j < i + n then None else s ! j)"
  using assms
proof (induction s k i n rule: move_up.induct)
  case (1 s k i)
  then show ?case by auto
next
  case (2 s k i n)
  have "i + n < length s" "i + n + k < length s" using "2.prems" by auto
  with 2 show ?case by (auto simp: nth_list_update simp del: length_greater_0_conv)
qed

section \<open>The abstraction\<close>

lemma length_elems [simp]: "length (elems v) = vsize v"
  by (simp add: elems_def)

lemma nth_elems [simp]: "i < vsize v \<Longrightarrow> elems v ! i = raw_at v i"
  by (simp add: elems_def)

lemma elemsI:
  "vsize v = length xs \<Longrightarrow> (\<And>i. i < vsize v \<Longrightarrow> raw_at v i = xs ! i) \<Longrightarrow> elems v = xs"
  by (intro nth_equalityI) simp_all

lemma vec_okD:
  assumes "vec_ok v"
  shows "vsize v \<le> vcapacity v" and "vcapacity v \<le> length (slots v)" and "vcapacity v \<le> size_max"
    and "i < vsize v \<Longrightarrow> slots v ! i = Some (raw_at v i)" and "i < vsize v \<Longrightarrow> i < length (slots v)"
  using assms by (auto simp: vec_ok_def raw_at_def)

text \<open>A vector is known by its size and by what its live slots hold.\<close>

lemma vec_from_slots:
  assumes "vsize v = length xs" and "length xs \<le> vcapacity v" and "vcapacity v \<le> length (slots v)"
    and "vcapacity v \<le> size_max" and "\<And>i. i < length xs \<Longrightarrow> slots v ! i = Some (xs ! i)"
  shows "vec_ok v \<and> elems v = xs"
  using assms by (auto simp: vec_ok_def raw_at_def intro: elemsI)

definition alloc_ok :: "allocator \<Rightarrow> bool" where
  "alloc_ok env \<longleftrightarrow> (\<forall>n. n \<le> good_size env n) \<and> (\<forall>n. can_allocate env n \<longrightarrow> n \<le> size_max)"

section \<open>Growing\<close>

lemma vec_ensure_result:
  assumes "vec_ok v" and "alloc_ok env"
  obtains (ok) v' where "try_ensure_capacity_v env v n = Inr v'" "vec_ok v'" "elems v' = elems v"
      "vsize v' = vsize v" "n \<le> vcapacity v'" "vcapacity v \<le> vcapacity v'"
    | (failed) "try_ensure_capacity_v env v n = Inl ENOMEM" "\<not> can_allocate env (good_size env n)"
      "vcapacity v < n"
proof (cases "n \<le> vcapacity v")
  case True
  then show thesis using assms by (intro ok [of v]) (simp_all add: try_ensure_capacity_v_def)
next
  case False
  show thesis
  proof (cases "can_allocate env (good_size env n)")
    case True
    let ?c = "good_size env n"
    let ?v = "v\<lparr>slots := transfer (replicate ?c None) 0 (slots v) 0 (vsize v), outline := True, vcapacity := ?c\<rparr>"
    have c: "n \<le> ?c" "?c \<le> size_max" using assms(2) True by (auto simp: alloc_ok_def)
    have size: "vsize v \<le> ?c" using vec_okD(1) [OF assms(1)] False c(1) by simp
    have "vec_ok ?v \<and> elems ?v = elems v"
      using size c vec_okD(4) [OF assms(1)] by (intro vec_from_slots) (simp_all add: nth_transfer)
    moreover have "try_ensure_capacity_v env v n = Inr ?v"
      using False True by (simp add: try_ensure_capacity_v_def Let_def)
    ultimately show thesis using c False by (intro ok [of ?v]) auto
  next
    case f: False
    then show thesis using False by (intro failed) (auto simp: try_ensure_capacity_v_def Let_def)
  qed
qed

lemma padded_capacity_ge: "n \<le> padded_capacity n"
  by (simp add: padded_capacity_def)

lemma vec_grow_result:
  assumes "vec_ok v" and "alloc_ok env"
  obtains (ok) v' where "try_grow_capacity env v n = Inr v'" "vec_ok v'" "elems v' = elems v"
      "vsize v' = vsize v" "n \<le> vcapacity v'"
    | (failed) "try_grow_capacity env v n = Inl ENOMEM" "vcapacity v < n"
      "\<not> can_allocate env (good_size env (padded_capacity n))"
proof (cases "n \<le> vcapacity v")
  case True
  then show thesis using assms by (intro ok [of v]) (simp_all add: try_grow_capacity_def)
next
  case False
  from assms show thesis
    by (cases rule: vec_ensure_result [of v env "padded_capacity n"])
      (use False padded_capacity_ge [of n] in
        \<open>auto simp: try_grow_capacity_def intro: ok failed\<close>)
qed

text \<open>The vector is full for \<open>n\<close> elements and the padded allocation for them fails.\<close>

definition out_of_memory :: "allocator \<Rightarrow> 'a vec \<Rightarrow> nat \<Rightarrow> bool" where
  "out_of_memory env v n \<longleftrightarrow>
     vcapacity v < n \<and> \<not> can_allocate env (good_size env (padded_capacity n))"

text \<open>What a growing operation does with the grown vector, or the allocation error.\<close>

lemma after_growth:
  assumes "vec_ok v" and "alloc_ok env"
    and "\<And>v'. vec_ok v' \<Longrightarrow> elems v' = elems v \<Longrightarrow> vsize v' = vsize v \<Longrightarrow> n \<le> vcapacity v' \<Longrightarrow>
               \<exists>r. f v' = Inr r \<and> P r"
  shows "try_then (try_grow_capacity env v n) f = Inl ENOMEM \<and> out_of_memory env v n \<or>
         (\<exists>r. try_then (try_grow_capacity env v n) f = Inr r \<and> P r)"
  using assms(1,2) by (cases rule: vec_grow_result [of v env n]) (auto simp: out_of_memory_def dest: assms(3))

section \<open>Adding elements\<close>

lemma append_slot:
  assumes "vec_ok v" and "vsize v < vcapacity v"
  shows "vec_ok ((put_slot v (vsize v) x)\<lparr>vsize := vsize v + 1\<rparr>) \<and>
         elems ((put_slot v (vsize v) x)\<lparr>vsize := vsize v + 1\<rparr>) = elems v @ [x]"
  using vec_okD [OF assms(1)] assms(2)
  by (intro vec_from_slots) (auto simp: put_slot_def nth_list_update nth_append less_Suc_eq)

lemma try_append_result:
  assumes "vec_ok v" and "alloc_ok env"
  shows "try_append env v x = Inl ENOMEM \<and> out_of_memory env v (vsize v + 1) \<or>
         (\<exists>v'. try_append env v x = Inr v' \<and> vec_ok v' \<and> elems v' = elems v @ [x])"
  unfolding try_append_def using assms
  by (rule after_growth) (use append_slot in force)

lemma append_slots:
  assumes "vec_ok v" and "vsize v + n \<le> vcapacity v" and "length ys = n"
    and "\<And>i. i < n \<Longrightarrow> src ! i = Some (ys ! i)"
  defines "v' \<equiv> v\<lparr>slots := transfer (slots v) (vsize v) src 0 n, vsize := vsize v + n\<rparr>"
  shows "vec_ok v' \<and> elems v' = elems v @ ys"
  unfolding v'_def using vec_okD [OF assms(1)] assms(2-4)
  by (intro vec_from_slots) (auto simp: nth_transfer nth_append)

lemma try_append_values_result:
  assumes "vec_ok v" and "alloc_ok env"
  shows "try_append_values env v xs = Inl ENOMEM \<and> out_of_memory env v (vsize v + length xs) \<or>
         (\<exists>v'. try_append_values env v xs = Inr v' \<and> vec_ok v' \<and> elems v' = elems v @ xs)"
proof (cases "length xs = 0")
  case True
  then show ?thesis using assms by (simp add: try_append_values_def)
next
  case False
  then have eq: "try_append_values env v xs =
      try_then (try_grow_capacity env v (vsize v + length xs)) (\<lambda>v.
        Inr (v\<lparr>slots := transfer (slots v) (vsize v) (map Some xs) 0 (length xs),
               vsize := vsize v + length xs\<rparr>))"
    by (simp add: try_append_values_def)
  show ?thesis
    unfolding eq using assms
    by (rule after_growth) (use append_slots [of _ "length xs" xs "map Some xs"] in fastforce)
qed

lemma try_extend_result:
  assumes "vec_ok v" and "vec_ok other" and "alloc_ok env"
  shows "try_extend env v other = Inl ENOMEM \<and> out_of_memory env v (vsize v + vsize other) \<or>
         (\<exists>v'. try_extend env v other = Inr v' \<and> vec_ok v' \<and> elems v' = elems v @ elems other)"
  unfolding try_extend_def using assms(1,3)
  by (rule after_growth)
    (use append_slots [of _ "vsize other" "elems other" "slots other"] vec_okD(4) [OF assms(2)] in fastforce)

lemma insert_slot:
  assumes "vec_ok v" and "vsize v < vcapacity v" and "index < vsize v"
  shows "vec_ok (put_slot (make_room triv v index) index x) \<and>
         elems (put_slot (make_room triv v index) index x) = take index (elems v) @ x # drop index (elems v)"
proof (rule vec_from_slots)
  let ?m = "make_room triv v index"
  note ok = vec_okD [OF assms(1)]
  fix i
  assume "i < length (take index (elems v) @ x # drop index (elems v))"
  then have i: "i < Suc (vsize v)" "i < length (slots v)" using assms(2,3) ok(2) by auto
  have len: "length (slots ?m) = length (slots v)" by (simp add: make_room_def Let_def)
  have moved: "slots ?m ! i = (if index < i then slots v ! (i - 1) else slots v ! i)" if "i \<noteq> index"
    using i that assms(2,3) ok(2) by (auto simp: make_room_def Let_def nth_transfer nth_move_up)
  show "slots (put_slot ?m index x) ! i
      = Some ((take index (elems v) @ x # drop index (elems v)) ! i)"
  proof (cases "i = index")
    case True
    then show ?thesis using i assms(3) by (simp add: put_slot_def len nth_append)
  next
    case False
    then have "slots (put_slot ?m index x) ! i = slots ?m ! i" by (simp add: put_slot_def)
    with False moved ok(4) [of i] ok(4) [of "i - 1"] i assms(3) show ?thesis
      by (auto simp: nth_append nth_Cons')
  qed
qed (use vec_okD [OF assms(1)] assms(2,3) in \<open>auto simp: put_slot_def make_room_def Let_def\<close>)

lemma try_insert_result:
  assumes "vec_ok v" and "alloc_ok env"
  shows "index > vsize v \<and> try_insert env triv v index x = Inl EINVAL \<or>
         index \<le> vsize v \<and> try_insert env triv v index x = Inl ENOMEM \<and> out_of_memory env v (vsize v + 1) \<or>
         index \<le> vsize v \<and> (\<exists>v'. try_insert env triv v index x = Inr v' \<and> vec_ok v' \<and>
            elems v' = take index (elems v) @ x # drop index (elems v))"
proof -
  consider "index > vsize v" | "index = vsize v" | "index < vsize v" by linarith
  then show ?thesis
  proof cases
    case 1
    then show ?thesis by (simp add: try_insert_def)
  next
    case 2
    then show ?thesis using try_append_result [OF assms, of x] by (simp add: try_insert_def)
  next
    case 3
    then have eq: "try_insert env triv v index x = try_then (try_grow_capacity env v (vsize v + 1))
        (\<lambda>v. Inr (put_slot (make_room triv v index) index x))"
      by (simp add: try_insert_def)
    have "try_insert env triv v index x = Inl ENOMEM \<and> out_of_memory env v (vsize v + 1) \<or>
          (\<exists>v'. try_insert env triv v index x = Inr v' \<and> vec_ok v' \<and>
            elems v' = take index (elems v) @ x # drop index (elems v))"
      unfolding eq using assms
    proof (rule after_growth)
      fix v'
      assume "vec_ok v'" "elems v' = elems v" "vsize v' = vsize v" "vsize v + 1 \<le> vcapacity v'"
      then show "\<exists>r. Inr (put_slot (make_room triv v' index) index x) = Inr r \<and> vec_ok r \<and>
          elems r = take index (elems v) @ x # drop index (elems v)"
        using insert_slot [of v' index triv x] 3 by simp
    qed
    with 3 show ?thesis by auto
  qed
qed

lemma prepend_slots:
  assumes "vec_ok v" and "vsize v + n \<le> vcapacity v" and "0 < n" and "length ys = n"
    and "\<And>i. i < n \<Longrightarrow> src ! i = Some (ys ! i)" and "length up = length (slots v)"
    and "\<And>i. n \<le> i \<Longrightarrow> i < vsize v + n \<Longrightarrow> up ! i = slots v ! (i - n)"
  defines "v' \<equiv> v\<lparr>slots := transfer up 0 src 0 n, vsize := vsize v + n\<rparr>"
  shows "vec_ok v' \<and> elems v' = ys @ elems v"
  unfolding v'_def using vec_okD [OF assms(1)] assms(2-7)
  by (intro vec_from_slots) (auto simp: nth_transfer nth_append)

lemma try_prepend_values_result:
  assumes "vec_ok v" and "alloc_ok env"
  shows "try_prepend_values env v xs = Inl ENOMEM \<and> out_of_memory env v (vsize v + length xs) \<or>
         (\<exists>v'. try_prepend_values env v xs = Inr v' \<and> vec_ok v' \<and> elems v' = xs @ elems v)"
proof (cases "length xs = 0")
  case True
  then show ?thesis using assms by (simp add: try_prepend_values_def)
next
  case False
  then have eq: "try_prepend_values env v xs = try_then (try_grow_capacity env v (vsize v + length xs)) (\<lambda>v.
        Inr (v\<lparr>slots := transfer (transfer (slots v) (length xs) (slots v) 0 (vsize v)) 0 (map Some xs) 0 (length xs),
               vsize := vsize v + length xs\<rparr>))"
    by (simp add: try_prepend_values_def Let_def)
  show ?thesis
    unfolding eq using assms
  proof (rule after_growth)
    fix v'
    assume v': "vec_ok v'" "elems v' = elems v" "vsize v' = vsize v" "vsize v + length xs \<le> vcapacity v'"
    let ?up = "transfer (slots v') (length xs) (slots v') 0 (vsize v')"
    have "?up ! i = slots v' ! (i - length xs)" if "length xs \<le> i" "i < vsize v' + length xs" for i
      using that v'(3,4) vec_okD(2) [OF v'(1)] by (simp add: nth_transfer)
    with v' False show "\<exists>r. Inr (v'\<lparr>slots := transfer ?up 0 (map Some xs) 0 (length xs),
        vsize := vsize v' + length xs\<rparr>) = Inr r \<and> vec_ok r \<and> elems r = xs @ elems v"
      using prepend_slots [of v' "length xs" xs "map Some xs" ?up] by simp
  qed
qed

lemma move_assign_result:
  assumes "vec_ok other" and "\<not> outline other \<Longrightarrow> vcapacity other \<le> ic"
  shows "vec_ok (move_assign ic v other) \<and> elems (move_assign ic v other) = elems other"
  using vec_okD [OF assms(1)] assms(2)
  by (intro vec_from_slots) (auto simp: move_assign_def nth_transfer)

lemma vec_empty_ok: "ic \<le> size_max \<Longrightarrow> vec_ok (vec_empty ic)" and elems_vec_empty: "elems (vec_empty ic) = []"
  by (simp_all add: vec_ok_def vec_empty_def elems_def)

lemma try_prepend_move_result:
  assumes "vec_ok v" and "vec_ok other" and "alloc_ok env" and "\<not> outline other \<Longrightarrow> vcapacity other \<le> ic"
  shows "try_prepend_move env ic v other = Inl ENOMEM \<and> out_of_memory env v (vsize v + vsize other) \<or>
         (\<exists>v' other'. try_prepend_move env ic v other = Inr (v', other') \<and> vec_ok v' \<and>
            elems v' = elems other @ elems v \<and> elems other' = [])"
proof -
  have nil: "vsize w = 0 \<Longrightarrow> elems w = []" for w :: "'a vec" by (simp add: elems_def)
  consider "vsize other = 0" | "0 < vsize other" "vsize v = 0" | "0 < vsize other" "0 < vsize v" by auto
  then show ?thesis
  proof cases
    case 1
    then show ?thesis using assms(1) nil by (simp add: try_prepend_move_def vec_is_empty_def)
  next
    case 2
    then show ?thesis
      using move_assign_result [OF assms(2,4), of v] nil elems_vec_empty
      by (simp add: try_prepend_move_def vec_is_empty_def)
  next
    case 3
    let ?n = "vsize other"
    let ?f = "\<lambda>v. v\<lparr>slots := transfer (move_up (slots v) ?n 0 (vsize v)) 0 (slots other) 0 ?n, vsize := vsize v + ?n\<rparr>"
    have eq: "try_prepend_move env ic v other
        = try_then (try_grow_capacity env v (vsize v + ?n)) (\<lambda>v. Inr (?f v, vec_empty ic))"
      using 3 by (simp add: try_prepend_move_def vec_is_empty_def Let_def)
    have "try_prepend_move env ic v other = Inl ENOMEM \<and> out_of_memory env v (vsize v + ?n) \<or>
        (\<exists>r. try_prepend_move env ic v other = Inr r \<and> vec_ok (fst r) \<and>
          elems (fst r) = elems other @ elems v \<and> elems (snd r) = [])"
      unfolding eq using assms(1,3)
    proof (rule after_growth)
      fix v'
      assume v': "vec_ok v'" "elems v' = elems v" "vsize v' = vsize v" "vsize v + ?n \<le> vcapacity v'"
      let ?up = "move_up (slots v') ?n 0 (vsize v')"
      have "?up ! i = slots v' ! (i - ?n)" if "?n \<le> i" "i < vsize v' + ?n" for i
        using that 3 v'(3,4) vec_okD(2) [OF v'(1)] by (simp add: nth_move_up)
      then have "vec_ok (?f v') \<and> elems (?f v') = elems other @ elems v"
        using prepend_slots [of v' ?n "elems other" "slots other" ?up] v' 3(1) vec_okD(4) [OF assms(2)]
        by simp
      then show "\<exists>r. Inr (?f v', vec_empty ic) = Inr r \<and> vec_ok (fst r) \<and>
          elems (fst r) = elems other @ elems v \<and> elems (snd r) = []"
        by (simp add: elems_vec_empty)
    qed
    then show ?thesis by auto
  qed
qed

text \<open>
  \<open>try_extend(Vector&&)\<close>: on success the elements are appended and \<open>other\<close> is empty; on failure \<open>other\<close>
  has lost its elements.
\<close>

lemma try_extend_move_result:
  assumes "vec_ok v" and "vec_ok other" and "alloc_ok env" and "\<not> outline other \<Longrightarrow> vcapacity other \<le> ic"
  shows "try_extend_move env ic v other = (Some ENOMEM, v, vec_empty ic) \<or>
         (\<exists>v'. try_extend_move env ic v other = (None, v', vec_empty ic) \<and> vec_ok v' \<and>
               elems v' = elems v @ elems other)"
proof (cases "vec_is_empty v \<and> vcapacity v \<le> vcapacity other")
  case True
  then show ?thesis
    using move_assign_result [OF assms(2,4), of v]
    by (simp add: try_extend_move_def vec_is_empty_def elems_def)
next
  case False
  from assms(1,3) show ?thesis
  proof (cases rule: vec_grow_result [of v env "vsize v + vsize other"])
    case (ok v')
    with False show ?thesis
      using append_slots [of v' "vsize other" "elems other" "slots other"] vec_okD(4) [OF assms(2)]
      by (auto simp: try_extend_move_def)
  next
    case failed
    with False show ?thesis by (auto simp: try_extend_move_def)
  qed
qed

lemma copy_into_result:
  assumes "vec_ok v" and "vec_ok other" and "alloc_ok env"
  shows "copy_into env v other = Inl VerifyFailed \<or>
         (\<exists>v'. copy_into env v other = Inr v' \<and> vec_ok v' \<and> elems v' = elems other)"
  using assms(1,3)
proof (cases rule: vec_ensure_result [of v env "vsize other"])
  case (ok v')
  let ?v = "v'\<lparr>slots := transfer (slots v') 0 (slots other) 0 (vsize other), vsize := vsize other\<rparr>"
  have "vec_ok ?v \<and> elems ?v = elems other"
    using vec_okD [OF ok(2)] vec_okD(4) [OF assms(2)] ok(5)
    by (intro vec_from_slots) (auto simp: nth_transfer)
  then show ?thesis using ok(1) by (simp add: copy_into_def)
qed (simp add: copy_into_def)

lemma append_list_result:
  assumes "vec_ok v" and "vsize v + length xs \<le> vcapacity v"
  shows "\<exists>v'. append_list v xs = Inr v' \<and> vec_ok v' \<and> elems v' = elems v @ xs"
  using assms
proof (induction xs arbitrary: v)
  case Nil
  then show ?case by simp
next
  case (Cons x xs)
  let ?v = "(put_slot v (vsize v) x)\<lparr>vsize := vsize v + 1\<rparr>"
  have v: "vec_ok ?v" "elems ?v = elems v @ [x]" "vsize ?v = vsize v + 1" "vcapacity ?v = vcapacity v"
    using append_slot [OF Cons.prems(1)] Cons.prems(2) by (simp_all add: put_slot_def)
  with Cons.IH [OF v(1)] Cons.prems(2) show ?case by (simp add: unchecked_append_def)
qed

lemma vec_of_list_result:
  assumes "alloc_ok env" and "ic \<le> size_max"
  shows "vec_of_list env ic xs = Inl VerifyFailed \<or>
         (\<exists>v'. vec_of_list env ic xs = Inr v' \<and> vec_ok v' \<and> elems v' = xs)"
proof -
  let ?e = "(vec_empty ic)\<lparr>vcapacity := 0\<rparr> :: 'a vec"
  have e: "vec_ok ?e" "vsize ?e = 0" by (simp_all add: vec_ok_def vec_empty_def)
  from e(1) assms(1) show ?thesis
  proof (cases rule: vec_ensure_result [of ?e env "length xs"])
    case (ok v')
    moreover from this obtain w where "append_list v' xs = Inr w" "vec_ok w" "elems w = elems v' @ xs"
      using append_list_result [of v' xs] e(2) by auto
    moreover have "elems v' = []" using ok(4) e(2) by (simp add: elems_def)
    ultimately show ?thesis by (simp add: vec_of_list_def)
  qed (simp add: vec_of_list_def)
qed

section \<open>Removing elements\<close>

lemma remove_slots:
  assumes "vec_ok v" and "0 < n" and "index + n \<le> vsize v" and "length s = length (slots v)"
    and "\<And>j. j < vsize v - n \<Longrightarrow> s ! j = (if j < index then slots v ! j else slots v ! (j + n))"
  defines "v' \<equiv> v\<lparr>slots := s, vsize := vsize v - n\<rparr>"
  shows "vec_ok v' \<and> elems v' = take index (elems v) @ drop (index + n) (elems v)"
proof -
  note ok = vec_okD [OF assms(1)]
  have "s ! j = Some ((take index (elems v) @ drop (index + n) (elems v)) ! j)"
    if "j < vsize v - n" for j
    using that assms(3,5) ok(4) [of j] ok(4) [of "j + n"]
    by (auto simp: nth_append add.commute)
  then show ?thesis
    unfolding v'_def using ok(1-3) assms(3,4) by (intro vec_from_slots) auto
qed

lemma remove_count_result:
  assumes "vec_ok v" and "index \<le> size_max" and "cnt \<le> size_max"
  shows "0 < cnt \<Longrightarrow> vsize v < index + cnt \<Longrightarrow> remove_count triv v index cnt = Inl VerifyFailed"
    and "0 < cnt \<Longrightarrow> index + cnt \<le> vsize v \<Longrightarrow>
      \<exists>v'. remove_count triv v index cnt = Inr v' \<and> vec_ok v' \<and>
           elems v' = take index (elems v) @ drop (index + cnt) (elems v)"
proof -
  note ok = vec_okD [OF assms(1)]
  have wrap: "(index + cnt) mod Suc size_max = (if index + cnt \<le> size_max then index + cnt
      else index + cnt - Suc size_max)"
    using assms(2,3) by (auto simp: mod_if le_mod_geq)
  show "remove_count triv v index cnt = Inl VerifyFailed"
    if "0 < cnt" "vsize v < index + cnt"
    using that ok(1,3) assms(2,3) by (auto simp: remove_count_def wrap verify_def)
  assume c: "0 < cnt" "index + cnt \<le> vsize v"
  then have in_range: "(index + cnt) mod Suc size_max = index + cnt"
    using wrap ok(1,3) by auto
  let ?s = "if triv then transfer (slots v) index (slots v) (index + cnt) (vsize v - index - cnt)
      else move_down (map (\<lambda>j. if index \<le> j \<and> j < index + cnt then None else slots v ! j) [0..<length (slots v)])
             cnt index (vsize v - index - cnt)"
  have "?s ! j = (if j < index then slots v ! j else slots v ! (j + cnt))" if "j < vsize v - cnt" for j
    using that c ok(1,2) by (auto simp: nth_transfer nth_move_down add.commute add.left_commute)
  from remove_slots [OF assms(1) c _ this]
  show "\<exists>v'. remove_count triv v index cnt = Inr v' \<and> vec_ok v' \<and>
           elems v' = take index (elems v) @ drop (index + cnt) (elems v)"
    using c in_range by (simp add: remove_count_def)
qed

lemma remove_index_result:
  assumes "vec_ok v" and "index < vsize v"
  shows "\<exists>v'. remove_index triv v index = Inr v' \<and> vec_ok v' \<and> vsize v' = vsize v - 1 \<and>
              elems v' = take index (elems v) @ drop (Suc index) (elems v)"
proof -
  note ok = vec_okD [OF assms(1)]
  let ?s = "if triv then transfer (slots v) index (slots v) (index + 1) (vsize v - index - 1)
      else move_down ((slots v)[index := None]) 1 index (vsize v - index - 1)"
  have "?s ! j = (if j < index then slots v ! j else slots v ! (j + 1))" if "j < vsize v - 1" for j
    using that assms(2) ok(1,2) by (auto simp: nth_transfer nth_move_down nth_list_update)
  from remove_slots [OF assms(1) _ _ _ this] assms(2)
  show ?thesis by (simp add: remove_index_def)
qed

lemma remove_index_out_of_range: "vsize v \<le> index \<Longrightarrow> remove_index triv v index = Inl VerifyFailed"
  by (simp add: remove_index_def)

lemma find_index_elems:
  "List.find (\<lambda>i. P (raw_at v i)) [0..<vsize v] = List.find (\<lambda>i. P (elems v ! i)) [0..<length (elems v)]"
proof -
  have "List.find (\<lambda>i. P (raw_at v i)) js = List.find (\<lambda>i. P (elems v ! i)) js"
    if "\<forall>j \<in> set js. j < vsize v" for js
    using that by (induction js) auto
  then show ?thesis by simp
qed

lemma find_first_upt:
  fixes P :: "nat \<Rightarrow> bool"
  shows "case List.find P [0..<n] of None \<Rightarrow> \<forall>i < n. \<not> P i | Some i \<Rightarrow> i < n \<and> P i \<and> (\<forall>j < i. \<not> P j)"
proof (induction n)
  case (Suc n)
  then show ?case by (auto simp: find_append less_Suc_eq split: option.splits)
qed simp

lemma remove_first_matching_result:
  assumes "vec_ok v"
  shows "(\<forall>x \<in> set (elems v). \<not> P x) \<and> remove_first_matching triv P v = Inr (v, False) \<or>
         (\<exists>xs x ys v'. elems v = xs @ x # ys \<and> P x \<and> (\<forall>y \<in> set xs. \<not> P y) \<and>
            remove_first_matching triv P v = Inr (v', True) \<and> vec_ok v' \<and> elems v' = xs @ ys)"
proof (cases "List.find (\<lambda>i. P (raw_at v i)) [0..<vsize v]")
  case None
  then show ?thesis
    using find_first_upt [where P = "\<lambda>i. P (raw_at v i)" and n = "vsize v"]
    by (auto simp: remove_first_matching_def elems_def)
next
  case (Some i)
  then have i: "i < vsize v" "P (raw_at v i)" "\<forall>j < i. \<not> P (raw_at v j)"
    using find_first_upt [where P = "\<lambda>i. P (raw_at v i)" and n = "vsize v"] by auto
  obtain v' where "remove_index triv v i = Inr v'" "vec_ok v'"
      "elems v' = take i (elems v) @ drop (Suc i) (elems v)"
    using remove_index_result [OF assms i(1)] by blast
  moreover have "elems v = take i (elems v) @ raw_at v i # drop (Suc i) (elems v)"
    using i(1) id_take_nth_drop [of i "elems v"] by simp
  moreover have "\<forall>y \<in> set (take i (elems v)). \<not> P y"
    using i by (auto simp: in_set_conv_nth)
  ultimately show ?thesis using Some i(2) by (fastforce simp: remove_first_matching_def)
qed

lemma remove_matching_from_result:
  assumes "vec_ok v" and "i \<le> vsize v"
  shows "\<exists>v'. remove_matching_from triv P i something v
        = Inr (v', something \<or> (\<exists>x \<in> set (drop i (elems v)). P x)) \<and> vec_ok v' \<and>
      elems v' = take i (elems v) @ filter (\<lambda>x. \<not> P x) (drop i (elems v))"
  using assms
proof (induction triv P i something v rule: remove_matching_from.induct)
  case (1 triv P i something v)
  show ?case
  proof (cases "i < vsize v")
    case False
    then show ?thesis using "1.prems" by (subst remove_matching_from.simps) simp
  next
    case True
    have split: "drop i (elems v) = raw_at v i # drop (Suc i) (elems v)"
      using True by (simp flip: Cons_nth_drop_Suc)
    show ?thesis
    proof (cases "P (raw_at v i)")
      case P: True
      obtain v' where v': "remove_index triv v i = Inr v'" "vec_ok v'" "vsize v' = vsize v - 1"
          "elems v' = take i (elems v) @ drop (Suc i) (elems v)"
        using remove_index_result [OF "1.prems"(1) True] by blast
      have "take i (elems v') = take i (elems v)" "drop i (elems v') = drop (Suc i) (elems v)"
        using True by (simp_all add: v'(4))
      with "1.IH"(1) [OF True P v'(1,2)] True P v' split show ?thesis
        by (subst remove_matching_from.simps) auto
    next
      case P: False
      with "1.IH"(2) [OF True P "1.prems"(1)] True split show ?thesis
        by (subst remove_matching_from.simps) (auto simp: take_Suc_conv_app_nth)
    qed
  qed
qed

lemma take_last_result:
  assumes "vec_ok v" and "0 < vsize v"
  shows "\<exists>v'. take_last v = Inr (last (elems v), v') \<and> vec_ok v' \<and> elems v' = butlast (elems v)"
proof -
  let ?v = "v\<lparr>slots := (slots v)[vsize v - 1 := None], vsize := vsize v - 1\<rparr>"
  have "vec_ok ?v \<and> elems ?v = butlast (elems v)"
    using vec_okD [OF assms(1)] by (intro vec_from_slots) (auto simp: nth_butlast)
  moreover have "last (elems v) = raw_at v (vsize v - 1)"
    using assms(2) by (subst last_conv_nth) (auto simp flip: length_0_conv)
  ultimately show ?thesis using assms(2) by (simp add: take_last_def vec_is_empty_def)
qed

lemma take_index_result:
  assumes "vec_ok v" and "i < vsize v"
  shows "\<exists>v'. take_index triv v i = Inr (elems v ! i, v') \<and> vec_ok v' \<and>
              elems v' = take i (elems v) @ drop (Suc i) (elems v)"
  using remove_index_result [OF assms, of triv] assms(2) by (auto simp: take_index_def)

lemma take_first_result:
  assumes "vec_ok v" and "0 < vsize v"
  shows "\<exists>v'. take_first triv v = Inr (hd (elems v), v') \<and> vec_ok v' \<and> elems v' = tl (elems v)"
proof -
  have "hd (elems v) = raw_at v 0" using assms(2) by (subst hd_conv_nth) (auto simp flip: length_0_conv)
  then show ?thesis
    using remove_index_result [OF assms, of triv] assms(2)
    by (auto simp: take_first_def vec_is_empty_def drop_Suc)
qed

lemma swap_slots:
  assumes "vec_ok v" and "i < vsize v" and "j < vsize v"
  shows "vec_ok (v\<lparr>slots := swap_at (slots v) i j\<rparr>) \<and>
         elems (v\<lparr>slots := swap_at (slots v) i j\<rparr>) = swap_at (elems v) i j"
  using vec_okD [OF assms(1)] assms(2,3)
  by (intro vec_from_slots) (auto simp: nth_swap_at)

lemma unstable_take_result:
  assumes "vec_ok v" and "i < vsize v"
  shows "\<exists>v'. unstable_take v i = Inr (elems v ! i, v') \<and> vec_ok v' \<and>
              elems v' = butlast (swap_at (elems v) i (vsize v - 1))"
proof -
  let ?v = "v\<lparr>slots := swap_at (slots v) i (vsize v - 1)\<rparr>"
  have sw: "vec_ok ?v" "elems ?v = swap_at (elems v) i (vsize v - 1)"
    using swap_slots [OF assms, of "vsize v - 1"] assms(2) by simp_all
  have "last (swap_at (elems v) i (vsize v - 1)) = elems v ! i"
    using assms(2) by (subst last_conv_nth) (auto simp: nth_swap_at simp flip: length_0_conv)
  with take_last_result [OF sw(1)] assms(2) sw(2) show ?thesis by (simp add: unstable_take_def)
qed

section \<open>Resizing and reversing\<close>

lemma clear_with_capacity_result:
  "vec_ok v \<Longrightarrow> vec_ok (clear_with_capacity_v v) \<and> elems (clear_with_capacity_v v) = []"
  by (auto simp: vec_ok_def clear_with_capacity_v_def elems_def)

lemma clear_result:
  assumes "vec_ok v" and "ic \<le> size_max" and "\<not> outline v \<Longrightarrow> length (slots v) = ic"
  shows "vec_ok (clear_v ic v) \<and> elems (clear_v ic v) = []"
  using assms by (auto simp: clear_v_def vec_ok_def vec_empty_def clear_with_capacity_v_def elems_def)

lemma shrink_result:
  assumes "vec_ok v" and "n \<le> vsize v" and "ic \<le> size_max" and "\<not> outline v \<Longrightarrow> length (slots v) = ic"
  shows "\<exists>v'. shrink ic v n keep = Inr v' \<and> vec_ok v' \<and> elems v' = take n (elems v)"
proof -
  note ok = vec_okD [OF assms(1)]
  let ?v = "v\<lparr>slots := map (\<lambda>j. if n \<le> j \<and> j < vsize v then None else slots v ! j) [0..<length (slots v)], vsize := n\<rparr>"
  have "vec_ok ?v \<and> elems ?v = take n (elems v)"
    using ok assms(2) by (intro vec_from_slots) auto
  then show ?thesis
    using assms clear_result [OF assms(1,3,4)] clear_with_capacity_result [OF assms(1)]
    by (auto simp: shrink_def)
qed

lemma try_resize_result:
  assumes "vec_ok v" and "alloc_ok env" and "ic \<le> size_max" and "\<not> outline v \<Longrightarrow> length (slots v) = ic"
  shows "try_resize env ic d v n keep = Inl ENOMEM \<and> vcapacity v < n \<and> \<not> can_allocate env (good_size env n) \<or>
         (\<exists>v'. try_resize env ic d v n keep = Inr v' \<and> vec_ok v' \<and>
               elems v' = take n (elems v) @ replicate (n - vsize v) d)"
proof (cases "n \<le> vsize v")
  case True
  then show ?thesis using shrink_result [OF assms(1) True assms(3,4), of keep] by (simp add: try_resize_def)
next
  case False
  from assms(1,2) show ?thesis
  proof (cases rule: vec_ensure_result [of v env n])
    case (ok v')
    let ?v = "v'\<lparr>slots := map (\<lambda>j. if vsize v' \<le> j \<and> j < n then Some d else slots v' ! j)
        [0..<length (slots v')], vsize := n\<rparr>"
    have "vec_ok ?v \<and> elems ?v = elems v @ replicate (n - vsize v) d"
      using vec_okD [OF ok(2)] ok(3-5) False
      by (intro vec_from_slots) (auto simp: nth_append simp flip: ok(3))
    then show ?thesis using False ok(1) by (simp add: try_resize_def)
  next
    case failed
    then show ?thesis using False by (simp add: try_resize_def)
  qed
qed

lemma length_reverse_steps [simp]: "length (reverse_steps n k s) = length s"
  by (induction n k s rule: reverse_steps.induct) (simp_all add: Let_def)

lemma nth_reverse_steps:
  assumes "k \<le> n div 2" and "n \<le> length s" and "j < n"
  shows "reverse_steps n k s ! j = (if j < k \<or> n - k \<le> j then s ! (n - 1 - j) else s ! j)"
  using assms
proof (induction k arbitrary: j)
  case (Suc k)
  have swap: "reverse_steps n (Suc k) s ! j =
      (if j = k then reverse_steps n k s ! (n - k - 1)
       else if j = n - k - 1 then reverse_steps n k s ! k else reverse_steps n k s ! j)"
    using Suc.prems by (simp add: Let_def nth_swap_at)
  have IH: "\<And>j. j < n \<Longrightarrow> reverse_steps n k s ! j = (if j < k \<or> n - k \<le> j then s ! (n - 1 - j) else s ! j)"
    using Suc by auto
  consider "j = k" | "j = n - k - 1" "j \<noteq> k" | "j \<noteq> k" "j \<noteq> n - k - 1" by blast
  then show ?case
  proof cases
    case 1
    then have "reverse_steps n (Suc k) s ! j = s ! (n - k - 1)" using swap Suc.prems IH [of "n - k - 1"] by auto
    with 1 show ?thesis by (simp add: diff_commute)
  next
    case 2
    then have "reverse_steps n (Suc k) s ! j = s ! k" using swap Suc.prems IH [of k] by auto
    moreover have "n - 1 - j = k" "n - Suc k \<le> j" using 2 Suc.prems by auto
    ultimately show ?thesis by simp
  next
    case 3
    then have "j < k \<or> n - k \<le> j \<longleftrightarrow> j < Suc k \<or> n - Suc k \<le> j" by auto
    with 3 show ?thesis using swap IH [OF Suc.prems(3)] by simp
  qed
qed simp

lemma vec_reverse_result:
  assumes "vec_ok v"
  shows "vec_ok (vec_reverse v) \<and> elems (vec_reverse v) = rev (elems v)"
proof -
  note ok = vec_okD [OF assms]
  have "reverse_steps (vsize v) (vsize v div 2) (slots v) ! i = Some (rev (elems v) ! i)" if "i < vsize v" for i
  proof (cases "i < vsize v div 2 \<or> vsize v - vsize v div 2 \<le> i")
    case True
    then show ?thesis
      using that ok(1,2) ok(4) [of "vsize v - 1 - i"] by (simp add: nth_reverse_steps rev_nth)
  next
    case False
    then have "vsize v - Suc i = i" by auto
    with False that ok show ?thesis by (simp add: nth_reverse_steps rev_nth)
  qed
  then show ?thesis
    unfolding vec_reverse_def using ok by (intro vec_from_slots) auto
qed

section \<open>Reading\<close>

lemma vec_at_result: "vec_at v i = (if i < length (elems v) then Inr (elems v ! i) else Inl VerifyFailed)"
  by (simp add: vec_at_def verify_def)

lemma vec_last_result:
  "vec_ok v \<Longrightarrow> vec_last v = (if elems v = [] then Inl VerifyFailed else Inr (last (elems v)))"
  using vec_okD(1,3) [of v]
  by (auto simp: vec_last_def last_index_def vec_at_result last_conv_nth simp flip: length_0_conv)

lemma contains_slow_result: "contains_slow eq v x \<longleftrightarrow> (\<exists>y \<in> set (elems v). eq y x)"
  by (auto simp: contains_slow_def list_ex_iff elems_def)

lemma vec_equals_result: "vec_equals (=) a b \<longleftrightarrow> elems a = elems b"
  by (auto simp: vec_equals_def list_all_iff list_eq_iff_nth_eq)

lemma first_matching_result: "first_matching P v = List.find P (elems v)"
proof -
  have "map_option f (List.find (P \<circ> f) js) = List.find P (map f js)" for f :: "nat \<Rightarrow> 'a" and js
    by (induction js) auto
  then show ?thesis by (simp add: first_matching_def elems_def o_def)
qed

lemma last_matching_result: "last_matching P v = List.find P (rev (elems v))"
proof -
  have "map_option f (List.find (P \<circ> f) js) = List.find P (map f js)" for f :: "nat \<Rightarrow> 'a" and js
    by (induction js) auto
  then show ?thesis by (simp add: last_matching_def elems_def o_def rev_map)
qed

end
