(* ===== verification/Vector_Properties.thy ===== *)
theory Vector_Properties
  imports Vector_Correct
begin

text \<open>
  \<open>AK/Stack.h\<close>, a stack kept in a vector of fixed inline capacity, and the properties of both.
\<close>

section \<open>Stack\<close>

definition stack_push :: "nat \<Rightarrow> 'a vec \<Rightarrow> 'a \<Rightarrow> ('a vec \<times> bool) error_or" where
  "stack_push stack_size s x =
     (if vsize s \<ge> stack_size then Inr (s, False)
      else try_then (unchecked_append s x) (\<lambda>s'. Inr (s', True)))"

definition stack_is_empty :: "'a vec \<Rightarrow> bool" where
  "stack_is_empty s \<longleftrightarrow> vec_is_empty s"

text \<open>\<open>d\<close> is \<open>T {}\<close>, which shrinking never uses.\<close>

definition stack_pop :: "allocator \<Rightarrow> nat \<Rightarrow> 'a \<Rightarrow> 'a vec \<Rightarrow> ('a vec \<times> bool) error_or" where
  "stack_pop env stack_size d s =
     (if stack_is_empty s then Inr (s, False)
      else try_then (vec_resize env stack_size d s (vsize s - 1) True) (\<lambda>s'. Inr (s', True)))"

definition stack_top :: "'a vec \<Rightarrow> 'a error_or" where
  "stack_top s = vec_last s"

text \<open>A stack of \<open>stack_size\<close> slots: the inline buffer is never left.\<close>

definition stack_ok :: "nat \<Rightarrow> 'a vec \<Rightarrow> bool" where
  "stack_ok stack_size s \<longleftrightarrow>
     vec_ok s \<and> \<not> outline s \<and> vcapacity s = stack_size \<and> length (slots s) = stack_size"

lemma stack_push_ok:
  assumes "stack_ok n s"
  shows "if vsize s < n
         then \<exists>s'. stack_push n s x = Inr (s', True) \<and> stack_ok n s' \<and> elems s' = elems s @ [x]
         else stack_push n s x = Inr (s, False)"
proof -
  let ?s = "(put_slot s (vsize s) x)\<lparr>vsize := vsize s + 1\<rparr>"
  have "vec_ok ?s \<and> elems ?s = elems s @ [x]" if "vsize s < n"
    using assms that by (intro append_slot) (simp_all add: stack_ok_def)
  then show ?thesis
    using assms by (auto simp: stack_push_def unchecked_append_def stack_ok_def put_slot_def)
qed

lemma stack_pop_ok:
  assumes "stack_ok n s"
  shows "if elems s = [] then stack_pop env n d s = Inr (s, False)
         else \<exists>s'. stack_pop env n d s = Inr (s', True) \<and> stack_ok n s' \<and> elems s' = butlast (elems s)"
proof (cases "vsize s = 0")
  case True
  then have "elems s = []" by (simp add: elems_def)
  with True show ?thesis by (simp add: stack_pop_def stack_is_empty_def vec_is_empty_def)
next
  case False
  have ok: "vec_ok s" "n \<le> size_max" "\<not> outline s \<Longrightarrow> length (slots s) = n"
    using assms vec_okD(3) [of s] by (auto simp: stack_ok_def)
  obtain s' where s': "shrink n s (vsize s - 1) True = Inr s'" "vec_ok s'" "elems s' = take (vsize s - 1) (elems s)"
    using shrink_result [OF ok(1) _ ok(2,3), of "vsize s - 1" True] by auto
  then have "\<not> outline s'" "vcapacity s' = n" "length (slots s') = n"
    using assms False by (auto simp: shrink_def clear_with_capacity_v_def stack_ok_def split: if_splits)
  with s' False show ?thesis
    by (auto simp: stack_pop_def stack_is_empty_def vec_is_empty_def vec_resize_def try_resize_def stack_ok_def
        butlast_conv_take simp flip: length_0_conv)
qed

section \<open>A concrete vector\<close>

definition sample_vec :: "nat vec" where
  "sample_vec = \<lparr>vsize = 3, vcapacity = 4, slots = [Some 7, Some 8, Some 9, None], outline = False\<rparr>"

definition sample_alloc :: allocator where
  "sample_alloc = \<lparr>can_allocate = (\<lambda>n. n < 100), good_size = (\<lambda>n. n)\<rparr>"

lemma less_3: "i < 3 \<longleftrightarrow> i = 0 \<or> i = 1 \<or> i = (2 :: nat)"
  by auto

lemma sample_elems: "elems sample_vec = [7, 8, 9]"
  by code_simp

lemma sample_vec_ok: "vec_ok sample_vec" "vsize sample_vec = 3" "vcapacity sample_vec = 4"
    "elems sample_vec = [7, 8, 9]" "\<not> outline sample_vec"
  by (auto simp: sample_elems) (auto simp: sample_vec_def vec_ok_def size_max_def less_3)

lemma sample_alloc_ok: "alloc_ok sample_alloc"
  by (simp add: alloc_ok_def sample_alloc_def size_max_def)

section \<open>Properties\<close>

text \<open>
  C7. Inserting into a vector: an index behind the end is \<open>EINVAL\<close>, a failed allocation of a full
  vector is \<open>ENOMEM\<close>, and otherwise the element stands at the index with the others around it in
  order, whether the elements are moved as bytes or one by one.
\<close>

theorem vector_insert_correct:
  assumes "vec_ok v" and "alloc_ok env"
  shows "(if index > vsize v then try_insert env triv v index x = Inl EINVAL
          else try_insert env triv v index x = Inl ENOMEM \<and> out_of_memory env v (vsize v + 1) \<or>
               (\<exists>v'. try_insert env triv v index x = Inr v' \<and> vec_ok v' \<and>
                     elems v' = take index (elems v) @ x # drop index (elems v)))"
  using try_insert_result [OF assms, of index triv x] by auto

theorem vector_insert_correct_witness:
  "\<exists>v'. try_insert sample_alloc False sample_vec 1 5 = Inr v' \<and> elems v' = [7, 5, 8, 9]"
  using vector_insert_correct [OF sample_vec_ok(1) sample_alloc_ok, of 1 False 5]
  by (auto simp: sample_vec_ok out_of_memory_def)

text \<open>
  Removing \<open>count\<close> elements from \<open>index\<close> on closes the gap and keeps the order of the others; a
  range that leaves the vector, or whose end wraps around, stops the program.
\<close>

theorem vector_remove_range_correct:
  assumes "vec_ok v" and "index \<le> size_max" and "cnt \<le> size_max" and "0 < cnt"
  shows "if index + cnt \<le> vsize v
         then \<exists>v'. remove_count triv v index cnt = Inr v' \<and> vec_ok v' \<and>
                   elems v' = take index (elems v) @ drop (index + cnt) (elems v)
         else remove_count triv v index cnt = Inl VerifyFailed"
  using remove_count_result [OF assms(1-3), of triv] assms(4) by auto

theorem vector_remove_range_correct_witness:
  "(\<exists>v'. remove_count False sample_vec 0 2 = Inr v' \<and> elems v' = [9]) \<and>
   remove_count False sample_vec 2 size_max = Inl VerifyFailed"
  using vector_remove_range_correct [OF sample_vec_ok(1), of 0 2 False]
    vector_remove_range_correct [OF sample_vec_ok(1), of 2 size_max False]
  by (auto simp: sample_vec_ok size_max_def)

text \<open>
  \<open>remove_all_matching\<close> on a vector keeps exactly the elements that do not match, in order, and
  reports whether it removed one, although it removes while it walks.
\<close>

theorem vector_remove_all_matching_correct:
  assumes "vec_ok v"
  shows "\<exists>v'. remove_all_matching_v triv P v = Inr (v', \<exists>x \<in> set (elems v). P x) \<and> vec_ok v' \<and>
              elems v' = filter (\<lambda>x. \<not> P x) (elems v)"
  using remove_matching_from_result [OF assms, of 0 triv P False] by (simp add: remove_all_matching_v_def)

theorem vector_remove_all_matching_correct_witness:
  "\<exists>v'. remove_all_matching_v True even sample_vec = Inr (v', True) \<and> elems v' = [7, 9]"
  using vector_remove_all_matching_correct [OF sample_vec_ok(1), of True even]
  by (auto simp: sample_vec_ok)

text \<open>
  Prepending another vector puts its elements in front, in order, and leaves it empty.
\<close>

theorem vector_prepend_correct:
  assumes "vec_ok v" and "vec_ok other" and "alloc_ok env" and "outline other \<or> vcapacity other \<le> ic"
  shows "try_prepend_move env ic v other = Inl ENOMEM \<and> out_of_memory env v (vsize v + vsize other) \<or>
         (\<exists>v' other'. try_prepend_move env ic v other = Inr (v', other') \<and> vec_ok v' \<and>
            elems v' = elems other @ elems v \<and> elems other' = [])"
  using try_prepend_move_result [OF assms(1-3), of ic] assms(4) by auto

theorem vector_prepend_correct_witness:
  "\<exists>v' other'. try_prepend_move sample_alloc 4 sample_vec sample_vec = Inr (v', other') \<and>
        elems v' = [7, 8, 9, 7, 8, 9] \<and> elems other' = []"
  using vector_prepend_correct [OF sample_vec_ok(1) sample_vec_ok(1) sample_alloc_ok, of 4]
  by (auto simp: sample_vec_ok out_of_memory_def padded_capacity_def sample_alloc_def)

text \<open>
  \<open>reverse\<close> on a vector reverses the list, by exchanging pairs in place.
\<close>

theorem vector_reverse_correct:
  assumes "vec_ok v"
  shows "vec_ok (vec_reverse v) \<and> elems (vec_reverse v) = rev (elems v)"
  by (rule vec_reverse_result [OF assms])

theorem vector_reverse_correct_witness: "elems (vec_reverse sample_vec) = [9, 8, 7]"
  using vector_reverse_correct [OF sample_vec_ok(1)] by (simp add: sample_vec_ok)

text \<open>
  A stack of fixed size: \<open>push\<close> is refused when it is full and \<open>pop\<close> when it is empty, and \<open>pop\<close>
  and \<open>top\<close> take back and show the element pushed last.
\<close>

theorem stack_is_last_in_first_out:
  assumes "stack_ok n s"
  shows "if vsize s < n
         then \<exists>s' s''. stack_push n s x = Inr (s', True) \<and> stack_ok n s' \<and> stack_top s' = Inr x \<and>
                       stack_pop env n d s' = Inr (s'', True) \<and> stack_ok n s'' \<and> elems s'' = elems s
         else stack_push n s x = Inr (s, False)"
proof (cases "vsize s < n")
  case True
  then obtain s' where s': "stack_push n s x = Inr (s', True)" "stack_ok n s'" "elems s' = elems s @ [x]"
    using stack_push_ok [OF assms, of x] by auto
  moreover from this have "stack_top s' = Inr x"
    using vec_last_result [of s'] by (simp add: stack_top_def stack_ok_def)
  moreover obtain s'' where "stack_pop env n d s' = Inr (s'', True)" "stack_ok n s''" "elems s'' = elems s"
    using stack_pop_ok [OF s'(2), of env d] s'(3) by auto
  ultimately show ?thesis using True by auto
next
  case False
  then show ?thesis using stack_push_ok [OF assms, of x] by auto
qed

theorem stack_is_last_in_first_out_witness:
  "\<exists>s' s''. stack_push 4 sample_vec 5 = Inr (s', True) \<and> stack_top s' = Inr 5 \<and>
            stack_pop sample_alloc 4 0 s' = Inr (s'', True) \<and> elems s'' = [7, 8, 9]"
  using stack_is_last_in_first_out [of 4 sample_vec 5 sample_alloc 0]
  by (auto simp: stack_ok_def sample_vec_ok) (auto simp: sample_vec_def)

end
