(* ===== verification/QuickSort_Unbounded.thy ===== *)
theory QuickSort_Unbounded
  imports AK_Prelude
begin

text \<open>
  The algorithms of \<open>AK/QuickSort.h\<close> on unbounded integers, where every index is inside: the reference
  that the code with its \<open>int\<close> arithmetic and checked indices computes as long as nothing overflows.
\<close>

section \<open>Indexing by int\<close>

definition col :: "'a list \<Rightarrow> int \<Rightarrow> 'a" where
  "col xs i = xs ! nat i"

definition swp :: "'a list \<Rightarrow> int \<Rightarrow> int \<Rightarrow> 'a list" where
  "swp xs i j = swap_at xs (nat i) (nat j)"

definition len :: "'a list \<Rightarrow> int" where
  "len xs = int (length xs)"

lemma length_swp [simp]: "length (swp xs i j) = length xs"
  by (simp add: swp_def)

lemma len_swp [simp]: "len (swp xs i j) = len xs"
  by (simp add: len_def)

lemma mset_swp: "0 \<le> i \<Longrightarrow> i < len xs \<Longrightarrow> 0 \<le> j \<Longrightarrow> j < len xs \<Longrightarrow> mset (swp xs i j) = mset xs"
  unfolding swp_def len_def by (intro mset_swap_at) linarith+

lemma col_swp:
  assumes "0 \<le> i" and "i < len xs" and "0 \<le> j" and "j < len xs" and "0 \<le> k" and "k < len xs"
  shows "col (swp xs i j) k = (if k = i then col xs j else if k = j then col xs i else col xs k)"
  using assms by (auto simp: col_def swp_def len_def nth_swap_at)

section \<open>Dual pivot\<close>

text \<open>The pivots are moved to the two ends of the range.\<close>

definition u_pivots :: "('a \<Rightarrow> 'a \<Rightarrow> bool) \<Rightarrow> 'a list \<Rightarrow> int \<Rightarrow> int \<Rightarrow> 'a list" where
  "u_pivots lt xs start fin =
     (let size = fin - start + 1 in
      if size > 3 then
        (let third = size div 3 in
         if lt (col xs (start + third)) (col xs (fin - third)) then
           swp (swp xs (start + third) start) (fin - third) fin
         else swp (swp xs (start + third) fin) (fin - third) start)
      else if \<not> lt (col xs start) (col xs fin) then swp xs start fin
      else xs)"

function u_skip :: "('a \<Rightarrow> 'a \<Rightarrow> bool) \<Rightarrow> 'a list \<Rightarrow> 'a \<Rightarrow> int \<Rightarrow> int \<Rightarrow> int" where
  "u_skip lt xs right k g =
     (if \<not> lt (col xs g) right \<and> k < g then u_skip lt xs right k (g - 1) else g)"
  by pat_completeness auto
termination by (relation "measure (\<lambda>(lt, xs, right, k, g). nat (g - k))") auto

declare u_skip.simps [simp del]

lemma u_skip_bounds: "k \<le> g \<Longrightarrow> k \<le> u_skip lt xs right k g \<and> u_skip lt xs right k g \<le> g"
proof (induction lt xs right k g rule: u_skip.induct)
  case (1 lt xs right k g)
  then show ?case by (subst (1 2) u_skip.simps) force
qed

text \<open>The loop \<open>while (k <= g)\<close>; it returns the collection with \<open>j\<close> and \<open>g\<close>.\<close>

function u_loop ::
  "('a \<Rightarrow> 'a \<Rightarrow> bool) \<Rightarrow> 'a \<Rightarrow> 'a \<Rightarrow> 'a list \<Rightarrow> int \<Rightarrow> int \<Rightarrow> int \<Rightarrow> 'a list \<times> int \<times> int" where
  "u_loop lt left right xs j k g =
     (if k \<le> g then
        (if lt (col xs k) left then u_loop lt left right (swp xs k j) (j + 1) (k + 1) g
         else if \<not> lt (col xs k) right then
           (let g' = u_skip lt xs right k g;
                xs' = swp xs k g' in
            if lt (col xs' k) left then
              u_loop lt left right (swp xs' k j) (j + 1) (k + 1) (g' - 1)
            else u_loop lt left right xs' j (k + 1) (g' - 1))
         else u_loop lt left right xs j (k + 1) g)
      else (xs, j, g))"
  by pat_completeness auto
termination
  apply (relation "measure (\<lambda>(lt, left, right, xs, j, k, g). nat (g + 1 - k))")
  subgoal by simp
  subgoal by simp
  subgoal for lt left right xs j k g using u_skip_bounds [of k g lt xs right] by simp
  subgoal for lt left right xs j k g using u_skip_bounds [of k g lt xs right] by simp
  subgoal by simp
  done

declare u_loop.simps [simp del]

lemma swp_same [simp]: "swp xs i i = xs"
  by (simp add: swp_def swap_at_def)

text \<open>
  Whatever \<open>lt\<close> answers, the two pivots end up in the range with \<open>j - 1 < g + 1\<close>: this is what makes
  the sort terminate.
\<close>

lemma u_loop_bounds:
  assumes "s < j" and "j \<le> k" and "j \<le> g + 1" and "g < e"
  shows "case u_loop lt left right xs j k g of (xs', j', g') \<Rightarrow> s < j' \<and> j' \<le> g' + 1 \<and> g' < e"
  using assms
proof (induction lt left right xs j k g rule: u_loop.induct)
  case (1 lt left right xs j k g)
  consider "\<not> k \<le> g" | "k \<le> g" "lt (col xs k) left"
    | "k \<le> g" "\<not> lt (col xs k) left" "\<not> lt (col xs k) right"
    | "k \<le> g" "\<not> lt (col xs k) left" "lt (col xs k) right" by blast
  then show ?case
  proof cases
    case 1
    then show ?thesis using "1.prems" by (subst u_loop.simps) simp
  next
    case 2
    with "1.IH"(1) "1.prems" show ?thesis by (subst u_loop.simps) simp
  next
    case 3
    define g' where "g' = u_skip lt xs right k g"
    have g': "k \<le> g'" "g' \<le> g" using u_skip_bounds [OF 3(1), of lt xs right] by (simp_all add: g'_def)
    show ?thesis
    proof (cases "lt (col (swp xs k g') k) left")
      case True
      then have "k \<noteq> g'" using 3(2) by auto
      then have "j + 1 \<le> g' - 1 + 1" using g' "1.prems" by simp
      with "1.IH"(2) [OF 3 g'_def refl True] "1.prems" g' 3 True show ?thesis
        by (subst u_loop.simps) (simp add: Let_def flip: g'_def)
    next
      case False
      with "1.IH"(3) [OF 3 g'_def refl False] "1.prems" g' 3 show ?thesis
        by (subst u_loop.simps) (simp add: Let_def flip: g'_def)
    qed
  next
    case 4
    with "1.IH"(4) "1.prems" show ?thesis by (subst u_loop.simps) simp
  qed
qed

text \<open>The range is rearranged into three parts; the result is the collection with the two pivots' places.\<close>

definition u_partition :: "('a \<Rightarrow> 'a \<Rightarrow> bool) \<Rightarrow> 'a list \<Rightarrow> int \<Rightarrow> int \<Rightarrow> 'a list \<times> int \<times> int" where
  "u_partition lt xs start fin =
     (let xs1 = u_pivots lt xs start fin;
          left_pivot = col xs1 start;
          right_pivot = col xs1 fin in
      case u_loop lt left_pivot right_pivot xs1 (start + 1) (start + 1) (fin - 1) of
        (xs2, j, g) \<Rightarrow> (swp (swp xs2 start (j - 1)) fin (g + 1), j - 1, g + 1))"

lemma u_partition_bounds:
  assumes "start < fin"
  shows "case u_partition lt xs start fin of (xs', l, r) \<Rightarrow> start \<le> l \<and> l < r \<and> r \<le> fin"
  using u_loop_bounds [of start "start + 1" "start + 1" "fin - 1" fin lt
      "col (u_pivots lt xs start fin) start" "col (u_pivots lt xs start fin) fin"
      "u_pivots lt xs start fin"] assms
  by (simp add: u_partition_def Let_def split: prod.splits)

lemma u_partition_less:
  assumes "start < fin" and "(xs1, l, r) = u_partition lt xs start fin"
  shows "start \<le> l \<and> l < r \<and> r \<le> fin"
  using u_partition_bounds [OF assms(1), of lt xs] assms(2) by (auto split: prod.splits)

text \<open>
  The code runs the largest part in its own loop and the other two by recursion; the loop round is a
  recursive call here.
\<close>

function u_dual_pivot :: "('a \<Rightarrow> 'a \<Rightarrow> bool) \<Rightarrow> 'a list \<Rightarrow> int \<Rightarrow> int \<Rightarrow> 'a list" where
  "u_dual_pivot lt xs start fin =
     (if start < fin then
        (case u_partition lt xs start fin of (xs1, l, r) \<Rightarrow>
           let left_size = l - start;
               middle_size = r - (l + 1);
               right_size = (fin + 1) - (r + 1) in
           if left_size \<ge> middle_size \<and> left_size \<ge> right_size then
             (let xs2 = u_dual_pivot lt xs1 (l + 1) (r - 1);
                  xs3 = u_dual_pivot lt xs2 (r + 1) fin
              in u_dual_pivot lt xs3 start (l - 1))
           else if middle_size \<ge> right_size then
             (let xs2 = u_dual_pivot lt xs1 start (l - 1);
                  xs3 = u_dual_pivot lt xs2 (r + 1) fin
              in u_dual_pivot lt xs3 (l + 1) (r - 1))
           else
             (let xs2 = u_dual_pivot lt xs1 start (l - 1);
                  xs3 = u_dual_pivot lt xs2 (l + 1) (r - 1)
              in u_dual_pivot lt xs3 (r + 1) fin))
      else xs)"
  by pat_completeness auto

termination
  by (relation "measure (\<lambda>(lt, xs, start, fin). nat (fin + 1 - start))")
    (auto dest!: u_partition_less [rotated])

declare u_dual_pivot.simps [simp del]

section \<open>Single pivot\<close>

function u_sp_loop ::
  "('a \<Rightarrow> 'a \<Rightarrow> bool) \<Rightarrow> 'a \<Rightarrow> int \<Rightarrow> int \<Rightarrow> 'a list \<Rightarrow> int \<Rightarrow> int \<Rightarrow> 'a list \<times> int" where
  "u_sp_loop lt pivot start size' xs i j =
     (if j < size' then
        (if lt (col xs (start + j)) pivot then
           u_sp_loop lt pivot start size' (swp xs (start + j) (start + i)) (i + 1) (j + 1)
         else u_sp_loop lt pivot start size' xs i (j + 1))
      else (xs, i))"
  by pat_completeness auto
termination by (relation "measure (\<lambda>(lt, pivot, start, size', xs, i, j). nat (size' - j))") auto

declare u_sp_loop.simps [simp del]

lemma u_sp_loop_bounds:
  assumes "1 \<le> i" and "i \<le> j" and "j \<le> size'"
  shows "case u_sp_loop lt pivot start size' xs i j of (xs', i') \<Rightarrow> 1 \<le> i' \<and> i' \<le> size'"
  using assms
proof (induction lt pivot start size' xs i j rule: u_sp_loop.induct)
  case (1 lt pivot start size' xs i j)
  then show ?case by (subst u_sp_loop.simps) auto
qed

text \<open>\<open>[start, fin)\<close> is the iterator range; \<open>i\<close> counts the elements before the second part.\<close>

definition u_sp_partition :: "('a \<Rightarrow> 'a \<Rightarrow> bool) \<Rightarrow> 'a list \<Rightarrow> int \<Rightarrow> int \<Rightarrow> 'a list \<times> int" where
  "u_sp_partition lt xs start fin =
     (let size' = fin - start;
          pivot_point = size' div 2;
          xs1 = (if pivot_point \<noteq> 0 then swp xs (start + pivot_point) start else xs) in
      case u_sp_loop lt (col xs1 start) start size' xs1 1 1 of
        (xs2, i) \<Rightarrow> (swp xs2 start (start + i - 1), i))"

lemma u_sp_partition_bounds:
  assumes "1 < fin - start" and "(xs1, i) = u_sp_partition lt xs start fin"
  shows "1 \<le> i \<and> i \<le> fin - start"
  using u_sp_loop_bounds [of 1 1 "fin - start" lt "col (if (fin - start) div 2 \<noteq> 0
      then swp xs (start + (fin - start) div 2) start else xs) start" start
      "if (fin - start) div 2 \<noteq> 0 then swp xs (start + (fin - start) div 2) start else xs"] assms
  by (auto simp: u_sp_partition_def Let_def split: prod.splits)

function u_single_pivot :: "('a \<Rightarrow> 'a \<Rightarrow> bool) \<Rightarrow> 'a list \<Rightarrow> int \<Rightarrow> int \<Rightarrow> 'a list" where
  "u_single_pivot lt xs start fin =
     (let size' = fin - start in
      if size' \<le> 1 then xs
      else
        (case u_sp_partition lt xs start fin of (xs1, i) \<Rightarrow>
           if i > size' div 2 then
             u_single_pivot lt (u_single_pivot lt xs1 (start + i) fin) start (start + i - 1)
           else
             u_single_pivot lt (u_single_pivot lt xs1 start (start + i - 1)) (start + i) fin))"
  by pat_completeness auto
termination
  by (relation "measure (\<lambda>(lt, xs, start, fin). nat (fin - start))")
    (auto dest!: u_sp_partition_bounds [rotated])

declare u_single_pivot.simps [simp del]

end
