(* ===== verification/QuickSort.thy ===== *)
theory QuickSort
  imports QuickSort_Unbounded
begin

text \<open>
  \<open>AK/QuickSort.h\<close>: the dual-pivot sort of a collection and the single-pivot sort of an iterator
  range, over a comparison \<open>lt\<close>. Every result of arithmetic on \<open>int\<close> and every index is checked; an
  iterator is an index. The references to the pivots are their values, for no loop moves them.
\<close>

section \<open>Two pivots\<close>

definition swap_items :: "'a list \<Rightarrow> int \<Rightarrow> int \<Rightarrow> 'a list error_or" where
  "swap_items xs i j =
     try_then (item_at xs i) (\<lambda>x. try_then (item_at xs j) (\<lambda>y. Inr (xs[nat i := y, nat j := x])))"

text \<open>The pivots are moved to the two ends of the range.\<close>

definition dp_pivots :: "('a \<Rightarrow> 'a \<Rightarrow> bool) \<Rightarrow> 'a list \<Rightarrow> int \<Rightarrow> int \<Rightarrow> 'a list error_or" where
  "dp_pivots lt xs start fin =
     try_then (int32 (fin - start)) (\<lambda>distance.
     try_then (int32 (distance + 1)) (\<lambda>size.
       if size > 3 then
         try_then (int32 (start + size div 3)) (\<lambda>a.
         try_then (int32 (fin - size div 3)) (\<lambda>b.
         try_then (item_at xs a) (\<lambda>x.
         try_then (item_at xs b) (\<lambda>y.
           if lt x y then try_then (swap_items xs a start) (\<lambda>xs. swap_items xs b fin)
           else try_then (swap_items xs a fin) (\<lambda>xs. swap_items xs b start)))))
       else
         try_then (item_at xs start) (\<lambda>x.
         try_then (item_at xs fin) (\<lambda>y.
           if \<not> lt x y then swap_items xs start fin else Inr xs))))"

function dp_skip :: "('a \<Rightarrow> 'a \<Rightarrow> bool) \<Rightarrow> 'a list \<Rightarrow> 'a \<Rightarrow> int \<Rightarrow> int \<Rightarrow> int error_or" where
  "dp_skip lt xs right k g =
     try_then (item_at xs g) (\<lambda>x.
       if \<not> lt x right \<and> k < g then try_then (int32 (g - 1)) (\<lambda>g. dp_skip lt xs right k g) else Inr g)"
  by pat_completeness auto
termination by (relation "measure (\<lambda>(lt, xs, right, k, g). nat (g - k))") (auto simp: int32_eq_Inr_iff)

declare dp_skip.simps [simp del]

lemmas checked_iff = try_then_eq_Inr_iff int32_eq_Inr_iff item_at_eq_Inr_iff

text \<open>What the code computes is what the unbounded reference computes, unless it ends in an error.\<close>

lemma dp_skip_reference: "dp_skip lt xs right k g = Inr g' \<Longrightarrow> g' = u_skip lt xs right k g"
proof (induction lt xs right k g rule: dp_skip.induct)
  case (1 lt xs right k g)
  then obtain x where x: "item_at xs g = Inr x" "x = col xs g"
    by (subst (asm) dp_skip.simps) (auto simp: checked_iff col_def)
  show ?case
  proof (cases "\<not> lt x right \<and> k < g")
    case True
    then obtain g1 where g1: "int32 (g - 1) = Inr g1" "dp_skip lt xs right k g1 = Inr g'"
      using 1(2) x(1) by (subst (asm) dp_skip.simps) (auto simp: try_then_eq_Inr_iff)
    from "1.IH" [OF x(1) True this] show ?thesis
      using g1(1) True x(2) by (subst u_skip.simps) (simp add: int32_eq_Inr_iff)
  next
    case False
    then show ?thesis using 1(2) x by (subst (asm) dp_skip.simps, subst u_skip.simps) auto
  qed
qed

lemma dp_skip_le: "dp_skip lt xs right k g = Inr g' \<Longrightarrow> k \<le> g \<Longrightarrow> k \<le> g' \<and> g' \<le> g"
  using dp_skip_reference [of lt xs right k g g'] u_skip_bounds [of k g lt xs right] by simp

text \<open>The loop \<open>while (k <= g)\<close>; it returns the collection with \<open>j\<close> and \<open>g\<close>.\<close>

function dp_loop ::
  "('a \<Rightarrow> 'a \<Rightarrow> bool) \<Rightarrow> 'a \<Rightarrow> 'a \<Rightarrow> 'a list \<Rightarrow> int \<Rightarrow> int \<Rightarrow> int \<Rightarrow> ('a list \<times> int \<times> int) error_or" where
  "dp_loop lt left right xs j k g =
     (if k \<le> g then
        try_then (item_at xs k) (\<lambda>x.
          if lt x left then
            try_then (swap_items xs k j) (\<lambda>xs.
            try_then (int32 (j + 1)) (\<lambda>j.
            try_then (int32 (k + 1)) (\<lambda>k. dp_loop lt left right xs j k g)))
          else if \<not> lt x right then
            try_then (dp_skip lt xs right k g) (\<lambda>g.
            try_then (swap_items xs k g) (\<lambda>xs.
            try_then (int32 (g - 1)) (\<lambda>g.
            try_then (item_at xs k) (\<lambda>x.
              if lt x left then
                try_then (swap_items xs k j) (\<lambda>xs.
                try_then (int32 (j + 1)) (\<lambda>j.
                try_then (int32 (k + 1)) (\<lambda>k. dp_loop lt left right xs j k g)))
              else try_then (int32 (k + 1)) (\<lambda>k. dp_loop lt left right xs j k g)))))
          else try_then (int32 (k + 1)) (\<lambda>k. dp_loop lt left right xs j k g))
      else Inr (xs, j, g))"
  by pat_completeness auto
termination
  by (relation "measure (\<lambda>(lt, left, right, xs, j, k, g). nat (g + 1 - k))")
    (auto simp: int32_eq_Inr_iff dest: dp_skip_le)

declare dp_loop.simps [simp del]

text \<open>The range is rearranged into three parts; the result is the collection with the two pivots' places.\<close>

definition dp_partition :: "('a \<Rightarrow> 'a \<Rightarrow> bool) \<Rightarrow> 'a list \<Rightarrow> int \<Rightarrow> int \<Rightarrow> ('a list \<times> int \<times> int) error_or" where
  "dp_partition lt xs start fin =
     try_then (dp_pivots lt xs start fin) (\<lambda>xs.
     try_then (int32 (start + 1)) (\<lambda>j.
     try_then (int32 (start + 1)) (\<lambda>k.
     try_then (int32 (fin - 1)) (\<lambda>g.
     try_then (item_at xs start) (\<lambda>left_pivot.
     try_then (item_at xs fin) (\<lambda>right_pivot.
     try_then (dp_loop lt left_pivot right_pivot xs j k g) (\<lambda>(xs, j, g).
     try_then (int32 (j - 1)) (\<lambda>j.
     try_then (int32 (g + 1)) (\<lambda>g.
     try_then (swap_items xs start j) (\<lambda>xs.
     try_then (swap_items xs fin g) (\<lambda>xs. Inr (xs, j, g))))))))))))"

lemma swap_items_eq_Inr_iff:
  "swap_items xs i j = Inr ys \<longleftrightarrow> 0 \<le> i \<and> i < len xs \<and> 0 \<le> j \<and> j < len xs \<and> ys = swp xs i j"
  by (auto simp: swap_items_def checked_iff swp_def swap_at_def len_def)

lemma swap_items_in_range [simp]:
  "0 \<le> i \<Longrightarrow> i < len xs \<Longrightarrow> 0 \<le> j \<Longrightarrow> j < len xs \<Longrightarrow> swap_items xs i j = Inr (swp xs i j)"
  by (simp add: swap_items_eq_Inr_iff)

lemma dp_pivots_reference: "dp_pivots lt xs start fin = Inr ys \<Longrightarrow> ys = u_pivots lt xs start fin"
  by (auto simp: dp_pivots_def u_pivots_def checked_iff swap_items_eq_Inr_iff col_def Let_def split: if_splits)

lemma dp_loop_reference: "dp_loop lt left right xs j k g = Inr r \<Longrightarrow> r = u_loop lt left right xs j k g"
proof (induction lt left right xs j k g arbitrary: r rule: dp_loop.induct)
  case (1 lt left right xs j k g)
  show ?case
  proof (cases "k \<le> g")
    case False
    then show ?thesis using 1(5) by (simp add: dp_loop.simps u_loop.simps)
  next
    case True
    note loop = 1(5) [unfolded dp_loop.simps [of lt left right xs j k g] if_P [OF True]]
    then obtain x where x: "item_at xs k = Inr x" "x = col xs k" by (auto simp: checked_iff col_def)
    consider "lt x left" | "\<not> lt x left" "\<not> lt x right" | "\<not> lt x left" "lt x right" by blast
    then show ?thesis
    proof cases
      case 1
      then obtain ys j' k' where step: "swap_items xs k j = Inr ys" "int32 (j + 1) = Inr j'" "int32 (k + 1) = Inr k'"
          "dp_loop lt left right ys j' k' g = Inr r"
        using loop x(1) by (auto simp: try_then_eq_Inr_iff)
      from "1.IH"(1) [OF True x(1) 1 step] show ?thesis
        using step(1-3) True 1 x(2) by (subst u_loop.simps) (simp add: int32_eq_Inr_iff swap_items_eq_Inr_iff)
    next
      case 2
      then obtain g1 ys g2 y where step: "dp_skip lt xs right k g = Inr g1" "swap_items xs k g1 = Inr ys"
          "int32 (g1 - 1) = Inr g2" "item_at ys k = Inr y"
        and rest: "(if lt y left then try_then (swap_items ys k j) (\<lambda>zs. try_then (int32 (j + 1)) (\<lambda>j.
            try_then (int32 (k + 1)) (\<lambda>k. dp_loop lt left right zs j k g2)))
          else try_then (int32 (k + 1)) (\<lambda>k. dp_loop lt left right ys j k g2)) = Inr r"
        using loop x(1) by (auto simp: try_then_eq_Inr_iff)
      have g1: "g1 = u_skip lt xs right k g" using dp_skip_reference [OF step(1)] .
      have ys: "ys = swp xs k g1" "g2 = g1 - 1" "y = col ys k"
        using step by (auto simp: swap_items_eq_Inr_iff checked_iff col_def)
      show ?thesis
      proof (cases "lt y left")
        case True
        then obtain zs j' k' where step': "swap_items ys k j = Inr zs" "int32 (j + 1) = Inr j'" "int32 (k + 1) = Inr k'"
            "dp_loop lt left right zs j' k' g2 = Inr r"
          using rest by (auto simp: try_then_eq_Inr_iff)
        from "1.IH"(2) [OF \<open>k \<le> g\<close> x(1) 2 step True step'] show ?thesis
          using step'(1-3) True 2 x(2) \<open>k \<le> g\<close> ys
          by (subst u_loop.simps) (simp add: Let_def int32_eq_Inr_iff swap_items_eq_Inr_iff flip: g1)
      next
        case False
        then obtain k' where step': "int32 (k + 1) = Inr k'" "dp_loop lt left right ys j k' g2 = Inr r"
          using rest by (auto simp: try_then_eq_Inr_iff)
        from "1.IH"(3) [OF \<open>k \<le> g\<close> x(1) 2 step False step'] show ?thesis
          using step'(1) False 2 x(2) \<open>k \<le> g\<close> ys
          by (subst u_loop.simps) (simp add: Let_def int32_eq_Inr_iff flip: g1)
      qed
    next
      case 3
      then obtain k' where step: "int32 (k + 1) = Inr k'" "dp_loop lt left right xs j k' g = Inr r"
        using loop x(1) by (auto simp: try_then_eq_Inr_iff)
      from "1.IH"(4) [OF True x(1)] 3 step show ?thesis
        using True x(2) by (subst u_loop.simps) (auto simp: int32_eq_Inr_iff)
    qed
  qed
qed

lemma dp_partition_reference: "dp_partition lt xs start fin = Inr r \<Longrightarrow> r = u_partition lt xs start fin"
  by (auto simp: dp_partition_def u_partition_def checked_iff swap_items_eq_Inr_iff col_def Let_def
      dest!: dp_pivots_reference dp_loop_reference split: prod.splits)

text \<open>
  The code runs the largest part in its own loop and the other two by recursion; the loop round is a
  recursive call here.
\<close>

function dual_pivot_quick_sort :: "('a \<Rightarrow> 'a \<Rightarrow> bool) \<Rightarrow> 'a list \<Rightarrow> int \<Rightarrow> int \<Rightarrow> 'a list error_or" where
  "dual_pivot_quick_sort lt xs start fin =
     (if start < fin then
        try_then (dp_partition lt xs start fin) (\<lambda>(xs, left_pointer, right_pointer).
        try_then (int32 (left_pointer - start)) (\<lambda>left_size.
        try_then (int32 (left_pointer + 1)) (\<lambda>after_left.
        try_then (int32 (right_pointer - after_left)) (\<lambda>middle_size.
        try_then (int32 (fin + 1)) (\<lambda>after_fin.
        try_then (int32 (right_pointer + 1)) (\<lambda>after_right.
        try_then (int32 (after_fin - after_right)) (\<lambda>right_size.
        try_then (int32 (left_pointer - 1)) (\<lambda>before_left.
        try_then (int32 (right_pointer - 1)) (\<lambda>before_right.
          if left_size \<ge> middle_size \<and> left_size \<ge> right_size then
            try_then (dual_pivot_quick_sort lt xs after_left before_right) (\<lambda>xs.
            try_then (dual_pivot_quick_sort lt xs after_right fin) (\<lambda>xs.
              dual_pivot_quick_sort lt xs start before_left))
          else if middle_size \<ge> right_size then
            try_then (dual_pivot_quick_sort lt xs start before_left) (\<lambda>xs.
            try_then (dual_pivot_quick_sort lt xs after_right fin) (\<lambda>xs.
              dual_pivot_quick_sort lt xs after_left before_right))
          else
            try_then (dual_pivot_quick_sort lt xs start before_left) (\<lambda>xs.
            try_then (dual_pivot_quick_sort lt xs after_left before_right) (\<lambda>xs.
              dual_pivot_quick_sort lt xs after_right fin)))))))))))
      else Inr xs)"
  by pat_completeness auto

lemma dp_partition_bounds:
  "dp_partition lt xs start fin = Inr (ys, l, r) \<Longrightarrow> start < fin \<Longrightarrow> start \<le> l \<and> l < r \<and> r \<le> fin"
  using dp_partition_reference [of lt xs start fin "(ys, l, r)"] u_partition_less [of start fin ys l r lt xs] by simp

termination dual_pivot_quick_sort
  by (relation "measure (\<lambda>(lt, xs, start, fin). nat (fin + 1 - start))")
    (auto simp: int32_eq_Inr_iff dest: dp_partition_bounds)

declare dual_pivot_quick_sort.simps [simp del]

section \<open>One pivot\<close>

function sp_loop ::
  "('a \<Rightarrow> 'a \<Rightarrow> bool) \<Rightarrow> 'a \<Rightarrow> int \<Rightarrow> int \<Rightarrow> 'a list \<Rightarrow> int \<Rightarrow> int \<Rightarrow> ('a list \<times> int) error_or" where
  "sp_loop lt pivot start size' xs i j =
     (if j < size' then
        try_then (item_at xs (start + j)) (\<lambda>x.
          if lt x pivot then
            try_then (swap_items xs (start + j) (start + i)) (\<lambda>xs.
            try_then (int32 (i + 1)) (\<lambda>i.
            try_then (int32 (j + 1)) (\<lambda>j. sp_loop lt pivot start size' xs i j)))
          else try_then (int32 (j + 1)) (\<lambda>j. sp_loop lt pivot start size' xs i j))
      else Inr (xs, i))"
  by pat_completeness auto
termination
  by (relation "measure (\<lambda>(lt, pivot, start, size', xs, i, j). nat (size' - j))") (auto simp: int32_eq_Inr_iff)

declare sp_loop.simps [simp del]

text \<open>\<open>[start, fin)\<close> is the iterator range; \<open>i\<close> counts the elements before the second part.\<close>

definition sp_partition :: "('a \<Rightarrow> 'a \<Rightarrow> bool) \<Rightarrow> 'a list \<Rightarrow> int \<Rightarrow> int \<Rightarrow> ('a list \<times> int) error_or" where
  "sp_partition lt xs start size' =
     (let pivot_point = size' div 2 in
      try_then (if pivot_point \<noteq> 0 then swap_items xs (start + pivot_point) start else Inr xs) (\<lambda>xs.
      try_then (item_at xs start) (\<lambda>pivot.
      try_then (sp_loop lt pivot start size' xs 1 1) (\<lambda>(xs, i).
      try_then (swap_items xs start (start + i - 1)) (\<lambda>xs. Inr (xs, i))))))"

lemma sp_loop_reference:
  "sp_loop lt pivot start size' xs i j = Inr r \<Longrightarrow> r = u_sp_loop lt pivot start size' xs i j"
proof (induction lt pivot start size' xs i j arbitrary: r rule: sp_loop.induct)
  case (1 lt pivot start size' xs i j)
  show ?case
  proof (cases "j < size'")
    case False
    then show ?thesis using 1(3) by (simp add: sp_loop.simps u_sp_loop.simps)
  next
    case True
    note loop = 1(3) [unfolded sp_loop.simps [of lt pivot start size' xs i j] if_P [OF True]]
    then obtain x where x: "item_at xs (start + j) = Inr x" "x = col xs (start + j)" by (auto simp: checked_iff col_def)
    show ?thesis
    proof (cases "lt x pivot")
      case lt: True
      then obtain ys i' j' where step: "swap_items xs (start + j) (start + i) = Inr ys" "int32 (i + 1) = Inr i'"
          "int32 (j + 1) = Inr j'" "sp_loop lt pivot start size' ys i' j' = Inr r"
        using loop x(1) by (auto simp: try_then_eq_Inr_iff)
      from "1.IH"(1) [OF True x(1) lt step] show ?thesis
        using step(1-3) True lt x(2) by (subst u_sp_loop.simps) (simp add: int32_eq_Inr_iff swap_items_eq_Inr_iff)
    next
      case False
      then obtain j' where step: "int32 (j + 1) = Inr j'" "sp_loop lt pivot start size' xs i j' = Inr r"
        using loop x(1) by (auto simp: try_then_eq_Inr_iff)
      from "1.IH"(2) [OF True x(1) False step] show ?thesis
        using step(1) True False x(2) by (subst u_sp_loop.simps) (simp add: int32_eq_Inr_iff)
    qed
  qed
qed

lemma sp_partition_reference:
  "sp_partition lt xs start size' = Inr r \<Longrightarrow> r = u_sp_partition lt xs start (start + size')"
  by (auto simp: sp_partition_def u_sp_partition_def checked_iff swap_items_eq_Inr_iff col_def Let_def
      dest!: sp_loop_reference split: prod.splits if_splits)

text \<open>
  The difference of the iterators is converted to \<open>int\<close>. An end before the start is no range: stepping
  from the start leaves the collection.
\<close>

function single_pivot_quick_sort :: "('a \<Rightarrow> 'a \<Rightarrow> bool) \<Rightarrow> 'a list \<Rightarrow> int \<Rightarrow> int \<Rightarrow> 'a list error_or" where
  "single_pivot_quick_sort lt xs start fin =
     (let size' = narrow_int (fin - start) in
      if fin < start then Inl BadPointer
      else if size' \<le> 1 then Inr xs
      else
        try_then (sp_partition lt xs start size') (\<lambda>(xs, i).
          if i > size' div 2 then
            try_then (single_pivot_quick_sort lt xs (start + i) fin) (\<lambda>xs.
              single_pivot_quick_sort lt xs start (start + i - 1))
          else
            try_then (single_pivot_quick_sort lt xs start (start + i - 1)) (\<lambda>xs.
              single_pivot_quick_sort lt xs (start + i) fin)))"
  by pat_completeness auto

lemma sp_partition_bounds:
  assumes "sp_partition lt xs start (narrow_int (fin - start)) = Inr (ys, i)"
    and "start \<le> fin" and "1 < narrow_int (fin - start)"
  shows "1 \<le> i \<and> i \<le> fin - start"
proof -
  have "(ys, i) = u_sp_partition lt xs start (start + narrow_int (fin - start))"
    using sp_partition_reference [OF assms(1)] .
  then have "1 \<le> i \<and> i \<le> narrow_int (fin - start)"
    using u_sp_partition_bounds [of "start + narrow_int (fin - start)" start ys i lt xs] assms(3) by simp
  then show ?thesis using narrow_int_le [of "fin - start"] assms(2) by simp
qed

termination single_pivot_quick_sort
  by (relation "measure (\<lambda>(lt, xs, start, fin). nat (fin - start))") (auto dest!: sp_partition_bounds)

declare single_pivot_quick_sort.simps [simp del]

section \<open>The entry points\<close>

definition quick_sort_range :: "('a \<Rightarrow> 'a \<Rightarrow> bool) \<Rightarrow> 'a list \<Rightarrow> int \<Rightarrow> int \<Rightarrow> 'a list error_or" where
  "quick_sort_range lt xs start fin = single_pivot_quick_sort lt xs start fin"

text \<open>The size is a \<open>size_t\<close>; one less, of 64 bits, is converted to \<open>int\<close>.\<close>

definition quick_sort :: "('a \<Rightarrow> 'a \<Rightarrow> bool) \<Rightarrow> 'a list \<Rightarrow> 'a list error_or" where
  "quick_sort lt xs = dual_pivot_quick_sort lt xs 0 (narrow_int ((len xs - 1) mod 2 ^ 64))"

end
