(* ===== verification/QuickSort_Sorted.thy ===== *)
theory QuickSort_Sorted
  imports QuickSort_Unbounded
begin

text \<open>
  Both sorts rearrange exactly the range they are given and leave it sorted, for every comparison
  that is a strict weak order; that is the locale's contract with the caller.
\<close>

section \<open>Rearranging a range\<close>

definition rearranged :: "int \<Rightarrow> int \<Rightarrow> 'a list \<Rightarrow> 'a list \<Rightarrow> bool" where
  "rearranged a b xs ys \<longleftrightarrow>
     mset ys = mset xs \<and> (\<forall>i. 0 \<le> i \<and> i < len xs \<and> (i < a \<or> b < i) \<longrightarrow> col ys i = col xs i)"

lemma rearranged_len: "rearranged a b xs ys \<Longrightarrow> len ys = len xs"
  unfolding rearranged_def len_def by (metis size_mset)

lemma rearranged_refl [simp]: "rearranged a b xs xs"
  by (simp add: rearranged_def)

lemma rearranged_trans: "rearranged a b xs ys \<Longrightarrow> rearranged a b ys zs \<Longrightarrow> rearranged a b xs zs"
  using rearranged_len [of a b xs ys] by (simp add: rearranged_def)

lemma rearranged_mono: "rearranged a b xs ys \<Longrightarrow> a' \<le> a \<Longrightarrow> b \<le> b' \<Longrightarrow> rearranged a' b' xs ys"
  by (auto simp: rearranged_def)

lemma rearranged_swp:
  assumes "a \<le> i" and "i \<le> b" and "a \<le> j" and "j \<le> b" and "0 \<le> a" and "b < len xs"
  shows "rearranged a b xs (swp xs i j)"
  using assms by (auto simp: rearranged_def mset_swp col_swp)

lemma rearranged_outside:
  "rearranged a b xs ys \<Longrightarrow> 0 \<le> i \<Longrightarrow> i < len xs \<Longrightarrow> i < a \<or> b < i \<Longrightarrow> col ys i = col xs i"
  by (simp add: rearranged_def)

text \<open>What holds of all elements of the range still does.\<close>

lemma rearranged_all:
  assumes "rearranged a b xs ys" and "0 \<le> a" and "b < len xs"
    and "\<And>i. a \<le> i \<Longrightarrow> i \<le> b \<Longrightarrow> P (col xs i)" and "a \<le> i" and "i \<le> b"
  shows "P (col ys i)"
proof (rule ccontr)
  assume bad: "\<not> P (col ys i)"
  let ?N = "\<lambda>zs. {k. k < length zs \<and> \<not> P (zs ! k)}"
  have len: "length ys = length xs" using assms(1) by (metis rearranged_def size_mset)
  have "card (?N zs) = size (filter_mset (\<lambda>x. \<not> P x) (mset zs))" for zs
    by (simp add: length_filter_conv_card flip: mset_filter)
  then have same: "card (?N xs) = card (?N ys)" using assms(1) by (simp add: rearranged_def)
  have "?N xs \<subset> ?N ys"
  proof
    show "?N xs \<subseteq> ?N ys"
    proof
      fix k
      assume k: "k \<in> ?N xs"
      then have "\<not> (a \<le> int k \<and> int k \<le> b)" using assms(4) [of "int k"] by (auto simp: col_def)
      then have "col ys (int k) = col xs (int k)"
        using k assms(1) by (intro rearranged_outside) (auto simp: len_def)
      with k len show "k \<in> ?N ys" by (simp add: col_def)
    qed
    have "nat i \<in> ?N ys" using bad assms(2,3,5,6) len by (simp add: col_def len_def)
    moreover have "nat i \<notin> ?N xs" using assms(4) [OF assms(5,6)] by (simp add: col_def)
    ultimately show "?N xs \<noteq> ?N ys" by blast
  qed
  then have "card (?N xs) < card (?N ys)" by (intro psubset_card_mono) simp_all
  with same show False by simp
qed

section \<open>The order\<close>

locale strict_weak_order =
  fixes lt :: "'a \<Rightarrow> 'a \<Rightarrow> bool"
  assumes asym: "lt x y \<Longrightarrow> \<not> lt y x"
    and neg_trans: "\<not> lt x y \<Longrightarrow> \<not> lt y z \<Longrightarrow> \<not> lt x z"
begin

abbreviation le :: "'a \<Rightarrow> 'a \<Rightarrow> bool" where
  "le x y \<equiv> \<not> lt y x"

lemma le_trans: "le x y \<Longrightarrow> le y z \<Longrightarrow> le x z"
  using neg_trans by blast

end

definition sorted_in :: "('a \<Rightarrow> 'a \<Rightarrow> bool) \<Rightarrow> int \<Rightarrow> int \<Rightarrow> 'a list \<Rightarrow> bool" where
  "sorted_in lt a b xs \<longleftrightarrow> (\<forall>i j. a \<le> i \<and> i < j \<and> j \<le> b \<longrightarrow> \<not> lt (col xs j) (col xs i))"

lemma sorted_in_other_range:
  assumes "sorted_in lt a b xs" and "rearranged c d xs ys" and "b < c \<or> d < a" and "0 \<le> a" and "b < len xs"
  shows "sorted_in lt a b ys"
  unfolding sorted_in_def
proof (intro allI impI)
  fix i j
  assume ij: "a \<le> i \<and> i < j \<and> j \<le> b"
  then have "col ys i = col xs i" "col ys j = col xs j"
    using assms(3-5) by (auto intro!: rearranged_outside [OF assms(2)])
  with ij assms(1) show "\<not> lt (col ys j) (col ys i)" by (simp add: sorted_in_def)
qed

section \<open>One pivot\<close>

text \<open>Everything before \<open>p\<close> is at most, everything behind it at least the element at \<open>p\<close>.\<close>

definition split_at_pivot :: "('a \<Rightarrow> 'a \<Rightarrow> bool) \<Rightarrow> int \<Rightarrow> int \<Rightarrow> int \<Rightarrow> 'a list \<Rightarrow> bool" where
  "split_at_pivot lt a p b xs \<longleftrightarrow>
     (\<forall>i. a \<le> i \<and> i < p \<longrightarrow> \<not> lt (col xs p) (col xs i)) \<and>
     (\<forall>i. p < i \<and> i \<le> b \<longrightarrow> \<not> lt (col xs i) (col xs p))"

lemma split_at_pivot_rearranged:
  assumes "split_at_pivot lt a p b xs" and "rearranged c d xs ys" and "0 \<le> a" and "b < len xs"
    and "a \<le> p" and "p \<le> b" and "c = a \<and> d = p - 1 \<or> c = p + 1 \<and> d = b"
  shows "split_at_pivot lt a p b ys"
proof -
  have p: "col ys p = col xs p" using assms by (intro rearranged_outside [OF assms(2)]) auto
  have lower: "\<not> lt (col xs p) (col ys i)" if "a \<le> i" "i < p" for i
  proof (cases "c = a \<and> d = p - 1")
    case True
    then show ?thesis
      using assms that by (intro rearranged_all [OF assms(2), where i = i and P = "\<lambda>x. \<not> lt (col xs p) x"])
        (auto simp: split_at_pivot_def)
  next
    case False
    then have "col ys i = col xs i" using assms that by (intro rearranged_outside [OF assms(2)]) auto
    with that assms(1) show ?thesis by (simp add: split_at_pivot_def)
  qed
  have upper: "\<not> lt (col ys i) (col xs p)" if "p < i" "i \<le> b" for i
  proof (cases "c = a \<and> d = p - 1")
    case False
    then show ?thesis
      using assms that by (intro rearranged_all [OF assms(2), where i = i and P = "\<lambda>x. \<not> lt x (col xs p)"])
        (auto simp: split_at_pivot_def)
  next
    case True
    then have "col ys i = col xs i" using assms that by (intro rearranged_outside [OF assms(2)]) auto
    with that assms(1) show ?thesis by (simp add: split_at_pivot_def)
  qed
  from p lower upper show ?thesis by (simp add: split_at_pivot_def)
qed

context strict_weak_order
begin

lemma sorted_from_split:
  assumes "split_at_pivot lt a p b xs" and "sorted_in lt a (p - 1) xs" and "sorted_in lt (p + 1) b xs"
  shows "sorted_in lt a b xs"
  unfolding sorted_in_def
proof (intro allI impI)
  fix i j
  assume ij: "a \<le> i \<and> i < j \<and> j \<le> b"
  consider "j < p" | "j = p" | "i < p" "p < j" | "i = p" | "p < i" using ij by linarith
  then show "\<not> lt (col xs j) (col xs i)"
  proof cases
    case 3
    then have "le (col xs i) (col xs p)" "le (col xs p) (col xs j)"
      using ij assms(1) by (auto simp: split_at_pivot_def)
    then show ?thesis by (rule le_trans)
  qed (use ij assms in \<open>auto simp: split_at_pivot_def sorted_in_def\<close>)
qed

lemma u_sp_loop_correct:
  assumes "1 \<le> i" and "i \<le> j" and "j \<le> n" and "0 \<le> s" and "s + n \<le> len xs"
    and "\<And>k. 1 \<le> k \<Longrightarrow> k < i \<Longrightarrow> lt (col xs (s + k)) p"
    and "\<And>k. i \<le> k \<Longrightarrow> k < j \<Longrightarrow> \<not> lt (col xs (s + k)) p"
  shows "case u_sp_loop lt p s n xs i j of (ys, i') \<Rightarrow>
           rearranged (s + 1) (s + n - 1) xs ys \<and>
           (\<forall>k. 1 \<le> k \<and> k < i' \<longrightarrow> lt (col ys (s + k)) p) \<and>
           (\<forall>k. i' \<le> k \<and> k < n \<longrightarrow> \<not> lt (col ys (s + k)) p)"
  using assms
proof (induction "nat (n - j)" arbitrary: xs i j rule: less_induct)
  case (less j xs i)
  show ?case
  proof (cases "j < n")
    case False
    with less.prems show ?thesis by (subst u_sp_loop.simps) auto
  next
    case True
    show ?thesis
    proof (cases "lt (col xs (s + j)) p")
      case False
      have "\<not> lt (col xs (s + k)) p" if "i \<le> k" "k < j + 1" for k
        using that less.prems(7) [of k] False by (cases "k = j") auto
      with less.hyps [of "j + 1" i xs] less.prems True False show ?thesis
        by (subst u_sp_loop.simps) simp
    next
      case lt: True
      let ?ys = "swp xs (s + j) (s + i)"
      have swap: "col ?ys (s + k) = (if k = j then col xs (s + i) else if k = i then col xs (s + j) else col xs (s + k))"
        if "1 \<le> k" "k < n" for k
        using that less.prems True by (simp add: col_swp)
      have "rearranged (s + 1) (s + n - 1) xs ?ys"
        using less.prems True by (intro rearranged_swp) auto
      moreover have "case u_sp_loop lt p s n ?ys (i + 1) (j + 1) of (ys, i') \<Rightarrow>
           rearranged (s + 1) (s + n - 1) ?ys ys \<and>
           (\<forall>k. 1 \<le> k \<and> k < i' \<longrightarrow> lt (col ys (s + k)) p) \<and>
           (\<forall>k. i' \<le> k \<and> k < n \<longrightarrow> \<not> lt (col ys (s + k)) p)"
        using less.prems True lt by (intro less.hyps) (auto simp: swap)
      ultimately show ?thesis
        using True lt by (subst u_sp_loop.simps) (auto intro: rearranged_trans)
    qed
  qed
qed

lemma u_sp_partition_correct:
  assumes "0 \<le> s" and "1 < e - s" and "e \<le> len xs" and "(ys, i) = u_sp_partition lt xs s e"
  shows "rearranged s (e - 1) xs ys \<and> split_at_pivot lt s (s + i - 1) (e - 1) ys"
proof -
  let ?xs = "if (e - s) div 2 \<noteq> 0 then swp xs (s + (e - s) div 2) s else xs"
  let ?p = "col ?xs s"
  obtain zs where zs: "u_sp_loop lt ?p s (e - s) ?xs 1 1 = (zs, i)" "ys = swp zs s (s + i - 1)"
    using assms(4) by (auto simp: u_sp_partition_def Let_def split: prod.splits)
  note b = u_sp_partition_bounds [OF assms(2,4)]
  have start: "rearranged s (e - 1) xs ?xs"
    using assms(1-3) by (auto intro: rearranged_swp)
  then have len: "len ?xs = len xs" by (rule rearranged_len)
  have loop: "rearranged (s + 1) (e - 1) ?xs zs" "\<And>k. 1 \<le> k \<Longrightarrow> k < i \<Longrightarrow> lt (col zs (s + k)) ?p"
      "\<And>k. i \<le> k \<Longrightarrow> k < e - s \<Longrightarrow> \<not> lt (col zs (s + k)) ?p"
    using u_sp_loop_correct [of 1 1 "e - s" s ?xs ?p] assms(1-3) len zs(1) by simp_all
  have lz: "len zs = len xs" using rearranged_len [OF loop(1)] len by simp
  have pivot: "col zs s = ?p" using loop(1) assms(1-3) len by (intro rearranged_outside) auto
  have "rearranged s (e - 1) zs ys"
    unfolding zs(2) using assms(1-3) b lz by (intro rearranged_swp) auto
  then have "rearranged s (e - 1) xs ys"
    by (intro rearranged_trans [OF rearranged_trans [OF start rearranged_mono [OF loop(1), of s "e - 1"]]]) simp_all
  moreover have "split_at_pivot lt s (s + i - 1) (e - 1) ys"
  proof -
    have swap: "col ys k = (if k = s then col zs (s + i - 1) else if k = s + i - 1 then ?p else col zs k)"
      if "s \<le> k" "k < e" for k
      unfolding zs(2) using that assms(1-3) b lz by (subst col_swp) (auto simp: pivot)
    have lower: "\<not> lt ?p (col ys k)" if k: "s \<le> k" "k < s + i - 1" for k
    proof (cases "k = s")
      case True
      then have "col ys k = col zs (s + (i - 1))" using k b swap [of k] by (simp add: algebra_simps)
      moreover have "lt (col zs (s + (i - 1))) ?p" using True k by (intro loop(2)) simp_all
      ultimately show ?thesis using asym by metis
    next
      case False
      then have "col ys k = col zs k" using k b swap [of k] by simp
      moreover have "lt (col zs (s + (k - s))) ?p" using False k by (intro loop(2)) simp_all
      ultimately show ?thesis using asym [of "col zs k" ?p] by simp
    qed
    have upper: "\<not> lt (col ys k) ?p" if k: "s + i - 1 < k" "k \<le> e - 1" for k
    proof -
      have "col ys k = col zs k" using k b swap [of k] by simp
      then show ?thesis using loop(3) [of "k - s"] k by simp
    qed
    have "col ys (s + i - 1) = ?p" using swap [of "s + i - 1"] b pivot by simp
    with lower upper show ?thesis by (simp add: split_at_pivot_def)
  qed
  ultimately show ?thesis by simp
qed

text \<open>Sorting the two sides of the pivot, in either order.\<close>

lemma sort_two_sides:
  assumes "split_at_pivot lt a p b xs" and "0 \<le> a" and "a \<le> p" and "p \<le> b" and "b < len xs"
    and "c = a \<and> d = p - 1 \<and> c' = p + 1 \<and> d' = b \<or> c = p + 1 \<and> d = b \<and> c' = a \<and> d' = p - 1"
    and "rearranged c d xs ys" and "sorted_in lt c d ys"
    and "rearranged c' d' ys zs" and "sorted_in lt c' d' zs"
  shows "rearranged a b xs zs \<and> sorted_in lt a b zs"
proof -
  have ly: "len ys = len xs" using rearranged_len [OF assms(7)] .
  have "split_at_pivot lt a p b ys" using assms ly by (intro split_at_pivot_rearranged [OF assms(1,7)]) auto
  then have "split_at_pivot lt a p b zs"
    using assms ly by (intro split_at_pivot_rearranged [OF _ assms(9)]) auto
  moreover have "sorted_in lt c d zs"
    using assms ly by (intro sorted_in_other_range [OF assms(8,9)]) auto
  ultimately have "sorted_in lt a b zs"
    using assms(6,10) by (auto intro: sorted_from_split)
  moreover have "rearranged a b xs zs"
    using assms by (intro rearranged_trans [OF rearranged_mono [OF assms(7)] rearranged_mono [OF assms(9)]]) auto
  ultimately show ?thesis by simp
qed

lemma single_pivot_correct:
  assumes "0 \<le> s" and "e \<le> len xs"
  shows "rearranged s (e - 1) xs (u_single_pivot lt xs s e) \<and>
         sorted_in lt s (e - 1) (u_single_pivot lt xs s e)"
  using assms
proof (induction "nat (e - s)" arbitrary: xs s e rule: less_induct)
  case less
  show ?case
  proof (cases "e - s \<le> 1")
    case True
    then show ?thesis by (subst (1 2) u_single_pivot.simps) (auto simp: sorted_in_def)
  next
    case False
    obtain ys i where part: "(ys, i) = u_sp_partition lt xs s e" by (metis surj_pair)
    have part': "rearranged s (e - 1) xs ys" "split_at_pivot lt s (s + i - 1) (e - 1) ys"
      using u_sp_partition_correct [OF less.prems(1) _ less.prems(2) part] False by auto
    have b: "1 \<le> i" "i \<le> e - s" using u_sp_partition_bounds [OF _ part] False by auto
    have len: "len ys = len xs" using rearranged_len [OF part'(1)] .
    have IH: "rearranged c (d - 1) zs (u_single_pivot lt zs c d) \<and>
        sorted_in lt c (d - 1) (u_single_pivot lt zs c d)"
      if "c = s + i \<and> d = e \<or> c = s \<and> d = s + i - 1" "len zs = len xs" for c d zs
      using that less.prems b False by (intro less.hyps) auto
    have len2: "len (u_single_pivot lt ys c d) = len xs"
      if "c = s + i \<and> d = e \<or> c = s \<and> d = s + i - 1" for c d
      using rearranged_len conjunct1 [OF IH [OF that len]] len by metis
    let ?r = "if i > (e - s) div 2
      then u_single_pivot lt (u_single_pivot lt ys (s + i) e) s (s + i - 1)
      else u_single_pivot lt (u_single_pivot lt ys s (s + i - 1)) (s + i) e"
    have "rearranged s (e - 1) ys ?r \<and> sorted_in lt s (e - 1) ?r"
    proof (cases "i > (e - s) div 2")
      case True
      then show ?thesis
        using IH [of "s + i" e ys] IH [of s "s + i - 1" "u_single_pivot lt ys (s + i) e"] len len2 b less.prems
        by (simp, intro sort_two_sides [OF part'(2), of "s + i" "e - 1" s "s + i - 1 - 1"]) auto
    next
      case False
      then show ?thesis
        using IH [of s "s + i - 1" ys] IH [of "s + i" e "u_single_pivot lt ys s (s + i - 1)"] len len2 b less.prems
        by (simp, intro sort_two_sides [OF part'(2), of s "s + i - 1 - 1" "s + i" "e - 1"]) auto
    qed
    moreover have "u_single_pivot lt xs s e = ?r"
      using False by (subst u_single_pivot.simps) (simp add: Let_def flip: part)
    ultimately show ?thesis using part'(1) by (auto intro: rearranged_trans)
  qed
qed

end

section \<open>Two pivots\<close>

lemma u_pivots_rearranged:
  assumes "0 \<le> s" and "s < e" and "e < len xs"
  shows "rearranged s e xs (u_pivots lt xs s e)"
proof -
  let ?t = "(e - s + 1) div 3"
  have t: "0 \<le> ?t" "?t \<le> e - s" using assms by auto
  have two: "rearranged s e xs (swp (swp xs i j) k l)"
    if "s \<le> i" "i \<le> e" "s \<le> j" "j \<le> e" "s \<le> k" "k \<le> e" "s \<le> l" "l \<le> e" for i j k l
  proof (rule rearranged_trans)
    show "rearranged s e xs (swp xs i j)" using that assms by (intro rearranged_swp)
    show "rearranged s e (swp xs i j) (swp (swp xs i j) k l)" using that assms by (intro rearranged_swp) auto
  qed
  show ?thesis
    using two t assms rearranged_swp [of s s e e xs] by (auto simp: u_pivots_def Let_def)
qed

lemma u_skip_stops:
  "k \<le> g \<Longrightarrow> u_skip lt xs q k g = k \<or> lt (col xs (u_skip lt xs q k g)) q"
proof (induction lt xs q k g rule: u_skip.induct)
  case (1 lt xs q k g)
  then show ?case by (subst (1 2) u_skip.simps) auto
qed

lemma u_skip_skips:
  "u_skip lt xs q k g < i \<Longrightarrow> i \<le> g \<Longrightarrow> \<not> lt (col xs i) q"
proof (induction lt xs q k g rule: u_skip.induct)
  case (1 lt xs q k g)
  show ?case
  proof (cases "\<not> lt (col xs g) q \<and> k < g")
    case True
    then have "u_skip lt xs q k g = u_skip lt xs q k (g - 1)" by (subst u_skip.simps) simp
    with True "1.IH" "1.prems" show ?thesis by (cases "i = g") auto
  next
    case False
    then have "u_skip lt xs q k g = g" by (subst u_skip.simps) auto
    with "1.prems" show ?thesis by simp
  qed
qed

text \<open>The three parts while the loop runs; \<open>[k, g]\<close> is not looked at yet.\<close>

definition dp_parts ::
  "('a \<Rightarrow> 'a \<Rightarrow> bool) \<Rightarrow> 'a \<Rightarrow> 'a \<Rightarrow> int \<Rightarrow> int \<Rightarrow> int \<Rightarrow> int \<Rightarrow> int \<Rightarrow> 'a list \<Rightarrow> bool" where
  "dp_parts lt p q s e j k g xs \<longleftrightarrow>
     (\<forall>i. s < i \<and> i < j \<longrightarrow> lt (col xs i) p) \<and>
     (\<forall>i. j \<le> i \<and> i < k \<and> i \<le> g \<longrightarrow> \<not> lt (col xs i) p \<and> lt (col xs i) q) \<and>
     (\<forall>i. g < i \<and> i < e \<longrightarrow> \<not> lt (col xs i) q)"

lemma u_loop_correct:
  assumes "0 \<le> s" and "s < j" and "j \<le> k" and "j \<le> g + 1" and "g < e" and "e < len xs"
    and "dp_parts lt p q s e j k g xs"
  shows "case u_loop lt p q xs j k g of (ys, j', g') \<Rightarrow>
           rearranged (s + 1) (e - 1) xs ys \<and> dp_parts lt p q s e j' (g' + 1) g' ys"
  using assms
proof (induction lt p q xs j k g rule: u_loop.induct)
  case (1 lt p q xs j k g)
  let ?step = "\<lambda>ys j' k' g'. case u_loop lt p q ys j' k' g' of (zs, j'', g'') \<Rightarrow>
      rearranged (s + 1) (e - 1) ys zs \<and> dp_parts lt p q s e j'' (g'' + 1) g'' zs"
  have via: "case u_loop lt p q ys j' k' g' of (zs, j'', g'') \<Rightarrow>
      rearranged (s + 1) (e - 1) xs zs \<and> dp_parts lt p q s e j'' (g'' + 1) g'' zs"
    if "rearranged (s + 1) (e - 1) xs ys" "?step ys j' k' g'" for ys j' k' g'
    using that by (auto intro: rearranged_trans)
  consider "\<not> k \<le> g" | "k \<le> g" "lt (col xs k) p"
    | "k \<le> g" "\<not> lt (col xs k) p" "\<not> lt (col xs k) q"
    | "k \<le> g" "\<not> lt (col xs k) p" "lt (col xs k) q" by blast
  then show ?case
  proof cases
    case 1
    then show ?thesis using "1.prems" by (subst u_loop.simps) (auto simp: dp_parts_def)
  next
    case 2
    have "rearranged (s + 1) (e - 1) xs (swp xs k j)"
      using "1.prems" 2 by (intro rearranged_swp) auto
    moreover have "dp_parts lt p q s e (j + 1) (k + 1) g (swp xs k j)"
      using "1.prems" 2 by (auto simp: dp_parts_def col_swp)
    then have "?step (swp xs k j) (j + 1) (k + 1) g"
      using "1.IH"(1) [OF 2] "1.prems" 2 by simp
    ultimately show ?thesis using 2 via by (subst u_loop.simps) simp
  next
    case 3
    define g' where "g' = u_skip lt xs q k g"
    have g': "k \<le> g'" "g' \<le> g" "g' = k \<or> lt (col xs g') q"
      using u_skip_bounds [OF 3(1), of lt xs q] u_skip_stops [OF 3(1), of lt xs q] by (simp_all add: g'_def)
    have high: "\<not> lt (col xs i) q" if "g' < i" "i < e" for i
      using that u_skip_skips [of lt xs q k g i] "1.prems"(7) unfolding g'_def
      by (cases "i \<le> g") (auto simp: dp_parts_def)
    let ?ys = "swp xs k g'"
    have ys: "rearranged (s + 1) (e - 1) xs ?ys" "len ?ys = len xs"
      using "1.prems" g' by (auto intro: rearranged_swp)
    have col: "col ?ys i = (if i = k then col xs g' else if i = g' then col xs k else col xs i)" if "s < i" "i < e" for i
      using that "1.prems" g' by (simp add: col_swp)
    have parts: "dp_parts lt p q s e j k (g' - 1) ?ys"
    proof -
      have "i = g' \<or> g' < i" if "g' - 1 < i" for i using that by auto
      with "1.prems" g' 3 high show ?thesis by (auto simp: dp_parts_def col)
    qed
    show ?thesis
    proof (cases "lt (col ?ys k) p")
      case True
      then have ne: "k < g'" using 3(2) g'(1) by (cases "k = g'") auto
      have "rearranged (s + 1) (e - 1) ?ys (swp ?ys k j)"
        using "1.prems" g' 3 by (intro rearranged_swp) auto
      then have "rearranged (s + 1) (e - 1) xs (swp ?ys k j)" using ys(1) rearranged_trans by blast
      moreover have "dp_parts lt p q s e (j + 1) (k + 1) (g' - 1) (swp ?ys k j)"
        using "1.prems" parts True ne g' by (auto simp: dp_parts_def col_swp [of k ?ys j] ys(2))
      then have "?step (swp ?ys k j) (j + 1) (k + 1) (g' - 1)"
        using "1.IH"(2) [OF 3 g'_def refl True] "1.prems" g' ne by simp
      ultimately have "case u_loop lt p q (swp ?ys k j) (j + 1) (k + 1) (g' - 1) of (zs, j'', g'') \<Rightarrow>
          rearranged (s + 1) (e - 1) xs zs \<and> dp_parts lt p q s e j'' (g'' + 1) g'' zs"
        by (rule via)
      with True 3 show ?thesis by (subst u_loop.simps) (simp add: Let_def flip: g'_def)
    next
      case False
      have "k < g' \<Longrightarrow> lt (col ?ys k) q" using g'(1,3) col [of k] "1.prems" 3(1) by auto
      then have "dp_parts lt p q s e j (k + 1) (g' - 1) ?ys"
        using parts False by (auto simp: dp_parts_def) (metis less_add_one linorder_neqE not_less zle_add1_eq_le)+
      then have "?step ?ys j (k + 1) (g' - 1)"
        using "1.IH"(3) [OF 3 g'_def refl False] "1.prems" g' 3(1) by simp
      with ys(1) have "case u_loop lt p q ?ys j (k + 1) (g' - 1) of (zs, j'', g'') \<Rightarrow>
          rearranged (s + 1) (e - 1) xs zs \<and> dp_parts lt p q s e j'' (g'' + 1) g'' zs"
        by (rule via)
      with False 3 show ?thesis by (subst u_loop.simps) (simp add: Let_def flip: g'_def)
    qed
  next
    case 4
    have "dp_parts lt p q s e j (k + 1) g xs"
      using "1.prems"(7) 4 unfolding dp_parts_def by (metis zless_add1_eq)
    then have "?step xs j (k + 1) g" using "1.IH"(4) "1.prems" 4 by simp
    with 4 show ?thesis by (subst u_loop.simps) simp
  qed
qed

text \<open>The collection around its two pivots.\<close>

definition split_at_pivots :: "('a \<Rightarrow> 'a \<Rightarrow> bool) \<Rightarrow> int \<Rightarrow> int \<Rightarrow> int \<Rightarrow> int \<Rightarrow> 'a list \<Rightarrow> bool" where
  "split_at_pivots lt a l r b xs \<longleftrightarrow>
     (\<forall>i. a \<le> i \<and> i < l \<longrightarrow> \<not> lt (col xs l) (col xs i)) \<and>
     (\<forall>i. l < i \<and> i < r \<longrightarrow> \<not> lt (col xs i) (col xs l) \<and> \<not> lt (col xs r) (col xs i)) \<and>
     (\<forall>i. r < i \<and> i \<le> b \<longrightarrow> \<not> lt (col xs i) (col xs r)) \<and>
     \<not> lt (col xs r) (col xs l)"

lemma split_at_pivots_rearranged:
  assumes "split_at_pivots lt a l r b xs" and "rearranged c d xs ys" and "0 \<le> a" and "b < len xs"
    and "a \<le> l" and "l < r" and "r \<le> b"
    and "c = a \<and> d = l - 1 \<or> c = l + 1 \<and> d = r - 1 \<or> c = r + 1 \<and> d = b"
  shows "split_at_pivots lt a l r b ys"
proof -
  have same: "col ys i = col xs i" if "a \<le> i" "i \<le> b" "i < c \<or> d < i" for i
    using that assms by (intro rearranged_outside [OF assms(2)]) auto
  have all: "P (col ys i)" if "\<And>k. c \<le> k \<Longrightarrow> k \<le> d \<Longrightarrow> P (col xs k)" "c \<le> i" "i \<le> d" for P i
    using that assms by (intro rearranged_all [OF assms(2), where i = i and P = P]) auto
  have lr: "col ys l = col xs l" "col ys r = col xs r" using assms by (auto intro!: same)
  have "\<not> lt (col xs l) (col ys i)" if "a \<le> i" "i < l" for i
    using that assms all [where P = "\<lambda>x. \<not> lt (col xs l) x" and i = i] same [of i]
    by (cases "c \<le> i \<and> i \<le> d") (auto simp: split_at_pivots_def)
  moreover have "\<not> lt (col ys i) (col xs l) \<and> \<not> lt (col xs r) (col ys i)" if "l < i" "i < r" for i
    using that assms all [where P = "\<lambda>x. \<not> lt x (col xs l) \<and> \<not> lt (col xs r) x" and i = i] same [of i]
    by (cases "c \<le> i \<and> i \<le> d") (auto simp: split_at_pivots_def)
  moreover have "\<not> lt (col ys i) (col xs r)" if "r < i" "i \<le> b" for i
    using that assms all [where P = "\<lambda>x. \<not> lt x (col xs r)" and i = i] same [of i]
    by (cases "c \<le> i \<and> i \<le> d") (auto simp: split_at_pivots_def)
  ultimately show ?thesis using assms(1) lr by (simp add: split_at_pivots_def)
qed

context strict_weak_order
begin

lemma u_pivots_ordered:
  assumes "0 \<le> s" and "s < e" and "e < len xs"
  shows "\<not> lt (col (u_pivots lt xs s e) e) (col (u_pivots lt xs s e) s)"
proof (cases "e - s + 1 > 3")
  case False
  then show ?thesis using assms by (auto simp: u_pivots_def Let_def col_swp dest: asym)
next
  case True
  define t where "t = (e - s + 1) div 3"
  have t: "0 < t" "s + t < e - t" using True unfolding t_def by linarith+
  have "u_pivots lt xs s e = (if lt (col xs (s + t)) (col xs (e - t))
      then swp (swp xs (s + t) s) (e - t) e else swp (swp xs (s + t) e) (e - t) s)"
    using True by (simp add: u_pivots_def Let_def t_def)
  then show ?thesis using t assms by (auto simp: col_swp dest: asym)
qed

lemma u_partition_correct:
  assumes "0 \<le> s" and "s < e" and "e < len xs" and "(ys, l, r) = u_partition lt xs s e"
  shows "rearranged s e xs ys \<and> split_at_pivots lt s l r e ys"
proof -
  let ?xs = "u_pivots lt xs s e"
  let ?p = "col ?xs s" and ?q = "col ?xs e"
  obtain zs where zs: "u_loop lt ?p ?q ?xs (s + 1) (s + 1) (e - 1) = (zs, l + 1, r - 1)"
      "ys = swp (swp zs s l) e r"
    using assms(4) by (auto simp: u_partition_def Let_def split: prod.splits)
  note b = u_partition_less [OF assms(2,4)]
  have start: "rearranged s e xs ?xs" by (rule u_pivots_rearranged [OF assms(1-3)])
  have len: "len ?xs = len xs" by (rule rearranged_len [OF start])
  have "dp_parts lt ?p ?q s e (s + 1) (s + 1) (e - 1) ?xs" by (auto simp: dp_parts_def)
  then have loop: "rearranged (s + 1) (e - 1) ?xs zs" "dp_parts lt ?p ?q s e (l + 1) r (r - 1) zs"
    using u_loop_correct [of s "s + 1" "s + 1" "e - 1" e ?xs lt ?p ?q] assms(1-3) len zs(1) by simp_all
  have lz: "len zs = len xs" using rearranged_len [OF loop(1)] len by simp
  have ends: "col zs s = ?p" "col zs e = ?q"
    using loop(1) assms(1-3) len by (auto intro!: rearranged_outside)
  have swap: "col ys k = (if k = l then ?p else if k = r then ?q else if k = s then col zs l
      else if k = e then col zs r else col zs k)" if "s \<le> k" "k \<le> e" for k
    unfolding zs(2) using that assms(1-3) b lz ends by (auto simp: col_swp)
  have mid: "rearranged s e ?xs zs" by (rule rearranged_mono [OF loop(1)]) simp_all
  have left: "rearranged s e zs (swp zs s l)"
    using assms(1-3) b lz by (intro rearranged_swp) auto
  have right: "rearranged s e (swp zs s l) ys"
    unfolding zs(2) using assms(1-3) b lz by (intro rearranged_swp) auto
  have "rearranged s e xs ys"
    by (rule rearranged_trans [OF start rearranged_trans [OF mid rearranged_trans [OF left right]]])
  moreover have "split_at_pivots lt s l r e ys"
  proof -
    have low: "\<not> lt ?p (col ys i)" if i: "s \<le> i" "i < l" for i
    proof -
      have "col ys i = col zs (if i = s then l else i)" using i b swap [of i] by auto
      then show ?thesis using loop(2) i by (auto simp: dp_parts_def dest: asym)
    qed
    have mid: "\<not> lt (col ys i) ?p \<and> \<not> lt ?q (col ys i)" if i: "l < i" "i < r" for i
    proof -
      have "col ys i = col zs i" using i b swap [of i] by auto
      then show ?thesis using loop(2) i by (auto simp: dp_parts_def dest: asym)
    qed
    have high: "\<not> lt (col ys i) ?q" if i: "r < i" "i \<le> e" for i
    proof -
      have "col ys i = col zs (if i = e then r else i)" using i b swap [of i] by auto
      then show ?thesis using loop(2) i b by (auto simp: dp_parts_def)
    qed
    have "col ys l = ?p" "col ys r = ?q" using b swap [of l] swap [of r] by auto
    with low mid high u_pivots_ordered [OF assms(1-3)] show ?thesis by (simp add: split_at_pivots_def)
  qed
  ultimately show ?thesis by simp
qed

lemma sorted_from_pivots:
  assumes "split_at_pivots lt a l r b xs" and "sorted_in lt a (l - 1) xs"
    and "sorted_in lt (l + 1) (r - 1) xs" and "sorted_in lt (r + 1) b xs" and "l < r"
  shows "sorted_in lt a b xs"
proof -
  have "split_at_pivot lt (l + 1) r b xs"
    using assms(1) by (auto simp: split_at_pivots_def split_at_pivot_def)
  then have upper: "sorted_in lt (l + 1) b xs" by (rule sorted_from_split [OF _ assms(3,4)])
  have "\<not> lt (col xs i) (col xs l)" if "l < i" "i \<le> b" for i
  proof -
    consider "i < r" | "i = r" | "r < i" by linarith
    then show ?thesis
    proof cases
      case 3
      then have "le (col xs l) (col xs r)" "le (col xs r) (col xs i)"
        using that assms(1) by (auto simp: split_at_pivots_def)
      then show ?thesis by (rule le_trans)
    qed (use that assms(1) in \<open>auto simp: split_at_pivots_def\<close>)
  qed
  then have "split_at_pivot lt a l b xs"
    using assms(1) by (simp add: split_at_pivots_def split_at_pivot_def)
  then show ?thesis by (rule sorted_from_split [OF _ assms(2) upper])
qed

text \<open>Sorting the three parts one after the other, in whatever order.\<close>

lemma sort_three_parts:
  assumes split: "split_at_pivots lt a l r b xs" and range: "0 \<le> a" "a \<le> l" "l < r" "r \<le> b" "b < len xs"
    and parts: "c = l + 1 \<and> d = r - 1 \<and> c' = r + 1 \<and> d' = b \<and> c'' = a \<and> d'' = l - 1 \<or>
      c = a \<and> d = l - 1 \<and> c' = r + 1 \<and> d' = b \<and> c'' = l + 1 \<and> d'' = r - 1 \<or>
      c = a \<and> d = l - 1 \<and> c' = l + 1 \<and> d' = r - 1 \<and> c'' = r + 1 \<and> d'' = b"
    and first: "rearranged c d xs ys" "sorted_in lt c d ys"
    and second: "rearranged c' d' ys zs" "sorted_in lt c' d' zs"
    and third: "rearranged c'' d'' zs us" "sorted_in lt c'' d'' us"
  shows "rearranged a b xs us \<and> sorted_in lt a b us"
proof -
  let ?part = "\<lambda>c d. c = a \<and> d = l - 1 \<or> c = l + 1 \<and> d = r - 1 \<or> c = r + 1 \<and> d = b"
  have part: "?part c d" "?part c' d'" "?part c'' d''" using parts by auto
  have apart: "d < c' \<or> d' < c" "d < c'' \<or> d'' < c" "d' < c'' \<or> d'' < c'"
    using parts range by auto
  have inside: "0 \<le> c" "d < len xs" "0 \<le> c'" "d' < len xs" using part range by auto
  have ly: "len ys = len xs" and lz: "len zs = len xs"
    using rearranged_len [OF first(1)] rearranged_len [OF second(1)] by simp_all
  have "split_at_pivots lt a l r b ys"
    using split_at_pivots_rearranged [OF split first(1)] range part by simp
  then have "split_at_pivots lt a l r b zs"
    using split_at_pivots_rearranged [OF _ second(1)] range part ly by simp
  then have pivots: "split_at_pivots lt a l r b us"
    using split_at_pivots_rearranged [OF _ third(1)] range part lz by simp
  have "sorted_in lt c d us"
    using sorted_in_other_range [OF sorted_in_other_range [OF first(2) second(1)] third(1)] apart inside ly lz
    by auto
  moreover have "sorted_in lt c' d' us"
    using sorted_in_other_range [OF second(2) third(1)] apart inside lz by auto
  ultimately have "sorted_in lt a (l - 1) us \<and> sorted_in lt (l + 1) (r - 1) us \<and> sorted_in lt (r + 1) b us"
    using parts third(2) by (elim disjE) simp_all
  then have "sorted_in lt a b us"
    using sorted_from_pivots [OF pivots] range(3) by simp
  moreover have "rearranged a b xs us"
    using part range by (intro rearranged_trans [OF rearranged_mono [OF first(1)]
        rearranged_trans [OF rearranged_mono [OF second(1)] rearranged_mono [OF third(1)]]]) auto
  ultimately show ?thesis by simp
qed

lemma dual_pivot_correct:
  assumes "0 \<le> s" and "e < len xs"
  shows "rearranged s e xs (u_dual_pivot lt xs s e) \<and>
         sorted_in lt s e (u_dual_pivot lt xs s e)"
  using assms
proof (induction "nat (e + 1 - s)" arbitrary: xs s e rule: less_induct)
  case less
  show ?case
  proof (cases "s < e")
    case False
    then show ?thesis by (subst (1 2) u_dual_pivot.simps) (auto simp: sorted_in_def)
  next
    case True
    obtain ys l r where part: "(ys, l, r) = u_partition lt xs s e" by (metis surj_pair)
    have b: "s \<le> l" "l < r" "r \<le> e" using u_partition_less [OF True part] by auto
    have part': "rearranged s e xs ys" "split_at_pivots lt s l r e ys"
      using u_partition_correct [OF less.prems(1) True less.prems(2) part] by auto
    have len: "len ys = len xs" using rearranged_len [OF part'(1)] .
    let ?part = "\<lambda>c d. c = s \<and> d = l - 1 \<or> c = l + 1 \<and> d = r - 1 \<or> c = r + 1 \<and> d = e"
    have IH: "rearranged c d zs (u_dual_pivot lt zs c d)"
      "sorted_in lt c d (u_dual_pivot lt zs c d)"
      "len (u_dual_pivot lt zs c d) = len xs"
      if "?part c d" "len zs = len xs" for c d zs
    proof -
      have "rearranged c d zs (u_dual_pivot lt zs c d) \<and>
          sorted_in lt c d (u_dual_pivot lt zs c d)"
        using that less.prems b by (intro less.hyps) auto
      then show "rearranged c d zs (u_dual_pivot lt zs c d)"
        "sorted_in lt c d (u_dual_pivot lt zs c d)"
        "len (u_dual_pivot lt zs c d) = len xs"
        using rearranged_len that(2) by fastforce+
    qed
    have three: "rearranged s e ys us \<and> sorted_in lt s e us"
      if "us = u_dual_pivot lt (u_dual_pivot lt (u_dual_pivot lt ys c d) c' d') c'' d''"
        and "c = l + 1 \<and> d = r - 1 \<and> c' = r + 1 \<and> d' = e \<and> c'' = s \<and> d'' = l - 1 \<or>
          c = s \<and> d = l - 1 \<and> c' = r + 1 \<and> d' = e \<and> c'' = l + 1 \<and> d'' = r - 1 \<or>
          c = s \<and> d = l - 1 \<and> c' = l + 1 \<and> d' = r - 1 \<and> c'' = r + 1 \<and> d'' = e"
      for us c d c' d' c'' d''
    proof -
      have p: "?part c d" "?part c' d'" "?part c'' d''" using that(2) by auto
      note 1 = IH [OF p(1) len]
      note 2 = IH [OF p(2) 1(3)]
      note 3 = IH [OF p(3) 2(3)]
      show ?thesis
        unfolding that(1)
        by (rule sort_three_parts [OF part'(2) less.prems(1) b _ that(2) 1(1,2) 2(1,2) 3(1,2)])
          (simp add: len less.prems(2))
    qed
    have "\<exists>us. u_dual_pivot lt xs s e = us \<and> rearranged s e ys us \<and> sorted_in lt s e us"
      using True three [OF refl, of "l + 1" "r - 1" "r + 1" e s "l - 1"]
        three [OF refl, of s "l - 1" "r + 1" e "l + 1" "r - 1"]
        three [OF refl, of s "l - 1" "l + 1" "r - 1" "r + 1" e]
      by (subst u_dual_pivot.simps) (simp add: Let_def flip: part)
    then show ?thesis using part'(1) by (auto intro: rearranged_trans)
  qed
qed

text \<open>A range sorted as the code sorts it is sorted as a list.\<close>

lemma sorted_in_sorted_wrt:
  "sorted_in lt 0 (len xs - 1) xs \<Longrightarrow> sorted_wrt (\<lambda>x y. \<not> lt y x) xs"
  unfolding sorted_in_def sorted_wrt_iff_nth_less
  by (metis (no_types, opaque_lifting) col_def len_def nat_int of_nat_0_le_iff of_nat_less_iff zle_diff1_eq)

end

interpretation linear_less: strict_weak_order "(<) :: 'a :: linorder \<Rightarrow> 'a \<Rightarrow> bool"
  by unfold_locales auto

end
