(* ===== verification/QuickSort_Correct.thy ===== *)
theory QuickSort_Correct
  imports QuickSort QuickSort_Sorted
begin

text \<open>
  No \<open>int\<close> overflows and no index leaves a collection of fewer than \<open>2 ^ 31\<close> elements, so the sorts return
  what the unbounded reference returns, which is sorted. From there on the narrowed size is wrong.
\<close>

section \<open>Nothing overflows\<close>

lemma dp_pivots_returns:
  assumes "0 \<le> s" and "s < e" and "e < len xs" and "len xs < 2 ^ 31"
  shows "dp_pivots lt xs s e = Inr (u_pivots lt xs s e)"
proof -
  let ?t = "(e - s + 1) div 3"
  have t: "0 \<le> ?t" "?t \<le> e - s" using assms(2) by auto
  have length: "int (length xs) = len xs" by (simp add: len_def)
  show ?thesis
    using assms t by (auto simp: dp_pivots_def u_pivots_def Let_def length col_def)
qed

lemma dp_skip_returns:
  assumes "0 \<le> k" and "k \<le> g" and "g < len xs" and "len xs < 2 ^ 31"
  shows "dp_skip lt xs q k g = Inr (u_skip lt xs q k g)"
  using assms
proof (induction lt xs q k g rule: u_skip.induct)
  case (1 lt xs q k g)
  have x: "item_at xs g = Inr (col xs g)" using "1.prems" by (simp add: len_def col_def)
  show ?case
  proof (cases "\<not> lt (col xs g) q \<and> k < g")
    case True
    then show ?thesis
      using "1.IH" [OF True] "1.prems" x by (subst dp_skip.simps, subst u_skip.simps) simp
  next
    case False
    then show ?thesis using x by (subst dp_skip.simps, subst u_skip.simps) auto
  qed
qed

lemma dp_loop_returns:
  assumes "0 \<le> s" and "s < j" and "j \<le> k" and "j \<le> g + 1" and "g < e" and "e < len xs" and "len xs < 2 ^ 31"
  shows "dp_loop lt p q xs j k g = Inr (u_loop lt p q xs j k g)"
  using assms
proof (induction lt p q xs j k g rule: u_loop.induct)
  case (1 lt p q xs j k g)
  consider "\<not> k \<le> g" | "k \<le> g" "lt (col xs k) p"
    | "k \<le> g" "\<not> lt (col xs k) p" "\<not> lt (col xs k) q"
    | "k \<le> g" "\<not> lt (col xs k) p" "lt (col xs k) q" by blast
  then show ?case
  proof cases
    case 1
    then show ?thesis by (simp add: dp_loop.simps u_loop.simps)
  next
    case 2
    then have "item_at xs k = Inr (col xs k)" using "1.prems" by (simp add: len_def col_def)
    then show ?thesis
      using "1.IH"(1) [OF 2] "1.prems" 2 by (subst dp_loop.simps, subst u_loop.simps) simp
  next
    case 3
    define g' where "g' = u_skip lt xs q k g"
    have g': "k \<le> g'" "g' \<le> g" using u_skip_bounds [OF 3(1), of lt xs q] by (simp_all add: g'_def)
    have skip: "dp_skip lt xs q k g = Inr g'"
      using "1.prems" 3(1) unfolding g'_def by (intro dp_skip_returns) auto
    let ?ys = "swp xs k g'"
    have x: "item_at xs k = Inr (col xs k)" "item_at ?ys k = Inr (col ?ys k)"
      using "1.prems" 3(1) by (simp_all add: len_def col_def)
    show ?thesis
    proof (cases "lt (col ?ys k) p")
      case True
      then have "k \<noteq> g'" using 3(2) by auto
      then have "j + 1 \<le> g' - 1 + 1" using g' "1.prems" by simp
      then show ?thesis
        using "1.IH"(2) [OF 3 g'_def refl True] "1.prems" g' 3 True x skip
        by (subst dp_loop.simps, subst u_loop.simps) (simp add: Let_def flip: g'_def)
    next
      case False
      then show ?thesis
        using "1.IH"(3) [OF 3 g'_def refl False] "1.prems" g' 3 x skip
        by (subst dp_loop.simps, subst u_loop.simps) (simp add: Let_def flip: g'_def)
    qed
  next
    case 4
    then have "item_at xs k = Inr (col xs k)" using "1.prems" by (simp add: len_def col_def)
    then show ?thesis
      using "1.IH"(4) "1.prems" 4 by (subst dp_loop.simps, subst u_loop.simps) simp
  qed
qed

lemma u_loop_len: "len (fst (u_loop lt p q xs j k g)) = len xs"
proof (induction lt p q xs j k g rule: u_loop.induct)
  case (1 lt p q xs j k g)
  then show ?case by (subst u_loop.simps) (simp add: Let_def)
qed

lemma dp_partition_returns:
  assumes "0 \<le> s" and "s < e" and "e < len xs" and "len xs < 2 ^ 31"
  shows "dp_partition lt xs s e = Inr (u_partition lt xs s e)"
proof -
  let ?xs = "u_pivots lt xs s e" and ?loop = "u_loop lt (col (u_pivots lt xs s e) s) (col (u_pivots lt xs s e) e)"
  have len: "len ?xs = len xs" using rearranged_len [OF u_pivots_rearranged [OF assms(1-3)]] .
  obtain ys j g where loop: "?loop ?xs (s + 1) (s + 1) (e - 1) = (ys, j, g)" by (metis prod_cases3)
  have returns: "dp_loop lt (col ?xs s) (col ?xs e) ?xs (s + 1) (s + 1) (e - 1) = Inr (ys, j, g)"
    using dp_loop_returns [of s "s + 1" "s + 1" "e - 1" e ?xs lt "col ?xs s" "col ?xs e"] assms len loop by simp
  have bounds: "s < j" "j \<le> g + 1" "g < e"
    using u_loop_bounds [of s "s + 1" "s + 1" "e - 1" e lt "col ?xs s" "col ?xs e" ?xs] assms loop by simp_all
  have ly: "len ys = len xs" using u_loop_len [of lt "col ?xs s" "col ?xs e" ?xs "s + 1" "s + 1" "e - 1"] loop len by simp
  have ends: "item_at ?xs s = Inr (col ?xs s)" "item_at ?xs e = Inr (col ?xs e)"
    using assms len by (simp_all add: len_def col_def)
  show ?thesis
    using assms bounds ly
    by (simp add: dp_partition_def dp_pivots_returns [OF assms] ends returns u_partition_def loop)
qed

lemma sp_loop_returns:
  assumes "0 \<le> s" and "1 \<le> i" and "i \<le> j" and "j \<le> n" and "s + n \<le> len xs" and "len xs < 2 ^ 31"
  shows "sp_loop lt p s n xs i j = Inr (u_sp_loop lt p s n xs i j)"
  using assms
proof (induction lt p s n xs i j rule: u_sp_loop.induct)
  case (1 lt p s n xs i j)
  show ?case
  proof (cases "j < n")
    case False
    then show ?thesis by (simp add: sp_loop.simps u_sp_loop.simps)
  next
    case True
    have "item_at xs (s + j) = Inr (col xs (s + j))" using "1.prems" True by (simp add: len_def col_def)
    then show ?thesis
      using "1.IH" "1.prems" True by (subst sp_loop.simps, subst u_sp_loop.simps) auto
  qed
qed

lemma u_sp_loop_len: "len (fst (u_sp_loop lt p s n xs i j)) = len xs"
proof (induction lt p s n xs i j rule: u_sp_loop.induct)
  case (1 lt p s n xs i j)
  then show ?case by (subst u_sp_loop.simps) simp
qed

lemma sp_partition_returns:
  assumes "0 \<le> s" and "1 < e - s" and "e \<le> len xs" and "len xs < 2 ^ 31"
  shows "sp_partition lt xs s (e - s) = Inr (u_sp_partition lt xs s e)"
proof -
  let ?xs = "if (e - s) div 2 \<noteq> 0 then swp xs (s + (e - s) div 2) s else xs"
  have len: "len ?xs = len xs" by simp
  obtain ys i where loop: "u_sp_loop lt (col ?xs s) s (e - s) ?xs 1 1 = (ys, i)" by (metis surj_pair)
  have returns: "sp_loop lt (col ?xs s) s (e - s) ?xs 1 1 = Inr (ys, i)"
    using sp_loop_returns [of s 1 1 "e - s" ?xs lt "col ?xs s"] assms len loop by simp
  have i: "1 \<le> i" "i \<le> e - s"
    using u_sp_loop_bounds [of 1 1 "e - s" lt "col ?xs s" s ?xs] assms loop by simp_all
  have ly: "len ys = len xs" using u_sp_loop_len [of lt "col ?xs s" s "e - s" ?xs 1 1] loop len by simp
  have pivot: "item_at ?xs s = Inr (col ?xs s)" using assms len by (simp add: len_def col_def)
  have half: "0 \<le> (e - s) div 2" "s + (e - s) div 2 < len xs" using assms by auto
  have start: "(if (e - s) div 2 \<noteq> 0 then swap_items xs (s + (e - s) div 2) s else Inr xs) = Inr ?xs"
    using assms half by simp
  have "s + i - 1 < len ys" "0 \<le> s + i - 1" using assms i ly by simp_all
  then show ?thesis
    unfolding sp_partition_def u_sp_partition_def Let_def start try_then.simps pivot returns loop
    using assms ly by simp
qed

context strict_weak_order
begin

lemma dual_pivot_returns:
  assumes "0 \<le> s" and "e < len xs" and "len xs < 2 ^ 31"
  shows "dual_pivot_quick_sort lt xs s e = Inr (u_dual_pivot lt xs s e)"
  using assms
proof (induction "nat (e + 1 - s)" arbitrary: xs s e rule: less_induct)
  case less
  show ?case
  proof (cases "s < e")
    case False
    then show ?thesis by (simp add: dual_pivot_quick_sort.simps u_dual_pivot.simps)
  next
    case True
    obtain ys l r where part: "(ys, l, r) = u_partition lt xs s e" by (metis surj_pair)
    have b: "s \<le> l" "l < r" "r \<le> e" using u_partition_less [OF True part] by auto
    have "len ys = len xs"
      using rearranged_len conjunct1 [OF u_partition_correct [OF less.prems(1) True less.prems(2) part]] by metis
    then have ly: "len ys = len xs" .
    have sub: "dual_pivot_quick_sort lt zs c d = Inr (u_dual_pivot lt zs c d) \<and> len (u_dual_pivot lt zs c d) = len xs"
      if "c = s \<and> d = l - 1 \<or> c = l + 1 \<and> d = r - 1 \<or> c = r + 1 \<and> d = e" "len zs = len xs" for c d zs
    proof -
      have range: "0 \<le> c" "d < len zs" "nat (d + 1 - c) < nat (e + 1 - s)"
        using that less.prems b True by auto
      have "rearranged c d zs (u_dual_pivot lt zs c d)"
        using dual_pivot_correct [OF range(1,2)] by simp
      then show ?thesis
        using less.hyps [OF range(3,1,2)] rearranged_len that(2) less.prems(3) by fastforce
    qed
    have partition: "dp_partition lt xs s e = Inr (ys, l, r)"
      using dp_partition_returns [OF less.prems(1) True less.prems(2,3)] by (simp flip: part)
    show ?thesis
      using True b less.prems sub ly
      by (subst dual_pivot_quick_sort.simps, subst u_dual_pivot.simps) (simp add: partition Let_def flip: part)
  qed
qed

lemma single_pivot_returns:
  assumes "0 \<le> s" and "s \<le> e" and "e \<le> len xs" and "len xs < 2 ^ 31"
  shows "single_pivot_quick_sort lt xs s e = Inr (u_single_pivot lt xs s e)"
  using assms
proof (induction "nat (e - s)" arbitrary: xs s e rule: less_induct)
  case less
  have size: "narrow_int (e - s) = e - s" using less.prems by simp
  show ?case
  proof (cases "e - s \<le> 1")
    case True
    then show ?thesis
      using less.prems size by (subst single_pivot_quick_sort.simps, subst u_single_pivot.simps) simp
  next
    case False
    obtain ys i where part: "(ys, i) = u_sp_partition lt xs s e" by (metis surj_pair)
    have b: "1 \<le> i" "i \<le> e - s" using u_sp_partition_bounds [OF _ part] False by auto
    have ly: "len ys = len xs"
      using rearranged_len conjunct1 [OF u_sp_partition_correct [OF less.prems(1) _ less.prems(3) part]] False by auto
    have sub: "single_pivot_quick_sort lt zs c d = Inr (u_single_pivot lt zs c d) \<and> len (u_single_pivot lt zs c d) = len xs"
      if "c = s + i \<and> d = e \<or> c = s \<and> d = s + i - 1" "len zs = len xs" for c d zs
    proof -
      have range: "0 \<le> c" "c \<le> d" "d \<le> len zs" "nat (d - c) < nat (e - s)"
        using that less.prems b False by auto
      have "rearranged c (d - 1) zs (u_single_pivot lt zs c d)"
        using single_pivot_correct [OF range(1,3)] by simp
      then show ?thesis
        using less.hyps [OF range(4,1,2,3)] rearranged_len that(2) less.prems(4) by fastforce
    qed
    have partition: "sp_partition lt xs s (e - s) = Inr (ys, i)"
      using sp_partition_returns [OF less.prems(1) _ less.prems(3,4)] False by (simp flip: part)
    show ?thesis
      using False b less.prems sub ly size
      by (subst single_pivot_quick_sort.simps, subst u_single_pivot.simps) (simp add: partition Let_def flip: part)
  qed
qed

end

section \<open>Properties\<close>

text \<open>
  C8. The dual-pivot sort of a collection of fewer than \<open>2 ^ 31\<close> elements returns, without overflow and
  without an index outside, a permutation of it that is sorted, for every comparison that is a strict weak
  order.
\<close>

theorem quick_sort_correct:
  assumes "strict_weak_order lt" and "length xs < 2 ^ 31"
  shows "\<exists>ys. quick_sort lt xs = Inr ys \<and> mset ys = mset xs \<and> sorted_wrt (\<lambda>x y. \<not> lt y x) ys"
proof -
  let ?ys = "u_dual_pivot lt xs 0 (len xs - 1)"
  have len: "len xs < 2 ^ 31" using assms(2) by (simp add: len_def)
  have "narrow_int ((len xs - 1) mod 2 ^ 64) = len xs - 1"
  proof (cases "xs = []")
    case False
    then have "0 \<le> len xs - 1" by (cases xs) (simp_all add: len_def)
    then show ?thesis using len by simp
  qed (simp add: len_def narrow_int_def)
  then have returns: "quick_sort lt xs = Inr ?ys"
    using strict_weak_order.dual_pivot_returns [OF assms(1), of 0 "len xs - 1" xs] len by (simp add: quick_sort_def)
  have r: "rearranged 0 (len xs - 1) xs ?ys" "sorted_in lt 0 (len xs - 1) ?ys"
    using strict_weak_order.dual_pivot_correct [OF assms(1), of 0 "len xs - 1" xs] by simp_all
  then show ?thesis
    using returns strict_weak_order.sorted_in_sorted_wrt [OF assms(1), of ?ys] rearranged_len [OF r(1)]
    by (simp add: rearranged_def)
qed

theorem quick_sort_correct_witness:
  "\<exists>ys. quick_sort (<) [5, 3, 9, 1, 4, 3 :: nat] = Inr ys \<and> mset ys = {#5, 3, 9, 1, 4, 3#} \<and> sorted ys"
  using quick_sort_correct [OF linear_less.strict_weak_order_axioms, of "[5, 3, 9, 1, 4, 3 :: nat]"]
  by (simp add: not_less)

text \<open>
  A collection of more than \<open>2 ^ 31\<close> elements and at most \<open>2 ^ 32\<close> is returned as it is: its last index
  becomes a negative \<open>int\<close>.
\<close>

theorem quick_sort_gives_up:
  assumes "2 ^ 31 < length xs" and "length xs \<le> 2 ^ 32"
  shows "quick_sort lt xs = Inr xs"
proof -
  have "2147483648 \<le> len xs - 1" "len xs - 1 < 4294967296" using assms by (simp_all add: len_def)
  moreover from this have "narrow_int (len xs - 1) = len xs - 1 - 4294967296"
    unfolding narrow_int_def using mod_pos_pos_trivial [of "len xs - 1 - 2147483648" 4294967296]
      minus_mod_self2 [of "len xs - 1 + 2147483648" 4294967296] by (simp add: algebra_simps)
  ultimately show ?thesis by (simp add: quick_sort_def dual_pivot_quick_sort.simps)
qed

text \<open>
  The single-pivot sort of an iterator range rearranges exactly that range and leaves it sorted.
\<close>

theorem quick_sort_range_correct:
  assumes "strict_weak_order lt" and "0 \<le> start" and "start \<le> fin" and "fin \<le> len xs" and "length xs < 2 ^ 31"
  shows "\<exists>ys. quick_sort_range lt xs start fin = Inr ys \<and> rearranged start (fin - 1) xs ys \<and> sorted_in lt start (fin - 1) ys"
  using strict_weak_order.single_pivot_correct [OF assms(1,2,4)]
    strict_weak_order.single_pivot_returns [OF assms(1-4)] assms(5)
  by (simp add: quick_sort_range_def len_def)

theorem quick_sort_range_correct_witness:
  "\<exists>ys. quick_sort_range (<) [5, 9, 1, 4, 3 :: nat] 1 4 = Inr ys \<and> rearranged 1 3 [5, 9, 1, 4, 3] ys"
  using quick_sort_range_correct [OF linear_less.strict_weak_order_axioms, of 1 4 "[5, 9, 1, 4, 3 :: nat]"]
  by (auto simp: len_def)

end
