(* ===== verification/BinaryHeap.thy ===== *)
theory BinaryHeap
  imports AK_Prelude
begin

text \<open>
  \<open>AK/BinaryHeap.h\<close>: a min-heap of keys and values in an array of fixed capacity. The operations as
  in the code, and the proof that they keep the heap order, that nothing gets lost, and that
  \<open>pop_min\<close> and \<open>peek_min\<close> give a value of least key.
\<close>

section \<open>State and operations\<close>

record ('k, 'v) heap =
  m_elements :: "('k \<times> 'v) list"
  heap_size :: nat

definition keyat :: "('k \<times> 'v) list \<Rightarrow> nat \<Rightarrow> 'k" where
  "keyat es i = fst (es ! i)"

definition capacity_of :: "('k, 'v) heap \<Rightarrow> nat" where
  "capacity_of h = length (m_elements h)"

definition heap_is_empty :: "('k, 'v) heap \<Rightarrow> bool" where
  "heap_is_empty h \<longleftrightarrow> heap_size h = 0"

text \<open>The child that \<open>heapify_down\<close> compares with.\<close>

definition min_child :: "nat \<Rightarrow> ('k :: linorder \<times> 'v) list \<Rightarrow> nat \<Rightarrow> nat" where
  "min_child n es index =
     (let left_child = index * 2 + 1; right_child = index * 2 + 2 in
      if right_child < n \<and> keyat es right_child < keyat es left_child then right_child else left_child)"

function heapify_down :: "nat \<Rightarrow> ('k :: linorder \<times> 'v) list \<Rightarrow> nat \<Rightarrow> ('k \<times> 'v) list" where
  "heapify_down n es index =
     (if index * 2 + 1 < n then
        (let child = min_child n es index in
         if keyat es index \<le> keyat es child then es
         else heapify_down n (swap_at es index child) child)
      else es)"
  by pat_completeness auto
termination
  by (relation "measure (\<lambda>(n, es, index). n - index)") (auto simp: min_child_def Let_def)

declare heapify_down.simps [simp del]

definition parent :: "nat \<Rightarrow> nat" where
  "parent i = (i - 1) div 2"

lemma parent_less: "0 < i \<Longrightarrow> parent i < i"
  by (simp add: parent_def)

function heapify_up :: "('k :: linorder \<times> 'v) list \<Rightarrow> nat \<Rightarrow> ('k \<times> 'v) list" where
  "heapify_up es index =
     (if index \<noteq> 0 then
        (if keyat es index \<ge> keyat es (parent index) then es
         else heapify_up (swap_at es index (parent index)) (parent index))
      else es)"
  by pat_completeness auto
termination by (relation "measure (\<lambda>(es, index). index)") (auto simp: parent_less)

declare heapify_up.simps [simp del]

definition heap_insert :: "('k :: linorder, 'v) heap \<Rightarrow> 'k \<Rightarrow> 'v \<Rightarrow> ('k, 'v) heap error_or" where
  "heap_insert h k v =
     verify (heap_size h < capacity_of h)
       (let index = heap_size h in
        Inr \<lparr>m_elements = heapify_up ((m_elements h)[index := (k, v)]) index, heap_size = heap_size h + 1\<rparr>)"

definition pop_min :: "('k :: linorder, 'v) heap \<Rightarrow> ('v \<times> ('k, 'v) heap) error_or" where
  "pop_min h =
     verify (\<not> heap_is_empty h)
       (let index = heap_size h - 1;
            es = heapify_down index (swap_at (m_elements h) 0 index) 0
        in Inr (snd (es ! index), \<lparr>m_elements = es, heap_size = index\<rparr>))"

definition peek_min :: "('k, 'v) heap \<Rightarrow> 'v error_or" where
  "peek_min h = verify (\<not> heap_is_empty h) (Inr (snd (m_elements h ! 0)))"

definition peek_min_key :: "('k, 'v) heap \<Rightarrow> 'k error_or" where
  "peek_min_key h = verify (\<not> heap_is_empty h) (Inr (keyat (m_elements h) 0))"

definition heap_clear :: "('k, 'v) heap \<Rightarrow> ('k, 'v) heap" where
  "heap_clear h = h\<lparr>heap_size := 0\<rparr>"

text \<open>The constructor from arrays: \<open>d\<close> fills the slots behind \<open>size\<close>; heapify from \<open>size / 2\<close> down to 0.\<close>

fun heapify_all :: "nat \<Rightarrow> ('k :: linorder \<times> 'v) list \<Rightarrow> nat \<Rightarrow> ('k \<times> 'v) list" where
  "heapify_all n es 0 = heapify_down n es 0"
| "heapify_all n es (Suc i) = heapify_all n (heapify_down n es (Suc i)) i"

definition heap_of_arrays ::
  "nat \<Rightarrow> 'k :: linorder \<times> 'v \<Rightarrow> 'k list \<Rightarrow> 'v list \<Rightarrow> nat \<Rightarrow> ('k, 'v) heap error_or" where
  "heap_of_arrays cap d keys vals n =
     verify (n \<le> cap)
       (Inr \<lparr>m_elements = heapify_all n (map (\<lambda>i. (keys ! i, vals ! i)) [0..<n] @ replicate (cap - n) d) (n div 2),
             heap_size = n\<rparr>)"

section \<open>The heap order\<close>

text \<open>Heap order for all positions whose parent is at or behind \<open>k\<close>, but not for the children of \<open>x\<close>.\<close>

definition ordered_from :: "nat \<Rightarrow> nat \<Rightarrow> (nat \<Rightarrow> bool) \<Rightarrow> ('k :: linorder \<times> 'v) list \<Rightarrow> bool" where
  "ordered_from k n skip es \<longleftrightarrow>
     (\<forall>i. 0 < i \<and> i < n \<and> k \<le> parent i \<and> \<not> skip i \<longrightarrow> keyat es (parent i) \<le> keyat es i)"

definition heap_ok :: "('k :: linorder, 'v) heap \<Rightarrow> bool" where
  "heap_ok h \<longleftrightarrow> heap_size h \<le> capacity_of h \<and>
     ordered_from 0 (heap_size h) (\<lambda>i. False) (m_elements h)"

definition heap_contents :: "('k, 'v) heap \<Rightarrow> ('k \<times> 'v) multiset" where
  "heap_contents h = mset (take (heap_size h) (m_elements h))"

lemma child_parent: "0 < i \<Longrightarrow> parent i = p \<longleftrightarrow> i = p * 2 + 1 \<or> i = p * 2 + 2"
  unfolding parent_def by auto

lemma keyat_swap:
  "i < length es \<Longrightarrow> j < length es \<Longrightarrow> k < length es \<Longrightarrow>
   keyat (swap_at es i j) k = (if k = i then keyat es j else if k = j then keyat es i else keyat es k)"
  by (simp add: keyat_def nth_swap_at)

lemma min_child_props:
  assumes "index * 2 + 1 < n"
  shows "min_child n es index < n" and "parent (min_child n es index) = index" and "index < min_child n es index"
    and "c < n \<Longrightarrow> 0 < c \<Longrightarrow> parent c = index \<Longrightarrow> keyat es (min_child n es index) \<le> keyat es c"
  using assms by (auto simp: min_child_def Let_def child_parent)

lemma length_heapify_down [simp]: "length (heapify_down n es index) = length es"
proof (induction n es index rule: heapify_down.induct)
  case (1 n es index)
  then show ?case by (subst heapify_down.simps) (auto simp: Let_def)
qed

lemma heapify_down_correct:
  assumes "n \<le> length es" and "ordered_from k n (\<lambda>i. parent i = index) es" and "k \<le> index"
    and "\<And>c. 0 < index \<Longrightarrow> k \<le> parent index \<Longrightarrow> 0 < c \<Longrightarrow> c < n \<Longrightarrow> parent c = index \<Longrightarrow>
            keyat es (parent index) \<le> keyat es c"
  shows "ordered_from k n (\<lambda>i. False) (heapify_down n es index) \<and>
         mset (take n (heapify_down n es index)) = mset (take n es) \<and>
         drop n (heapify_down n es index) = drop n es"
  using assms
proof (induction n es index rule: heapify_down.induct)
  case (1 n es index)
  let ?c = "min_child n es index"
  show ?case
  proof (cases "index * 2 + 1 < n")
    case False
    then have "\<not> (0 < i \<and> i < n \<and> parent i = index)" for i
      using child_parent [of i index] by auto
    then have "ordered_from k n (\<lambda>i. False) es" using "1.prems"(2) by (auto simp: ordered_from_def)
    with False show ?thesis by (subst (1 2 3) heapify_down.simps) simp
  next
    case True
    note c = min_child_props [OF True, where es = es]
    show ?thesis
    proof (cases "keyat es index \<le> keyat es ?c")
      case le: True
      have "ordered_from k n (\<lambda>i. False) es"
        unfolding ordered_from_def
      proof (intro allI impI)
        fix i
        assume i: "0 < i \<and> i < n \<and> k \<le> parent i \<and> \<not> False"
        show "keyat es (parent i) \<le> keyat es i"
        proof (cases "parent i = index")
          case True
          then show ?thesis using le c(4) [of i] i by auto
        next
          case False
          then show ?thesis using "1.prems"(2) i by (simp add: ordered_from_def)
        qed
      qed
      with le True show ?thesis by (subst (1 2 3) heapify_down.simps) (simp add: Let_def)
    next
      case gt: False
      let ?es = "swap_at es index ?c"
      have len: "index < length es" "?c < length es" using True c(1) "1.prems"(1) by auto
      have key: "keyat ?es i = (if i = index then keyat es ?c else if i = ?c then keyat es index else keyat es i)"
        if "i < n" for i
        using that len "1.prems"(1) by (simp add: keyat_swap)
      have "ordered_from k n (\<lambda>i. parent i = ?c) ?es"
        unfolding ordered_from_def
      proof (intro allI impI)
        fix i
        assume i: "0 < i \<and> i < n \<and> k \<le> parent i \<and> parent i \<noteq> ?c"
        then have p: "parent i < n" "parent i < i" using parent_less [of i] by auto
        consider "parent i = index" | "i = index" | "parent i \<noteq> index" "i \<noteq> index" by blast
        then show "keyat ?es (parent i) \<le> keyat ?es i"
        proof cases
          case 1
          then show ?thesis using i p gt c(4) [of i] by (auto simp: key)
        next
          case 2
          then show ?thesis using i p c(1,2,3) "1.prems"(4) [of ?c] by (auto simp: key)
        next
          case 3
          then have "i \<noteq> ?c" using c(2) by auto
          with 3 i p show ?thesis using "1.prems"(2) by (simp add: key ordered_from_def)
        qed
      qed
      moreover have "keyat ?es (parent ?c) \<le> keyat ?es d" if "0 < d" "d < n" "parent d = ?c" for d
      proof -
        have "d \<noteq> index" "d \<noteq> ?c" "parent d \<noteq> index" "k \<le> parent d"
          using that c(3) parent_less [of d] "1.prems"(3) by auto
        then show ?thesis
          using that c True "1.prems"(2) by (auto simp: key ordered_from_def)
      qed
      moreover have "mset (take n ?es) = mset (take n es)" "drop n ?es = drop n es"
      proof -
        have "take n ?es = swap_at (take n es) index ?c"
          using True c(1) "1.prems"(1) by (simp add: swap_at_def take_update_swap)
        then show "mset (take n ?es) = mset (take n es)"
          using True c(1) "1.prems"(1) by (simp add: mset_swap_at)
        show "drop n ?es = drop n es" using True c(1) by (simp add: swap_at_def)
      qed
      ultimately show ?thesis
        using "1.IH" [OF True refl] gt "1.prems"(1,3) True c(3)
        by (subst (1 2 3) heapify_down.simps) (simp add: Let_def)
    qed
  qed
qed

lemma length_heapify_up [simp]: "length (heapify_up es index) = length es"
proof (induction es index rule: heapify_up.induct)
  case (1 es index)
  then show ?case by (subst heapify_up.simps) (auto simp: Let_def)
qed

lemma heapify_up_correct:
  assumes "n \<le> length es" and "ordered_from 0 n (\<lambda>i. i = index) es" and "index < n"
    and "\<And>c. 0 < index \<Longrightarrow> 0 < c \<Longrightarrow> c < n \<Longrightarrow> parent c = index \<Longrightarrow> keyat es (parent index) \<le> keyat es c"
  shows "ordered_from 0 n (\<lambda>i. False) (heapify_up es index) \<and>
         mset (take n (heapify_up es index)) = mset (take n es)"
  using assms
proof (induction es index rule: heapify_up.induct)
  case (1 es index)
  show ?case
  proof (cases "index = 0")
    case True
    then show ?thesis using "1.prems"(2) by (subst (1 2) heapify_up.simps) (auto simp: ordered_from_def)
  next
    case False
    let ?p = "parent index"
    have p: "?p < index" using False parent_less by simp
    show ?thesis
    proof (cases "keyat es index \<ge> keyat es ?p")
      case True
      have "ordered_from 0 n (\<lambda>i. False) es"
        using "1.prems"(2) True by (auto simp: ordered_from_def)
      with True False show ?thesis by (subst (1 2) heapify_up.simps) simp
    next
      case lt: False
      let ?es = "swap_at es index ?p"
      have key: "keyat ?es i = (if i = index then keyat es ?p else if i = ?p then keyat es index else keyat es i)"
        if "i < n" for i
        using that p "1.prems"(1,3) by (simp add: keyat_swap)
      have old: "keyat es (parent i) \<le> keyat es i" if "0 < i" "i < n" "i \<noteq> index" for i
        using that "1.prems"(2) by (simp add: ordered_from_def)
      have up: "keyat es ?p \<le> keyat es c" if "0 < c" "c < n" "parent c = index" for c
        using that False by (intro "1.prems"(4)) auto
      have "ordered_from 0 n (\<lambda>i. i = ?p) ?es"
        unfolding ordered_from_def
      proof (intro allI impI)
        fix i
        assume i: "0 < i \<and> i < n \<and> 0 \<le> parent i \<and> i \<noteq> ?p"
        then have q: "parent i < n" using parent_less [of i] by auto
        consider "i = index" | "i \<noteq> index" "parent i = index" | "i \<noteq> index" "parent i \<noteq> index" "parent i = ?p"
          | "i \<noteq> index" "parent i \<noteq> index" "parent i \<noteq> ?p" by blast
        then show "keyat ?es (parent i) \<le> keyat ?es i"
        proof cases
          case 1
          then show ?thesis using i q lt p by (auto simp: key)
        next
          case 2
          then show ?thesis using i q p up [of i] by (auto simp: key)
        next
          case 3
          then have "keyat es index \<le> keyat es i" using old [of i] i lt by auto
          with 3 i q show ?thesis by (simp add: key)
        next
          case 4
          then show ?thesis using i q old [of i] by (simp add: key)
        qed
      qed
      moreover have "keyat ?es (parent ?p) \<le> keyat ?es c" if "0 < ?p" "0 < c" "c < n" "parent c = ?p" for c
      proof -
        have pp: "parent ?p < ?p" using parent_less [OF that(1)] .
        have a: "keyat es (parent ?p) \<le> keyat es ?p" using old [of ?p] that(1) p "1.prems"(3) by auto
        have c: "c \<noteq> ?p" using that(2,4) parent_less [of c] by auto
        have "keyat es ?p \<le> keyat es c" if "c \<noteq> index" using old [of c] that \<open>0 < c\<close> \<open>c < n\<close> \<open>parent c = ?p\<close> by simp
        then show ?thesis using a c pp p "1.prems"(3) that(3) by (auto simp: key)
      qed
      moreover have "mset (take n ?es) = mset (take n es)"
      proof -
        have "take n ?es = swap_at (take n es) index ?p"
          using p "1.prems"(1,3) by (simp add: swap_at_def take_update_swap)
        then show ?thesis using p "1.prems"(1,3) by (simp add: mset_swap_at)
      qed
      moreover have "?p < n" using p "1.prems"(3) by simp
      ultimately show ?thesis
        using "1.IH" [OF False] lt "1.prems"(1) False
        by (subst (1 2) heapify_up.simps) simp
    qed
  qed
qed

text \<open>The root has a least key.\<close>

lemma root_least:
  assumes "ordered_from 0 n (\<lambda>i. False) es" and "i < n"
  shows "keyat es 0 \<le> keyat es i"
  using assms(2)
proof (induction i rule: less_induct)
  case (less i)
  show ?case
  proof (cases "i = 0")
    case False
    then have "keyat es 0 \<le> keyat es (parent i)" using less parent_less [of i] by simp
    also have "\<dots> \<le> keyat es i" using False less.prems assms(1) by (simp add: ordered_from_def)
    finally show ?thesis .
  qed simp
qed

lemma heapify_all_correct:
  assumes "n \<le> length es" and "ordered_from (Suc i) n (\<lambda>i. False) es"
  shows "ordered_from 0 n (\<lambda>i. False) (heapify_all n es i) \<and>
         mset (take n (heapify_all n es i)) = mset (take n es) \<and> length (heapify_all n es i) = length es"
  using assms
proof (induction n es i rule: heapify_all.induct)
  case (1 n es)
  have "ordered_from 0 n (\<lambda>i. parent i = 0) es"
    using "1.prems"(2) by (auto simp: ordered_from_def)
  with heapify_down_correct [OF "1.prems"(1) this] show ?case by simp
next
  case (2 n es i)
  have "ordered_from (Suc i) n (\<lambda>j. parent j = Suc i) es"
    using "2.prems"(2) by (auto simp: ordered_from_def Suc_le_eq)
  moreover have "\<not> Suc i \<le> parent (Suc i)" using parent_less [of "Suc i"] by simp
  ultimately show ?case
    using heapify_down_correct [OF "2.prems"(1), where k = "Suc i" and index = "Suc i"] "2.IH" "2.prems"(1) by simp
qed

section \<open>Properties\<close>

text \<open>
  C9. \<open>insert\<close> into a heap that is not full keeps the heap order and adds the entry and nothing else; a
  full heap stops the program.
\<close>

theorem heap_insert_correct:
  assumes "heap_ok h"
  shows "if heap_size h < capacity_of h
         then \<exists>h'. heap_insert h k v = Inr h' \<and> heap_ok h' \<and>
                   heap_contents h' = add_mset (k, v) (heap_contents h)
         else heap_insert h k v = Inl VerifyFailed"
proof (cases "heap_size h < capacity_of h")
  case False
  then show ?thesis by (simp add: heap_insert_def)
next
  case True
  let ?n = "heap_size h" and ?es = "(m_elements h)[heap_size h := (k, v)]"
  have ord: "ordered_from 0 (Suc ?n) (\<lambda>i. i = ?n) ?es"
    unfolding ordered_from_def
  proof (intro allI impI)
    fix i
    assume i: "0 < i \<and> i < Suc ?n \<and> 0 \<le> parent i \<and> i \<noteq> ?n"
    then have "parent i < ?n" "i < ?n" using parent_less [of i] by auto
    then show "keyat ?es (parent i) \<le> keyat ?es i"
      using assms i by (simp add: heap_ok_def ordered_from_def keyat_def)
  qed
  have no_child: "\<not> (0 < c \<and> c < Suc ?n \<and> parent c = ?n)" for c using parent_less [of c] by auto
  have "ordered_from 0 (Suc ?n) (\<lambda>i. False) (heapify_up ?es ?n) \<and>
      mset (take (Suc ?n) (heapify_up ?es ?n)) = mset (take (Suc ?n) ?es)"
    using ord no_child True by (intro heapify_up_correct) (auto simp: capacity_of_def)
  moreover have "take (Suc ?n) ?es = take ?n (m_elements h) @ [(k, v)]"
    using True by (simp add: take_Suc_conv_app_nth capacity_of_def)
  ultimately show ?thesis
    using True by (simp add: heap_insert_def Let_def heap_ok_def heap_contents_def capacity_of_def)
qed

definition sample_heap :: "(nat, nat) heap" where
  "sample_heap = \<lparr>m_elements = [(1, 7), (4, 8), (2, 9), (0, 0)], heap_size = 3\<rparr>"

lemma sample_heap_ok: "heap_ok sample_heap"
proof -
  have "keyat (m_elements sample_heap) (parent i) \<le> keyat (m_elements sample_heap) i"
    if "0 < i" "i < 3" for i
  proof -
    have "i = 1 \<or> i = 2" using that by auto
    then show ?thesis by (elim disjE) (simp_all add: sample_heap_def keyat_def parent_def)
  qed
  then show ?thesis
    by (simp add: heap_ok_def ordered_from_def) (simp add: sample_heap_def capacity_of_def)
qed

lemma sample_heap_contents: "heap_contents sample_heap = {#(1, 7), (4, 8), (2, 9)#}"
  by (simp add: heap_contents_def sample_heap_def)

theorem heap_insert_correct_witness:
  "\<exists>h'. heap_insert sample_heap 3 5 = Inr h' \<and> heap_ok h' \<and>
        heap_contents h' = {#(3, 5), (1, 7), (4, 8), (2, 9)#}"
proof -
  have "heap_size sample_heap < capacity_of sample_heap" by (simp add: sample_heap_def capacity_of_def)
  then show ?thesis using heap_insert_correct [OF sample_heap_ok, of 3 5] by (simp add: sample_heap_contents)
qed

text \<open>
  C10. \<open>pop_min\<close> on a heap that is not empty returns a value whose key is least, takes exactly that
  entry away and keeps the heap order; on an empty heap it stops the program.
\<close>

theorem pop_min_correct:
  assumes "heap_ok h"
  shows "if heap_size h = 0 then pop_min h = Inl VerifyFailed
         else \<exists>k v h'. pop_min h = Inr (v, h') \<and> heap_ok h' \<and>
                heap_contents h = add_mset (k, v) (heap_contents h') \<and>
                (\<forall>e \<in># heap_contents h. k \<le> fst e)"
proof (cases "heap_size h = 0")
  case True
  then show ?thesis by (simp add: pop_min_def heap_is_empty_def)
next
  case False
  then obtain n where hs: "heap_size h = Suc n" by (cases "heap_size h") auto
  let ?es = "m_elements h"
  let ?sw = "swap_at ?es 0 n" and ?down = "heapify_down n (swap_at ?es 0 n) 0"
  have n: "heap_size h = Suc n" "n < length ?es"
    using hs assms by (auto simp: heap_ok_def capacity_of_def)
  have key: "keyat ?sw j = (if j = 0 then keyat ?es n else if j = n then keyat ?es 0 else keyat ?es j)"
    if "j < length ?es" for j
    using that n by (intro keyat_swap) auto
  have ord: "ordered_from 0 n (\<lambda>i. parent i = 0) ?sw"
    unfolding ordered_from_def
  proof (intro allI impI)
    fix i
    assume i: "0 < i \<and> i < n \<and> 0 \<le> parent i \<and> parent i \<noteq> 0"
    then have "parent i < n" using parent_less [of i] by auto
    with i n have "keyat ?sw (parent i) = keyat ?es (parent i)" "keyat ?sw i = keyat ?es i"
      by (simp_all add: key)
    with i n assms show "keyat ?sw (parent i) \<le> keyat ?sw i"
      by (simp add: heap_ok_def ordered_from_def)
  qed
  have down: "ordered_from 0 n (\<lambda>i. False) ?down" "mset (take n ?down) = mset (take n ?sw)"
      "drop n ?down = drop n ?sw"
    using heapify_down_correct [OF _ ord] n by simp_all
  have swn: "?sw ! n = ?es ! 0"
  proof -
    have "0 < length ?es" using n by linarith
    from nth_swap_at [OF this n(2) n(2)] show ?thesis by auto
  qed
  have last: "?down ! n = ?es ! 0"
  proof -
    have "?down ! n = hd (drop n ?down)" using n by (simp add: hd_drop_conv_nth)
    also have "\<dots> = ?sw ! n" unfolding down(3) using n by (simp add: hd_drop_conv_nth)
    finally show ?thesis by (simp add: swn)
  qed
  have "mset (take (Suc n) ?sw) = mset (take (Suc n) ?es)"
  proof -
    have "take (Suc n) ?sw = swap_at (take (Suc n) ?es) 0 n"
      using n by (simp add: swap_at_def take_update_swap)
    then show ?thesis using n by (simp add: mset_swap_at)
  qed
  moreover have "mset (take (Suc n) ?sw) = add_mset (?es ! 0) (mset (take n ?sw))"
    using n by (simp add: take_Suc_conv_app_nth swn)
  ultimately have cont: "heap_contents h = add_mset (?es ! 0) (mset (take n ?down))"
    using n(1) down(2) by (simp add: heap_contents_def)
  have least: "\<forall>e \<in># heap_contents h. fst (?es ! 0) \<le> fst e"
  proof
    fix e
    assume "e \<in># heap_contents h"
    then obtain i where "i < heap_size h" "e = ?es ! i"
      by (auto simp: heap_contents_def in_set_conv_nth)
    then show "fst (?es ! 0) \<le> fst e" using root_least [of "heap_size h" ?es i] assms by (simp add: heap_ok_def keyat_def)
  qed
  have "pop_min h = Inr (snd (?es ! 0), \<lparr>m_elements = ?down, heap_size = n\<rparr>)"
    using n(1) last by (simp add: pop_min_def heap_is_empty_def Let_def)
  moreover have "heap_ok \<lparr>m_elements = ?down, heap_size = n\<rparr>"
    using down(1) n by (simp add: heap_ok_def capacity_of_def)
  moreover have "heap_contents h = add_mset (fst (?es ! 0), snd (?es ! 0))
      (heap_contents \<lparr>m_elements = ?down, heap_size = n\<rparr>)"
    using cont by (simp add: heap_contents_def)
  ultimately show ?thesis using False least
    by (auto intro!: exI [of _ "fst (?es ! 0)"])
qed

theorem pop_min_correct_witness:
  "\<exists>k v h'. pop_min sample_heap = Inr (v, h') \<and> heap_contents sample_heap = add_mset (k, v) (heap_contents h') \<and>
            (\<forall>e \<in># heap_contents sample_heap. k \<le> fst e)"
  using pop_min_correct [OF sample_heap_ok] by (simp add: sample_heap_def) blast

text \<open>
  Building a heap from arrays of keys and values gives a heap of all the pairs in heap order.
\<close>

theorem heap_of_arrays_correct:
  assumes "n \<le> length keys" and "n \<le> length vals"
  shows "if n \<le> cap
         then \<exists>h. heap_of_arrays cap d keys vals n = Inr h \<and> heap_ok h \<and>
                  heap_contents h = mset (zip (take n keys) (take n vals))
         else heap_of_arrays cap d keys vals n = Inl VerifyFailed"
proof (cases "n \<le> cap")
  case False
  then show ?thesis by (simp add: heap_of_arrays_def)
next
  case True
  let ?es = "map (\<lambda>i. (keys ! i, vals ! i)) [0..<n] @ replicate (cap - n) d"
  have "\<not> (i < n \<and> Suc (n div 2) \<le> parent i)" for i by (auto simp: parent_def)
  then have "ordered_from (Suc (n div 2)) n (\<lambda>i. False) ?es" by (auto simp: ordered_from_def)
  with heapify_all_correct [of n ?es "n div 2"] True
  have all: "ordered_from 0 n (\<lambda>i. False) (heapify_all n ?es (n div 2))"
    "mset (take n (heapify_all n ?es (n div 2))) = mset (take n ?es)"
    "length (heapify_all n ?es (n div 2)) = cap"
    by simp_all
  have "map (\<lambda>i. (keys ! i, vals ! i)) [0..<n] = zip (take n keys) (take n vals)"
    using assms by (intro nth_equalityI) simp_all
  with all True assms show ?thesis
    by (simp add: min_def heap_of_arrays_def heap_ok_def capacity_of_def heap_contents_def)
qed

theorem heap_of_arrays_correct_witness:
  "\<exists>h. heap_of_arrays 4 (0, 0) [5, 3, 4 :: nat] [1, 2, 3 :: nat] 3 = Inr h \<and> heap_ok h \<and>
       heap_contents h = {#(5, 1), (3, 2), (4, 3)#}"
  using heap_of_arrays_correct [of 3 "[5, 3, 4 :: nat]" "[1, 2, 3 :: nat]" 4 "(0, 0)"] by simp

end
