(* ===== verification/BinarySearch.thy ===== *)
theory BinarySearch
  imports AK_Prelude
begin

text \<open>
  \<open>AK/BinarySearch.h\<close>: the search over a container of \<open>size()\<close> elements, with \<open>size_t\<close> bounds, so that
  the step below index 0 is the early \<open>break\<close> of the code. \<open>cmp\<close> is the comparator's sign for the
  needle and an element. The result is the index found and \<open>*nearby_index\<close>.
\<close>

definition default_comparator :: "'a :: linorder \<Rightarrow> 'a \<Rightarrow> int" where
  "default_comparator lhs rhs = (if lhs > rhs then 1 else if lhs < rhs then -1 else 0)"

function search_loop :: "('b \<Rightarrow> 'a \<Rightarrow> int) \<Rightarrow> 'a list \<Rightarrow> 'b \<Rightarrow> nat \<Rightarrow> nat \<Rightarrow> nat option \<times> nat" where
  "search_loop cmp haystack needle low high =
     (if low \<le> high then
        (let middle = low + (high - low) div 2;
             comparison = cmp needle (haystack ! middle) in
         if comparison < 0 then
           (if middle \<noteq> 0 then search_loop cmp haystack needle low (middle - 1)
            else (None, min low high))
         else if comparison > 0 then search_loop cmp haystack needle (middle + 1) high
         else (Some middle, middle))
      else (None, min low high))"
  by pat_completeness auto
termination
  by (relation "measure (\<lambda>(cmp, haystack, needle, low, high). Suc high - low)") auto

declare search_loop.simps [simp del]

definition binary_search :: "('b \<Rightarrow> 'a \<Rightarrow> int) \<Rightarrow> 'a list \<Rightarrow> 'b \<Rightarrow> nat option \<times> nat" where
  "binary_search cmp haystack needle =
     (if length haystack = 0 then (None, 0)
      else search_loop cmp haystack needle 0 (length haystack - 1))"

text \<open>The container is ordered for the needle: first elements below it, then equal ones, then above.\<close>

definition ordered_for :: "('b \<Rightarrow> 'a \<Rightarrow> int) \<Rightarrow> 'b \<Rightarrow> 'a list \<Rightarrow> bool" where
  "ordered_for cmp needle xs \<longleftrightarrow>
     (\<forall>i j. i < j \<and> j < length xs \<longrightarrow>
        (cmp needle (xs ! i) \<le> 0 \<longrightarrow> cmp needle (xs ! j) \<le> 0) \<and>
        (cmp needle (xs ! i) < 0 \<longrightarrow> cmp needle (xs ! j) < 0))"

lemma search_loop_correct:
  assumes "ordered_for cmp needle xs" and "high < length xs"
    and "\<forall>i < low. cmp needle (xs ! i) > 0"
    and "\<forall>i. high < i \<and> i < length xs \<longrightarrow> cmp needle (xs ! i) < 0" and "low \<le> Suc high"
  shows "case search_loop cmp xs needle low high of
           (Some i, near) \<Rightarrow> near = i \<and> i < length xs \<and> cmp needle (xs ! i) = 0
         | (None, near) \<Rightarrow> (\<forall>x \<in> set xs. cmp needle x \<noteq> 0) \<and> near < length xs \<and>
             (\<forall>i < near. cmp needle (xs ! i) > 0) \<and>
             (\<forall>i. near < i \<and> i < length xs \<longrightarrow> cmp needle (xs ! i) < 0)"
  using assms
proof (induction cmp xs needle low high rule: search_loop.induct)
  case (1 cmp xs needle low high)
  let ?m = "low + (high - low) div 2"
  show ?case
  proof (cases "low \<le> high")
    case False
    then have "low = Suc high" using "1.prems"(5) by simp
    moreover have "cmp needle (xs ! i) \<noteq> 0" if "i < length xs" for i
      using that "1.prems"(3,4) \<open>low = Suc high\<close> by (cases "i < low") (force simp: not_less Suc_le_eq)+
    ultimately show ?thesis
      using "1.prems" by (subst search_loop.simps) (auto simp: in_set_conv_nth)
  next
    case True
    have m: "low \<le> ?m" "?m \<le> high" "?m < length xs" using True "1.prems"(2) by auto
    consider "cmp needle (xs ! ?m) < 0" "?m \<noteq> 0" | "cmp needle (xs ! ?m) < 0" "?m = 0"
      | "cmp needle (xs ! ?m) > 0" | "cmp needle (xs ! ?m) = 0" by linarith
    then show ?thesis
    proof cases
      case 1
      have "cmp needle (xs ! i) < 0" if "?m - 1 < i" "i < length xs" for i
      proof (cases "i = ?m")
        case False
        then have "?m < i" using that(1) by linarith
        then show ?thesis using that(2) 1(1) "1.prems"(1) unfolding ordered_for_def by blast
      qed (use 1 in simp)
      moreover have "low \<le> Suc (?m - 1)" using m(1) by linarith
      ultimately show ?thesis
        using "1.IH"(1) [OF True refl refl] 1 "1.prems" m True
        by (subst search_loop.simps) (simp add: Let_def)
    next
      case 2
      have above: "cmp needle (xs ! i) < 0" if "i < length xs" for i
        using that 2 "1.prems"(1) unfolding ordered_for_def by (cases "i = 0") auto
      have "low = 0" using m(1) 2(2) by simp
      then show ?thesis
        using 2 True m above by (subst search_loop.simps) (force simp: Let_def in_set_conv_nth)
    next
      case 3
      have "cmp needle (xs ! i) > 0" if "i < ?m + 1" for i
      proof (cases "i = ?m")
        case False
        then have "i < ?m" using that by simp
        then have "cmp needle (xs ! i) \<le> 0 \<longrightarrow> cmp needle (xs ! ?m) \<le> 0"
          using m(3) "1.prems"(1) unfolding ordered_for_def by blast
        with 3 show ?thesis by linarith
      qed (use 3 in simp)
      moreover have "search_loop cmp xs needle low high = search_loop cmp xs needle (?m + 1) high"
        using 3 True by (subst search_loop.simps) (auto simp: Let_def)
      ultimately show ?thesis
        using "1.IH"(2) [OF True refl refl] 3 "1.prems" m by simp
    next
      case 4
      then show ?thesis using True m by (subst search_loop.simps) (simp add: Let_def)
    qed
  qed
qed

text \<open>
  C11. On a container ordered for the needle, binary search returns an index of an equal element
  exactly when there is one, and otherwise a nearby index: everything before it is below and
  everything behind it above the needle.
\<close>

theorem binary_search_correct:
  assumes "ordered_for cmp needle xs"
  shows "case binary_search cmp xs needle of
           (Some i, near) \<Rightarrow> near = i \<and> i < length xs \<and> cmp needle (xs ! i) = 0
         | (None, near) \<Rightarrow> (\<forall>x \<in> set xs. cmp needle x \<noteq> 0) \<and> (xs = [] \<and> near = 0 \<or> near < length xs) \<and>
             (\<forall>i < near. cmp needle (xs ! i) > 0) \<and>
             (\<forall>i. near < i \<and> i < length xs \<longrightarrow> cmp needle (xs ! i) < 0)"
proof (cases "xs = []")
  case True
  then show ?thesis by (simp add: binary_search_def)
next
  case False
  then have last: "length xs - 1 < length xs" by simp
  have none: "\<forall>i. length xs - 1 < i \<and> i < length xs \<longrightarrow> cmp needle (xs ! i) < 0" by auto
  have "binary_search cmp xs needle = search_loop cmp xs needle 0 (length xs - 1)"
    using False by (simp add: binary_search_def)
  with search_loop_correct [OF assms last _ none, of 0] False show ?thesis
    by (simp split: prod.splits option.splits)
qed

theorem binary_search_correct_witness:
  "case binary_search default_comparator [2, 4, 6, 8 :: nat] 6 of
     (Some i, near) \<Rightarrow> near = i \<and> i < 4 \<and> [2, 4, 6, 8 :: nat] ! i = 6
   | (None, near) \<Rightarrow> False"
proof -
  have "ordered_for default_comparator (6 :: nat) [2, 4, 6, 8]"
    by (auto simp: ordered_for_def default_comparator_def nth_Cons' split: if_splits)
  from binary_search_correct [OF this] show ?thesis
    by (auto simp: default_comparator_def split: option.splits prod.splits if_splits)
qed

end
