(* ===== verification/UFixedBigInt.thy ===== *)
theory UFixedBigInt
  imports AK_Prelude
begin

text \<open>
  \<open>AK/UFixedBigInt.h\<close>: an unsigned integer of two limbs, where a limb is \<open>u64\<close> or again a
  \<open>UFixedBigInt\<close>. What the code uses of the limb type \<open>T\<close> is the record \<open>limb_ops\<close>; \<open>u64_ops\<close> are the
  machine's operations and \<open>big_ops ops\<close> those of \<open>UFixedBigInt<T>\<close>, so \<open>u128\<close> to \<open>u4096\<close> are iterated
  applications of \<open>big_ops\<close>. The operations that only call other operations of the class (division,
  multiplication, square root, powers) are written once over \<open>limb_ops\<close>.
\<close>

section \<open>Limbs\<close>

record 'l limb_ops =
  bits :: nat
  zero_limb :: 'l
  one_limb :: 'l
  addc_limb :: "'l \<Rightarrow> 'l \<Rightarrow> bool \<Rightarrow> 'l \<times> bool"
  subc_limb :: "'l \<Rightarrow> 'l \<Rightarrow> bool \<Rightarrow> 'l \<times> bool"
  less_limb :: "'l \<Rightarrow> 'l \<Rightarrow> bool"
  and_limb :: "'l \<Rightarrow> 'l \<Rightarrow> 'l"
  or_limb :: "'l \<Rightarrow> 'l \<Rightarrow> 'l"
  xor_limb :: "'l \<Rightarrow> 'l \<Rightarrow> 'l"
  not_limb :: "'l \<Rightarrow> 'l"
  shl_limb :: "'l \<Rightarrow> nat \<Rightarrow> 'l"
  shr_limb :: "'l \<Rightarrow> nat \<Rightarrow> 'l"
  clz_limb :: "'l \<Rightarrow> nat option"
  ctz_limb :: "'l \<Rightarrow> nat option"
  popcnt_limb :: "'l \<Rightarrow> nat"
  wide_limb :: "'l \<Rightarrow> 'l \<Rightarrow> 'l \<times> 'l"

definition add_limb :: "'l limb_ops \<Rightarrow> 'l \<Rightarrow> 'l \<Rightarrow> 'l" where
  "add_limb ops a b = fst (addc_limb ops a b False)"

definition sub_limb :: "'l limb_ops \<Rightarrow> 'l \<Rightarrow> 'l \<Rightarrow> 'l" where
  "sub_limb ops a b = fst (subc_limb ops a b False)"

text \<open>\<open>x - carry\<close> and \<open>x + carry\<close> with a \<open>bool\<close>.\<close>

definition bool_limb :: "'l limb_ops \<Rightarrow> bool \<Rightarrow> 'l" where
  "bool_limb ops b = (if b then one_limb ops else zero_limb ops)"

section \<open>The machine limb\<close>

definition addition_would_overflow :: "u64 \<Rightarrow> u64 \<Rightarrow> bool" where
  "addition_would_overflow u v \<longleftrightarrow> u + v < u"

text \<open>
  \<open>AK/BuiltinWrappers.h\<close>: the compiler's built-in functions. The result of counting the leading or the
  trailing zeroes of zero is undefined: \<open>None\<close>, which every caller below hands on.
\<close>

definition count_leading_zeroes :: "u64 \<Rightarrow> nat option" where
  "count_leading_zeroes w =
     (if w = 0 then None else Some (length (takeWhile (\<lambda>i. \<not> bit w i) (rev [0..<64]))))"

definition count_trailing_zeroes :: "u64 \<Rightarrow> nat option" where
  "count_trailing_zeroes w =
     (if w = 0 then None else Some (length (takeWhile (\<lambda>i. \<not> bit w i) [0..<64])))"

definition popcount :: "u64 \<Rightarrow> nat" where
  "popcount w = length (filter (bit w) [0..<64])"

definition addc_u64 :: "u64 \<Rightarrow> u64 \<Rightarrow> bool \<Rightarrow> u64 \<times> bool" where
  "addc_u64 a b carry =
     (let s = a + b; c = of_bool carry in
      (s + c, addition_would_overflow a b \<or> addition_would_overflow s c))"

definition subc_u64 :: "u64 \<Rightarrow> u64 \<Rightarrow> bool \<Rightarrow> u64 \<times> bool" where
  "subc_u64 a b carry =
     (a - b - of_bool carry, (a = 0 \<and> carry) \<or> a - of_bool carry < b)"

text \<open>\<open>mult_64_to_128\<close>: the halves of the 128-bit product.\<close>

definition mult_64_to_128 :: "u64 \<Rightarrow> u64 \<Rightarrow> u64 \<times> u64" where
  "mult_64_to_128 a b =
     (let result = ucast a * ucast b :: 128 word in (ucast result, ucast (drop_bit 64 result)))"

text \<open>
  The shift of a machine word by 64 or more is undefined; the callers below shift by less than the limb's
  number of bits, and the contract of a limb says nothing of other shifts.
\<close>

definition u64_ops :: "u64 limb_ops" where
  "u64_ops = \<lparr>bits = 64, zero_limb = 0, one_limb = 1, addc_limb = addc_u64, subc_limb = subc_u64,
     less_limb = (<), and_limb = (AND), or_limb = (OR), xor_limb = (XOR), not_limb = NOT,
     shl_limb = (\<lambda>w n. push_bit n w), shr_limb = (\<lambda>w n. drop_bit n w),
     clz_limb = count_leading_zeroes, ctz_limb = count_trailing_zeroes, popcnt_limb = popcount,
     wide_limb = mult_64_to_128\<rparr>"

section \<open>Two limbs\<close>

record 'l ufixed =
  m_low :: 'l
  m_high :: 'l

definition ufixed :: "'l \<Rightarrow> 'l \<Rightarrow> 'l ufixed" where
  "ufixed l h = \<lparr>m_low = l, m_high = h\<rparr>"

definition of_low :: "'l limb_ops \<Rightarrow> 'l \<Rightarrow> 'l ufixed" where
  "of_low ops l = ufixed l (zero_limb ops)"

definition big_zero :: "'l limb_ops \<Rightarrow> 'l ufixed" where
  "big_zero ops = of_low ops (zero_limb ops)"

definition big_one :: "'l limb_ops \<Rightarrow> 'l ufixed" where
  "big_one ops = of_low ops (one_limb ops)"

text \<open>A number of zeroes is counted in the half that is not zero; \<open>clz\<close> and \<open>ctz\<close> of zero are undefined.\<close>

definition big_clz :: "'l limb_ops \<Rightarrow> 'l ufixed \<Rightarrow> nat option" where
  "big_clz ops x =
     (if m_high x \<noteq> zero_limb ops then clz_limb ops (m_high x)
      else map_option (\<lambda>c. bits ops + c) (clz_limb ops (m_low x)))"

definition big_ctz :: "'l limb_ops \<Rightarrow> 'l ufixed \<Rightarrow> nat option" where
  "big_ctz ops x =
     (if m_low x \<noteq> zero_limb ops then ctz_limb ops (m_low x)
      else map_option (\<lambda>c. bits ops + c) (ctz_limb ops (m_high x)))"

definition big_popcnt :: "'l limb_ops \<Rightarrow> 'l ufixed \<Rightarrow> nat" where
  "big_popcnt ops x = popcnt_limb ops (m_low x) + popcnt_limb ops (m_high x)"

definition big_not_zero :: "'l limb_ops \<Rightarrow> 'l ufixed \<Rightarrow> bool" where
  "big_not_zero ops x \<longleftrightarrow> m_low x \<noteq> zero_limb ops \<or> m_high x \<noteq> zero_limb ops"

definition big_eq :: "'l ufixed \<Rightarrow> 'l ufixed \<Rightarrow> bool" where
  "big_eq x y \<longleftrightarrow> m_low x = m_low y \<and> m_high x = m_high y"

definition big_less :: "'l limb_ops \<Rightarrow> 'l ufixed \<Rightarrow> 'l ufixed \<Rightarrow> bool" where
  "big_less ops x y \<longleftrightarrow>
     less_limb ops (m_high x) (m_high y) \<or> (m_high x = m_high y \<and> less_limb ops (m_low x) (m_low y))"

definition big_greater :: "'l limb_ops \<Rightarrow> 'l ufixed \<Rightarrow> 'l ufixed \<Rightarrow> bool" where
  "big_greater ops x y \<longleftrightarrow>
     less_limb ops (m_high y) (m_high x) \<or> (m_high x = m_high y \<and> less_limb ops (m_low y) (m_low x))"

text \<open>Comparison with a number that fits in one limb.\<close>

definition big_eq_small :: "'l limb_ops \<Rightarrow> 'l ufixed \<Rightarrow> 'l \<Rightarrow> bool" where
  "big_eq_small ops x u \<longleftrightarrow> m_high x = zero_limb ops \<and> m_low x = u"

definition big_greater_small :: "'l limb_ops \<Rightarrow> 'l ufixed \<Rightarrow> 'l \<Rightarrow> bool" where
  "big_greater_small ops x u \<longleftrightarrow> m_high x \<noteq> zero_limb ops \<or> less_limb ops u (m_low x)"

definition big_less_small :: "'l limb_ops \<Rightarrow> 'l ufixed \<Rightarrow> 'l \<Rightarrow> bool" where
  "big_less_small ops x u \<longleftrightarrow> m_high x = zero_limb ops \<and> less_limb ops (m_low x) u"

definition big_not :: "'l limb_ops \<Rightarrow> 'l ufixed \<Rightarrow> 'l ufixed" where
  "big_not ops x = ufixed (not_limb ops (m_low x)) (not_limb ops (m_high x))"

definition big_and :: "'l limb_ops \<Rightarrow> 'l ufixed \<Rightarrow> 'l ufixed \<Rightarrow> 'l ufixed" where
  "big_and ops x y = ufixed (and_limb ops (m_low x) (m_low y)) (and_limb ops (m_high x) (m_high y))"

definition big_or :: "'l limb_ops \<Rightarrow> 'l ufixed \<Rightarrow> 'l ufixed \<Rightarrow> 'l ufixed" where
  "big_or ops x y = ufixed (or_limb ops (m_low x) (m_low y)) (or_limb ops (m_high x) (m_high y))"

definition big_xor :: "'l limb_ops \<Rightarrow> 'l ufixed \<Rightarrow> 'l ufixed \<Rightarrow> 'l ufixed" where
  "big_xor ops x y = ufixed (xor_limb ops (m_low x) (m_low y)) (xor_limb ops (m_high x) (m_high y))"

definition big_shl :: "'l limb_ops \<Rightarrow> 'l ufixed \<Rightarrow> nat \<Rightarrow> 'l ufixed" where
  "big_shl ops x shift =
     (if shift \<ge> 2 * bits ops then big_zero ops
      else if shift \<ge> bits ops then ufixed (zero_limb ops) (shl_limb ops (m_low x) (shift - bits ops))
      else if shift = 0 then x
      else
        (let overflow = shr_limb ops (m_low x) (bits ops - shift) in
         ufixed (shl_limb ops (m_low x) shift) (or_limb ops (shl_limb ops (m_high x) shift) overflow)))"

definition big_shr :: "'l limb_ops \<Rightarrow> 'l ufixed \<Rightarrow> nat \<Rightarrow> 'l ufixed" where
  "big_shr ops x shift =
     (if shift \<ge> 2 * bits ops then big_zero ops
      else if shift \<ge> bits ops then of_low ops (shr_limb ops (m_high x) (shift - bits ops))
      else if shift = 0 then x
      else
        (let underflow = shl_limb ops (m_high x) (bits ops - shift) in
         ufixed (or_limb ops (shr_limb ops (m_low x) shift) underflow) (shr_limb ops (m_high x) shift)))"

text \<open>Addition of two numbers of one type: from the limbs' \<open>addc\<close>, and the code of its own over \<open>u64\<close>.\<close>

definition big_addc :: "'l limb_ops \<Rightarrow> 'l ufixed \<Rightarrow> 'l ufixed \<Rightarrow> bool \<Rightarrow> 'l ufixed \<times> bool" where
  "big_addc ops x y carry =
     (let (lower, carry) = addc_limb ops (m_low x) (m_low y) carry;
          (higher, carry) = addc_limb ops (m_high x) (m_high y) carry
      in (ufixed lower higher, carry))"

definition addc_u128 :: "u64 ufixed \<Rightarrow> u64 ufixed \<Rightarrow> bool \<Rightarrow> u64 ufixed \<times> bool" where
  "addc_u128 x y carry =
     (let low_carry = addition_would_overflow (m_low x) (m_low y);
          high_carry = addition_would_overflow (m_high x) (m_high y);
          lower = m_low x + m_low y;
          higher = m_high x + m_high y;
          low_carry = (low_carry \<or> addition_would_overflow lower (of_bool carry));
          high_carry = (high_carry \<or> addition_would_overflow higher (of_bool low_carry))
      in (ufixed (lower + of_bool carry) (higher + of_bool low_carry), high_carry))"

text \<open>Addition of a number of at most one limb over \<open>u64\<close>, carry bits as the code computes them.\<close>

definition addc_u128_small :: "u64 ufixed \<Rightarrow> u64 \<Rightarrow> bool \<Rightarrow> u64 ufixed \<times> bool" where
  "addc_u128_small x u carry =
     (let low_carry = (addition_would_overflow (m_low x) u \<or> addition_would_overflow (m_low x) (of_bool carry));
          high_carry = addition_would_overflow (m_high x) (of_bool low_carry)
      in (ufixed (m_low x + u + of_bool carry) (m_high x + of_bool low_carry), high_carry))"

definition big_subc :: "'l limb_ops \<Rightarrow> 'l ufixed \<Rightarrow> 'l ufixed \<Rightarrow> bool \<Rightarrow> 'l ufixed \<times> bool" where
  "big_subc ops x y carry =
     (let low_carry = (m_low x = zero_limb ops \<and> carry) \<or>
            less_limb ops (sub_limb ops (m_low x) (bool_limb ops carry)) (m_low y);
          high_carry = (m_high x = zero_limb ops \<and> low_carry) \<or>
            less_limb ops (sub_limb ops (m_high x) (bool_limb ops low_carry)) (m_high y);
          lower = sub_limb ops (sub_limb ops (m_low x) (m_low y)) (bool_limb ops carry);
          higher = sub_limb ops (sub_limb ops (m_high x) (m_high y)) (bool_limb ops low_carry)
      in (ufixed lower higher, high_carry))"

text \<open>Addition and subtraction of a number that fits in one limb, for the larger types.\<close>

definition addc_u256_small :: "u64 ufixed ufixed \<Rightarrow> u64 \<Rightarrow> bool \<Rightarrow> u64 ufixed ufixed \<times> bool" where
  "addc_u256_small x u carry =
     (let (lower, carry) = addc_u128_small (m_low x) u carry;
          (higher, carry) = addc_u128_small (m_high x) 0 carry
      in (ufixed lower higher, carry))"

definition big_subc_small :: "'l limb_ops \<Rightarrow> 'l ufixed \<Rightarrow> 'l \<Rightarrow> bool \<Rightarrow> 'l ufixed \<times> bool" where
  "big_subc_small ops x u carry =
     (let low_carry = (m_low x = zero_limb ops \<and> carry) \<or>
            less_limb ops (sub_limb ops (m_low x) (bool_limb ops carry)) u;
          high_carry = (m_high x = zero_limb ops \<and> low_carry);
          lower = sub_limb ops (sub_limb ops (m_low x) u) (bool_limb ops carry);
          higher = sub_limb ops (m_high x) (bool_limb ops low_carry)
      in (ufixed lower higher, high_carry))"

section \<open>Operations over the class's own operations\<close>

text \<open>
  \<open>div_mod\<close>: \<open>None\<close> is undefined behaviour, which the code provokes for a zero divisor. \<open>n\<close> is \<open>i + 1\<close>.
\<close>

fun div_loop :: "'l limb_ops \<Rightarrow> 'l \<Rightarrow> 'l \<Rightarrow> nat \<Rightarrow> 'l \<times> 'l \<Rightarrow> 'l \<times> 'l" where
  "div_loop ops this divisor 0 (quot, rmd) = (quot, rmd)"
| "div_loop ops this divisor (Suc i) (quot, rmd) =
     (let rmd = or_limb ops (shl_limb ops rmd 1) (and_limb ops (shr_limb ops this i) (one_limb ops)) in
      if \<not> less_limb ops rmd divisor then
        div_loop ops this divisor i
          (or_limb ops quot (shl_limb ops (one_limb ops) i), sub_limb ops rmd divisor)
      else div_loop ops this divisor i (quot, rmd))"

definition div_mod :: "'l limb_ops \<Rightarrow> 'l \<Rightarrow> 'l \<Rightarrow> ('l \<times> 'l) option" where
  "div_mod ops this divisor =
     (if divisor = zero_limb ops then None
      else if less_limb ops this divisor then Some (zero_limb ops, this)
      else if this = divisor then Some (one_limb ops, zero_limb ops)
      else if divisor = one_limb ops then Some (this, zero_limb ops)
      else map_option (\<lambda>c. div_loop ops this divisor (bits ops - c) (zero_limb ops, zero_limb ops))
             (clz_limb ops this))"

text \<open>\<open>operator*\<close>; the fuel is one more than the number of bits, and \<open>None\<close> would mean that it ran out.\<close>

fun mult_loop :: "'l limb_ops \<Rightarrow> nat \<Rightarrow> 'l \<Rightarrow> 'l \<Rightarrow> 'l \<Rightarrow> 'l option" where
  "mult_loop ops 0 res that other = None"
| "mult_loop ops (Suc fuel) res that other =
     (if other \<noteq> zero_limb ops then
        (let res' = (if and_limb ops other (one_limb ops) \<noteq> zero_limb ops then add_limb ops res that else res)
         in mult_loop ops fuel res' (shl_limb ops that 1) (shr_limb ops other 1))
      else Some res)"

definition mult :: "'l limb_ops \<Rightarrow> 'l \<Rightarrow> 'l \<Rightarrow> 'l" where
  "mult ops this other = the (mult_loop ops (Suc (bits ops)) (zero_limb ops) this other)"

text \<open>\<open>sqrt\<close>: \<open>n\<close> counts the rounds left, \<open>shift = 2 * (n - 1)\<close>; \<open>None\<close> is the \<open>clz\<close> of zero.\<close>

fun sqrt_loop :: "'l limb_ops \<Rightarrow> 'l \<Rightarrow> nat \<Rightarrow> 'l \<Rightarrow> 'l" where
  "sqrt_loop ops this 0 res = res"
| "sqrt_loop ops this (Suc n) res =
     (let res = shl_limb ops res 1;
          large_cand = or_limb ops res (one_limb ops) in
      if \<not> less_limb ops (shr_limb ops this (2 * n)) (mult ops large_cand large_cand) then
        sqrt_loop ops this n large_cand
      else sqrt_loop ops this n res)"

definition sqrt_limb :: "'l limb_ops \<Rightarrow> 'l \<Rightarrow> 'l option" where
  "sqrt_limb ops this =
     (if this = one_limb ops then Some (one_limb ops)
      else map_option (\<lambda>c. sqrt_loop ops this (Suc ((bits ops - c) div 2)) (zero_limb ops))
             (clz_limb ops this))"

section \<open>Operations that look at the two limbs\<close>

text \<open>Schoolbook multiplication into four limbs, summed in the type of twice the size.\<close>

definition sum4 :: "'l limb_ops \<Rightarrow> 'l \<Rightarrow> 'l \<Rightarrow> 'l \<Rightarrow> 'l \<Rightarrow> 'l" where
  "sum4 ops a b c d = add_limb ops (add_limb ops (add_limb ops a b) c) d"

definition big_add_ops :: "'l limb_ops \<Rightarrow> 'l ufixed limb_ops" where
  "big_add_ops ops = \<lparr>bits = 2 * bits ops, zero_limb = big_zero ops, one_limb = big_one ops,
     addc_limb = big_addc ops, subc_limb = big_subc ops, less_limb = big_less ops,
     and_limb = big_and ops, or_limb = big_or ops, xor_limb = big_xor ops, not_limb = big_not ops,
     shl_limb = big_shl ops, shr_limb = big_shr ops, clz_limb = big_clz ops, ctz_limb = big_ctz ops,
     popcnt_limb = big_popcnt ops, wide_limb = (\<lambda>x y. (x, y))\<rparr>"

definition wide_multiply :: "'l limb_ops \<Rightarrow> 'l ufixed \<Rightarrow> 'l ufixed \<Rightarrow> 'l ufixed \<times> 'l ufixed" where
  "wide_multiply ops x y =
     (let (ll_low, ll_high) = wide_limb ops (m_low x) (m_low y);
          (lh_low, lh_high) = wide_limb ops (m_low x) (m_high y);
          (hl_low, hl_high) = wide_limb ops (m_high x) (m_low y);
          (hh_low, hh_high) = wide_limb ops (m_high x) (m_high y);
          z = zero_limb ops;
          ll = ufixed (ufixed ll_low ll_high) (ufixed z z);
          lh = ufixed (ufixed z lh_low) (ufixed lh_high z);
          hl = ufixed (ufixed z hl_low) (ufixed hl_high z);
          hh = ufixed (ufixed z z) (ufixed hh_low hh_high);
          result = sum4 (big_add_ops (big_add_ops ops)) ll lh hl hh
      in (m_low result, m_high result))"

text \<open>All operations of \<open>UFixedBigInt<T>\<close>, as the limb of the next size.\<close>

definition big_ops :: "'l limb_ops \<Rightarrow> 'l ufixed limb_ops" where
  "big_ops ops = (big_add_ops ops)\<lparr>wide_limb := wide_multiply ops\<rparr>"

text \<open>Rotations: the counterpart shift is computed from \<open>sizeof(T)\<close>, the size of one limb.\<close>

definition rotate_left :: "'l limb_ops \<Rightarrow> 'l ufixed \<Rightarrow> nat \<Rightarrow> 'l ufixed" where
  "rotate_left ops x shift = big_or ops (big_shr ops x (bits ops - shift)) (big_shl ops x shift)"

definition rotate_right :: "'l limb_ops \<Rightarrow> 'l ufixed \<Rightarrow> nat \<Rightarrow> 'l ufixed" where
  "rotate_right ops x shift = big_or ops (big_shl ops x (bits ops - shift)) (big_shr ops x shift)"

text \<open>
  \<open>pow(u64)\<close>: the ladder, which tests the exponent's bits from the lowest. For the power zero it asks
  for the leading zeroes of zero, which is undefined.
\<close>

fun pow_loop :: "'l limb_ops \<Rightarrow> nat \<Rightarrow> 'l \<Rightarrow> 'l \<Rightarrow> u64 \<Rightarrow> 'l" where
  "pow_loop ops 0 x1 x2 exp_copy = x1"
| "pow_loop ops (Suc n) x1 x2 exp_copy =
     (if exp_copy AND 1 \<noteq> 0 then pow_loop ops n (mult ops x1 x1) (mult ops x2 x1) (drop_bit 1 exp_copy)
      else pow_loop ops n (mult ops x1 x2) (mult ops x2 x2) (drop_bit 1 exp_copy))"

definition pow :: "'l limb_ops \<Rightarrow> 'l \<Rightarrow> u64 \<Rightarrow> 'l option" where
  "pow ops this exp =
     map_option (\<lambda>c. pow_loop ops (64 - c - 1) this (mult ops this this) exp) (count_leading_zeroes exp)"

text \<open>\<open>pow_mod(u64, U)\<close>: the loop counter starts at \<open>sizeof(u64) - clz - 1\<close> in \<open>size_t\<close> and runs up to \<open>exp\<close>.\<close>

function pow_mod_loop :: "'l limb_ops \<Rightarrow> 'l \<Rightarrow> 'l \<Rightarrow> nat \<Rightarrow> nat \<Rightarrow> u64 \<Rightarrow> 'l \<Rightarrow> 'l" where
  "pow_mod_loop ops this modulus i exp exp_copy res =
     (if i < exp then
        (let res = snd (the (div_mod ops (mult ops res res) modulus));
             res = (if exp_copy AND 1 \<noteq> 0 then snd (the (div_mod ops (mult ops this res) modulus)) else res)
         in pow_mod_loop ops this modulus (Suc i) exp (drop_bit 1 exp_copy) res)
      else res)"
  by pat_completeness auto
termination by (relation "measure (\<lambda>(ops, this, modulus, i, exp, exp_copy, res). exp - i)") auto

declare pow_mod_loop.simps [simp del]

definition pow_mod :: "'l limb_ops \<Rightarrow> 'l \<Rightarrow> u64 \<Rightarrow> 'l \<Rightarrow> 'l option" where
  "pow_mod ops this exp modulus =
     (if modulus = zero_limb ops then Some (zero_limb ops)
      else map_option (\<lambda>c. pow_mod_loop ops this modulus (unat (8 - of_nat c - 1 :: u64)) (unat exp)
             exp (one_limb ops)) (count_leading_zeroes exp))"

text \<open>\<open>log2\<close>: \<open>sizeof(R)\<close> counts bytes, \<open>clz()\<close> bits; the difference wraps in \<open>size_t\<close>.\<close>

definition log2_limb :: "'l limb_ops \<Rightarrow> 'l \<Rightarrow> u64 option" where
  "log2_limb ops this = map_option (\<lambda>c. of_nat (bits ops div 8) - of_nat c) (clz_limb ops this)"

text \<open>The comparisons with the number on the left: \<open>a < b\<close>, \<open>a > b\<close>, \<open>a <= b\<close>, \<open>a >= b\<close>.\<close>

definition rev_less :: "'l limb_ops \<Rightarrow> 'l \<Rightarrow> 'l ufixed \<Rightarrow> bool" where
  "rev_less ops a b \<longleftrightarrow> big_eq_small ops b a \<or> big_greater_small ops b a"

definition rev_greater :: "'l limb_ops \<Rightarrow> 'l \<Rightarrow> 'l ufixed \<Rightarrow> bool" where
  "rev_greater ops a b \<longleftrightarrow> big_eq_small ops b a \<or> big_less_small ops b a"

definition rev_less_eq :: "'l limb_ops \<Rightarrow> 'l \<Rightarrow> 'l ufixed \<Rightarrow> bool" where
  "rev_less_eq ops a b \<longleftrightarrow> big_greater_small ops b a"

definition rev_greater_eq :: "'l limb_ops \<Rightarrow> 'l \<Rightarrow> 'l ufixed \<Rightarrow> bool" where
  "rev_greater_eq ops a b \<longleftrightarrow> big_less_small ops b a"

section \<open>Constant-time tests\<close>

definition fold_or_u128 :: "u64 ufixed \<Rightarrow> u64" where
  "fold_or_u128 x = m_low x OR m_high x"

definition is_zero_constant_time :: "u64 ufixed \<Rightarrow> bool" where
  "is_zero_constant_time x \<longleftrightarrow> fold_or_u128 x = 0"

definition fold_xor_pair_u128 :: "u64 ufixed \<Rightarrow> u64 ufixed \<Rightarrow> u64" where
  "fold_xor_pair_u128 x y = (m_low x XOR m_low y) OR (m_high x XOR m_high y)"

definition is_equal_to_constant_time :: "u64 ufixed \<Rightarrow> u64 ufixed \<Rightarrow> bool" where
  "is_equal_to_constant_time x y \<longleftrightarrow> fold_xor_pair_u128 x y = 0"

end
