(* ===== verification/UFixedBigInt_Arith.thy ===== *)
theory UFixedBigInt_Arith
  imports UFixedBigInt_Correct
begin

text \<open>
  Multiplication, division, square root and power of \<open>AK/UFixedBigInt.h\<close>, proved once over the limb
  contract, then for \<open>u128\<close> to \<open>u1024\<close>.
\<close>

lemma or_one_even: "(2 * a :: nat) OR (b mod 2) = 2 * a + b mod 2"
proof -
  have "2 * a AND (b mod 2) = 0"
    by (rule bit_eqI) (auto simp: bit_and_iff bit_double_iff mod_2_eq_odd bit_1_iff bit_Suc_0_iff split: if_splits)
  then show ?thesis by (simp only: disjunctive_add_eq_or)
qed

context limb
begin

lemma one_neq_zero [simp]: "one_limb ops \<noteq> zero_limb ops"
  by (metis val_one val_zero zero_neq_one)

lemma mod_mult_double: "(r + (a * 2 mod M) * b) mod M = (r + a * (2 * b)) mod (M :: nat)"
  by (metis (no_types, opaque_lifting) mod_add_right_eq mod_mult_left_eq mult.assoc)

lemma val_shl_1: "val (shl_limb ops x 1) = val x * 2 mod 2 ^ B"
  using val_shl [of 1 x] bits_gt by simp

lemma val_shr_1: "val (shr_limb ops x 1) = val x div 2"
  using val_shr [of 1 x] bits_gt by simp

lemma val_low_bit: "val (and_limb ops x (one_limb ops)) = val x mod 2"
  by (simp add: val_and and_one_eq)

lemma mult_loop_correct:
  "val other < 2 ^ n \<Longrightarrow>
   \<exists>r. mult_loop ops (Suc n) res x other = Some r \<and> val r = (val res + val x * val other) mod 2 ^ B"
proof (induction n arbitrary: res x other)
  case 0
  then have "other = zero_limb ops" by (simp add: eq_zero_iff)
  then show ?case using val_less [of res] by simp
next
  case (Suc n)
  show ?case
  proof (cases "val other = 0")
    case True
    then show ?thesis using val_less [of res] by (simp add: eq_zero_iff)
  next
    case False
    define res' where "res' = (if and_limb ops other (one_limb ops) \<noteq> zero_limb ops then add_limb ops res x else res)"
    have "val (shr_limb ops other 1) < 2 ^ n" using Suc.prems by (simp only: val_shr_1) (simp add: less_mult_imp_div_less)
    from Suc.IH [OF this, of res' "shl_limb ops x 1"] obtain r where
      r: "mult_loop ops (Suc n) res' (shl_limb ops x 1) (shr_limb ops other 1) = Some r"
        "val r = (val res' + (val x * 2 mod 2 ^ B) * (val other div 2)) mod 2 ^ B"
      unfolding val_shl_1 val_shr_1 by blast
    have "val res' mod 2 ^ B = (val res + val x * (val other mod 2)) mod 2 ^ B"
      by (auto simp: res'_def eq_zero_iff val_low_bit val_add)
    then have "val r = (val res + val x * (val other mod 2) + val x * (2 * (val other div 2))) mod 2 ^ B"
      unfolding r mod_mult_double by (metis mod_add_left_eq)
    also have "\<dots> = (val res + val x * (val other mod 2 + 2 * (val other div 2))) mod 2 ^ B"
      by (simp only: distrib_left add.assoc)
    finally have "val r = (val res + val x * val other) mod 2 ^ B" by simp
    moreover have "mult_loop ops (Suc (Suc n)) res x other = Some r"
      using r(1) False unfolding mult_loop.simps(2) [of ops "Suc n"] res'_def [symmetric] Let_def
      by (simp only: eq_zero_iff not_False_eq_True if_True)
    ultimately show ?thesis by blast
  qed
qed

lemma mult_returns: "mult_loop ops (Suc B) (zero_limb ops) x y = Some (mult ops x y)"
  using mult_loop_correct [OF val_less, of "zero_limb ops" x y] by (auto simp: mult_def simp del: mult_loop.simps)

lemma val_mult: "val (mult ops x y) = val x * val y mod 2 ^ B"
  using mult_loop_correct [OF val_less, of "zero_limb ops" x y] by (auto simp: mult_def simp del: mult_loop.simps)

lemma or_power_multiple: "(q * 2 ^ Suc i :: nat) OR 2 ^ i = (2 * q + 1) * 2 ^ i"
proof -
  have "q * 2 ^ Suc i = push_bit (Suc i) q" by (simp only: push_bit_eq_mult)
  then have "q * 2 ^ Suc i AND 2 ^ i = (0 :: nat)"
    by (simp only:) (rule bit_eqI, auto simp: bit_and_iff bit_exp_iff bit_push_bit_iff simp del: push_bit_Suc)
  then have "q * 2 ^ Suc i OR 2 ^ i = q * 2 ^ Suc i + 2 ^ i" by (simp only: disjunctive_add_eq_or)
  then show ?thesis by simp
qed

lemma div_loop_correct:
  assumes "0 < val y" and "n \<le> B"
    and "val quot = q * 2 ^ n" and "q * val y + val rmd = val x div 2 ^ n" and "val rmd < val y"
  shows "\<exists>Q R. div_loop ops x y n (quot, rmd) = (Q, R) \<and> val Q = val x div val y \<and> val R = val x mod val y"
  using assms
proof (induction n arbitrary: quot rmd q)
  case 0
  then have "val x = val rmd + q * val y" by simp
  with 0 have "val x div val y = q" "val x mod val y = val rmd" by simp_all
  with 0 show ?case by simp
next
  case (Suc i)
  let ?T = "val x div 2 ^ i"
  define r' where "r' = or_limb ops (shl_limb ops rmd 1) (and_limb ops (shr_limb ops x i) (one_limb ops))"
  have i: "i < B" using Suc.prems by simp
  have half: "val x div 2 ^ Suc i = ?T div 2" by (simp only: power_Suc2 div_mult2_eq)
  have "2 * val rmd \<le> ?T" using Suc.prems(4) unfolding half by linarith
  also have "?T < 2 ^ B" using val_less [of x] by (meson div_le_dividend le_less_trans)
  finally have "val (shl_limb ops rmd 1) = 2 * val rmd" by (simp only: val_shl_1) (simp add: mult.commute)
  then have r': "val r' = 2 * val rmd + ?T mod 2"
    using i by (simp add: r'_def val_or val_low_bit val_shr or_one_even)
  have T: "2 * q * val y + val r' = ?T"
  proof -
    have "2 * (q * val y + val rmd) + ?T mod 2 = ?T" unfolding Suc.prems(4) half by simp
    then show ?thesis unfolding r' by (simp add: algebra_simps)
  qed
  show ?case
  proof (cases "val y \<le> val r'")
    case True
    let ?q = "or_limb ops quot (shl_limb ops (one_limb ops) i)"
    have "val (shl_limb ops (one_limb ops) i) = 2 ^ i" using i by (simp add: val_shl)
    then have "val ?q = (2 * q + 1) * 2 ^ i"
      by (simp only: val_or Suc.prems(3) or_power_multiple)
    moreover have "val (sub_limb ops r' y) = val r' - val y" using True by (simp add: val_sub)
    moreover have "val r' < 2 * val y" unfolding r' using Suc.prems(5) by linarith
    moreover have "(2 * q + 1) * val y + (val r' - val y) = ?T" using T True by (simp add: algebra_simps)
    ultimately have "val (sub_limb ops r' y) < val y" "val ?q = (2 * q + 1) * 2 ^ i"
      "(2 * q + 1) * val y + val (sub_limb ops r' y) = ?T"
      using True by auto
    then obtain Q R where "div_loop ops x y i (?q, sub_limb ops r' y) = (Q, R)"
      "val Q = val x div val y" "val R = val x mod val y"
      using Suc.IH [of ?q "2 * q + 1" "sub_limb ops r' y"] Suc.prems(1) i by auto
    then show ?thesis using True by (simp add: Let_def r'_def [symmetric] less_iff del: One_nat_def)
  next
    case False
    then obtain Q R where "div_loop ops x y i (quot, r') = (Q, R)"
      "val Q = val x div val y" "val R = val x mod val y"
      using Suc.IH [of quot "2 * q" r'] Suc.prems i T by auto
    then show ?thesis using False by (simp add: Let_def r'_def [symmetric] less_iff del: One_nat_def)
  qed
qed

lemma div_mod_zero: "val y = 0 \<Longrightarrow> div_mod ops x y = None"
  by (simp add: div_mod_def eq_zero_iff)

lemma div_mod_correct:
  assumes "0 < val y"
  shows "\<exists>Q R. div_mod ops x y = Some (Q, R) \<and> val Q = val x div val y \<and> val R = val x mod val y"
proof -
  consider "val x < val y" | "x = y" | "y = one_limb ops" "val y < val x" | "val y < val x" "y \<noteq> one_limb ops"
    using val_inject [of x y] by linarith
  then show ?thesis
  proof cases
    case 4
    then have "0 < val x" by simp
    from clz_bounds [OF this] obtain c where c: "clz_limb ops x = Some c" and x: "val x div 2 ^ (B - c) = 0"
      by auto
    have *: "div_mod ops x y = Some (div_loop ops x y (B - c) (zero_limb ops, zero_limb ops))"
      using 4 assms c by (auto simp: div_mod_def less_iff)
    show ?thesis
      using div_loop_correct [of y "B - c" "zero_limb ops" 0 "zero_limb ops" x] assms x *
      by auto
  qed (use assms in \<open>auto simp: div_mod_def less_iff\<close>)
qed

text \<open>The fast paths of \<open>div_mod\<close> compute what the loop would.\<close>

lemma fst_snd_div_mod:
  assumes "0 < val y"
  shows "val (fst (the (div_mod ops x y))) = val x div val y"
    and "val (snd (the (div_mod ops x y))) = val x mod val y"
  using div_mod_correct [OF assms, of x] by auto

end

section \<open>Square root and powers\<close>

text \<open>
  \<open>sqrt\<close> shifts by up to the number of bits, which only \<open>UFixedBigInt\<close> defines (a machine shift by its
  width is undefined), and its number of bits is even.
\<close>

locale big_limb = limb ops val
  for ops :: "'l limb_ops" and val :: "'l \<Rightarrow> nat" +
  assumes even_bits: "even (bits ops)"
    and shr_out: "bits ops \<le> n \<Longrightarrow> shr_limb ops x n = zero_limb ops"
begin

lemma val_shr_any: "val (shr_limb ops x n) = val x div 2 ^ n"
proof (cases "n < B")
  case False
  then have "val x < 2 ^ n"
    using val_less [of x] by (meson less_le_trans linorder_not_less one_le_numeral power_increasing)
  with False show ?thesis by (simp add: shr_out)
qed (simp add: val_shr)

lemma square_step:
  fixes s Y :: nat
  assumes "s\<^sup>2 \<le> Y div 4" and "Y div 4 < (s + 1)\<^sup>2"
  shows "(2 * s)\<^sup>2 \<le> Y" and "Y < (2 * s + 2)\<^sup>2"
  using assms by (auto simp: power2_eq_square algebra_simps)

lemma sqrt_loop_correct:
  assumes "(val res)\<^sup>2 \<le> val x div 2 ^ (2 * n)" and "val x div 2 ^ (2 * n) < (val res + 1)\<^sup>2"
  shows "(val (sqrt_loop ops x n res))\<^sup>2 \<le> val x \<and> val x < (val (sqrt_loop ops x n res) + 1)\<^sup>2"
  using assms
proof (induction n arbitrary: res)
  case 0
  then show ?case by simp
next
  case (Suc n)
  let ?Y = "val x div 2 ^ (2 * n)"
  define r2 where "r2 = shl_limb ops res 1"
  define cand where "cand = or_limb ops r2 (one_limb ops)"
  have Y4: "val x div 2 ^ (2 * Suc n) = ?Y div 4"
    by (simp add: div_mult2_eq [symmetric] mult.commute)
  have sq: "(2 * val res)\<^sup>2 \<le> ?Y" "?Y < (2 * val res + 2)\<^sup>2"
    using square_step [of "val res" ?Y] Suc.prems unfolding Y4 by auto
  obtain m where m: "B = 2 * Suc m"
    using even_bits bits_gt by (metis evenE not0_implies_Suc mult_0_right not_one_less_zero)
  have "val x < 4 * 2 ^ (2 * m)" using val_less [of x] by (simp add: m)
  then have "val x div 4 < (2 ^ m)\<^sup>2" by (simp add: power_even_eq less_mult_imp_div_less)
  moreover have "val x div 2 ^ (2 * Suc n) \<le> val x div 4" by (simp add: div_mult2_eq)
  ultimately have "(val res)\<^sup>2 < (2 ^ m)\<^sup>2" using Suc.prems(1) by linarith
  then have "val res < 2 ^ m" by (rule power2_less_imp_less) simp
  then have small: "2 * val res + 1 < 2 ^ Suc m" by simp
  have "2 ^ Suc m \<le> (2 :: nat) ^ B" unfolding m by (intro power_increasing) auto
  with small have r2: "val r2 = 2 * val res" by (simp only: r2_def val_shl_1) (simp add: mult.commute)
  then have cand: "val cand = 2 * val res + 1"
    using or_one_even [of "val res" 1] by (simp add: cand_def val_or)
  have "(val cand)\<^sup>2 < (2 ^ Suc m)\<^sup>2" unfolding cand using small by (intro power_strict_mono) auto
  moreover have "(2 :: nat) ^ B = (2 ^ Suc m)\<^sup>2" unfolding m by (simp only: power_even_eq)
  ultimately have "val cand * val cand < 2 ^ B" by (simp only: power2_eq_square)
  then have c2: "val (mult ops cand cand) = (val cand)\<^sup>2" by (simp add: val_mult power2_eq_square)
  show ?case
  proof (cases "?Y < (val cand)\<^sup>2")
    case True
    then have "sqrt_loop ops x (Suc n) res = sqrt_loop ops x n r2"
      by (simp add: Let_def r2_def [symmetric] cand_def [symmetric] less_iff c2 val_shr_any del: One_nat_def)
    moreover have "(val r2)\<^sup>2 \<le> ?Y" "?Y < (val r2 + 1)\<^sup>2" using sq True by (simp_all add: r2 cand)
    ultimately show ?thesis using Suc.IH by simp
  next
    case False
    then have "sqrt_loop ops x (Suc n) res = sqrt_loop ops x n cand"
      by (simp add: Let_def r2_def [symmetric] cand_def [symmetric] less_iff c2 val_shr_any del: One_nat_def)
    moreover have "(val cand)\<^sup>2 \<le> ?Y" "?Y < (val cand + 1)\<^sup>2" using sq False by (simp_all add: cand)
    ultimately show ?thesis using Suc.IH by simp
  qed
qed

lemma sqrt_zero: "val x = 0 \<Longrightarrow> sqrt_limb ops x = None"
  by (auto simp: sqrt_limb_def clz_zero)

lemma sqrt_correct:
  assumes "0 < val x"
  shows "\<exists>r. sqrt_limb ops x = Some r \<and> (val r)\<^sup>2 \<le> val x \<and> val x < (val r + 1)\<^sup>2"
proof (cases "x = one_limb ops")
  case False
  from clz_bounds [OF assms] obtain c where c: "clz_limb ops x = Some c" and "val x < 2 ^ (B - c)" by blast
  note this(2)
  also have "(2 :: nat) ^ (B - c) \<le> 2 ^ (2 * Suc ((B - c) div 2))" by (intro power_increasing) auto
  finally have "val x div 2 ^ (2 * Suc ((B - c) div 2)) = 0" by simp
  then show ?thesis
    using sqrt_loop_correct [of "zero_limb ops" x "Suc ((B - c) div 2)"] False c
    by (simp add: sqrt_limb_def del: sqrt_loop.simps)
qed (simp add: sqrt_limb_def power2_eq_square)

end

text \<open>
  The ladder of \<open>pow\<close> reads the exponent from its lowest bit and squares on a one where the method squares
  on a zero: the power it computes has the exponent \<open>ladder_exponent\<close>.
\<close>

fun ladder :: "nat \<Rightarrow> nat \<Rightarrow> u64 \<Rightarrow> nat" where
  "ladder 0 e exp_copy = e"
| "ladder (Suc n) e exp_copy =
     (if exp_copy AND 1 \<noteq> 0 then ladder n (2 * e) (drop_bit 1 exp_copy)
      else ladder n (2 * e + 1) (drop_bit 1 exp_copy))"

definition ladder_exponent :: "u64 \<Rightarrow> nat option" where
  "ladder_exponent exp = map_option (\<lambda>c. ladder (64 - c - 1) 1 exp) (count_leading_zeroes exp)"

context limb
begin

lemma pow_loop_correct:
  assumes "val x1 = a ^ e mod 2 ^ B" and "val x2 = a ^ Suc e mod 2 ^ B"
  shows "val (pow_loop ops n x1 x2 ex) = a ^ ladder n e ex mod 2 ^ B"
  using assms
proof (induction n arbitrary: x1 x2 e ex)
  case (Suc n)
  have 1: "val (mult ops x1 x1) = a ^ (2 * e) mod 2 ^ B"
    by (simp add: val_mult Suc.prems mod_mult_eq power_even_eq power2_eq_square)
  have 2: "val (mult ops x1 x2) = a ^ (2 * e + 1) mod 2 ^ B" "val (mult ops x2 x1) = a ^ (2 * e + 1) mod 2 ^ B"
    by (simp_all only: val_mult Suc.prems mod_mult_eq power_add [symmetric])
      (simp_all add: mult_2)
  have 3: "val (mult ops x2 x2) = a ^ (2 * e + 2) mod 2 ^ B"
    by (simp only: val_mult Suc.prems mod_mult_eq power_add [symmetric]) (simp add: mult_2)
  show ?case using Suc.IH [of _ "2 * e"] Suc.IH [of _ "2 * e + 1"] 1 2 3 by simp
qed simp

lemma pow_correct: "map_option val (pow ops x ex) = map_option (\<lambda>e. val x ^ e mod 2 ^ B) (ladder_exponent ex)"
proof -
  have "val (mult ops x x) = val x ^ Suc 1 mod 2 ^ B" by (simp add: val_mult)
  then have "val (pow_loop ops n x (mult ops x x) ex) = val x ^ ladder n 1 ex mod 2 ^ B" for n
    using val_less [of x] by (intro pow_loop_correct) simp_all
  then show ?thesis
    by (cases "count_leading_zeroes ex") (simp_all add: pow_def ladder_exponent_def)
qed

end

section \<open>The types\<close>

theorem big_big_limb: "limb ops val \<Longrightarrow> big_limb (big_ops ops) (big_val ops val)"
proof (intro big_limb.intro big_limb_axioms.intro)
  assume "limb ops val"
  then show "limb (big_ops ops) (big_val ops val)" by (rule limb.big_limb)
qed (simp_all add: big_shr_def)

type_synonym u128 = "u64 ufixed"
type_synonym u256 = "u128 ufixed"
type_synonym u512 = "u256 ufixed"

abbreviation "u128_ops \<equiv> big_ops u64_ops"
abbreviation "u256_ops \<equiv> big_ops u128_ops"
abbreviation "u512_ops \<equiv> big_ops u256_ops"

definition u128_val :: "u128 \<Rightarrow> nat" where
  "u128_val = big_val u64_ops unat"

definition u256_val :: "u256 \<Rightarrow> nat" where
  "u256_val = big_val u128_ops u128_val"

definition u512_val :: "u512 \<Rightarrow> nat" where
  "u512_val = big_val u256_ops u256_val"

interpretation u128: big_limb u128_ops u128_val
  unfolding u128_val_def by (rule big_big_limb) (rule u64.limb_axioms)

interpretation u256: big_limb u256_ops u256_val
  unfolding u256_val_def by (rule big_big_limb) (rule u128.limb_axioms)

interpretation u512: big_limb u512_ops u512_val
  unfolding u512_val_def by (rule big_big_limb) (rule u256.limb_axioms)

end
