(* ===== verification/UFixedBigInt_Properties.thy ===== *)
theory UFixedBigInt_Properties
  imports UFixedBigInt_Arith
begin

text \<open>
  The properties of \<open>AK/UFixedBigInt.h\<close>, for the types \<open>u128\<close>, \<open>u256\<close> and \<open>u512\<close>, which rest on the
  interpretations of the limb contract.
\<close>

section \<open>The code of its own for \<open>u128\<close>\<close>

text \<open>
  The addition that \<open>u128\<close> has of its own, from machine words and overflow tests, is the addition that
  every other size builds from the limbs' additions: sum, incoming and outgoing carry.
\<close>

theorem addc_u128_is_generic: "addc_u128 x y carry = big_addc u64_ops x y carry"
  by (simp add: addc_u128_def big_addc_def addc_u64_def Let_def)

section \<open>Arithmetic of all sizes\<close>

text \<open>
  C12. A number of two limbs represents \<open>low + 2 ^ bits * high\<close>, and addition and subtraction with carry,
  comparison, the bitwise operations and the shifts of \<open>UFixedBigInt<T>\<close> act on that number as they must,
  whenever those of the limb type do; shifting stays defined for every shift, and counting the leading or
  the trailing zeroes is undefined for the number zero only.
\<close>

theorem ufixed_refines_numbers:
  assumes "limb ops val"
  shows "big_limb (big_ops ops) (big_val ops val)"
  using assms by (rule big_big_limb)

theorem ufixed_refines_numbers_witness: "big_limb u256_ops (big_val u128_ops u128_val)"
  by (rule ufixed_refines_numbers) (rule u128.limb_axioms)

text \<open>
  C14. Multiplication returns the product modulo the size of the type and the wide multiplication returns
  all of it in two halves; the bit loop of \<open>operator*\<close> ends within as many rounds as the type has bits.
\<close>

theorem u256_multiplication:
  "u256_val (mult u256_ops x y) = u256_val x * u256_val y mod 2 ^ 256 \<and>
   mult_loop u256_ops 257 (zero_limb u256_ops) x y = Some (mult u256_ops x y) \<and>
   (case wide_multiply u128_ops x y of (low, high) \<Rightarrow> u256_val low + 2 ^ 256 * u256_val high = u256_val x * u256_val y)"
proof (intro conjI)
  show "u256_val (mult u256_ops x y) = u256_val x * u256_val y mod 2 ^ 256"
    using u256.val_mult [of x y] by simp
  show "mult_loop u256_ops 257 (zero_limb u256_ops) x y = Some (mult u256_ops x y)"
    using u256.mult_returns [of x y] by (simp add: eval_nat_numeral del: mult_loop.simps)
  show "case wide_multiply u128_ops x y of (low, high) \<Rightarrow> u256_val low + 2 ^ 256 * u256_val high = u256_val x * u256_val y"
    using u256.val_wide [of x y] by (auto split: prod.splits)
qed

text \<open>
  C13. Division returns quotient and remainder of the numbers; a zero divisor is the division by zero that
  the code provokes.
\<close>

theorem u256_division:
  "if u256_val y = 0 then div_mod u256_ops x y = None
   else \<exists>q r. div_mod u256_ops x y = Some (q, r) \<and>
          u256_val q = u256_val x div u256_val y \<and> u256_val r = u256_val x mod u256_val y"
  using u256.div_mod_zero [of y x] u256.div_mod_correct [of y x] by simp

text \<open>
  \<open>sqrt\<close> returns the square root, rounded down; that of zero is undefined.
\<close>

theorem u512_square_root:
  "if u512_val x = 0 then sqrt_limb u512_ops x = None
   else \<exists>r. sqrt_limb u512_ops x = Some r \<and> (u512_val r)\<^sup>2 \<le> u512_val x \<and> u512_val x < (u512_val r + 1)\<^sup>2"
  using u512.sqrt_zero [of x] u512.sqrt_correct [of x] by simp

text \<open>
  \<open>pow\<close> returns a power of its base, modulo the size of the type, but the exponent it uses is not the
  one given: the ladder reads the bits in the wrong order and inverted, so that the second power is the
  third, the fourth the seventh; the power zero is undefined.
\<close>

theorem u128_pow_ladder:
  "map_option u128_val (pow u128_ops x exp) =
     map_option (\<lambda>e. u128_val x ^ e mod 2 ^ 128) (ladder_exponent exp) \<and>
   ladder_exponent 0 = None \<and> ladder_exponent 1 = Some 1 \<and> ladder_exponent 2 = Some 3 \<and>
   ladder_exponent 4 = Some 7"
proof -
  have "ladder_exponent 0 = None" "ladder_exponent 1 = Some 1" "ladder_exponent 2 = Some 3"
    "ladder_exponent 4 = Some 7"
    by code_simp+
  then show ?thesis using u128.pow_correct [of x exp] by simp
qed

text \<open>
  The comparisons with a machine word on the left are the ones of the two numbers with strictness
  exchanged: \<open>a < b\<close> and \<open>a > b\<close> also hold for equal numbers, \<open>a <= b\<close> and \<open>a >= b\<close> do not.
\<close>

theorem u128_reversed_comparisons:
  "(rev_less u64_ops a b \<longleftrightarrow> unat a \<le> u128_val b) \<and> (rev_greater u64_ops a b \<longleftrightarrow> u128_val b \<le> unat a) \<and>
   (rev_less_eq u64_ops a b \<longleftrightarrow> unat a < u128_val b) \<and> (rev_greater_eq u64_ops a b \<longleftrightarrow> u128_val b < unat a)"
proof -
  have v: "u128_val b = unat (m_low b) + 2 ^ 64 * unat (m_high b)" by (simp add: u128_val_def big_val_def)
  show ?thesis
  proof (cases "m_high b = 0")
    case True
    then have v: "u128_val b = unat (m_low b)" by (simp add: v)
    have e: "m_low b = a \<longleftrightarrow> unat (m_low b) = unat a" by (rule word_unat_eq_iff)
    show ?thesis
      by (simp only: v rev_less_def rev_greater_def rev_less_eq_def rev_greater_eq_def big_eq_small_def
          big_greater_small_def big_less_small_def u64_ops_simps word_less_nat_alt e True) arith
  next
    case False
    then have "unat (m_high b) \<noteq> 0" by (simp add: unsigned_eq_0_iff)
    then have "2 ^ 64 \<le> u128_val b" unfolding v by (cases "unat (m_high b)") auto
    with unat_u64_less [of a] have "unat a < u128_val b" by linarith
    with False show ?thesis
      by (auto simp: rev_less_def rev_greater_def rev_less_eq_def rev_greater_eq_def big_eq_small_def
          big_greater_small_def big_less_small_def)
  qed
qed

text \<open>
  Adding a machine word to a \<open>u128\<close> without an incoming carry gives sum and carry. With one it does not:
  the overflow test leaves the word out.
\<close>

theorem addc_u128_small_correct:
  "(case addc_u128_small x u False of (z, d) \<Rightarrow> u128_val z + 2 ^ 128 * of_bool d = u128_val x + unat u) \<and>
   addc_u128_small (ufixed 1 0) (- 2) True = (ufixed 0 0, False)"
proof
  have "addc_u128_small x u False = big_addc u64_ops x (ufixed u 0) False"
    by (simp add: addc_u128_small_def big_addc_def addc_u64_def Let_def addition_would_overflow_def)
  then show "case addc_u128_small x u False of (z, d) \<Rightarrow> u128_val z + 2 ^ 128 * of_bool d = u128_val x + unat u"
    using u128.val_addc [of x "ufixed u 0" False] by (auto simp: u128_val_def big_val_def split: prod.splits)
  show "addc_u128_small (ufixed 1 0) (- 2) True = (ufixed 0 0, False)"
    by (simp add: addc_u128_small_def addition_would_overflow_def Let_def)
qed

end
