(* ===== verification/Registers.thy ===== *)
theory Registers
  imports AK_Prelude
begin

text \<open>
  \<open>Kernel/Arch/aarch64/Registers.h\<close>: the system registers as structs of bit fields. A struct is the list
  of its fields in declaration order with the declared type, the width and the default of each; \<open>place\<close>
  gives the fields their bits by the rule of the procedure call standard (a field that would cross the
  boundary of its declared type starts at the next one). \<open>get_field\<close> and \<open>set_field\<close> are the compiler's
  accesses: a write keeps the low bits of the value, a read extends them by the sign if the declared type
  is signed. \<open>field_bits\<close> are the bits as the processor sees them. Reads and writes of the hardware
  registers are in the theories of the code that runs them; the instructions whose register names the
  header misspells are listed in \<open>ExceptionLevels\<close>.
\<close>

section \<open>Bit fields\<close>

text \<open>
  The declared types: \<open>int\<close>, also the type of an \<open>enum class : int\<close>; and the unsigned types, among them the
  type of an unscoped enumeration without negative members.
\<close>

datatype field_type = IntType | Unsigned nat

fun unit_of :: "field_type \<Rightarrow> nat" where
  "unit_of IntType = 32"
| "unit_of (Unsigned n) = n"

type_synonym layout = "(string \<times> field_type \<times> nat \<times> nat) list"

text \<open>Name, first bit, width, type and default of every field.\<close>

fun place :: "nat \<Rightarrow> layout \<Rightarrow> (string \<times> nat \<times> nat \<times> field_type \<times> nat) list" where
  "place off [] = []"
| "place off ((name, type, width, dflt) # fs) =
     (let unit = unit_of type;
          at = (if off mod unit + width > unit then (off div unit + 1) * unit else off)
      in (name, at, width, type, dflt) # place (at + width) fs)"

definition field_at :: "layout \<Rightarrow> string \<Rightarrow> (nat \<times> nat \<times> field_type) option" where
  "field_at lay name =
     map_option (\<lambda>(n, at, width, type, dflt). (at, width, type)) (List.find (\<lambda>f. fst f = name) (place 0 lay))"

definition get_bits :: "nat \<Rightarrow> nat \<Rightarrow> u64 \<Rightarrow> u64" where
  "get_bits at width x = take_bit width (drop_bit at x)"

definition set_bits :: "nat \<Rightarrow> nat \<Rightarrow> u64 \<Rightarrow> u64 \<Rightarrow> u64" where
  "set_bits at width v x = (x AND NOT (push_bit at (mask width))) OR push_bit at (take_bit width v)"

definition field_bits :: "layout \<Rightarrow> string \<Rightarrow> u64 \<Rightarrow> u64" where
  "field_bits lay name x = (case field_at lay name of Some (at, width, type) \<Rightarrow> get_bits at width x | None \<Rightarrow> 0)"

text \<open>The value that a number of bits stands for in a field.\<close>

fun as_value :: "field_type \<Rightarrow> nat \<Rightarrow> u64 \<Rightarrow> int" where
  "as_value IntType width w = signed_take_bit (width - 1) (uint w)"
| "as_value (Unsigned n) width w = uint w"

definition get_field :: "layout \<Rightarrow> string \<Rightarrow> u64 \<Rightarrow> int" where
  "get_field lay name x =
     (case field_at lay name of Some (at, width, type) \<Rightarrow> as_value type width (get_bits at width x) | None \<Rightarrow> 0)"

definition set_field :: "layout \<Rightarrow> string \<Rightarrow> int \<Rightarrow> u64 \<Rightarrow> u64" where
  "set_field lay name v x =
     (case field_at lay name of Some (at, width, type) \<Rightarrow> set_bits at width (word_of_int v) x | None \<Rightarrow> x)"

text \<open>The value of a struct initialised with \<open>{}\<close>: every field has its default, most of them zero.\<close>

definition initial_value :: "layout \<Rightarrow> u64" where
  "initial_value lay = foldl (\<lambda>x (name, at, width, type, dflt). if dflt = 0 then x else set_bits at width (of_nat dflt) x) 0
     (place 0 lay)"

text \<open>Assignments to several fields, in order.\<close>

definition set_fields :: "layout \<Rightarrow> (string \<times> int) list \<Rightarrow> u64 \<Rightarrow> u64" where
  "set_fields lay fvs x = foldl (\<lambda>x (name, v). set_field lay name v x) x fvs"

section \<open>The registers\<close>

definition ID_AA64MMFRO_EL1 :: layout where
  "ID_AA64MMFRO_EL1 = [
    (''PARange'', IntType, 4, 0), (''ASIDBits'', IntType, 4, 0), (''BigEnd'', IntType, 4, 0), (''SNSMem'', IntType, 4, 0),
    (''BigEndEL0'', IntType, 4, 0), (''TGran16'', IntType, 4, 0), (''TGran64'', IntType, 4, 0), (''TGran4'', IntType, 4, 0),
    (''TGran16_2'', IntType, 4, 0), (''TGran64_2'', IntType, 4, 0), (''TGran4_2'', IntType, 4, 0), (''ExS'', IntType, 4, 0),
    (''RES0'', IntType, 8, 0), (''FGT'', IntType, 4, 0), (''ECV'', IntType, 4, 0)]"

definition TCR_EL1 :: layout where
  "TCR_EL1 = [
    (''T0SZ'', IntType, 6, 0), (''RES0_0'', IntType, 1, 0), (''EPD0'', IntType, 1, 0), (''IRGN0'', Unsigned 32, 2, 0),
    (''ORGN0'', Unsigned 32, 2, 0), (''SH0'', Unsigned 32, 2, 0), (''TG0'', IntType, 2, 0), (''T1SZ'', IntType, 6, 0),
    (''A1'', IntType, 1, 0), (''EPD1'', IntType, 1, 0), (''IRGN1'', Unsigned 32, 2, 0), (''ORGN1'', Unsigned 32, 2, 0),
    (''SH1'', Unsigned 32, 2, 0), (''TG1'', IntType, 2, 0), (''IPS'', IntType, 3, 0), (''RES0_1'', IntType, 1, 0),
    (''AS'', IntType, 1, 0), (''TBI0'', IntType, 1, 0), (''TBI1'', IntType, 1, 0), (''HA'', IntType, 1, 0), (''HD'', IntType, 1, 0),
    (''HPD0'', IntType, 1, 0), (''HPD1'', IntType, 1, 0), (''HWU059'', IntType, 1, 0), (''HWU060'', IntType, 1, 0),
    (''HWU061'', IntType, 1, 0), (''HWU062'', IntType, 1, 0), (''HWU159'', IntType, 1, 0), (''HWU160'', IntType, 1, 0),
    (''HWU161'', IntType, 1, 0), (''HWU162'', IntType, 1, 0), (''TBID0'', IntType, 1, 0), (''TBID1'', IntType, 1, 0),
    (''NFD0'', IntType, 1, 0), (''NFD1'', IntType, 1, 0), (''E0PD0'', IntType, 1, 0), (''E0PD1'', IntType, 1, 0),
    (''TCMA0'', IntType, 1, 0), (''TCMA1'', IntType, 1, 0), (''DS'', IntType, 1, 0), (''RES0_2'', IntType, 4, 0)]"

definition SCTLR_EL1 :: layout where
  "SCTLR_EL1 = [
    (''M'', IntType, 1, 0), (''A'', IntType, 1, 0), (''C'', IntType, 1, 0), (''SA'', IntType, 1, 0), (''SA0'', IntType, 1, 0),
    (''CP15BEN'', IntType, 1, 0), (''_reserved6'', IntType, 1, 0), (''ITD'', IntType, 1, 0), (''SED'', IntType, 1, 0),
    (''UMA'', IntType, 1, 0), (''_reserved10'', IntType, 1, 0), (''_reserved11'', IntType, 1, 1), (''I'', IntType, 1, 0),
    (''EnDB'', IntType, 1, 0), (''DZE'', IntType, 1, 0), (''UCT'', IntType, 1, 0), (''nTWI'', IntType, 1, 0),
    (''_reserved17'', IntType, 1, 0), (''nTWE'', IntType, 1, 0), (''WXN'', IntType, 1, 0), (''_reserved20'', IntType, 1, 1),
    (''IESB'', IntType, 1, 0), (''_reserved22'', IntType, 1, 1), (''SPAN'', IntType, 1, 0), (''E0E'', IntType, 1, 0),
    (''EE'', IntType, 1, 0), (''UCI'', IntType, 1, 0), (''EnDA'', IntType, 1, 0), (''nTLSMD'', IntType, 1, 0),
    (''LSMAOE'', IntType, 1, 0), (''EnIB'', IntType, 1, 0), (''EnIA'', IntType, 1, 0), (''_reserved32'', IntType, 3, 0),
    (''BT0'', IntType, 1, 0), (''BT1'', IntType, 1, 0), (''ITFSB'', IntType, 1, 0), (''TCF0'', IntType, 2, 0),
    (''TCF'', IntType, 2, 0), (''ATA0'', IntType, 1, 0), (''ATA'', IntType, 1, 0), (''DSSBS'', IntType, 1, 0),
    (''TWEDEn'', IntType, 1, 0), (''TWEDEL'', IntType, 4, 0), (''_reserved50'', IntType, 4, 0), (''EnASR'', IntType, 1, 0),
    (''EnAS0'', IntType, 1, 0), (''EnALS'', IntType, 1, 0), (''EPAN'', IntType, 1, 0), (''_reserved58'', IntType, 6, 0)]"

definition HCR_EL2 :: layout where
  "HCR_EL2 = [
    (''VM'', IntType, 1, 0), (''SWIO'', IntType, 1, 0), (''PTW'', IntType, 1, 0), (''FMO'', IntType, 1, 0),
    (''IMO'', IntType, 1, 0), (''AMO'', IntType, 1, 0), (''VF'', IntType, 1, 0), (''VI'', IntType, 1, 0), (''VSE'', IntType, 1, 0),
    (''FB'', IntType, 1, 0), (''BSU'', IntType, 2, 0), (''DC'', IntType, 1, 0), (''TWI'', IntType, 1, 0), (''TWE'', IntType, 1, 0),
    (''TID0'', IntType, 1, 0), (''TID1'', IntType, 1, 0), (''TID2'', IntType, 1, 0), (''TID3'', IntType, 1, 0),
    (''TSC'', IntType, 1, 0), (''TIPDCP'', IntType, 1, 0), (''TACR'', IntType, 1, 0), (''TSW'', IntType, 1, 0),
    (''TPCF'', IntType, 1, 0), (''TPU'', IntType, 1, 0), (''TTLB'', IntType, 1, 0), (''TVM'', IntType, 1, 0),
    (''TGE'', IntType, 1, 0), (''TDZ'', IntType, 1, 0), (''HCD'', IntType, 1, 0), (''TRVM'', IntType, 1, 0),
    (''RW'', IntType, 1, 0), (''CD'', IntType, 1, 0), (''ID'', IntType, 1, 0), (''E2H'', IntType, 1, 0), (''TLOR'', IntType, 1, 0),
    (''TERR'', IntType, 1, 0), (''MIOCNCE'', IntType, 1, 0), (''_reserved39'', IntType, 1, 0), (''APK'', IntType, 1, 0),
    (''API'', IntType, 1, 0), (''NV'', IntType, 1, 0), (''NV1'', IntType, 1, 0), (''AT'', IntType, 1, 0),
    (''_reserved45'', IntType, 18, 0)]"

definition SCR_EL3 :: layout where
  "SCR_EL3 = [
    (''NS'', IntType, 1, 0), (''IRQ'', IntType, 1, 0), (''FIQ'', IntType, 1, 0), (''EA'', IntType, 1, 0),
    (''_reserved4'', IntType, 1, 1), (''_reserved5'', IntType, 1, 1), (''_reserved6'', IntType, 1, 0),
    (''SMD'', IntType, 1, 0), (''HCE'', IntType, 1, 0), (''SIF'', IntType, 1, 0), (''RW'', IntType, 1, 0), (''ST'', IntType, 1, 0),
    (''TWI'', IntType, 1, 0), (''TWE'', IntType, 1, 0), (''TLOR'', IntType, 1, 0), (''TERR'', IntType, 1, 0),
    (''APK'', IntType, 1, 0), (''API'', IntType, 1, 0), (''EEL2'', IntType, 1, 0), (''EASE'', IntType, 1, 0),
    (''NMEA'', IntType, 1, 0), (''FIEN'', IntType, 1, 0), (''_reserved22'', IntType, 3, 0), (''EnSCXT'', IntType, 1, 0),
    (''ATA'', IntType, 1, 0), (''FGTEn'', IntType, 1, 0), (''ECVEn'', IntType, 1, 0), (''TWEDEn'', IntType, 1, 0),
    (''TWEDEL'', IntType, 4, 0), (''_reserved34'', IntType, 1, 0), (''AMVOFFEN'', IntType, 1, 0), (''EnAS0'', IntType, 1, 0),
    (''ADEn'', IntType, 1, 0), (''HXEn'', IntType, 1, 0), (''_reserved39'', IntType, 14, 0)]"

definition SPSR_EL2 :: layout where
  "SPSR_EL2 = [
    (''M'', Unsigned 16, 4, 0), (''M_4'', IntType, 1, 0), (''_reserved5'', IntType, 1, 0), (''F'', IntType, 1, 0),
    (''I'', IntType, 1, 0), (''A'', IntType, 1, 0), (''D'', IntType, 1, 0), (''BTYPE'', IntType, 2, 0), (''SSBS'', IntType, 1, 0),
    (''_reserved13'', IntType, 7, 0), (''IL'', IntType, 1, 0), (''SS'', IntType, 1, 0), (''PAN'', IntType, 1, 0),
    (''UA0'', IntType, 1, 0), (''DIT'', IntType, 1, 0), (''TCO'', IntType, 1, 0), (''_reserved26'', IntType, 2, 0),
    (''V'', IntType, 1, 0), (''C'', IntType, 1, 0), (''Z'', IntType, 1, 0), (''N'', IntType, 1, 0), (''_reserved32'', IntType, 32, 0)]"

definition SPSR_EL3 :: layout where
  "SPSR_EL3 = [
    (''M'', Unsigned 16, 4, 0), (''M_4'', IntType, 1, 0), (''_reserved5'', IntType, 1, 0), (''F'', IntType, 1, 0),
    (''I'', IntType, 1, 0), (''A'', IntType, 1, 0), (''D'', IntType, 1, 0), (''_reserved10'', IntType, 10, 0),
    (''IL'', IntType, 1, 0), (''SS'', IntType, 1, 0), (''PAN'', IntType, 1, 0), (''UA0'', IntType, 1, 0),
    (''_reserved24'', IntType, 4, 0), (''V'', IntType, 1, 0), (''C'', IntType, 1, 0), (''Z'', IntType, 1, 0),
    (''N'', IntType, 1, 0), (''_reserved32'', IntType, 32, 0)]"

definition ESR_EL1 :: layout where
  "ESR_EL1 = [
    (''ISS'', Unsigned 64, 25, 0), (''IL'', Unsigned 64, 1, 0), (''EC'', Unsigned 64, 6, 0), (''ISS2'', Unsigned 64, 5, 0), ('''', Unsigned 64, 27, 0)]"

definition DAIF :: layout where
  "DAIF = [
    ('''', Unsigned 64, 6, 0), (''F'', Unsigned 64, 1, 0), (''I'', Unsigned 64, 1, 0), (''A'', Unsigned 64, 1, 0), (''D'', Unsigned 64, 1, 0),
    ('''', Unsigned 64, 54, 0)]"

text \<open>\<open>MAIR_EL1\<close> is an array of eight bytes.\<close>

definition set_attr :: "nat \<Rightarrow> u8 \<Rightarrow> u64 \<Rightarrow> u64" where
  "set_attr i v x = set_bits (8 * i) 8 (ucast v) x"

text \<open>The enumerations.\<close>

datatype shareability = NonSharable | OuterShareable | InnerShareable

fun shareability_code :: "shareability \<Rightarrow> int" where
  "shareability_code NonSharable = 0"
| "shareability_code OuterShareable = 2"
| "shareability_code InnerShareable = 3"

datatype cacheability = NonCacheable | WriteBack_ReadAllocate_WriteAllocateCacheable
  | WriteThrough_ReadAllocate_NoWriteAllocateCacheable | WriteBack_ReadAllocate_NoWriteAllocateCacheable

fun cacheability_code :: "cacheability \<Rightarrow> int" where
  "cacheability_code NonCacheable = 0"
| "cacheability_code WriteBack_ReadAllocate_WriteAllocateCacheable = 1"
| "cacheability_code WriteThrough_ReadAllocate_NoWriteAllocateCacheable = 2"
| "cacheability_code WriteBack_ReadAllocate_NoWriteAllocateCacheable = 3"

datatype granule_size = Size_4KB | Size_16KB | Size_64KB

fun tg1_code :: "granule_size \<Rightarrow> int" where
  "tg1_code Size_16KB = 1" | "tg1_code Size_4KB = 2" | "tg1_code Size_64KB = 3"

fun tg0_code :: "granule_size \<Rightarrow> int" where
  "tg0_code Size_4KB = 0" | "tg0_code Size_64KB = 1" | "tg0_code Size_16KB = 2"

datatype processor_mode = EL0t | EL1t | EL1h | EL2t | EL2h | EL3t | EL3h

fun mode_code :: "processor_mode \<Rightarrow> int" where
  "mode_code EL0t = 0" | "mode_code EL1t = 4" | "mode_code EL1h = 5" | "mode_code EL2t = 8"
| "mode_code EL2h = 9" | "mode_code EL3t = 12" | "mode_code EL3h = 13"

text \<open>\<open>SCTLR_EL1::reset_value\<close> and \<open>TCR_EL1::reset_value\<close>.\<close>

definition sctlr_reset_value :: u64 where
  "sctlr_reset_value = set_fields SCTLR_EL1 [(''LSMAOE'', 1), (''nTLSMD'', 1), (''SPAN'', 1), (''IESB'', 1)]
     (initial_value SCTLR_EL1)"

definition tcr_reset_value :: u64 where
  "tcr_reset_value = initial_value TCR_EL1"

definition register_layouts :: "layout list" where
  "register_layouts = [ID_AA64MMFRO_EL1, TCR_EL1, SCTLR_EL1, HCR_EL2, SCR_EL3, SPSR_EL2, SPSR_EL3, ESR_EL1, DAIF]"

section \<open>Fields are independent\<close>

lemma bit_get_bits: "bit (get_bits at width x) i \<longleftrightarrow> i < width \<and> bit x (at + i)"
  by (auto simp: get_bits_def bit_take_bit_iff bit_drop_bit_eq)

lemma bit_set_bits:
  "bit (set_bits at width v x) i \<longleftrightarrow>
     i < 64 \<and> (if at \<le> i \<and> i < at + width then bit v (i - at) else bit x i)"
  by (auto simp: set_bits_def bit_simps not_less dest: bit_imp_le_length)

lemma get_set_bits_same: "at + width \<le> 64 \<Longrightarrow> get_bits at width (set_bits at width v x) = take_bit width v"
  by (rule bit_eqI) (auto simp: bit_get_bits bit_set_bits bit_take_bit_iff)

lemma get_set_bits_other:
  "at + width \<le> at' \<or> at' + width' \<le> at \<Longrightarrow> at + width \<le> 64 \<Longrightarrow> 
   get_bits at width (set_bits at' width' v x) = get_bits at width x"
  by (rule bit_eqI) (auto simp: bit_get_bits bit_set_bits)

text \<open>What \<open>place\<close> yields: fields one behind the other.\<close>

definition fits :: "layout \<Rightarrow> bool" where
  "fits lay \<longleftrightarrow> list_all (\<lambda>f. 0 < unit_of (fst (snd f))) lay \<and>
     list_all (\<lambda>(name, at, width, dflt). 0 < width \<and> at + width \<le> 64) (place 0 lay)"

lemma round_up_ge: "0 < unit \<Longrightarrow> off \<le> (off div unit + 1) * unit" for off unit :: nat
  using dividend_less_div_times [of unit off] by (simp add: add.commute)

lemma place_ge:
  "(n, at, w, d) \<in> set (place off lay) \<Longrightarrow> list_all (\<lambda>f. 0 < unit_of (fst (snd f))) lay \<Longrightarrow> off \<le> at"
proof (induction off lay rule: place.induct)
  case (2 off name type width dflt fs)
  let ?unit = "unit_of type"
  let ?at = "if off mod ?unit + width > ?unit then (off div ?unit + 1) * ?unit else off"
  have ge: "off \<le> ?at" using 2 round_up_ge [of ?unit off] by simp
  from 2 consider "at = ?at" | "(n, at, w, d) \<in> set (place (?at + width) fs)" by (auto simp: Let_def)
  then show ?case
  proof cases
    case tail: 2
    have "?at + width \<le> at" by (rule "2.IH" [OF refl refl tail]) (use 2 in simp)
    with ge show ?thesis by linarith
  qed (use ge in simp)
qed simp

lemma place_disjoint:
  "(n, at, w, d) \<in> set (place off lay) \<Longrightarrow> (n', at', w', d') \<in> set (place off lay) \<Longrightarrow>
   list_all (\<lambda>f. 0 < unit_of (fst (snd f))) lay \<Longrightarrow> n \<noteq> n' \<Longrightarrow> at + w \<le> at' \<or> at' + w' \<le> at"
proof (induction off lay rule: place.induct)
  case (2 off name type width dflt fs)
  let ?unit = "unit_of type"
  let ?at = "if off mod ?unit + width > ?unit then (off div ?unit + 1) * ?unit else off"
  from 2 consider "(n, at, w, d) = (name, ?at, width, type, dflt)" "(n', at', w', d') \<in> set (place (?at + width) fs)"
    | "(n', at', w', d') = (name, ?at, width, type, dflt)" "(n, at, w, d) \<in> set (place (?at + width) fs)"
    | "(n, at, w, d) \<in> set (place (?at + width) fs)" "(n', at', w', d') \<in> set (place (?at + width) fs)"
    by (auto simp: Let_def)
  then show ?case
  proof cases
    case head: 1
    have "?at + width \<le> at'" by (rule place_ge [OF head(2)]) (use 2 in simp)
    with head show ?thesis by simp
  next
    case head: 2
    have "?at + width \<le> at" by (rule place_ge [OF head(2)]) (use 2 in simp)
    with head show ?thesis by simp
  next
    case tail: 3
    show ?thesis by (rule "2.IH" [OF refl refl tail]) (use 2 in simp_all)
  qed
qed simp

lemma field_at_placed:
  "field_at lay name = Some (at, w, ty) \<Longrightarrow> \<exists>d. (name, at, w, ty, d) \<in> set (place 0 lay)"
  by (auto simp: field_at_def find_Some_iff in_set_conv_nth) (metis fst_conv prod.collapse)

lemma field_at_fits:
  assumes "fits lay" and "field_at lay name = Some (at, w, ty)"
  shows "0 < w" and "at + w \<le> 64"
  using field_at_placed [OF assms(2)] assms(1) by (auto simp: fits_def list_all_iff)

lemma field_at_disjoint:
  assumes "fits lay" and "field_at lay name = Some (at, w, ty)" and "field_at lay other = Some (at', w', ty')"
    and "other \<noteq> name"
  shows "at' + w' \<le> at \<or> at + w \<le> at'"
proof -
  from field_at_placed [OF assms(2)] field_at_placed [OF assms(3)] obtain d d' where
    "(other, at', w', ty', d') \<in> set (place 0 lay)" "(name, at, w, ty, d) \<in> set (place 0 lay)" by blast
  from place_disjoint [OF this _ assms(4)] assms(1) show ?thesis by (simp add: fits_def)
qed

text \<open>The bits behind a field after a write.\<close>

lemma set_field_bits:
  assumes "fits lay" and "field_at lay name = Some (at, w, ty)"
  shows "field_bits lay name (set_field lay name v x) = take_bit w (word_of_int v)"
    and "other \<noteq> name \<Longrightarrow> field_at lay other = Some (at', w', ty') \<Longrightarrow>
      get_bits at' w' (set_field lay name v x) = get_bits at' w' x"
proof -
  show "field_bits lay name (set_field lay name v x) = take_bit w (word_of_int v)"
    using assms(2) field_at_fits [OF assms] by (simp add: field_bits_def set_field_def get_set_bits_same)
  show "get_bits at' w' (set_field lay name v x) = get_bits at' w' x"
    if "other \<noteq> name" "field_at lay other = Some (at', w', ty')"
    using field_at_disjoint [OF assms that(2,1)] field_at_fits [OF assms(1) that(2)]
    by (simp add: set_field_def assms(2) get_set_bits_other)
qed

lemma field_bits_set_field:
  assumes "fits lay"
  shows "field_bits lay other (set_field lay name v x) =
    (if other = name then (case field_at lay name of None \<Rightarrow> 0 | Some (at, w, ty) \<Rightarrow> take_bit w (word_of_int v))
     else field_bits lay other x)"
proof (cases "field_at lay name")
  case None
  then show ?thesis by (auto simp: field_bits_def set_field_def)
next
  case (Some p)
  obtain at w ty where p: "field_at lay name = Some (at, w, ty)" using Some by (cases p) auto
  show ?thesis
  proof (cases "other = name")
    case False
    then show ?thesis
      using set_field_bits(2) [OF assms p False] by (auto simp: field_bits_def split: option.splits)
  qed (use set_field_bits(1) [OF assms p] p in simp)
qed

text \<open>The values of a field: those of its type that its width holds.\<close>

fun field_range :: "field_type \<Rightarrow> nat \<Rightarrow> int set" where
  "field_range IntType w = {- (2 ^ (w - 1)) ..< 2 ^ (w - 1)}"
| "field_range (Unsigned n) w = {0 ..< 2 ^ w}"

lemma uint_take_bit_of_int: "w \<le> 64 \<Longrightarrow> uint (take_bit w (word_of_int v :: u64)) = take_bit w v"
  by (simp add: unsigned_take_bit_eq uint_word_of_int_eq min_absorb1)

lemma as_value_truncated:
  assumes "0 < w" and "w \<le> 64"
  shows "as_value ty w (take_bit w (word_of_int v)) \<in> field_range ty w"
    and "as_value ty w (take_bit w (word_of_int v)) mod 2 ^ w = v mod 2 ^ w"
    and "as_value ty w (take_bit w (word_of_int v)) = v \<longleftrightarrow> v \<in> field_range ty w"
proof -
  obtain n where n: "w = Suc n" using assms(1) by (cases w) auto
  have u: "uint (take_bit w (word_of_int v :: u64)) = take_bit w v" using assms(2) by (rule uint_take_bit_of_int)
  have s: "signed_take_bit n (take_bit (Suc n) v) = signed_take_bit n v" by (simp add: signed_take_bit_take_bit)
  show "as_value ty w (take_bit w (word_of_int v)) \<in> field_range ty w"
    using u s take_bit_int_less_exp [of w v]
    by (cases ty) (simp_all add: n signed_take_bit_int_less_exp signed_take_bit_int_greater_eq_minus_exp)
  show "as_value ty w (take_bit w (word_of_int v)) mod 2 ^ w = v mod 2 ^ w"
    unfolding take_bit_eq_mod [symmetric]
    using u s take_bit_signed_take_bit [of w n v] by (cases ty) (simp_all add: n)
  show "as_value ty w (take_bit w (word_of_int v)) = v \<longleftrightarrow> v \<in> field_range ty w"
    using u s by (cases ty) (simp_all add: n signed_take_bit_int_eq_self_iff take_bit_int_eq_self_iff)
qed

text \<open>Assigning a field to a narrower one copies its low bits, whatever the sign.\<close>

lemma take_bit_as_value: "m \<le> w \<Longrightarrow> take_bit m (word_of_int (as_value ty w b) :: u64) = take_bit m b"
proof (rule bit_word_eqI)
  fix i
  assume "m \<le> w" "i < LENGTH(64)"
  moreover have "i < m \<Longrightarrow> min i (w - 1) = i" using \<open>m \<le> w\<close> by simp
  ultimately show "bit (take_bit m (word_of_int (as_value ty w b) :: u64)) i \<longleftrightarrow> bit (take_bit m b) i"
    by (cases ty) (auto simp: bit_take_bit_iff bit_word_of_int_iff bit_signed_take_bit_iff bit_uint_iff)
qed

lemma register_layouts_fit: "lay \<in> set register_layouts \<Longrightarrow> fits lay"
proof -
  have "list_all fits register_layouts" by code_simp
  then show "lay \<in> set register_layouts \<Longrightarrow> fits lay" by (simp add: list_all_iff)
qed

section \<open>Properties\<close>



text \<open>
  Where a reserved field's name states its bit, \<open>SCTLR_EL1\<close>, \<open>SPSR_EL2\<close> and \<open>SPSR_EL3\<close> have it on that
  bit. In \<open>HCR_EL2\<close> the fields from \<open>MIOCNCE\<close> on are one bit too low, and in \<open>SCR_EL3\<close> the four bits of
  \<open>TWEDEL\<close>, declared as \<open>int\<close>, would cross the boundary of an \<open>int\<close> and start at bit 32 instead of 30.
\<close>

lemma reserved_field_positions:
  "field_at SCTLR_EL1 ''_reserved32'' = Some (32, 3, IntType) \<and> field_at SCTLR_EL1 ''_reserved50'' = Some (50, 4, IntType) \<and>
   field_at SCTLR_EL1 ''_reserved58'' = Some (58, 6, IntType) \<and> field_at SPSR_EL2 ''_reserved32'' = Some (32, 32, IntType) \<and>
   field_at SPSR_EL3 ''_reserved24'' = Some (24, 4, IntType) \<and>
   field_at HCR_EL2 ''_reserved39'' = Some (38, 1, IntType) \<and> field_at HCR_EL2 ''_reserved45'' = Some (44, 18, IntType) \<and>
   field_at SCR_EL3 ''TWEDEL'' = Some (32, 4, IntType) \<and> field_at SCR_EL3 ''_reserved34'' = Some (36, 1, IntType)"
  by (intro conjI; code_simp)

end
