(* ===== verification/ExceptionLevels.thy ===== *)
theory ExceptionLevels
  imports Registers
begin

text \<open>
  \<open>Kernel/Arch/aarch64/Exceptions.cpp\<close>: the descent of the booting processor from exception level 3 or 2
  to level 1. The processor is a record of the registers the boot code writes; the effect of \<open>eret\<close> (level
  and interrupt masks come from the saved program status) is the architecture's.

  Three of the writes go through functions of \<open>Registers.h\<close> whose instruction no assembler accepts:
  \<open>msr sctrl_el1\<close> in \<open>SCTLR_EL1::write\<close>, \<open>msr spr_el2\<close> in \<open>SPSR_EL2::write\<close> and \<open>asm spsr_el3\<close> in
  \<open>SPSR_EL3::write\<close>. The model reads them as the writes of the registers they are named after, to
  \<open>sctlr_el1\<close>, \<open>spsr_el2\<close> and \<open>spsr_el3\<close>; as the header stands, the code does not assemble. The theorem below
  is about the code so corrected.
\<close>

record cpu =
  exception_level :: nat
  daif :: u64
  scr_el3 :: u64
  spsr_el3 :: u64
  hcr_el2 :: u64
  spsr_el2 :: u64
  sp_el1 :: u64
  sctlr_el1 :: u64
  mair_el1 :: u64
  tcr_el1 :: u64
  ttbr0_el1 :: u64
  ttbr1_el1 :: u64

text \<open>The interrupt masks \<open>D\<close>, \<open>A\<close>, \<open>I\<close>, \<open>F\<close> are the bits 6 to 9 of a saved program status and of \<open>DAIF\<close>.\<close>

definition masks_of :: "u64 \<Rightarrow> u64" where
  "masks_of spsr = push_bit 6 (get_bits 6 4 spsr)"

definition level_of :: "u64 \<Rightarrow> nat" where
  "level_of spsr = unat (get_bits 2 2 spsr)"

definition enter_el2_from_el3 :: "cpu \<Rightarrow> cpu" where
  "enter_el2_from_el3 c = c\<lparr>exception_level := level_of (spsr_el3 c), daif := masks_of (spsr_el3 c)\<rparr>"

definition enter_el1_from_el2 :: "cpu \<Rightarrow> cpu" where
  "enter_el1_from_el2 c = c\<lparr>exception_level := level_of (spsr_el2 c), daif := masks_of (spsr_el2 c)\<rparr>"

text \<open>\<open>SPSR_EL3::write\<close>, \<open>SPSR_EL2::write\<close> and \<open>SCTLR_EL1::write\<close> are the updates of the field they mean.\<close>

definition drop_to_el2 :: "cpu \<Rightarrow> cpu" where
  "drop_to_el2 c =
     (let scr = set_fields SCR_EL3 [(''ST'', 1), (''RW'', 1), (''NS'', 1), (''HCE'', 1)] (initial_value SCR_EL3);
          c1 = c\<lparr>scr_el3 := scr\<rparr>;
          spsr = set_fields SPSR_EL3 [(''A'', 1), (''I'', 1), (''F'', 1), (''D'', 1), (''M'', mode_code EL2t)]
                   (initial_value SPSR_EL3)
      in enter_el2_from_el3 (c1\<lparr>spsr_el3 := spsr\<rparr>))"

definition drop_to_el1 :: "cpu \<Rightarrow> cpu" where
  "drop_to_el1 c =
     (let c1 = c\<lparr>hcr_el2 := set_field HCR_EL2 ''RW'' 1 (initial_value HCR_EL2)\<rparr>;
          c2 = c1\<lparr>sp_el1 := 0x40000\<rparr>;
          spsr = set_fields SPSR_EL2 [(''A'', 1), (''I'', 1), (''F'', 1), (''M'', mode_code EL1t)]
                   (initial_value SPSR_EL2)
      in enter_el1_from_el2 (c2\<lparr>spsr_el2 := spsr\<rparr>))"

definition set_up_el1 :: "cpu \<Rightarrow> cpu" where
  "set_up_el1 c = c\<lparr>sctlr_el1 := set_fields SCTLR_EL1
     [(''UCT'', 1), (''nTWE'', 1), (''nTWI'', 1), (''DZE'', 1), (''UMA'', 1), (''SA0'', 1), (''SA'', 1), (''A'', 1)]
     sctlr_reset_value\<rparr>"

definition drop_to_exception_level_1 :: "cpu \<Rightarrow> cpu error_or" where
  "drop_to_exception_level_1 c =
     (if exception_level c = 3 then Inr (set_up_el1 (drop_to_el1 (drop_to_el2 c)))
      else if exception_level c = 2 then Inr (set_up_el1 (drop_to_el1 c))
      else if exception_level c = 1 then Inr (set_up_el1 c)
      else Inl (Panic ''CPU booted in unsupported exception mode!''))"

section \<open>The values written\<close>

lemma boot_values_eval:
  "(set_fields SCR_EL3 [(''ST'', 1), (''RW'', 1), (''NS'', 1), (''HCE'', 1)] (initial_value SCR_EL3) = 0xD31 \<and>
    set_fields SPSR_EL3 [(''A'', 1), (''I'', 1), (''F'', 1), (''D'', 1), (''M'', mode_code EL2t)]
      (initial_value SPSR_EL3) = 0x3C8 \<and>
    set_field HCR_EL2 ''RW'' 1 (initial_value HCR_EL2) = 0x80000000) \<and>
   (set_fields SPSR_EL2 [(''A'', 1), (''I'', 1), (''F'', 1), (''M'', mode_code EL1t)] (initial_value SPSR_EL2) = 0x1C4 \<and>
    set_fields SCTLR_EL1
      [(''UCT'', 1), (''nTWE'', 1), (''nTWI'', 1), (''DZE'', 1), (''UMA'', 1), (''SA0'', 1), (''SA'', 1), (''A'', 1)]
      sctlr_reset_value = 0x30F5CA1A)"
  by code_simp

lemmas boot_values = boot_values_eval [THEN conjunct1, THEN conjunct1]
  boot_values_eval [THEN conjunct1, THEN conjunct2, THEN conjunct1]
  boot_values_eval [THEN conjunct1, THEN conjunct2, THEN conjunct2]
  boot_values_eval [THEN conjunct2, THEN conjunct1] boot_values_eval [THEN conjunct2, THEN conjunct2]

lemma boot_fields:
  "field_bits SCTLR_EL1 ''M'' 0x30F5CA1A = 0 \<and> field_bits SCTLR_EL1 ''A'' 0x30F5CA1A = 1 \<and>
   field_bits DAIF ''A'' (masks_of 0x1C4) = 1 \<and> field_bits DAIF ''I'' (masks_of 0x1C4) = 1 \<and>
   field_bits DAIF ''F'' (masks_of 0x1C4) = 1 \<and> level_of 0x1C4 = 1 \<and>
   field_bits HCR_EL2 ''RW'' 0x80000000 = 1 \<and> field_bits SCR_EL3 ''NS'' 0xD31 = 1 \<and>
   field_bits SCR_EL3 ''RW'' 0xD31 = 1"
  by code_simp

section \<open>Properties\<close>

text \<open>
  C16. From exception level 3, 2 or 1 the processor arrives at level 1, with the memory management unit
  off, alignment checked, and the bits of the system control register that must be one set. At the end of a
  descent from level 3 or 2 asynchronous aborts and both interrupts are masked, level 1 is in 64-bit state
  and its stack pointer is set, after level 3 also in the non-secure state. A processor that starts at
  level 1 keeps its masks and its stack pointer: nothing but the system control register changes. Any other
  level stops the boot. The three misspelt register writes are read as described at the beginning.
\<close>

theorem boot_reaches_el1:
  "if exception_level c \<in> {1, 2, 3}
   then \<exists>c'. drop_to_exception_level_1 c = Inr c' \<and> exception_level c' = 1 \<and>
          field_bits SCTLR_EL1 ''M'' (sctlr_el1 c') = 0 \<and> field_bits SCTLR_EL1 ''A'' (sctlr_el1 c') = 1 \<and>
          sctlr_el1 c' AND 0x30D00800 = 0x30D00800 \<and>
          (exception_level c \<noteq> 1 \<longrightarrow> field_bits DAIF ''A'' (daif c') = 1 \<and> field_bits DAIF ''I'' (daif c') = 1 \<and>
             field_bits DAIF ''F'' (daif c') = 1 \<and> field_bits HCR_EL2 ''RW'' (hcr_el2 c') = 1 \<and> sp_el1 c' = 0x40000) \<and>
          (exception_level c = 1 \<longrightarrow> c' = c\<lparr>sctlr_el1 := sctlr_el1 c'\<rparr>) \<and>
          (exception_level c = 3 \<longrightarrow> field_bits SCR_EL3 ''NS'' (scr_el3 c') = 1 \<and> field_bits SCR_EL3 ''RW'' (scr_el3 c') = 1)
   else drop_to_exception_level_1 c = Inl (Panic ''CPU booted in unsupported exception mode!'')"
  by (auto simp: drop_to_exception_level_1_def set_up_el1_def drop_to_el1_def drop_to_el2_def Let_def
      enter_el1_from_el2_def enter_el2_from_el3_def boot_values boot_fields simp del: mode_code.simps)

text \<open>A processor that starts at level 3.\<close>

definition reset_cpu :: cpu where
  "reset_cpu = \<lparr>exception_level = 3, daif = 0, scr_el3 = 0, spsr_el3 = 0, hcr_el2 = 0, spsr_el2 = 0, sp_el1 = 0,
    sctlr_el1 = 0, mair_el1 = 0, tcr_el1 = 0, ttbr0_el1 = 0, ttbr1_el1 = 0\<rparr>"

theorem boot_reaches_el1_witness:
  "\<exists>c'. drop_to_exception_level_1 reset_cpu = Inr c' \<and> exception_level c' = 1 \<and> sp_el1 c' = 0x40000"
proof -
  have "exception_level reset_cpu = 3" by (simp add: reset_cpu_def)
  with boot_reaches_el1 [of reset_cpu] show ?thesis by auto
qed

end
