(* ===== verification/MMU.thy ===== *)
theory MMU
  imports ExceptionLevels
begin

text \<open>
  \<open>Kernel/Arch/aarch64/MMU.cpp\<close>: the identity map that the kernel builds in the page table memory of the
  linker script, and the switch to it. Memory is a function from the address of a 64-bit word to the word;
  a \<open>u64*\<close> is an address and \<open>p[i]\<close> the word at \<open>p + 8 * i\<close>.
\<close>

type_synonym memory = "u64 \<Rightarrow> u64"

definition word_at :: "u64 \<Rightarrow> u64 \<Rightarrow> u64" where
  "word_at p i = p + 8 * i"

definition START_OF_NORMAL_MEMORY :: u64 where "START_OF_NORMAL_MEMORY = 0"
definition END_OF_NORMAL_MEMORY :: u64 where "END_OF_NORMAL_MEMORY = 0x3EFFFFFF"
definition GRANULE_SIZE :: u64 where "GRANULE_SIZE = 0x1000"
definition PAGE_TABLE_SIZE :: u64 where "PAGE_TABLE_SIZE = 0x1000"
definition PAGE_DESCRIPTOR :: u64 where "PAGE_DESCRIPTOR = 3"
definition TABLE_DESCRIPTOR :: u64 where "TABLE_DESCRIPTOR = 3"

text \<open>\<open>constexpr u32 DESCRIPTOR_MASK = ~0b11\<close>, widened without sign.\<close>

definition DESCRIPTOR_MASK :: u64 where "DESCRIPTOR_MASK = ucast (NOT 3 :: u32)"
definition ACCESS_FLAG :: u64 where "ACCESS_FLAG = push_bit 10 1"
definition OUTER_SHAREABLE :: u64 where "OUTER_SHAREABLE = push_bit 8 2"
definition INNER_SHAREABLE :: u64 where "INNER_SHAREABLE = push_bit 8 3"
definition NORMAL_MEMORY :: u64 where "NORMAL_MEMORY = push_bit 2 0"
definition DEVICE_MEMORY :: u64 where "DEVICE_MEMORY = push_bit 2 1"

definition descriptor_to_pointer :: "u64 \<Rightarrow> u64" where
  "descriptor_to_pointer descriptor = descriptor AND DESCRIPTOR_MASK"

section \<open>The bump allocator\<close>

record page_allocator =
  m_start :: u64
  m_end :: u64
  m_current :: u64

definition page_bump_allocator :: "u64 \<Rightarrow> u64 \<Rightarrow> page_allocator error_or" where
  "page_bump_allocator start fin =
     (if start \<ge> fin then Inl (Panic ''Invalid memory range passed to PageBumpAllocator'')
      else if start mod PAGE_TABLE_SIZE \<noteq> 0 \<or> fin mod PAGE_TABLE_SIZE \<noteq> 0
      then Inl (Panic ''Memory range passed into PageBumpAllocator not aligned to PAGE_TABLE_SIZE'')
      else Inr \<lparr>m_start = start, m_end = fin, m_current = start\<rparr>)"

text \<open>\<open>zero_page\<close> with the number of words done.\<close>

fun zero_words :: "nat \<Rightarrow> u64 \<Rightarrow> memory \<Rightarrow> memory" where
  "zero_words 0 p mem = mem"
| "zero_words (Suc n) p mem = zero_words n (p + 8) (mem(p := 0))"

definition zero_page :: "u64 \<Rightarrow> memory \<Rightarrow> memory" where
  "zero_page page mem = zero_words (unat (PAGE_TABLE_SIZE div 8)) page mem"

definition take_page :: "page_allocator \<times> memory \<Rightarrow> (u64 \<times> page_allocator \<times> memory) error_or" where
  "take_page s = (case s of (a, mem) \<Rightarrow>
     if m_current a = m_end a then Inl (Panic ''prekernel pagetable memory exhausted'')
     else
       (let page = m_current a;
            a' = a\<lparr>m_current := m_current a + 8 * (PAGE_TABLE_SIZE div 8)\<rparr>
        in Inr (page, a', zero_page page mem)))"

section \<open>Inserting mappings\<close>

text \<open>The index into the table of level \<open>L\<close>: \<open>(addr >> 39) & 0x1FF\<close> to \<open>(addr >> 12) & 0x1FF\<close>.\<close>

definition level_idx :: "nat \<Rightarrow> u64 \<Rightarrow> u64" where
  "level_idx L addr = drop_bit (39 - 9 * L) addr AND 0x1FF"

text \<open>One of the three steps down: a missing table is allocated and entered, then the entry is followed.\<close>

definition next_table ::
    "nat \<Rightarrow> u64 \<Rightarrow> u64 \<Rightarrow> page_allocator \<times> memory \<Rightarrow> (u64 \<times> page_allocator \<times> memory) error_or" where
  "next_table L addr table s =
     (let entry = word_at table (level_idx L addr) in
      if snd s entry = 0 then
        try_then (take_page s) (\<lambda>(page, a, mem).
          let mem1 = mem(entry := page);
              mem2 = mem1(entry := mem1 entry OR TABLE_DESCRIPTOR)
          in Inr (descriptor_to_pointer (mem2 entry), a, mem2))
      else Inr (descriptor_to_pointer (snd s entry), s))"

definition insert_entry ::
    "u64 \<Rightarrow> u64 \<Rightarrow> u64 \<Rightarrow> page_allocator \<times> memory \<Rightarrow> (page_allocator \<times> memory) error_or" where
  "insert_entry page_table addr flags s =
     try_then (next_table 0 addr page_table s) (\<lambda>(level2_table, s).
     try_then (next_table 1 addr level2_table s) (\<lambda>(level3_table, s).
     try_then (next_table 2 addr level3_table s) (\<lambda>(level4_table, (a, mem)).
       let l4_entry = word_at level4_table (level_idx 3 addr);
           mem1 = mem(l4_entry := addr)
       in Inr (a, mem1(l4_entry := mem1 l4_entry OR flags)))))"

text \<open>The loop over the granules; it does not end if the addresses wrap around below \<open>end\<close>.\<close>

partial_function (option) insert_range ::
    "u64 \<Rightarrow> u64 \<Rightarrow> u64 \<Rightarrow> u64 \<Rightarrow> page_allocator \<times> memory \<Rightarrow> (page_allocator \<times> memory) outcome" where
  "insert_range page_table addr fin flags s =
     (if addr < fin then
        and_then (Some (insert_entry page_table addr flags s))
          (\<lambda>s. insert_range page_table (addr + GRANULE_SIZE) fin flags s)
      else Some (Inr s))"

definition insert_identity_entries_for_physical_memory_range ::
    "page_allocator \<times> memory \<Rightarrow> u64 \<Rightarrow> u64 \<Rightarrow> u64 \<Rightarrow> u64 \<Rightarrow> (page_allocator \<times> memory) outcome" where
  "insert_identity_entries_for_physical_memory_range s page_table start fin flags =
     insert_range page_table start fin flags s"

section \<open>The peripherals of the board\<close>

definition part_num :: "u32 \<Rightarrow> u32" where
  "part_num midr = drop_bit 4 midr AND 0xFFF"

definition RaspberryPi3 :: u32 where "RaspberryPi3 = 0xD03"

definition m_base_address :: "u32 \<Rightarrow> u32" where
  "m_base_address midr = (if part_num midr \<le> RaspberryPi3 then 0x3F000000 else 0xFE000000)"

definition peripheral_base_address :: "u32 \<Rightarrow> u64" where
  "peripheral_base_address midr = ucast (m_base_address midr)"

definition peripheral_end_address :: "u32 \<Rightarrow> u64" where
  "peripheral_end_address midr = ucast (m_base_address midr + 0x00FFFFFF)"

section \<open>Building and activating the map\<close>

definition normal_memory_flags :: u64 where
  "normal_memory_flags = ACCESS_FLAG OR PAGE_DESCRIPTOR OR INNER_SHAREABLE OR NORMAL_MEMORY"

definition device_memory_flags :: u64 where
  "device_memory_flags = ACCESS_FLAG OR PAGE_DESCRIPTOR OR OUTER_SHAREABLE OR DEVICE_MEMORY"

definition build_identity_map :: "u32 \<Rightarrow> page_allocator \<times> memory \<Rightarrow> (page_allocator \<times> memory) outcome" where
  "build_identity_map midr s =
     and_then (Some (take_page s)) (\<lambda>(level1_table, s).
     and_then (insert_identity_entries_for_physical_memory_range s level1_table
       START_OF_NORMAL_MEMORY END_OF_NORMAL_MEMORY normal_memory_flags) (\<lambda>s.
     insert_identity_entries_for_physical_memory_range s level1_table
       (peripheral_base_address midr) (peripheral_end_address midr) device_memory_flags))"

text \<open>\<open>switch_to_page_table\<close> writes \<open>TTBR0_EL1\<close>, twice.\<close>

definition switch_to_page_table :: "u64 \<Rightarrow> cpu \<Rightarrow> cpu" where
  "switch_to_page_table page_table c =
     (let c1 = c\<lparr>ttbr0_el1 := page_table\<rparr> in c1\<lparr>ttbr0_el1 := page_table\<rparr>)"

text \<open>\<open>feature_register\<close> and \<open>sctlr\<close> are what the two register reads return.\<close>

definition tcr_value :: "u64 \<Rightarrow> u64" where
  "tcr_value feature_register = set_fields TCR_EL1
     [(''SH1'', shareability_code InnerShareable),
      (''ORGN1'', cacheability_code WriteBack_ReadAllocate_WriteAllocateCacheable),
      (''IRGN1'', cacheability_code WriteBack_ReadAllocate_WriteAllocateCacheable),
      (''SH0'', shareability_code InnerShareable),
      (''ORGN0'', cacheability_code WriteBack_ReadAllocate_WriteAllocateCacheable),
      (''IRGN0'', cacheability_code WriteBack_ReadAllocate_WriteAllocateCacheable),
      (''TG1'', tg1_code Size_4KB), (''TG0'', tg0_code Size_4KB),
      (''IPS'', get_field ID_AA64MMFRO_EL1 ''PARange'' feature_register)]
     (initial_value TCR_EL1)"

definition activate_mmu :: "u64 \<Rightarrow> u64 \<Rightarrow> cpu \<Rightarrow> cpu" where
  "activate_mmu feature_register sctlr c =
     (let c1 = c\<lparr>mair_el1 := set_attr 1 4 (set_attr 0 0xFF 0)\<rparr>;
          c2 = c1\<lparr>tcr_el1 := tcr_value feature_register\<rparr>
      in c2\<lparr>sctlr_el1 := set_field SCTLR_EL1 ''M'' 1 sctlr\<rparr>)"

definition init_page_tables ::
    "u64 \<Rightarrow> u64 \<Rightarrow> u32 \<Rightarrow> u64 \<Rightarrow> u64 \<Rightarrow> cpu \<times> memory \<Rightarrow> (cpu \<times> memory) outcome" where
  "init_page_tables page_tables_phys_start page_tables_phys_end midr feature_register sctlr s =
     (case s of (c, mem) \<Rightarrow>
        and_then (Some (page_bump_allocator page_tables_phys_start page_tables_phys_end)) (\<lambda>allocator.
        and_then (build_identity_map midr (allocator, mem)) (\<lambda>(allocator, mem).
          Some (Inr (activate_mmu feature_register sctlr (switch_to_page_table page_tables_phys_start c), mem)))))"

end
