(* ===== verification/MMU_Correct.thy ===== *)
theory MMU_Correct
  imports MMU
begin

text \<open>
  The page tables as a tree: a ghost map from a level and an address prefix to the page that holds the
  table. Building keeps the tree (no table is shared, every descriptor points to the table of the longer
  prefix), so that the hardware's walk is a map from pages to their last-level entries, and inserting an
  entry is updating that map.
\<close>

section \<open>Prefixes of addresses\<close>

text \<open>The bits of an address that select the table of level \<open>L\<close>.\<close>

definition prefix :: "nat \<Rightarrow> u64 \<Rightarrow> u64" where
  "prefix L a = take_bit (9 * L) (drop_bit (48 - 9 * L) a)"

lemma bit_prefix: "bit (prefix L a) i \<longleftrightarrow> i < 9 * L \<and> bit a (48 - 9 * L + i)"
  by (simp add: prefix_def bit_take_bit_iff bit_drop_bit_eq)

lemma bit_level_idx: "bit (level_idx L a) i \<longleftrightarrow> i < 9 \<and> bit a (39 - 9 * L + i)"
proof -
  have "level_idx L a = take_bit 9 (drop_bit (39 - 9 * L) a)"
    by (simp add: level_idx_def take_bit_eq_mask mask_eq_exp_minus_1)
  then show ?thesis by (simp add: bit_take_bit_iff bit_drop_bit_eq)
qed

lemma prefix_0 [simp]: "prefix 0 a = 0"
  by (simp add: prefix_def)

lemma prefix_Suc:
  assumes "L \<le> 3"
  shows "prefix (Suc L) a = prefix (Suc L) b \<longleftrightarrow> prefix L a = prefix L b \<and> level_idx L a = level_idx L b"
proof
  assume eq: "prefix (Suc L) a = prefix (Suc L) b"
  have *: "bit a (39 - 9 * L + i) = bit b (39 - 9 * L + i)" if "i < 9 * Suc L" for i
    using arg_cong [OF eq, of "\<lambda>w. bit w i"] that assms by (simp add: bit_prefix)
  show "prefix L a = prefix L b \<and> level_idx L a = level_idx L b"
  proof
    have "bit (prefix L a) i = bit (prefix L b) i" for i
      using * [of "i + 9"] assms by (auto simp: bit_prefix add.assoc)
    then show "prefix L a = prefix L b" by (simp add: bit_eq_iff)
    have "bit (level_idx L a) i = bit (level_idx L b) i" for i
      using * [of i] by (auto simp: bit_level_idx)
    then show "level_idx L a = level_idx L b" by (simp add: bit_eq_iff)
  qed
next
  assume eq: "prefix L a = prefix L b \<and> level_idx L a = level_idx L b"
  have "bit (prefix (Suc L) a) i = bit (prefix (Suc L) b) i" for i
  proof (cases "i < 9")
    case True
    then show ?thesis
      using arg_cong [OF conjunct2 [OF eq], of "\<lambda>w. bit w i"] assms by (simp add: bit_prefix bit_level_idx)
  next
    case False
    then have "48 - 9 * L + (i - 9) = 39 - 9 * L + i" using assms by linarith
    with False show ?thesis
      using arg_cong [OF conjunct1 [OF eq], of "\<lambda>w. bit w (i - 9)"] assms by (auto simp: bit_prefix)
  qed
  then show "prefix (Suc L) a = prefix (Suc L) b" by (simp add: bit_eq_iff)
qed

lemma level_idx_less: "unat (level_idx L a) < 512"
proof -
  have "unat (level_idx L a) < 2 ^ 9"
    by (rule less_power_if_no_bits) (auto simp: bit_unsigned_iff bit_level_idx)
  then show ?thesis by simp
qed

section \<open>The words of the pages\<close>

text \<open>The page table memory: \<open>N\<close> pages from \<open>S\<close> on, below 4 GiB, where descriptors keep their addresses.\<close>

definition region_ok :: "u64 \<Rightarrow> nat \<Rightarrow> bool" where
  "region_ok S N \<longleftrightarrow> 4096 dvd unat S \<and> unat S + 4096 * N \<le> 2 ^ 32"

definition page :: "u64 \<Rightarrow> nat \<Rightarrow> u64" where
  "page S k = S + of_nat (4096 * k)"

lemma unat_page: "region_ok S N \<Longrightarrow> k \<le> N \<Longrightarrow> unat (page S k) = unat S + 4096 * k"
  by (simp add: page_def region_ok_def unat_word_ariths unat_of_nat)

lemma unat_word_at:
  assumes "region_ok S N" and "k < N" and "unat i < 512"
  shows "unat (word_at (page S k) i) = unat S + 4096 * k + 8 * unat i"
  using assms unat_page [OF assms(1), of k]
  by (simp add: word_at_def region_ok_def unat_word_ariths)

lemma word_at_eq_iff:
  assumes "region_ok S N" and "k < N" "unat i < 512" and "k' < N" "unat i' < 512"
  shows "word_at (page S k) i = word_at (page S k') i' \<longleftrightarrow> k = k' \<and> i = i'"
proof
  assume "word_at (page S k) i = word_at (page S k') i'"
  then have eq: "4096 * k + 8 * unat i = 4096 * k' + 8 * unat i'"
    using unat_word_at [OF assms(1-3)] unat_word_at [OF assms(1,4,5)] by simp
  have "8 * unat i < 4096" "8 * unat i' < 4096" using assms by simp_all
  with eq have "k = k'" by (cases k k' rule: linorder_cases) linarith+
  moreover from this eq have "unat i = unat i'" by simp
  ultimately show "k = k' \<and> i = i'" by (simp add: unsigned_word_eqI)
qed simp

lemma zero_words_apply: "zero_words n p mem x = (if \<exists>i < n. x = p + 8 * of_nat i then 0 else mem x)"
proof (induction n arbitrary: p mem)
  case (Suc n)
  have "(\<exists>i < Suc n. x = p + 8 * of_nat i) \<longleftrightarrow> x = p \<or> (\<exists>i < n. x = p + 8 + 8 * of_nat i)"
    by (auto simp: less_Suc_eq_0_disj algebra_simps)
  then show ?case unfolding zero_words.simps Suc.IH by auto
qed simp

lemma zero_page_same: "unat i < 512 \<Longrightarrow> zero_page p mem (word_at p i) = 0"
  by (auto simp: zero_page_def zero_words_apply PAGE_TABLE_SIZE_def word_at_def intro!: exI [of _ "unat i"])

lemma zero_page_other:
  assumes "region_ok S N" and "k < N" "unat i < 512" and "k' < N" "k \<noteq> k'"
  shows "zero_page (page S k') mem (word_at (page S k) i) = mem (word_at (page S k) i)"
proof -
  have False if "j < 512" "word_at (page S k) i = page S k' + 8 * of_nat j" for j
  proof -
    have "unat (of_nat j :: u64) < 512" using that(1) by (simp add: unat_of_nat)
    with that assms word_at_eq_iff [OF assms(1-4), of "of_nat j"] show False by (simp add: word_at_def)
  qed
  then show ?thesis by (auto simp: zero_page_def zero_words_apply PAGE_TABLE_SIZE_def)
qed

text \<open>A descriptor is its page with the low bits set, and following it gives the page.\<close>

lemma page_bits:
  assumes "region_ok S N" and "k < N"
  shows "bit (page S k) i \<Longrightarrow> 12 \<le> i \<and> i < 32"
proof -
  have u: "unat (page S k) = unat S + 4096 * k" using unat_page assms by simp
  then have less: "unat (page S k) < 2 ^ 32" and dv: "2 ^ 12 dvd unat (page S k)"
    using assms by (auto simp: region_ok_def)
  have dr: "take_bit 12 (unat (page S k)) = 0" using dv by (simp add: take_bit_eq_0_iff)
  assume "bit (page S k) i"
  then have b: "bit (unat (page S k)) i" by (simp add: bit_unsigned_iff)
  have "12 \<le> i" using b dr by (metis bit_0_eq bit_take_bit_iff bot_apply bot_bool_def linorder_not_le)
  moreover have "i < 32" using power_le_if_bit [OF b] less
    by (metis le_less_trans nat_power_less_imp_less zero_less_numeral)
  ultimately show ?thesis ..
qed

lemma descriptor_of_page:
  assumes "region_ok S N" and "k < N"
  shows "descriptor_to_pointer (page S k OR TABLE_DESCRIPTOR) = page S k"
    and "page S k OR TABLE_DESCRIPTOR \<noteq> 0" and "(page S k OR TABLE_DESCRIPTOR) AND 3 = 3"
    and "(page S k OR TABLE_DESCRIPTOR) AND 0xFFFFFFFFF000 = page S k"
proof -
  have masks: "(3 :: u64) = mask 2" "(0xFFFFFFFFF000 :: u64) = mask 48 AND NOT (mask 12)"
    "(0xFFFFFFFC :: u64) = mask 32 AND NOT (mask 2)"
    by (simp_all add: mask_eq_exp_minus_1)
  note bits = bit_eq_iff bit_and_iff bit_or_iff bit_not_iff bit_mask_iff
  have dm: "DESCRIPTOR_MASK = mask 32 AND NOT (mask 2)"
    by (simp add: DESCRIPTOR_MASK_def mask_eq_exp_minus_1)
  show "descriptor_to_pointer (page S k OR TABLE_DESCRIPTOR) = page S k"
    unfolding descriptor_to_pointer_def TABLE_DESCRIPTOR_def dm masks(1)
    using page_bits [OF assms] by (fastforce simp: bits)
  show e3: "(page S k OR TABLE_DESCRIPTOR) AND 3 = 3"
    unfolding TABLE_DESCRIPTOR_def masks(1) by (auto simp: bits)
  then show "page S k OR TABLE_DESCRIPTOR \<noteq> 0" by auto
  show "(page S k OR TABLE_DESCRIPTOR) AND 0xFFFFFFFFF000 = page S k"
    unfolding TABLE_DESCRIPTOR_def masks using page_bits [OF assms] by (fastforce simp: bits)
qed

section \<open>The tree of tables\<close>

type_synonym table_key = "nat \<times> u64"

definition key :: "nat \<Rightarrow> u64 \<Rightarrow> table_key" where
  "key L a = (L, prefix L a)"

definition entry_of :: "u64 \<Rightarrow> nat option \<Rightarrow> u64" where
  "entry_of S q = (case q of None \<Rightarrow> 0 | Some k \<Rightarrow> page S k OR TABLE_DESCRIPTOR)"

text \<open>
  \<open>own\<close> gives the number of the page that holds a table. The entries of the tables of levels 0 to 2 are
  the descriptors of the tables below.
\<close>

definition tree_ok :: "u64 \<Rightarrow> nat \<Rightarrow> (table_key \<Rightarrow> nat option) \<Rightarrow> page_allocator \<times> memory \<Rightarrow> bool" where
  "tree_ok S N own s \<longleftrightarrow> (case s of (al, mem) \<Rightarrow>
     region_ok S N \<and> m_end al = page S N \<and> finite (dom own) \<and> inj_on own (dom own) \<and>
     ran own = {..<card (dom own)} \<and> card (dom own) \<le> N \<and> m_current al = page S (card (dom own)) \<and>
     own (0, 0) = Some 0 \<and>
     (\<forall>L a. L < 3 \<longrightarrow> own (key L a) = None \<longrightarrow> own (key (Suc L) a) = None) \<and>
     (\<forall>L a k. L < 3 \<longrightarrow> own (key L a) = Some k \<longrightarrow>
        mem (word_at (page S k) (level_idx L a)) = entry_of S (own (key (Suc L) a))))"

text \<open>The last-level entry for an address; zero where there is no table.\<close>

definition leaf :: "u64 \<Rightarrow> (table_key \<Rightarrow> nat option) \<Rightarrow> memory \<Rightarrow> u64 \<Rightarrow> u64" where
  "leaf S own mem a = (case own (key 3 a) of None \<Rightarrow> 0 | Some k \<Rightarrow> mem (word_at (page S k) (level_idx 3 a)))"

lemma key_Suc: "L < 4 \<Longrightarrow> key (Suc L) a = key (Suc L) b \<longleftrightarrow> key L a = key L b \<and> level_idx L a = level_idx L b"
  by (simp add: key_def prefix_Suc)

lemma tree_ok_D:
  assumes "tree_ok S N own (al, mem)"
  shows "region_ok S N" "m_end al = page S N" "finite (dom own)" "inj_on own (dom own)"
    "card (dom own) \<le> N" "m_current al = page S (card (dom own))"
    "own (0, 0) = Some 0"
    "\<And>L a. L < 3 \<Longrightarrow> own (key L a) = None \<Longrightarrow> own (key (Suc L) a) = None"
    "\<And>L a k. L < 3 \<Longrightarrow> own (key L a) = Some k \<Longrightarrow>
        mem (word_at (page S k) (level_idx L a)) = entry_of S (own (key (Suc L) a))"
    "\<And>x k. own x = Some k \<Longrightarrow> k < card (dom own)"
proof -
  show "own x = Some k \<Longrightarrow> k < card (dom own)" for x k
    using assms by (auto simp: tree_ok_def dest: ranI)
qed (use assms in \<open>auto simp: tree_ok_def\<close>)

lemma own_inj:
  assumes "tree_ok S N own s" and "own x = Some k" and "own y = Some k"
  shows "x = y"
proof -
  have "inj_on own (dom own)" using assms(1) by (auto simp: tree_ok_def)
  then show ?thesis by (rule inj_onD) (use assms(2,3) in auto)
qed

lemma own_less: "tree_ok S N own s \<Longrightarrow> own x = Some k \<Longrightarrow> k < card (dom own) \<and> k < N"
  using tree_ok_D [of S N own "fst s" "snd s"] by (metis less_le_trans prod.collapse)

text \<open>Two entries of the tables are the same word exactly if table and index are the same.\<close>

lemma same_word_iff:
  assumes "tree_ok S N own s" and "own (key L a) = Some k" and "own (key L' b) = Some k'"
  shows "word_at (page S k) (level_idx L a) = word_at (page S k') (level_idx L' b) \<longleftrightarrow>
    key L a = key L' b \<and> level_idx L a = level_idx L' b"
proof -
  have r: "region_ok S N" using assms(1) by (auto simp: tree_ok_def)
  have k: "k < N" and k': "k' < N" using own_less [OF assms(1,2)] own_less [OF assms(1,3)] by auto
  have "word_at (page S k) (level_idx L a) = word_at (page S k') (level_idx L' b) \<longleftrightarrow>
      k = k' \<and> level_idx L a = level_idx L' b"
    by (rule word_at_eq_iff [OF r k level_idx_less k' level_idx_less])
  moreover have "k = k' \<longleftrightarrow> key L a = key L' b"
    using own_inj [OF assms(1,2), of "key L' b"] assms(2,3) by auto
  ultimately show ?thesis by simp
qed

text \<open>A new table: the next page, zeroed, entered into the table above.\<close>

lemma tree_extend:
  assumes ok: "tree_ok S N own (al, mem)" and L: "L < 3"
    and k0: "own (key L a0) = Some k0" and none: "own (key (Suc L) a0) = None"
    and room: "card (dom own) < N"
  defines "n \<equiv> card (dom own)"
  defines "mem' \<equiv> (zero_page (page S n) mem)(word_at (page S k0) (level_idx L a0) := page S n OR TABLE_DESCRIPTOR)"
  defines "own' \<equiv> own(key (Suc L) a0 \<mapsto> n)"
  shows "tree_ok S N own' (al\<lparr>m_current := page S (Suc n)\<rparr>, mem')" and "leaf S own' mem' a = leaf S own mem a"
proof -
  note D = tree_ok_D [OF ok]
  have new: "key (Suc L) a0 \<notin> dom own" using none by auto
  have card': "card (dom own') = Suc n" using D(3) new by (simp add: own'_def n_def)
  have old: "mem' (word_at (page S k) (level_idx L' b)) =
      (if key L' b = key L a0 \<and> level_idx L' b = level_idx L a0 then page S n OR TABLE_DESCRIPTOR
       else mem (word_at (page S k) (level_idx L' b)))" if "own (key L' b) = Some k" for L' b k
    using same_word_iff [OF ok that k0] zero_page_other [OF D(1) _ level_idx_less room [folded n_def]]
      own_less [OF ok that] by (auto simp: mem'_def n_def)
  have fresh: "mem' (word_at (page S n) (level_idx L' b)) = 0" for L' b
    using word_at_eq_iff [OF D(1) room [folded n_def] level_idx_less _ level_idx_less, of k0 L' b L a0]
      own_less [OF ok k0] zero_page_same [OF level_idx_less] by (auto simp: mem'_def n_def)
  have up: "own' (key (Suc L') b) = None" if "L' < 3" "own' (key L' b) = None" for L' b
  proof -
    have "own (key L' b) = None" using that(2) by (auto simp: own'_def split: if_splits)
    moreover have "key (Suc L') b \<noteq> key (Suc L) a0"
      using calculation k0 L that(1) by (auto simp: key_def prefix_Suc)
    ultimately show ?thesis using D(8) that(1) by (simp add: own'_def)
  qed
  have entries: "mem' (word_at (page S k) (level_idx L' b)) = entry_of S (own' (key (Suc L') b))"
    if "L' < 3" "own' (key L' b) = Some k" for L' b k
  proof (cases "key L' b = key (Suc L) a0")
    case True
    then have "own (key L' b) = None" using none by simp
    then have "own (key (Suc L') b) = None" using D(8) that(1) by blast
    moreover have "key (Suc L') b \<noteq> key (Suc L) a0" using True by (auto simp: key_def)
    ultimately show ?thesis using fresh that(2) True by (simp add: own'_def entry_of_def)
  next
    case False
    then have k: "own (key L' b) = Some k" using that(2) by (simp add: own'_def)
    show ?thesis
    proof (cases "key (Suc L') b = key (Suc L) a0")
      case True
      then have "key L' b = key L a0 \<and> level_idx L' b = level_idx L a0" using L by (auto simp: key_def prefix_Suc)
      with True show ?thesis using old [OF k] by (simp add: own'_def entry_of_def)
    next
      case other: False
      then have "\<not> (key L' b = key L a0 \<and> level_idx L' b = level_idx L a0)"
        using L by (auto simp: key_def prefix_Suc)
      then have "mem' (word_at (page S k) (level_idx L' b)) = mem (word_at (page S k) (level_idx L' b))"
        unfolding old [OF k] by (rule if_not_P)
      with other show ?thesis using D(9) [OF that(1) k] by (simp add: own'_def)
    qed
  qed
  have "inj_on own' (dom own')"
    using D(4,10) new by (auto simp: own'_def inj_on_def n_def split: if_splits) (metis domI less_irrefl)+
  moreover have "ran own' = {..<Suc n}"
    using ok none by (auto simp: own'_def tree_ok_def n_def lessThan_Suc)
  ultimately show "tree_ok S N own' (al\<lparr>m_current := page S (Suc n)\<rparr>, mem')"
    unfolding tree_ok_def using D(1,2,3,7) card' room up entries none
    by (auto simp: n_def [symmetric] own'_def key_def)
  show "leaf S own' mem' a = leaf S own mem a"
  proof (cases "key 3 a = key (Suc L) a0")
    case True
    then show ?thesis using fresh none by (simp add: leaf_def own'_def)
  next
    case False
    have "key 3 a \<noteq> key L a0" using L by (simp add: key_def)
    then show ?thesis using False old [of 3 a] by (auto simp: leaf_def own'_def split: option.splits)
  qed
qed

section \<open>Insertion\<close>

lemma page_inject: "region_ok S N \<Longrightarrow> k \<le> N \<Longrightarrow> k' \<le> N \<Longrightarrow> page S k = page S k' \<longleftrightarrow> k = k'"
  using unat_page [of S N k] unat_page [of S N k'] by (metis add_left_cancel mult_left_cancel zero_neq_numeral)

lemma page_Suc: "page S k + 8 * (PAGE_TABLE_SIZE div 8) = page S (Suc k)"
proof -
  have "8 * (PAGE_TABLE_SIZE div 8) = 4096" by (simp add: PAGE_TABLE_SIZE_def)
  then show ?thesis by (simp only: page_def) (simp add: add.assoc)
qed

lemma next_table_correct:
  assumes ok: "tree_ok S N own s" and L: "L < 3" and k0: "own (key L a) = Some k0"
    and K: "finite K" "card K \<le> N" "dom own \<subseteq> K" "key (Suc L) a \<in> K"
  shows "\<exists>own' s' k. next_table L a (page S k0) s = Inr (page S k, s') \<and> tree_ok S N own' s' \<and>
    own \<subseteq>\<^sub>m own' \<and> own' (key (Suc L) a) = Some k \<and> dom own' \<subseteq> K \<and> leaf S own' (snd s') = leaf S own (snd s)"
proof -
  obtain al mem where s: "s = (al, mem)" by (cases s)
  note D = tree_ok_D [OF ok [unfolded s]]
  show ?thesis
  proof (cases "own (key (Suc L) a)")
    case (Some k)
    then have "k < N" using own_less [OF ok] by blast
    with Some D(9) [OF L k0] descriptor_of_page [OF D(1)] ok K show ?thesis
      by (intro exI [of _ own] exI [of _ s] exI [of _ k]) (simp add: next_table_def s entry_of_def)
  next
    case None
    let ?n = "card (dom own)"
    have "dom own \<subset> K" using None K by auto
    with K(1) have "?n < card K" by (rule psubset_card_mono)
    with K(2) have room: "?n < N" by linarith
    then have "page S ?n \<noteq> page S N" using page_inject [OF D(1), of ?n N] by simp
    then have "m_current al \<noteq> m_end al" unfolding D(2,6) .
    then have take: "take_page s = Inr (page S ?n, al\<lparr>m_current := page S (Suc ?n)\<rparr>, zero_page (page S ?n) mem)"
      by (simp add: take_page_def s Let_def D(6) page_Suc)
    have "mem (word_at (page S k0) (level_idx L a)) = 0" using D(9) [OF L k0] None by (simp add: entry_of_def)
    then have "next_table L a (page S k0) s = Inr (page S ?n, al\<lparr>m_current := page S (Suc ?n)\<rparr>,
        (zero_page (page S ?n) mem)(word_at (page S k0) (level_idx L a) := page S ?n OR TABLE_DESCRIPTOR))"
      using take descriptor_of_page(1) [OF D(1) room] by (simp add: next_table_def Let_def s)
    with tree_extend [OF ok [unfolded s] L k0 None room] None K show ?thesis
      by (intro exI [of _ "own(key (Suc L) a \<mapsto> ?n)"] exI conjI) (auto simp: s map_le_def)
  qed
qed

lemma leaf_write:
  fixes v :: u64
  assumes ok: "tree_ok S N own (al, mem)" and k: "own (key 3 a) = Some k"
  defines "mem' \<equiv> mem(word_at (page S k) (level_idx 3 a) := v)"
  shows "tree_ok S N own (al, mem')" and "leaf S own mem' b = (if key 4 b = key 4 a then v else leaf S own mem b)"
proof -
  note D = tree_ok_D [OF ok]
  have other: "mem' (word_at (page S k') (level_idx L b)) = mem (word_at (page S k') (level_idx L b))"
    if "own (key L b) = Some k'" "\<not> (key L b = key 3 a \<and> level_idx L b = level_idx 3 a)" for L b k'
    using same_word_iff [OF ok that(1) k] that(2) by (simp add: mem'_def)
  have "mem' (word_at (page S k') (level_idx L b)) = entry_of S (own (key (Suc L) b))"
    if "L < 3" "own (key L b) = Some k'" for L b k'
    using other [OF that(2)] D(9) [OF that] that(1) by (simp add: key_def)
  then show "tree_ok S N own (al, mem')" using ok by (simp add: tree_ok_def)
  have four: "key 4 b = key 4 a \<longleftrightarrow> key 3 b = key 3 a \<and> level_idx 3 b = level_idx 3 a"
    using key_Suc [of 3 b a] by simp
  show "leaf S own mem' b = (if key 4 b = key 4 a then v else leaf S own mem b)"
  proof (cases "key 4 b = key 4 a")
    case True
    then show ?thesis using four k by (simp add: leaf_def mem'_def)
  next
    case False
    then show ?thesis using four other [of 3 b] by (auto simp: leaf_def split: option.splits)
  qed
qed

lemma insert_entry_correct:
  assumes ok: "tree_ok S N own s"
    and K: "finite K" "card K \<le> N" "dom own \<subseteq> K" "key 1 a \<in> K" "key 2 a \<in> K" "key 3 a \<in> K"
  shows "\<exists>own' s'. insert_entry S a flags s = Inr s' \<and> tree_ok S N own' s' \<and> dom own' \<subseteq> K \<and>
    leaf S own' (snd s') = (\<lambda>b. if key 4 b = key 4 a then a OR flags else leaf S own (snd s) b)"
proof -
  have root: "page S 0 = S" by (simp add: page_def)
  have "own (key 0 a) = Some 0" using tree_ok_D(7) [of S N own "fst s" "snd s"] ok by (simp add: key_def)
  from next_table_correct [OF ok _ this, of K] K obtain own1 s1 k1 where 1:
    "next_table 0 a S s = Inr (page S k1, s1)" "tree_ok S N own1 s1" "own1 (key 1 a) = Some k1"
    "dom own1 \<subseteq> K" "leaf S own1 (snd s1) = leaf S own (snd s)"
    by (auto simp: root)
  from next_table_correct [OF 1(2) _ 1(3), of K] K 1(4) obtain own2 s2 k2 where 2:
    "next_table 1 a (page S k1) s1 = Inr (page S k2, s2)" "tree_ok S N own2 s2" "own2 (key 2 a) = Some k2"
    "dom own2 \<subseteq> K" "leaf S own2 (snd s2) = leaf S own1 (snd s1)"
    by (auto simp: numeral_2_eq_2)
  from next_table_correct [OF 2(2) _ 2(3), of K] K 2(4) obtain own3 al mem k3 where 3:
    "next_table 2 a (page S k2) s2 = Inr (page S k3, al, mem)" "tree_ok S N own3 (al, mem)"
    "own3 (key 3 a) = Some k3" "dom own3 \<subseteq> K" "leaf S own3 mem = leaf S own2 (snd s2)"
    by (auto simp: numeral_3_eq_3)
  have "insert_entry S a flags s = Inr (al, mem(word_at (page S k3) (level_idx 3 a) := a OR flags))"
    using 1(1) 2(1) 3(1) by (simp add: insert_entry_def Let_def)
  with leaf_write [OF 3(2,3)] 1(5) 2(5) 3(4,5) show ?thesis
    by (intro exI [of _ own3] exI conjI) auto
qed

end
