(* ===== verification/MMU_Properties.thy ===== *)
theory MMU_Properties
  imports MMU_Correct
begin

text \<open>
  The identity map: what the memory management unit translates after \<open>init_page_tables\<close>.
\<close>

section \<open>Pages of addresses\<close>

definition page_base :: "u64 \<Rightarrow> u64" where
  "page_base a = a AND 0xFFFFFFFFF000"

lemma page_base_eq: "page_base a = push_bit 12 (prefix 4 a)"
proof -
  have m: "(0xFFFFFFFFF000 :: u64) = mask 48 AND NOT (mask 12)" by (simp add: mask_eq_exp_minus_1)
  show ?thesis unfolding page_base_def m
    by (rule bit_eqI) (auto simp: bit_and_iff bit_not_iff bit_mask_iff bit_push_bit_iff bit_prefix)
qed

lemma unat_prefix:
  assumes "L \<le> 4"
  shows "unat (prefix L a) = (unat a div 2 ^ (48 - 9 * L)) mod 2 ^ (9 * L)"
proof -
  have "unat (drop_bit (48 - 9 * L) a) = unat a div 2 ^ (48 - 9 * L)"
    by (simp only: unsigned_drop_bit_eq) (simp add: drop_bit_eq_div take_bit_nat_eq_self unsigned_less [of a, simplified])
  moreover have "unat (take_bit n w) = unat w mod 2 ^ n" if "n \<le> 64" for n and w :: u64
    by (rule bit_eqI)
      (auto simp: bit_unsigned_iff bit_take_bit_iff simp flip: take_bit_eq_mod dest: bit_imp_le_length)
  ultimately show ?thesis using assms by (simp add: prefix_def)
qed

lemma unat_page_base: "unat (page_base a) = 4096 * (unat a div 4096 mod 2 ^ 36)"
proof -
  have "unat (prefix 4 a) = unat a div 4096 mod 2 ^ 36" using unat_prefix [of 4 a] by simp
  moreover have "unat (prefix 4 a) < 2 ^ 36" by (simp add: calculation)
  moreover have "unat (push_bit 12 w) = 4096 * unat w" if "unat w < 2 ^ 36" for w :: u64
    using that by (simp add: push_bit_eq_mult unat_word_ariths mult.commute)
  ultimately show ?thesis by (simp add: page_base_eq)
qed

lemma key_4_iff: "key 4 a = key 4 b \<longleftrightarrow> page_base a = page_base b"
proof
  assume "page_base a = page_base b"
  then have "unat (prefix 4 a) = unat (prefix 4 b)"
    using unat_page_base [of a] unat_page_base [of b] unat_prefix [of 4 a] unat_prefix [of 4 b] by simp
  then show "key 4 a = key 4 b" by (simp add: key_def unsigned_word_eqI)
qed (simp add: key_def page_base_eq)

lemma page_base_self: "unat a < 2 ^ 48 \<Longrightarrow> 4096 dvd unat a \<Longrightarrow> page_base a = a"
  using unat_page_base [of a] by (intro unsigned_word_eqI) (simp add: less_mult_imp_div_less)

section \<open>Ranges\<close>

lemma insert_range_correct:
  assumes "4096 dvd unat addr" and "unat fin + 4096 \<le> 2 ^ 48"
    and "tree_ok S N own s" and "finite K" "card K \<le> N" "dom own \<subseteq> K"
    and "\<And>L b. 1 \<le> L \<Longrightarrow> L \<le> 3 \<Longrightarrow> addr \<le> b \<Longrightarrow> b < fin \<Longrightarrow> key L b \<in> K"
  shows "\<exists>own' s'. insert_range S addr fin flags s = Some (Inr s') \<and> tree_ok S N own' s' \<and> dom own' \<subseteq> K \<and>
    leaf S own' (snd s') = (\<lambda>b. if addr \<le> page_base b \<and> page_base b < fin then page_base b OR flags
      else leaf S own (snd s) b)"
  using assms
proof (induction "unat fin - unat addr" arbitrary: addr s own rule: less_induct)
  case less
  show ?case
  proof (cases "addr < fin")
    case False
    then have "insert_range S addr fin flags s = Some (Inr s)" by (simp add: insert_range.simps)
    with less.prems(3,6) False show ?thesis by (intro exI [of _ own] exI [of _ s]) (auto intro!: ext)
  next
    case True
    then have lt: "unat addr < unat fin" by (simp add: word_less_nat_alt)
    have step: "unat (addr + GRANULE_SIZE) = unat addr + 4096"
      using lt less.prems(2) by (simp add: GRANULE_SIZE_def unat_word_ariths)
    have keys: "key 1 addr \<in> K" "key 2 addr \<in> K" "key 3 addr \<in> K"
      using less.prems(7) True by auto
    from insert_entry_correct [OF less.prems(3-6) keys, of flags] obtain own1 s1 where 1:
      "insert_entry S addr flags s = Inr s1" "tree_ok S N own1 s1" "dom own1 \<subseteq> K"
      "leaf S own1 (snd s1) = (\<lambda>b. if key 4 b = key 4 addr then addr OR flags else leaf S own (snd s) b)"
      by blast
    have "\<exists>own' s'. insert_range S (addr + GRANULE_SIZE) fin flags s1 = Some (Inr s') \<and> tree_ok S N own' s' \<and>
        dom own' \<subseteq> K \<and> leaf S own' (snd s') =
          (\<lambda>b. if addr + GRANULE_SIZE \<le> page_base b \<and> page_base b < fin then page_base b OR flags
            else leaf S own1 (snd s1) b)"
    proof (rule less.hyps)
      show "unat fin - unat (addr + GRANULE_SIZE) < unat fin - unat addr" using step lt by simp
      show "4096 dvd unat (addr + GRANULE_SIZE)" using step less.prems(1) by simp
      fix L b assume "1 \<le> (L :: nat)" "L \<le> 3" "addr + GRANULE_SIZE \<le> b" "b < fin"
      then show "key L b \<in> K" using less.prems(7) [of L b] step by (simp add: word_le_nat_alt)
    qed (use less.prems 1 in auto)
    then obtain own' s' where 2:
      "insert_range S (addr + GRANULE_SIZE) fin flags s1 = Some (Inr s')" "tree_ok S N own' s'" "dom own' \<subseteq> K"
      "leaf S own' (snd s') = (\<lambda>b. if addr + GRANULE_SIZE \<le> page_base b \<and> page_base b < fin
         then page_base b OR flags else leaf S own1 (snd s1) b)"
      by blast
    have run: "insert_range S addr fin flags s = Some (Inr s')"
      using True 1(1) 2(1) by (simp add: insert_range.simps [of S addr])
    have self: "page_base addr = addr" using lt less.prems(1,2) by (intro page_base_self) simp_all
    have split: "addr \<le> page_base b \<longleftrightarrow> page_base b = addr \<or> addr + GRANULE_SIZE \<le> page_base b" for b
    proof -
      obtain m where m: "unat addr = 4096 * m" using less.prems(1) by (elim dvdE)
      define p where "p = unat b div 4096 mod 2 ^ 36"
      have p: "unat (page_base b) = 4096 * p" unfolding p_def by (rule unat_page_base)
      have "page_base b = addr \<longleftrightarrow> unat (page_base b) = unat addr" by (rule word_unat_eq_iff)
      then show ?thesis unfolding word_le_nat_alt step m p by auto
    qed
    have "leaf S own' (snd s') = (\<lambda>b. if addr \<le> page_base b \<and> page_base b < fin then page_base b OR flags
        else leaf S own (snd s) b)"
      unfolding 2(4) 1(4) key_4_iff self split using True by (intro ext) auto
    with run 2 show ?thesis by blast
  qed
qed

section \<open>The walk of the memory management unit\<close>

text \<open>Translation as the architecture does it: a descriptor is valid if its low bits are \<open>11\<close>.\<close>

fun walk :: "memory \<Rightarrow> u64 \<Rightarrow> nat \<Rightarrow> u64 \<Rightarrow> u64 option" where
  "walk mem root 0 va = Some root"
| "walk mem root (Suc L) va = Option.bind (walk mem root L va) (\<lambda>t.
     let d = mem (word_at t (level_idx L va)) in if d AND 3 = 3 then Some (d AND 0xFFFFFFFFF000) else None)"

text \<open>The physical address and the attributes (bits 2 to 11 of the last descriptor).\<close>

definition translate :: "memory \<Rightarrow> u64 \<Rightarrow> u64 \<Rightarrow> (u64 \<times> u64) option" where
  "translate mem root va = Option.bind (walk mem root 3 va) (\<lambda>t.
     let d = mem (word_at t (level_idx 3 va)) in
     if d AND 3 = 3 then Some ((d AND 0xFFFFFFFFF000) OR (va AND 0xFFF), d AND 0xFFC) else None)"

lemma walk_tree:
  assumes "tree_ok S N own (al, mem)" and "L \<le> 3"
  shows "walk mem S L va = map_option (page S) (own (key L va))"
  using assms(2)
proof (induction L)
  case 0
  then show ?case using tree_ok_D(7) [OF assms(1)] by (simp add: key_def page_def)
next
  case (Suc L)
  note D = tree_ok_D [OF assms(1)]
  show ?case
  proof (cases "own (key L va)")
    case None
    then show ?thesis using Suc D(8) [of L va] by simp
  next
    case (Some k)
    then have d: "mem (word_at (page S k) (level_idx L va)) = entry_of S (own (key (Suc L) va))"
      using D(9) Suc.prems by simp
    have "k' < N" if "own (key (Suc L) va) = Some k'" for k' using own_less [OF assms(1) that] by blast
    then show ?thesis using Suc Some d descriptor_of_page [OF D(1)]
      by (cases "own (key (Suc L) va)") (simp_all add: entry_of_def)
  qed
qed

lemma translate_leaf:
  assumes "tree_ok S N own (al, mem)"
  shows "translate mem S va = (let d = leaf S own mem va in
     if d AND 3 = 3 then Some ((d AND 0xFFFFFFFFF000) OR (va AND 0xFFF), d AND 0xFFC) else None)"
  using walk_tree [OF assms, of 3 va] by (auto simp: translate_def leaf_def split: option.splits)

text \<open>A page with flags below bit 12 translates to itself.\<close>

lemma page_with_flags:
  assumes "take_bit 12 flags = flags" and "unat va < 2 ^ 48"
  shows "((page_base va OR flags) AND 0xFFFFFFFFF000) OR (va AND 0xFFF) = va"
    and "(page_base va OR flags) AND 3 = flags AND 3" and "(page_base va OR flags) AND 0xFFC = flags AND 0xFFC"
proof -
  have m: "(0xFFFFFFFFF000 :: u64) = mask 48 AND NOT (mask 12)" "(0xFFF :: u64) = mask 12" "(3 :: u64) = mask 2"
    "(0xFFC :: u64) = mask 12 AND NOT (mask 2)"
    by (simp_all add: mask_eq_exp_minus_1)
  have va: "i < 48" if "bit va i" for i
  proof -
    have "bit (unat va) i" using that by (simp add: bit_unsigned_iff bit_imp_le_length)
    then have "2 ^ i \<le> unat va" by (rule power_le_if_bit)
    with assms(2) have "(2 :: nat) ^ i < 2 ^ 48" by linarith
    then show ?thesis by (rule power_less_imp_less_exp [rotated]) simp
  qed
  have fl: "i < 12" if "bit flags i" for i
    using that by (subst (asm) assms(1) [symmetric]) (simp add: bit_take_bit_iff)
  note bits = bit_and_iff bit_or_iff bit_not_iff bit_mask_iff
  show "((page_base va OR flags) AND 0xFFFFFFFFF000) OR (va AND 0xFFF) = va"
    unfolding page_base_def m by (rule bit_eqI) (use fl va in \<open>fastforce simp: bits\<close>)
  show "(page_base va OR flags) AND 3 = flags AND 3" "(page_base va OR flags) AND 0xFFC = flags AND 0xFFC"
    unfolding page_base_def m by (rule bit_eqI; auto simp: bits)+
qed

section \<open>The whole map\<close>

lemma first_page:
  assumes "region_ok S N" and "0 < N"
  shows "tree_ok S N [(0, 0) \<mapsto> 0] (\<lparr>m_start = S, m_end = page S N, m_current = page S 1\<rparr>, zero_page S mem)"
proof -
  have "zero_page S mem (word_at S (level_idx L a)) = 0" for L a
    by (rule zero_page_same [OF level_idx_less])
  then show ?thesis using assms by (auto simp: tree_ok_def key_def entry_of_def page_def)
qed

text \<open>The tables that an identity map of addresses below 4 GiB can need.\<close>

definition table_keys :: "nat \<Rightarrow> table_key set" where
  "table_keys first = {(0, 0), (1, 0)} \<union> (\<lambda>i. (2, of_nat i)) ` {..<4} \<union>
     (\<lambda>i. (3, of_nat i)) ` ({..<504} \<union> {first..<first + 8})"

lemma card_table_keys: "finite (table_keys first)" "card (table_keys first) \<le> 518"
proof -
  show "finite (table_keys first)" by (simp add: table_keys_def)
  have "card (table_keys first) \<le> card {(0 :: nat, 0 :: u64), (1, 0)} +
      card ((\<lambda>i. (2 :: nat, of_nat i :: u64)) ` {..<4 :: nat}) +
      card ((\<lambda>i. (3 :: nat, of_nat i :: u64)) ` ({..<504} \<union> {first..<first + 8}))"
    unfolding table_keys_def by (intro order_trans [OF card_Un_le] add_mono order_refl)
  also have "\<dots> \<le> 2 + 4 + card ({..<504 :: nat} \<union> {first..<first + 8})"
    by (intro add_mono card_image_le order_trans [OF card_image_le]) (auto simp: card_insert_if)
  also have "\<dots> \<le> 2 + 4 + (504 + 8)"
    by (intro add_mono order_refl order_trans [OF card_Un_le]) auto
  finally show "card (table_keys first) \<le> 518" by simp
qed

lemma key_in_table_keys:
  assumes "1 \<le> L" "L \<le> 3" and "unat b < 2 ^ 32"
    and "unat b < 504 * 2 ^ 21 \<or> first * 2 ^ 21 \<le> unat b \<and> unat b < (first + 8) * 2 ^ 21"
  shows "key L b \<in> table_keys first"
proof -
  have w: "prefix L b = of_nat (unat b div 2 ^ (48 - 9 * L))"
  proof (rule unsigned_word_eqI)
    have "unat b div 2 ^ (48 - 9 * L) < 2 ^ (9 * L)"
      using assms(1-3) by (auto simp: less_Suc_eq numeral_3_eq_3 le_Suc_eq div_less_iff_less_mult)
    moreover have "(2 :: nat) ^ (9 * L) \<le> 2 ^ 27" using assms(2) by (intro power_increasing) auto
    ultimately show "unat (prefix L b) = unat (of_nat (unat b div 2 ^ (48 - 9 * L)) :: u64)"
      using assms(2) by (simp add: unat_prefix unat_of_nat)
  qed
  consider "L = 1" | "L = 2" | "L = 3" using assms(1,2) by linarith
  then show ?thesis
  proof cases
    case 1
    then have "unat b div 2 ^ (48 - 9 * L) = 0" using assms(3) by simp
    with 1 w show ?thesis by (simp add: table_keys_def key_def)
  next
    case 2
    then have "unat b div 2 ^ (48 - 9 * L) \<in> {..<4}" using assms(3) by (simp add: div_less_iff_less_mult)
    with 2 w show ?thesis by (auto simp: table_keys_def key_def)
  next
    case 3
    then have "unat b div 2 ^ (48 - 9 * L) \<in> {..<504} \<union> {first..<first + 8}"
      using assms(4) by (auto simp: div_less_iff_less_mult less_eq_div_iff_mult_less_eq)
    with 3 w show ?thesis by (auto simp: table_keys_def key_def)
  qed
qed

lemma granule_ends: "4096 * p < 4096 * m + 4095 \<longleftrightarrow> 4096 * p < 4096 * Suc m" for p m :: nat
proof (cases "p \<le> m")
  case False
  then have "4096 * Suc m \<le> 4096 * p" by (intro mult_le_mono2) simp
  then show ?thesis by simp
qed simp

definition peripheral_base :: "u32 \<Rightarrow> nat" where
  "peripheral_base midr = (if part_num midr \<le> RaspberryPi3 then 0x3F000000 else 0xFE000000)"

lemma unat_peripheral:
  "unat (peripheral_base_address midr) = peripheral_base midr"
  "unat (peripheral_end_address midr) = peripheral_base midr + 0xFFFFFF"
  by (simp_all add: peripheral_base_address_def peripheral_end_address_def m_base_address_def peripheral_base_def)

lemma flags_values: "normal_memory_flags = 0x703" "device_memory_flags = 0x607"
  by (simp_all add: normal_memory_flags_def device_memory_flags_def ACCESS_FLAG_def PAGE_DESCRIPTOR_def
      INNER_SHAREABLE_def OUTER_SHAREABLE_def NORMAL_MEMORY_def DEVICE_MEMORY_def push_bit_eq_mult)

lemma build_identity_map_correct:
  assumes reg: "region_ok S N" and room: "518 \<le> N"
  defines "al \<equiv> \<lparr>m_start = S, m_end = page S N, m_current = S\<rparr>"
  shows "\<exists>own al' mem'. build_identity_map midr (al, mem) = Some (Inr (al', mem')) \<and> tree_ok S N own (al', mem') \<and>
    leaf S own mem' = (\<lambda>b. let p = unat (page_base b) in
      if peripheral_base midr \<le> p \<and> p < peripheral_base midr + 0x1000000 then page_base b OR device_memory_flags
      else if p < 0x3F000000 then page_base b OR normal_memory_flags else 0)"
proof -
  let ?own0 = "[(0, 0) \<mapsto> 0] :: table_key \<Rightarrow> nat option" and ?base = "peripheral_base midr"
  let ?K = "table_keys (?base div 2 ^ 21)"
  let ?s0 = "(\<lparr>m_start = S, m_end = page S N, m_current = page S 1\<rparr>, zero_page S mem)"
  have K: "finite ?K" "card ?K \<le> N" using card_table_keys room by (auto intro: le_trans)
  have base: "2 ^ 21 * (?base div 2 ^ 21) = ?base" "?base + 0x1000000 \<le> 2 ^ 32" "4096 dvd ?base"
    by (auto simp: peripheral_base_def)
  have "page S N \<noteq> page S 0" using page_inject [OF reg, of N 0] room by simp
  then have take: "take_page (al, mem) = Inr (S, ?s0)"
    using page_Suc [of S 0] by (simp add: take_page_def al_def Let_def page_def)
  have ok0: "tree_ok S N ?own0 ?s0" using first_page [OF reg, of mem] room by simp
  have keys1: "key L b \<in> ?K" if "1 \<le> L" "L \<le> 3" "START_OF_NORMAL_MEMORY \<le> b" "b < END_OF_NORMAL_MEMORY" for L b
    using that by (intro key_in_table_keys) (auto simp: END_OF_NORMAL_MEMORY_def word_less_nat_alt)
  have dom0: "dom ?own0 \<subseteq> ?K" by (simp add: table_keys_def)
  have "4096 dvd unat START_OF_NORMAL_MEMORY" "unat END_OF_NORMAL_MEMORY + 4096 \<le> 2 ^ 48"
    by (simp_all add: START_OF_NORMAL_MEMORY_def END_OF_NORMAL_MEMORY_def)
  from insert_range_correct [OF this ok0 K dom0 keys1, where flags = normal_memory_flags] obtain own1 s1 where 1:
    "insert_range S START_OF_NORMAL_MEMORY END_OF_NORMAL_MEMORY normal_memory_flags ?s0 = Some (Inr s1)"
    "tree_ok S N own1 s1" "dom own1 \<subseteq> ?K"
    "leaf S own1 (snd s1) = (\<lambda>b. if START_OF_NORMAL_MEMORY \<le> page_base b \<and> page_base b < END_OF_NORMAL_MEMORY
       then page_base b OR normal_memory_flags else leaf S ?own0 (snd ?s0) b)"
    by blast
  have keys2: "key L b \<in> ?K" if "1 \<le> L" "L \<le> 3" "peripheral_base_address midr \<le> b"
    "b < peripheral_end_address midr" for L b
    using that base unat_peripheral [of midr]
    by (intro key_in_table_keys) (auto simp: word_less_nat_alt word_le_nat_alt)
  have "unat (peripheral_end_address midr) + 4096 \<le> 2 ^ 48" "4096 dvd unat (peripheral_base_address midr)"
    using base unat_peripheral [of midr] by simp_all
  from insert_range_correct [OF this(2,1) 1(2) K 1(3) keys2, where flags = device_memory_flags] obtain own2 al2 mem2 where 2:
    "insert_range S (peripheral_base_address midr) (peripheral_end_address midr) device_memory_flags s1 = Some (Inr (al2, mem2))"
    "tree_ok S N own2 (al2, mem2)"
    "leaf S own2 mem2 = (\<lambda>b. if peripheral_base_address midr \<le> page_base b \<and> page_base b < peripheral_end_address midr
       then page_base b OR device_memory_flags else leaf S own1 (snd s1) b)"
    by auto
  have run: "build_identity_map midr (al, mem) = Some (Inr (al2, mem2))"
    using take 1(1) 2(1)
    by (simp add: build_identity_map_def insert_identity_entries_for_physical_memory_range_def)
  have zero: "leaf S ?own0 (snd ?s0) b = 0" for b by (simp add: leaf_def key_def)
  have ends: "unat (page_base b) < 4096 * m + 4095 \<longleftrightarrow> unat (page_base b) < 4096 * Suc m" for b m
    unfolding unat_page_base by (rule granule_ends)
  have "leaf S own2 mem2 = (\<lambda>b. let p = unat (page_base b) in
      if ?base \<le> p \<and> p < ?base + 0x1000000 then page_base b OR device_memory_flags
      else if p < 0x3F000000 then page_base b OR normal_memory_flags else 0)"
  proof
    fix b
    have "page_base b < END_OF_NORMAL_MEMORY \<longleftrightarrow> unat (page_base b) < 0x3F000000"
      using ends [of b "0x3EFFF"] by (simp add: END_OF_NORMAL_MEMORY_def word_less_nat_alt)
    moreover have "page_base b < peripheral_end_address midr \<longleftrightarrow> unat (page_base b) < ?base + 0x1000000"
    proof -
      obtain m' where "?base = 4096 * m'" using base(3) by (elim dvdE)
      then have "?base + 0xFFFFFF = 4096 * (m' + 0xFFF) + 4095" "?base + 0x1000000 = 4096 * Suc (m' + 0xFFF)"
        by simp_all
      then show ?thesis using ends [of b "m' + 0xFFF"] by (simp only: word_less_nat_alt unat_peripheral)
    qed
    ultimately show "leaf S own2 mem2 b = (let p = unat (page_base b) in
      if ?base \<le> p \<and> p < ?base + 0x1000000 then page_base b OR device_memory_flags
      else if p < 0x3F000000 then page_base b OR normal_memory_flags else 0)"
      unfolding 2(3) 1(4) zero Let_def by (simp add: START_OF_NORMAL_MEMORY_def word_le_nat_alt unat_peripheral)
  qed
  with run 2(2) show ?thesis by blast
qed

section \<open>Properties\<close>

text \<open>
  C15. With a page-aligned page table memory of at least 518 pages below 4 GiB (the linker script gives 8 MiB,
  2048 pages) \<open>init_page_tables\<close> returns and never exhausts it. Afterwards the memory management unit is
  on with these tables, and every 48-bit address of the board's normal memory and of its peripherals
  translates to itself, as normal, inner shareable memory and as device, outer shareable memory; every
  other address faults.
\<close>

theorem identity_map_translates:
  assumes "4096 dvd unat S" and "unat S + 4096 * N = unat fin" and "unat fin \<le> 2 ^ 32" and "518 \<le> N"
  shows "\<exists>c' mem'. init_page_tables S fin midr feature_register sctlr (c, mem) = Some (Inr (c', mem')) \<and>
    ttbr0_el1 c' = S \<and> field_bits SCTLR_EL1 ''M'' (sctlr_el1 c') = 1 \<and>
    (\<forall>va. unat va < 2 ^ 48 \<longrightarrow> translate mem' S va =
      (if peripheral_base midr \<le> unat va \<and> unat va < peripheral_base midr + 0x1000000 then Some (va, 0x604)
       else if unat va < 0x3F000000 then Some (va, 0x700) else None))"
proof -
  have reg: "region_ok S N" using assms by (simp add: region_ok_def)
  have fin: "fin = page S N" using unat_page [OF reg, of N] assms(2) by (simp add: word_unat_eq_iff)
  have "S mod PAGE_TABLE_SIZE = 0" "fin mod PAGE_TABLE_SIZE = 0"
    using assms(1,2) by (auto simp: word_unat_eq_iff unat_mod PAGE_TABLE_SIZE_def mod_eq_0_iff_dvd
        simp flip: assms(2))
  moreover have "S < fin" using assms(2,4) by (simp add: word_less_nat_alt)
  ultimately have al: "page_bump_allocator S fin = Inr \<lparr>m_start = S, m_end = page S N, m_current = S\<rparr>"
    by (auto simp: page_bump_allocator_def fin not_le)
  from build_identity_map_correct [OF reg assms(4), of midr mem] obtain own al' mem' where b:
    "build_identity_map midr (\<lparr>m_start = S, m_end = page S N, m_current = S\<rparr>, mem) = Some (Inr (al', mem'))"
    "tree_ok S N own (al', mem')"
    "leaf S own mem' = (\<lambda>b. let p = unat (page_base b) in
      if peripheral_base midr \<le> p \<and> p < peripheral_base midr + 0x1000000 then page_base b OR device_memory_flags
      else if p < 0x3F000000 then page_base b OR normal_memory_flags else 0)"
    by blast
  let ?c = "activate_mmu feature_register sctlr (switch_to_page_table S c)"
  have run: "init_page_tables S fin midr feature_register sctlr (c, mem) = Some (Inr (?c, mem'))"
    using al b(1) by (simp add: init_page_tables_def)
  have "fits SCTLR_EL1" by (intro register_layouts_fit) (simp add: register_layouts_def)
  moreover have "field_at SCTLR_EL1 ''M'' = Some (0, 1, IntType)" by code_simp
  ultimately have "field_bits SCTLR_EL1 ''M'' (sctlr_el1 ?c) = 1"
    using set_field_bits(1) [of SCTLR_EL1 "''M''" 0 1 IntType 1] by (simp add: activate_mmu_def)
  moreover have "translate mem' S va =
      (if peripheral_base midr \<le> unat va \<and> unat va < peripheral_base midr + 0x1000000 then Some (va, 0x604)
       else if unat va < 0x3F000000 then Some (va, 0x700) else None)" if "unat va < 2 ^ 48" for va
  proof -
    have p: "unat (page_base va) = 4096 * (unat va div 4096)"
      using that unat_page_base [of va] by (simp add: less_mult_imp_div_less)
    have below: "4096 * (unat va div 4096) < 4096 * m \<longleftrightarrow> unat va < 4096 * m" for m
      by (simp add: div_less_iff_less_mult mult.commute)
    have flags: "take_bit 12 0x703 = (0x703 :: u64)" "take_bit 12 0x607 = (0x607 :: u64)" by simp_all
    obtain m' where m': "peripheral_base midr = 4096 * m'"
      by (rule that [of "if part_num midr \<le> RaspberryPi3 then 0x3F000 else 0xFE000"]) (simp add: peripheral_base_def)
    have c: "peripheral_base midr \<le> unat (page_base va) \<longleftrightarrow> peripheral_base midr \<le> unat va"
      "unat (page_base va) < peripheral_base midr + 0x1000000 \<longleftrightarrow> unat va < peripheral_base midr + 0x1000000"
      "unat (page_base va) < 0x3F000000 \<longleftrightarrow> unat va < 0x3F000000"
      using below [of m'] below [of "m' + 0x1000"] below [of "0x3F000"] by (simp_all add: p m' flip: not_less)
    show ?thesis
      unfolding translate_leaf [OF b(2)] b(3) Let_def c
      using page_with_flags [OF flags(1) that] page_with_flags [OF flags(2) that] by (simp add: flags_values)
  qed
  ultimately show ?thesis using run by (auto simp: activate_mmu_def switch_to_page_table_def)
qed

theorem identity_map_translates_witness:
  "\<exists>c' mem'. init_page_tables 0x100000 0x900000 0xD030 0 0 (reset_cpu, \<lambda>_. 7) = Some (Inr (c', mem')) \<and>
     translate mem' 0x100000 0x12345 = Some (0x12345, 0x700)"
proof -
  have "part_num 0xD030 \<le> RaspberryPi3" by (simp add: part_num_def RaspberryPi3_def drop_bit_eq_div)
  then have "peripheral_base 0xD030 = 0x3F000000" by (simp add: peripheral_base_def)
  then show ?thesis
    using identity_map_translates [where S = "0x100000" and N = 2048 and fin = "0x900000" and midr = "0xD030" and
        feature_register = 0 and sctlr = 0 and c = reset_cpu and mem = "\<lambda>_. 7"] by fastforce
qed

text \<open>
  A page table memory that is empty or not page-aligned stops the boot before any table is written.
\<close>

theorem page_table_memory_checked:
  assumes "fin \<le> S \<or> \<not> 4096 dvd unat S \<or> \<not> 4096 dvd unat fin"
  shows "\<exists>msg. init_page_tables S fin midr feature_register sctlr s = Some (Inl (Panic msg))"
proof -
  have "x mod PAGE_TABLE_SIZE = 0 \<longleftrightarrow> 4096 dvd unat x" for x
    by (simp add: word_unat_eq_iff unat_mod PAGE_TABLE_SIZE_def mod_eq_0_iff_dvd)
  then show ?thesis
    using assms by (auto simp: init_page_tables_def page_bump_allocator_def split: prod.splits)
qed

theorem page_table_memory_checked_witness:
  "\<exists>msg. init_page_tables 0x1000 0x1000 0xD030 0 0 (reset_cpu, \<lambda>_. 7) = Some (Inl (Panic msg))"
  by (rule page_table_memory_checked) simp

text \<open>
  The translation control register asks for 4 KiB granules in both halves and write-back, inner
  shareable table walks, takes the physical address size from the processor's feature register, and the two
  memory attributes the descriptors use are normal write-back and device memory; the rest of the system
  control register keeps what it had.
\<close>

theorem activate_mmu_configures:
  "field_bits TCR_EL1 ''IPS'' (tcr_el1 (activate_mmu feature sctlr c)) = take_bit 3 (field_bits ID_AA64MMFRO_EL1 ''PARange'' feature) \<and>
   field_bits TCR_EL1 ''TG0'' (tcr_el1 (activate_mmu feature sctlr c)) = word_of_int (tg0_code Size_4KB) \<and>
   field_bits TCR_EL1 ''TG1'' (tcr_el1 (activate_mmu feature sctlr c)) = word_of_int (tg1_code Size_4KB) \<and>
   field_bits TCR_EL1 ''SH0'' (tcr_el1 (activate_mmu feature sctlr c)) = word_of_int (shareability_code InnerShareable) \<and>
   mair_el1 (activate_mmu feature sctlr c) = 0x4FF \<and>
   sctlr_el1 (activate_mmu feature sctlr c) = sctlr OR 1"
proof (intro conjI)
  have fits: "fits TCR_EL1" by (intro register_layouts_fit) (simp add: register_layouts_def)
  have at: "field_at TCR_EL1 ''IPS'' = Some (32, 3, IntType) \<and> field_at TCR_EL1 ''TG0'' = Some (14, 2, IntType) \<and>
      field_at TCR_EL1 ''TG1'' = Some (30, 2, IntType) \<and> field_at TCR_EL1 ''SH0'' = Some (12, 2, Unsigned 32) \<and>
      field_at SCTLR_EL1 ''M'' = Some (0, 1, IntType)"
    by code_simp
  have par: "field_at ID_AA64MMFRO_EL1 ''PARange'' = Some (0, 4, IntType)" by code_simp
  note tcr = activate_mmu_def tcr_value_def set_fields_def field_bits_set_field [OF fits] at
  show "field_bits TCR_EL1 ''IPS'' (tcr_el1 (activate_mmu feature sctlr c)) =
      take_bit 3 (field_bits ID_AA64MMFRO_EL1 ''PARange'' feature)"
    using par
    by (simp add: tcr get_field_def field_bits_def [of ID_AA64MMFRO_EL1] take_bit_as_value del: as_value.simps)
  show "field_bits TCR_EL1 ''TG0'' (tcr_el1 (activate_mmu feature sctlr c)) = word_of_int (tg0_code Size_4KB)"
    "field_bits TCR_EL1 ''TG1'' (tcr_el1 (activate_mmu feature sctlr c)) = word_of_int (tg1_code Size_4KB)"
    "field_bits TCR_EL1 ''SH0'' (tcr_el1 (activate_mmu feature sctlr c)) = word_of_int (shareability_code InnerShareable)"
    by (simp_all add: tcr)
  have "set_attr 1 4 (set_attr 0 0xFF 0) = 0x4FF" by code_simp
  then show "mair_el1 (activate_mmu feature sctlr c) = 0x4FF" by (simp add: activate_mmu_def)
  have "set_bits 0 1 1 sctlr = sctlr OR 1"
    by (rule bit_eqI) (auto simp: bit_set_bits bit_or_iff bit_1_iff)
  then show "sctlr_el1 (activate_mmu feature sctlr c) = sctlr OR 1"
    by (simp add: activate_mmu_def set_field_def at)
qed

end
