(* ===== verification/CharacterTypes.thy ===== *)
theory CharacterTypes
  imports AK_Prelude
begin

text \<open>
  \<open>AK/CharacterTypes.h\<close>: classification and conversion of code points. \<open>cp\<close> is a character literal as a
  code point; a failed \<open>VERIFY\<close> or \<open>VERIFY_NOT_REACHED\<close> is an error value.
\<close>

abbreviation cp :: "char \<Rightarrow> u32" where "cp c \<equiv> of_char c"

definition is_ascii :: "u32 \<Rightarrow> bool" where
  "is_ascii code_point \<longleftrightarrow> code_point < 0x80"

definition is_ascii_digit :: "u32 \<Rightarrow> bool" where
  "is_ascii_digit code_point \<longleftrightarrow> code_point \<ge> cp CHR ''0'' \<and> code_point \<le> cp CHR ''9''"

definition is_ascii_upper_alpha :: "u32 \<Rightarrow> bool" where
  "is_ascii_upper_alpha code_point \<longleftrightarrow> code_point \<ge> cp CHR ''A'' \<and> code_point \<le> cp CHR ''Z''"

definition is_ascii_lower_alpha :: "u32 \<Rightarrow> bool" where
  "is_ascii_lower_alpha code_point \<longleftrightarrow> code_point \<ge> cp CHR ''a'' \<and> code_point \<le> cp CHR ''z''"

definition is_ascii_alpha :: "u32 \<Rightarrow> bool" where
  "is_ascii_alpha code_point \<longleftrightarrow> is_ascii_lower_alpha code_point \<or> is_ascii_upper_alpha code_point"

definition is_ascii_alphanumeric :: "u32 \<Rightarrow> bool" where
  "is_ascii_alphanumeric code_point \<longleftrightarrow> is_ascii_alpha code_point \<or> is_ascii_digit code_point"

definition is_ascii_binary_digit :: "u32 \<Rightarrow> bool" where
  "is_ascii_binary_digit code_point \<longleftrightarrow> code_point = cp CHR ''0'' \<or> code_point = cp CHR ''1''"

definition is_ascii_octal_digit :: "u32 \<Rightarrow> bool" where
  "is_ascii_octal_digit code_point \<longleftrightarrow> code_point \<ge> cp CHR ''0'' \<and> code_point \<le> cp CHR ''7''"

definition is_ascii_hex_digit :: "u32 \<Rightarrow> bool" where
  "is_ascii_hex_digit code_point \<longleftrightarrow> is_ascii_digit code_point \<or>
     (code_point \<ge> cp CHR ''A'' \<and> code_point \<le> cp CHR ''F'') \<or>
     (code_point \<ge> cp CHR ''a'' \<and> code_point \<le> cp CHR ''f'')"

definition is_ascii_blank :: "u32 \<Rightarrow> bool" where
  "is_ascii_blank code_point \<longleftrightarrow> code_point = 9 \<or> code_point = cp CHR '' ''"

definition is_ascii_space :: "u32 \<Rightarrow> bool" where
  "is_ascii_space code_point \<longleftrightarrow> code_point = cp CHR '' '' \<or> code_point = 9 \<or> code_point = 10 \<or> code_point = 11 \<or>
     code_point = 12 \<or> code_point = 13"

definition is_ascii_punctuation :: "u32 \<Rightarrow> bool" where
  "is_ascii_punctuation code_point \<longleftrightarrow> (code_point \<ge> 0x21 \<and> code_point \<le> 0x2F) \<or>
     (code_point \<ge> 0x3A \<and> code_point \<le> 0x40) \<or> (code_point \<ge> 0x5B \<and> code_point \<le> 0x60) \<or>
     (code_point \<ge> 0x7B \<and> code_point \<le> 0x7E)"

definition is_ascii_graphical :: "u32 \<Rightarrow> bool" where
  "is_ascii_graphical code_point \<longleftrightarrow> code_point \<ge> 0x21 \<and> code_point \<le> 0x7E"

definition is_ascii_printable :: "u32 \<Rightarrow> bool" where
  "is_ascii_printable code_point \<longleftrightarrow> code_point \<ge> 0x20 \<and> code_point \<le> 0x7E"

definition is_ascii_c0_control :: "u32 \<Rightarrow> bool" where
  "is_ascii_c0_control code_point \<longleftrightarrow> code_point < 0x20"

definition is_ascii_control :: "u32 \<Rightarrow> bool" where
  "is_ascii_control code_point \<longleftrightarrow> is_ascii_c0_control code_point \<or> code_point = 0x7F"

definition is_unicode :: "u32 \<Rightarrow> bool" where
  "is_unicode code_point \<longleftrightarrow> code_point \<le> 0x10FFFF"

definition is_unicode_control :: "u32 \<Rightarrow> bool" where
  "is_unicode_control code_point \<longleftrightarrow>
     is_ascii_c0_control code_point \<or> (code_point \<ge> 0x7E \<and> code_point \<le> 0x9F)"

definition is_unicode_surrogate :: "u32 \<Rightarrow> bool" where
  "is_unicode_surrogate code_point \<longleftrightarrow> code_point \<ge> 0xD800 \<and> code_point \<le> 0xDFFF"

definition is_unicode_scalar_value :: "u32 \<Rightarrow> bool" where
  "is_unicode_scalar_value code_point \<longleftrightarrow> is_unicode code_point \<and> \<not> is_unicode_surrogate code_point"

definition is_unicode_noncharacter :: "u32 \<Rightarrow> bool" where
  "is_unicode_noncharacter code_point \<longleftrightarrow> is_unicode code_point \<and>
     ((code_point \<ge> 0xFDD0 \<and> code_point \<le> 0xFDEF) \<or> (code_point AND 0xFFFE) = 0xFFFE \<or>
      (code_point AND 0xFFFF) = 0xFFFF)"

definition to_ascii_lowercase :: "u32 \<Rightarrow> u32" where
  "to_ascii_lowercase code_point = (if is_ascii_upper_alpha code_point then code_point + 0x20 else code_point)"

definition to_ascii_uppercase :: "u32 \<Rightarrow> u32" where
  "to_ascii_uppercase code_point = (if is_ascii_lower_alpha code_point then code_point - 0x20 else code_point)"

definition parse_ascii_digit :: "u32 \<Rightarrow> u32 error_or" where
  "parse_ascii_digit code_point =
     (if is_ascii_digit code_point then Inr (code_point - cp CHR ''0'') else Inl VerifyFailed)"

definition parse_ascii_hex_digit :: "u32 \<Rightarrow> u32 error_or" where
  "parse_ascii_hex_digit code_point =
     (if is_ascii_digit code_point then parse_ascii_digit code_point
      else if code_point \<ge> cp CHR ''A'' \<and> code_point \<le> cp CHR ''F'' then Inr (code_point - cp CHR ''A'' + 10)
      else if code_point \<ge> cp CHR ''a'' \<and> code_point \<le> cp CHR ''f'' then Inr (code_point - cp CHR ''a'' + 10)
      else Inl VerifyFailed)"

definition parse_ascii_base36_digit :: "u32 \<Rightarrow> u32 error_or" where
  "parse_ascii_base36_digit code_point =
     (if is_ascii_digit code_point then parse_ascii_digit code_point
      else if code_point \<ge> cp CHR ''A'' \<and> code_point \<le> cp CHR ''Z'' then Inr (code_point - cp CHR ''A'' + 10)
      else if code_point \<ge> cp CHR ''a'' \<and> code_point \<le> cp CHR ''z'' then Inr (code_point - cp CHR ''a'' + 10)
      else Inl VerifyFailed)"

definition base36_map :: string where
  "base36_map = ''0123456789abcdefghijklmnopqrstuvwxyz''"

definition to_ascii_base36_digit :: "u32 \<Rightarrow> u32 error_or" where
  "to_ascii_base36_digit digit =
     (if unat digit < length base36_map then Inr (cp (base36_map ! unat digit)) else Inl VerifyFailed)"

section \<open>Properties\<close>

text \<open>
  A digit below 36 is written as a letter or digit that parses to it again, in lower and in upper case,
  and below 16 also as a hexadecimal digit; a digit from 36 on is refused.
\<close>

theorem base36_digit_round_trip:
  "if digit < 36
   then \<exists>c. to_ascii_base36_digit digit = Inr c \<and> is_ascii_alphanumeric c \<and>
          parse_ascii_base36_digit c = Inr digit \<and> parse_ascii_base36_digit (to_ascii_uppercase c) = Inr digit \<and>
          (digit < 16 \<longrightarrow> is_ascii_hex_digit c \<and> parse_ascii_hex_digit c = Inr digit)
   else to_ascii_base36_digit digit = Inl VerifyFailed"
proof (cases "digit < 36")
  case True
  have "list_all (\<lambda>d. case to_ascii_base36_digit d of Inl e \<Rightarrow> False | Inr c \<Rightarrow> is_ascii_alphanumeric c \<and>
      parse_ascii_base36_digit c = Inr d \<and> parse_ascii_base36_digit (to_ascii_uppercase c) = Inr d \<and>
      (d < 16 \<longrightarrow> is_ascii_hex_digit c \<and> parse_ascii_hex_digit c = Inr d)) (map word_of_nat [0..<36])"
    by code_simp
  moreover have "digit \<in> set (map word_of_nat [0..<36])"
    using True by (auto simp: word_less_nat_alt intro!: image_eqI [of _ _ "unat digit"])
  ultimately have "case to_ascii_base36_digit digit of Inl e \<Rightarrow> False | Inr c \<Rightarrow> is_ascii_alphanumeric c \<and>
      parse_ascii_base36_digit c = Inr digit \<and> parse_ascii_base36_digit (to_ascii_uppercase c) = Inr digit \<and>
      (digit < 16 \<longrightarrow> is_ascii_hex_digit c \<and> parse_ascii_hex_digit c = Inr digit)"
    unfolding list_all_iff by blast
  then show ?thesis using True by (cases "to_ascii_base36_digit digit") simp_all
next
  case False
  then show ?thesis by (simp add: to_ascii_base36_digit_def base36_map_def word_less_nat_alt)
qed

theorem base36_digit_round_trip_witness:
  "\<exists>c. to_ascii_base36_digit 11 = Inr c \<and> parse_ascii_hex_digit c = Inr 11"
  using base36_digit_round_trip [of 11] by auto

end
