(* ===== verification/Base64.thy ===== *)
theory Base64
  imports CharacterTypes
begin

text \<open>
  \<open>AK/Base64.cpp\<close>. Bytes and the characters of a string are \<open>u8\<close>, buffers and strings lists of them. The
  captured variables that \<open>get\<close> changes through references are part of its result. Allocation of the output
  is taken to succeed, as the code takes it.
\<close>

definition alphabet :: "u8 list" where
  "alphabet = map of_char ''ABCDEFGHIJKLMNOPQRSTUVWXYZabcdefghijklmnopqrstuvwxyz0123456789+/''"

definition make_lookup_table :: "int list" where
  "make_lookup_table =
     foldl (\<lambda>table i. table[unat (alphabet ! i) := int i]) (replicate 256 (- 1)) [0..<length alphabet]"

definition calculate_base64_decoded_length :: "u8 list \<Rightarrow> nat" where
  "calculate_base64_decoded_length input = length input * 3 div 4"

text \<open>\<open>& ~3\<close> on a \<open>size_t\<close> clears the two low bits.\<close>

definition calculate_base64_encoded_length :: "u8 list \<Rightarrow> nat" where
  "calculate_base64_encoded_length input = (let n = 4 * length input div 3 + 3 in n - n mod 4)"

section \<open>Decoding\<close>

fun skip_spaces :: "u8 list \<Rightarrow> nat \<Rightarrow> nat \<Rightarrow> nat" where
  "skip_spaces input 0 offset = offset"
| "skip_spaces input (Suc fuel) offset =
     (if offset < length input \<and> is_ascii_space (ucast (input ! offset)) then skip_spaces input fuel (offset + 1)
      else offset)"

text \<open>
  The result of \<open>get\<close>: the value, the new offset, whether padding was seen and whether a character was
  parsed. \<open>has_padding_flag\<close> is whether the caller passed a pointer.
\<close>

definition get :: "u8 list \<Rightarrow> nat \<Rightarrow> bool \<Rightarrow> (u8 \<times> nat \<times> bool \<times> bool) error_or" where
  "get input offset has_padding_flag =
     (let offset = skip_spaces input (length input) offset in
      if offset \<ge> length input then Inr (0, offset, False, False)
      else
        (let ch = input ! offset; offset = offset + 1 in
         if ch = of_char CHR ''='' then
           (if \<not> has_padding_flag
            then Inl (StringLiteral ''Invalid '=' character outside of padding in base64 data'')
            else Inr (0, offset, True, True))
         else
           (let result = make_lookup_table ! unat ch in
            if result < 0 then Inl (StringLiteral ''Invalid character in base64 data'')
            else verify (result < 256) (Inr (of_int result, offset, False, True)))))"

definition out0 :: "u8 \<Rightarrow> u8 \<Rightarrow> u8" where
  "out0 in0 in1 = push_bit 2 in0 OR (drop_bit 4 in1 AND 3)"

definition out1 :: "u8 \<Rightarrow> u8 \<Rightarrow> u8" where
  "out1 in1 in2 = push_bit 4 (in1 AND 0xF) OR (drop_bit 2 in2 AND 0xF)"

definition out2 :: "u8 \<Rightarrow> u8 \<Rightarrow> u8" where
  "out2 in2 in3 = push_bit 6 (in2 AND 3) OR in3"

text \<open>One group of four characters; \<open>None\<close> is the \<open>break\<close> when only spaces were left.\<close>

definition decode_group :: "u8 list \<Rightarrow> nat \<Rightarrow> (u8 list \<times> nat) option error_or" where
  "decode_group input offset =
     try_then (get input offset False) (\<lambda>(in0, offset, _, parsed0).
     try_then (get input offset False) (\<lambda>(in1, offset, _, parsed1).
     try_then (get input offset True) (\<lambda>(in2, offset, in2_is_padding, parsed2).
     try_then (get input offset True) (\<lambda>(in3, offset, in3_is_padding, parsed3).
       if \<not> (parsed0 \<or> parsed1 \<or> parsed2 \<or> parsed3) then Inr None
       else Inr (Some ([out0 in0 in1] @ (if \<not> in2_is_padding then [out1 in1 in2] else []) @
                       (if \<not> in3_is_padding then [out2 in2 in3] else []), offset))))))"

lemma skip_spaces_ge: "offset \<le> skip_spaces input fuel offset"
  by (induction input fuel offset rule: skip_spaces.induct) (auto intro: le_trans [OF Suc_leD])

lemma get_ge: "get input offset flag = Inr (v, offset', pad, parsed) \<Longrightarrow> offset \<le> offset'"
  using skip_spaces_ge [of offset input "length input"]
  by (auto simp: get_def Let_def verify_def split: if_splits)

lemma get_parsed: "get input offset flag = Inr (v, offset', pad, True) \<Longrightarrow> offset < offset'"
  using skip_spaces_ge [of offset input "length input"]
  by (auto simp: get_def Let_def verify_def split: if_splits)

lemma decode_group_progress:
  "decode_group input offset = Inr (Some (bytes, offset')) \<Longrightarrow> offset < offset'"
  by (auto simp: decode_group_def try_then_eq_Inr_iff split: if_splits)
    (meson get_ge get_parsed le_less_trans less_le_trans less_trans)+

function decode_loop :: "u8 list \<Rightarrow> nat \<Rightarrow> u8 list \<Rightarrow> u8 list error_or" where
  "decode_loop input offset output =
     (if offset < length input then
        (case decode_group input offset of
           Inl e \<Rightarrow> Inl e
         | Inr None \<Rightarrow> Inr output
         | Inr (Some (bytes, offset')) \<Rightarrow> decode_loop input offset' (output @ bytes))
      else Inr output)"
  by pat_completeness auto
termination
  by (relation "measure (\<lambda>(input, offset, output). length input - offset)") (auto dest: decode_group_progress)

declare decode_loop.simps [simp del]

definition decode_base64 :: "u8 list \<Rightarrow> u8 list error_or" where
  "decode_base64 input = decode_loop input 0 []"

section \<open>Encoding\<close>

text \<open>The encoder's \<open>get\<close>: the byte, and whether it lies behind the input.\<close>

definition byte_at :: "u8 list \<Rightarrow> nat \<Rightarrow> u8 \<times> bool" where
  "byte_at input offset = (if offset \<ge> length input then (0, True) else (input ! offset, False))"

definition encode_group :: "u8 list \<Rightarrow> nat \<Rightarrow> u8 list" where
  "encode_group input i =
     (let (in0, _) = byte_at input i;
          (in1, is_16bit) = byte_at input (i + 1);
          (in2, is_8bit) = byte_at input (i + 2);
          index0 = drop_bit 2 in0 AND 0x3F;
          index1 = (push_bit 4 in0 OR drop_bit 4 in1) AND 0x3F;
          index2 = (push_bit 2 in1 OR drop_bit 6 in2) AND 0x3F;
          index3 = in2 AND 0x3F
      in [alphabet ! unat index0, alphabet ! unat index1,
          if is_16bit then of_char CHR ''='' else alphabet ! unat index2,
          if is_8bit then of_char CHR ''='' else alphabet ! unat index3])"

function encode_loop :: "u8 list \<Rightarrow> nat \<Rightarrow> u8 list \<Rightarrow> u8 list" where
  "encode_loop input i output =
     (if i < length input then encode_loop input (i + 3) (output @ encode_group input i) else output)"
  by pat_completeness auto
termination by (relation "measure (\<lambda>(input, i, output). length input - i)") auto

declare encode_loop.simps [simp del]

definition encode_base64 :: "u8 list \<Rightarrow> u8 list" where
  "encode_base64 input = encode_loop input 0 []"

end
