(* ===== verification/Base64_Correct.thy ===== *)
theory Base64_Correct
  imports Base64
begin

text \<open>
  Decoding undoes encoding, and the length that the encoder reserves is the length it writes.
\<close>

section \<open>The alphabet\<close>

lemma foldl_update_nth:
  fixes g :: "nat \<Rightarrow> nat"
  assumes "inj_on g {..<n}" and "\<And>i. i < n \<Longrightarrow> g i < length table" and "k < n"
  shows "foldl (\<lambda>table i. table[g i := int i]) table [0..<n] ! g k = int k"
  using assms
proof (induction n)
  case (Suc n)
  have len: "length (foldl (\<lambda>table i. table[g i := int i]) table xs) = length table" for xs
    by (induction xs arbitrary: table) simp_all
  show ?case
  proof (cases "k = n")
    case True
    then show ?thesis using Suc.prems len by simp
  next
    case False
    then have "g n \<noteq> g k" using Suc.prems by (auto dest: inj_onD)
    moreover have "inj_on g {..<n}" using Suc.prems(1) by (rule inj_on_subset) auto
    ultimately show ?thesis using Suc False by simp
  qed
qed simp

lemma alphabet_facts: "length alphabet = 64 \<and> distinct alphabet \<and>
    list_all (\<lambda>c. c \<noteq> of_char CHR ''='' \<and> \<not> is_ascii_space (ucast c)) alphabet"
  by code_simp

lemma alphabet_entry:
  assumes "k < 64"
  shows "alphabet ! k \<noteq> of_char CHR ''=''" and "\<not> is_ascii_space (ucast (alphabet ! k))"
    and "make_lookup_table ! unat (alphabet ! k) = int k"
proof -
  have len: "length alphabet = 64" and dist: "distinct alphabet" using alphabet_facts by simp_all
  show "alphabet ! k \<noteq> of_char CHR ''=''" "\<not> is_ascii_space (ucast (alphabet ! k))"
    using alphabet_facts assms by (auto simp: list_all_length)
  have "inj_on (\<lambda>i. unat (alphabet ! i)) {..<64}"
    by (rule inj_onI) (use dist len in \<open>auto simp: nth_eq_iff_index_eq dest!: unsigned_word_eqI\<close>)
  moreover have "unat (alphabet ! i) < 256" for i using unsigned_less [of "alphabet ! i"] by simp
  ultimately show "make_lookup_table ! unat (alphabet ! k) = int k"
    unfolding make_lookup_table_def len using assms by (intro foldl_update_nth) simp_all
qed

lemma equals_no_space: "\<not> is_ascii_space (ucast (of_char CHR ''='' :: u8))"
  by code_simp

lemma skip_no_space:
  "\<not> is_ascii_space (ucast (input ! offset)) \<Longrightarrow> skip_spaces input fuel offset = offset"
  by (cases fuel) auto

lemma six_bits: "unat (w AND 0x3F :: u8) < 64"
proof -
  have "w AND 0x3F = take_bit 6 w" by (simp add: take_bit_eq_mask mask_eq_exp_minus_1)
  then have "unat (w AND 0x3F) < 2 ^ 6"
    by (intro less_power_if_no_bits) (auto simp: bit_unsigned_iff bit_take_bit_iff)
  then show ?thesis by simp
qed

lemma get_alphabet:
  assumes "offset < length input" and "input ! offset = alphabet ! unat (w AND 0x3F)"
  shows "get input offset flag = Inr (w AND 0x3F, offset + 1, False, True)"
proof -
  note entry = alphabet_entry [OF six_bits [of w]]
  have "of_int (int (unat (w AND 0x3F))) = (w AND 0x3F :: u8)" by simp
  moreover have "int (unat (w AND 0x3F)) < 256" using six_bits [of w] by linarith
  ultimately show ?thesis using assms entry skip_no_space [of input offset]
    by (simp add: get_def Let_def del: of_nat_unat)
qed

lemma get_padding:
  assumes "offset < length input" and "input ! offset = of_char CHR ''=''"
  shows "get input offset True = Inr (0, offset + 1, True, True)"
  using assms equals_no_space skip_no_space [of input offset] by (simp add: get_def Let_def)

section \<open>Three bytes in four characters\<close>

lemma out_indices:
  fixes a b c :: u8
  shows "out0 (drop_bit 2 a AND 0x3F) ((push_bit 4 a OR drop_bit 4 b) AND 0x3F) = a"
    and "out1 ((push_bit 4 a OR drop_bit 4 b) AND 0x3F) ((push_bit 2 b OR drop_bit 6 c) AND 0x3F) = b"
    and "out2 ((push_bit 2 b OR drop_bit 6 c) AND 0x3F) (c AND 0x3F) = c"
proof -
  have m: "(0x3F :: u8) = mask 6" "(0xF :: u8) = mask 4" "(3 :: u8) = mask 2" by (simp_all add: mask_eq_exp_minus_1)
  note bits = bit_and_iff bit_or_iff bit_mask_iff bit_push_bit_iff bit_drop_bit_eq
  have len: "i < 8" if "bit w i" for i and w :: u8 using bit_imp_le_length [OF that] by simp
  have two: "Suc (Suc (n - 2)) = n" if "\<not> n < 2" for n using that by simp
  show "out0 (drop_bit 2 a AND 0x3F) ((push_bit 4 a OR drop_bit 4 b) AND 0x3F) = a"
    unfolding out0_def m by (rule bit_eqI, case_tac "n < 2"; case_tac "n < 4"; case_tac "n < 6"; auto simp: bits two dest: len)
  show "out1 ((push_bit 4 a OR drop_bit 4 b) AND 0x3F) ((push_bit 2 b OR drop_bit 6 c) AND 0x3F) = b"
    unfolding out1_def m by (rule bit_eqI, case_tac "n < 2"; case_tac "n < 4"; case_tac "n < 6"; auto simp: bits two dest: len)
  show "out2 ((push_bit 2 b OR drop_bit 6 c) AND 0x3F) (c AND 0x3F) = c"
    unfolding out2_def m by (rule bit_eqI, case_tac "n < 2"; case_tac "n < 4"; case_tac "n < 6"; auto simp: bits two dest: len)
qed

section \<open>The encoder\<close>

definition groups :: "u8 list \<Rightarrow> nat" where
  "groups input = (length input + 2) div 3"

lemma encode_loop_groups:
  "encode_loop input (3 * k) out = out @ concat (map (\<lambda>j. encode_group input (3 * j)) [k..<groups input])"
proof (induction "groups input - k" arbitrary: k out)
  case 0
  then have "\<not> 3 * k < length input" unfolding groups_def by linarith
  with 0 show ?case by (subst encode_loop.simps) simp
next
  case (Suc n)
  then have k: "k < groups input" by simp
  then have "3 * k < length input" unfolding groups_def by linarith
  then have "encode_loop input (3 * k) out = encode_loop input (3 * Suc k) (out @ encode_group input (3 * k))"
    by (subst encode_loop.simps) (simp add: add.commute)
  also have "\<dots> = (out @ encode_group input (3 * k)) @
      concat (map (\<lambda>j. encode_group input (3 * j)) [Suc k..<groups input])"
    using Suc by (intro Suc.hyps) simp
  finally show ?case using k by (simp add: upt_conv_Cons)
qed

lemma length_encode_group [simp]: "length (encode_group input i) = 4"
  by (simp add: encode_group_def Let_def split: prod.splits)

lemma nth_concat_blocks:
  assumes "\<And>j. length (f j) = 4" and "k < n" and "i < 4"
  shows "concat (map f [0..<n]) ! (4 * k + i) = f k ! i"
  using assms(2)
proof (induction n)
  case (Suc n)
  have len: "length (concat (map f [0..<m])) = 4 * m" for m by (induction m) (simp_all add: assms(1))
  show ?case
  proof (cases "k = n")
    case True
    then show ?thesis by (simp add: nth_append len)
  next
    case False
    then have "k < n" "4 * k + i < 4 * n" using Suc.prems assms(3) by linarith+
    then show ?thesis using Suc.IH by (simp add: nth_append len)
  qed
qed simp

lemma encode_shape:
  shows length_encode: "length (encode_base64 input) = 4 * groups input"
    and nth_encode: "k < groups input \<Longrightarrow> i < 4 \<Longrightarrow> encode_base64 input ! (4 * k + i) = encode_group input (3 * k) ! i"
proof -
  have e: "encode_base64 input = concat (map (\<lambda>j. encode_group input (3 * j)) [0..<groups input])"
    using encode_loop_groups [of input 0 "[]"] by (simp add: encode_base64_def)
  have "length (concat (map (\<lambda>j. encode_group input (3 * j)) [0..<n])) = 4 * n" for n by (induction n) simp_all
  then show "length (encode_base64 input) = 4 * groups input" by (simp add: e)
  show "k < groups input \<Longrightarrow> i < 4 \<Longrightarrow> encode_base64 input ! (4 * k + i) = encode_group input (3 * k) ! i"
    unfolding e by (rule nth_concat_blocks) simp_all
qed

section \<open>The decoder on the encoder's output\<close>

lemma decode_group_encoded:
  assumes k: "k < groups input"
  shows "decode_group (encode_base64 input) (4 * k) = Inr (Some (take 3 (drop (3 * k) input), 4 * Suc k))"
proof -
  let ?e = "encode_base64 input" and ?p = "4 * k"
  have lt: "3 * k < length input" using k unfolding groups_def by linarith
  have pos: "?p + i < length ?e" if "i < 4" for i using k that by (simp add: length_encode)
  define a where "a = input ! (3 * k)"
  define b where "b = fst (byte_at input (3 * k + 1))"
  define c where "c = fst (byte_at input (3 * k + 2))"
  have e: "?e ! (?p + 0) = alphabet ! unat (drop_bit 2 a AND 0x3F)"
    "?e ! (?p + 1) = alphabet ! unat ((push_bit 4 a OR drop_bit 4 b) AND 0x3F)"
    "?e ! (?p + 2) = (if length input \<le> 3 * k + 1 then of_char CHR ''=''
       else alphabet ! unat ((push_bit 2 b OR drop_bit 6 c) AND 0x3F))"
    "?e ! (?p + 3) = (if length input \<le> 3 * k + 2 then of_char CHR ''='' else alphabet ! unat (c AND 0x3F))"
    using lt by (subst nth_encode [OF k]; simp add: encode_group_def byte_at_def a_def b_def c_def)+
  have g0: "get ?e ?p False = Inr (drop_bit 2 a AND 0x3F, ?p + 1, False, True)"
    using get_alphabet [of ?p ?e] pos [of 0] e(1) by simp
  have g1: "get ?e (?p + 1) False = Inr ((push_bit 4 a OR drop_bit 4 b) AND 0x3F, ?p + 2, False, True)"
    using get_alphabet [OF pos e(2)] by simp
  have g2: "get ?e (?p + 2) True = (if length input \<le> 3 * k + 1 then Inr (0, ?p + 3, True, True)
      else Inr ((push_bit 2 b OR drop_bit 6 c) AND 0x3F, ?p + 3, False, True))"
    using get_alphabet [OF pos, of 2] get_padding [OF pos, of 2] e(3) by simp
  have g3: "get ?e (?p + 3) True = (if length input \<le> 3 * k + 2 then Inr (0, ?p + 4, True, True)
      else Inr (c AND 0x3F, ?p + 4, False, True))"
    using get_alphabet [OF pos, of 3] get_padding [OF pos, of 3] e(4) by simp
  have bytes: "take 3 (drop (3 * k) input) = [a] @ (if length input \<le> 3 * k + 1 then [] else [b]) @
      (if length input \<le> 3 * k + 2 then [] else [c])"
    using lt by (auto simp: a_def b_def c_def byte_at_def list_eq_iff_nth_eq nth_Cons' min_def numeral_3_eq_3
        less_Suc_eq intro!: arg_cong [of _ _ "(!) input"])
  have c0: "length input \<le> 3 * k + 1 \<Longrightarrow> b = 0" "length input \<le> 3 * k + 2 \<Longrightarrow> c = 0"
    by (simp_all add: b_def c_def byte_at_def)
  show ?thesis
    unfolding decode_group_def bytes
    by (simp add: g0 g1 [simplified] g2 [simplified] g3 [simplified] out_indices)
qed

lemma decode_loop_encoded:
  assumes "k \<le> groups input"
  shows "decode_loop (encode_base64 input) (4 * k) (take (3 * k) input) = Inr input"
  using assms
proof (induction "groups input - k" arbitrary: k)
  case 0
  then have "length input \<le> 3 * k" unfolding groups_def by linarith
  then show ?case using 0 by (subst decode_loop.simps) (simp add: length_encode)
next
  case (Suc n)
  then have k: "k < groups input" by simp
  have "take (3 * k) input @ take 3 (drop (3 * k) input) = take (3 * Suc k) input"
    using take_add [of "3 * k" 3 input] by (simp add: algebra_simps)
  then have "decode_loop (encode_base64 input) (4 * k) (take (3 * k) input) =
      decode_loop (encode_base64 input) (4 * Suc k) (take (3 * Suc k) input)"
    using decode_group_encoded [OF k] k by (subst decode_loop.simps) (simp add: length_encode)
  also have "\<dots> = Inr input" using Suc by (intro Suc.hyps) simp_all
  finally show ?case .
qed

lemma rounded_length: "4 * ((n + 2) div 3) = 4 * n div 3 + 3 - (4 * n div 3 + 3) mod 4" for n :: nat
proof -
  define q where "q = n div 3"
  consider "n = 3 * q" | "n = 3 * q + 1" | "n = 3 * q + 2" unfolding q_def by linarith
  then show ?thesis
  proof cases
    case 2
    then have "4 * n div 3 = 4 * q + 1" "(n + 2) div 3 = q + 1" by linarith+
    then show ?thesis by simp
  next
    case 3
    then have "4 * n div 3 = 4 * q + 2" "(n + 2) div 3 = q + 1" by linarith+
    then show ?thesis by (simp add: mod_Suc)
  qed (simp add: mod_Suc)
qed

text \<open>
  C18. Decoding what the encoder wrote gives the bytes back, for every input; the encoder writes exactly as
  many characters as it computed beforehand.
\<close>

theorem base64_round_trip:
  "decode_base64 (encode_base64 input) = Inr input \<and>
   length (encode_base64 input) = calculate_base64_encoded_length input"
proof
  show "decode_base64 (encode_base64 input) = Inr input"
    using decode_loop_encoded [of 0 input] by (simp add: decode_base64_def)
  show "length (encode_base64 input) = calculate_base64_encoded_length input"
    unfolding length_encode groups_def calculate_base64_encoded_length_def Let_def by (rule rounded_length)
qed

end
