(* ===== verification/Checked.thy ===== *)
theory Checked
  imports AK_Prelude
begin

text \<open>
  \<open>AK/Checked.h\<close>: integers that remember an overflow. An integral type is its width and signedness; its
  values are the integers in its range, \<open>convert\<close> is the conversion to it, and the compiler's
  \<open>__builtin_add_overflow\<close> and its kin yield the converted result and whether it differs from the exact one.
  A failed \<open>VERIFY\<close> is an error value.
\<close>

section \<open>Integral types\<close>

record int_type =
  width :: nat
  is_signed :: bool

definition type_min :: "int_type \<Rightarrow> int" where
  "type_min t = (if is_signed t then - (2 ^ (width t - 1)) else 0)"

definition type_max :: "int_type \<Rightarrow> int" where
  "type_max t = (if is_signed t then 2 ^ (width t - 1) - 1 else 2 ^ width t - 1)"

definition in_type :: "int_type \<Rightarrow> int \<Rightarrow> bool" where
  "in_type t x \<longleftrightarrow> type_min t \<le> x \<and> x \<le> type_max t"

definition convert :: "int_type \<Rightarrow> int \<Rightarrow> int" where
  "convert t x = (if is_signed t then (x + 2 ^ (width t - 1)) mod 2 ^ width t - 2 ^ (width t - 1)
                  else x mod 2 ^ width t)"

definition builtin_overflow :: "int_type \<Rightarrow> int \<Rightarrow> int \<times> bool" where
  "builtin_overflow t exact = (convert t exact, \<not> in_type t exact)"

text \<open>The specialisations of \<open>TypeBoundsChecker\<close>: wider destination, signed destination, signed source.\<close>

definition is_within_range :: "int_type \<Rightarrow> int_type \<Rightarrow> int \<Rightarrow> bool" where
  "is_within_range destination source value =
     (case (width destination \<ge> width source, is_signed destination, is_signed source) of
        (False, False, False) \<Rightarrow> value \<le> type_max destination
      | (False, True, True) \<Rightarrow> value \<le> type_max destination \<and> type_min destination \<le> value
      | (False, False, True) \<Rightarrow> value \<ge> 0 \<and> value \<le> type_max destination
      | (False, True, False) \<Rightarrow> value \<le> convert source (type_max destination)
      | (True, False, False) \<Rightarrow> True
      | (True, True, True) \<Rightarrow> True
      | (True, False, True) \<Rightarrow> value \<ge> 0
      | (True, True, False) \<Rightarrow>
          (if width destination > width source then True else value \<le> convert source (type_max destination)))"

section \<open>The class\<close>

record checked =
  m_value :: int
  m_overflow :: bool

definition flagged :: "int \<Rightarrow> bool \<Rightarrow> checked" where
  "flagged v ov = \<lparr>m_value = v, m_overflow = ov\<rparr>"

definition checked_of :: "int \<Rightarrow> checked" where
  "checked_of value = flagged value False"

definition checked_from :: "int_type \<Rightarrow> int_type \<Rightarrow> int \<Rightarrow> checked" where
  "checked_from t source value = flagged (convert t value) (\<not> is_within_range t source value)"

text \<open>
  Copies: from a const object, and from an object that may be changed, which is left zero. The second is
  also what \<open>Checked old { *this }\<close> runs.
\<close>

definition copy_const :: "checked \<Rightarrow> checked" where
  "copy_const other = other"

definition copy_exchange :: "checked \<Rightarrow> checked \<times> checked" where
  "copy_exchange other = (flagged (m_value other) (m_overflow other), flagged 0 False)"

definition assign_from :: "int_type \<Rightarrow> int_type \<Rightarrow> int \<Rightarrow> checked" where
  "assign_from t source value = checked_from t source value"

definition move_assign_checked :: "checked \<Rightarrow> checked \<times> checked" where
  "move_assign_checked other = (flagged (m_value other) (m_overflow other), flagged 0 False)"

definition has_overflow :: "checked \<Rightarrow> bool" where
  "has_overflow c = m_overflow c"

definition checked_not :: "checked \<Rightarrow> bool error_or" where
  "checked_not c = verify (\<not> m_overflow c) (Inr (m_value c = 0))"

definition checked_value :: "checked \<Rightarrow> int error_or" where
  "checked_value c = verify (\<not> m_overflow c) (Inr (m_value c))"

definition with_builtin :: "int_type \<Rightarrow> int \<Rightarrow> checked \<Rightarrow> checked" where
  "with_builtin t exact c =
     (let (v, ov) = builtin_overflow t exact in c\<lparr>m_value := v, m_overflow := m_overflow c \<or> ov\<rparr>)"

definition add :: "int_type \<Rightarrow> int \<Rightarrow> checked \<Rightarrow> checked" where
  "add t other c = with_builtin t (m_value c + other) c"

definition sub :: "int_type \<Rightarrow> int \<Rightarrow> checked \<Rightarrow> checked" where
  "sub t other c = with_builtin t (m_value c - other) c"

definition mul :: "int_type \<Rightarrow> int \<Rightarrow> checked \<Rightarrow> checked" where
  "mul t other c = with_builtin t (m_value c * other) c"

text \<open>The division of C++ rounds towards zero.\<close>

definition quot_to_zero :: "int \<Rightarrow> int \<Rightarrow> int" where
  "quot_to_zero a b = sgn a * sgn b * (\<bar>a\<bar> div \<bar>b\<bar>)"

definition div_checked :: "int_type \<Rightarrow> int \<Rightarrow> checked \<Rightarrow> checked" where
  "div_checked t other c =
     (if is_signed t \<and> other = - 1 \<and> m_value c = type_min t then c\<lparr>m_overflow := True\<rparr>
      else if other = 0 then c\<lparr>m_overflow := True\<rparr>
      else c\<lparr>m_value := quot_to_zero (m_value c) other\<rparr>)"

definition saturating_sub :: "int_type \<Rightarrow> int \<Rightarrow> checked \<Rightarrow> checked" where
  "saturating_sub t other c =
     (let c = sub t other c;
          c = (if m_overflow c \<and> other \<le> 0 then c\<lparr>m_value := type_max t\<rparr>
               else if m_overflow c then c\<lparr>m_value := type_min t\<rparr> else c)
      in c\<lparr>m_overflow := False\<rparr>)"

definition saturating_add :: "int_type \<Rightarrow> int \<Rightarrow> checked \<Rightarrow> checked" where
  "saturating_add t other c =
     (let c = add t other c;
          c = (if m_overflow c \<and> other \<ge> 0 then c\<lparr>m_value := type_max t\<rparr>
               else if m_overflow c then c\<lparr>m_value := type_min t\<rparr> else c)
      in c\<lparr>m_overflow := False\<rparr>)"

text \<open>
  The assignments with a \<open>Checked\<close> on the right (the one that adds is spelled \<open>operator!=\<close>) fold in its flag
  and then need its value.
\<close>

definition with_checked :: "(int \<Rightarrow> checked \<Rightarrow> checked) \<Rightarrow> checked \<Rightarrow> checked \<Rightarrow> checked error_or" where
  "with_checked f other c =
     try_then (checked_value other) (\<lambda>v. Inr (f v (c\<lparr>m_overflow := m_overflow c \<or> m_overflow other\<rparr>)))"

definition not_equal_assign :: "int_type \<Rightarrow> checked \<Rightarrow> checked \<Rightarrow> checked error_or" where
  "not_equal_assign t = with_checked (add t)"

definition sub_assign :: "int_type \<Rightarrow> checked \<Rightarrow> checked \<Rightarrow> checked error_or" where
  "sub_assign t = with_checked (sub t)"

definition mul_assign :: "int_type \<Rightarrow> checked \<Rightarrow> checked \<Rightarrow> checked error_or" where
  "mul_assign t = with_checked (mul t)"

definition div_assign :: "int_type \<Rightarrow> checked \<Rightarrow> checked \<Rightarrow> checked error_or" where
  "div_assign t = with_checked (div_checked t)"

text \<open>The increments; the postfix forms return the old value and the new one of the object.\<close>

definition pre_increment :: "int_type \<Rightarrow> checked \<Rightarrow> checked" where
  "pre_increment t c = add t 1 c"

definition post_increment :: "int_type \<Rightarrow> checked \<Rightarrow> checked \<times> checked" where
  "post_increment t c = (case copy_exchange c of (old, this) \<Rightarrow> (old, add t 1 this))"

definition pre_decrement :: "int_type \<Rightarrow> checked \<Rightarrow> checked" where
  "pre_decrement t c = sub t 1 c"

definition post_decrement :: "int_type \<Rightarrow> checked \<Rightarrow> checked \<times> checked" where
  "post_decrement t c = (case copy_exchange c of (old, this) \<Rightarrow> (old, sub t 1 this))"

text \<open>\<open>+= v\<close> converts \<open>v\<close> to the type; \<open>*= v\<close> makes a \<open>Checked\<close> of it first.\<close>

definition addition_would_overflow_in :: "int_type \<Rightarrow> int_type \<Rightarrow> int \<Rightarrow> int \<Rightarrow> bool" where
  "addition_would_overflow_in t source_u u v =
     has_overflow (add t (convert t v) (assign_from t source_u u))"

definition multiplication_would_overflow ::
    "int_type \<Rightarrow> int_type \<Rightarrow> int_type \<Rightarrow> int_type \<Rightarrow> int \<Rightarrow> int \<Rightarrow> int \<Rightarrow> bool error_or" where
  "multiplication_would_overflow t source_u source_v source_x u v x =
     try_then (mul_assign t (checked_from t source_v v) (assign_from t source_u u)) (\<lambda>c.
     try_then (mul_assign t (checked_from t source_x x) c) (\<lambda>c. Inr (has_overflow c)))"

text \<open>The binary operators; \<open>operator-\<close> adds.\<close>

definition binary :: "(int \<Rightarrow> checked \<Rightarrow> checked) \<Rightarrow> checked \<Rightarrow> checked \<Rightarrow> checked error_or" where
  "binary f a b = try_then (checked_value b) (\<lambda>v. Inr (f v (copy_const a)))"

definition checked_plus :: "int_type \<Rightarrow> checked \<Rightarrow> checked \<Rightarrow> checked error_or" where
  "checked_plus t a b = binary (add t) a b"

definition checked_minus :: "int_type \<Rightarrow> checked \<Rightarrow> checked \<Rightarrow> checked error_or" where
  "checked_minus t a b = binary (add t) a b"

definition checked_times :: "int_type \<Rightarrow> checked \<Rightarrow> checked \<Rightarrow> checked error_or" where
  "checked_times t a b = binary (mul t) a b"

definition checked_divide :: "int_type \<Rightarrow> checked \<Rightarrow> checked \<Rightarrow> checked error_or" where
  "checked_divide t a b = binary (div_checked t) a b"

text \<open>Comparisons with a plain value, on either side.\<close>

definition compare_right :: "(int \<Rightarrow> int \<Rightarrow> bool) \<Rightarrow> checked \<Rightarrow> int \<Rightarrow> bool error_or" where
  "compare_right f a b = try_then (checked_value a) (\<lambda>v. Inr (f v b))"

definition compare_left :: "(int \<Rightarrow> int \<Rightarrow> bool) \<Rightarrow> int \<Rightarrow> checked \<Rightarrow> bool error_or" where
  "compare_left f a b = try_then (checked_value b) (\<lambda>v. Inr (f a v))"

definition make_checked :: "int \<Rightarrow> checked" where
  "make_checked value = checked_of value"

section \<open>Ranges\<close>

lemma power_half: "0 < w \<Longrightarrow> (2 :: int) ^ w = 2 * 2 ^ (w - 1)"
  by (simp flip: power_Suc)

lemma power_le: "a \<le> b \<Longrightarrow> (2 :: int) ^ a \<le> 2 ^ b"
  by (simp add: power_increasing)

lemma convert_in_type: "in_type t x \<Longrightarrow> 0 < width t \<Longrightarrow> convert t x = x"
  using power_half [of "width t"]
  by (auto simp: convert_def in_type_def type_min_def type_max_def mod_pos_pos_trivial)

text \<open>The range test is exact: every specialisation decides whether the destination has the value.\<close>

lemma is_within_range_iff:
  assumes t: "0 < width t" and s: "0 < width s" and x: "in_type s x"
  shows "is_within_range t s x \<longleftrightarrow> in_type t x"
proof (cases "width s \<le> width t")
  case wider: True
  have "(2 :: int) ^ (width s - 1) \<le> 2 ^ (width t - 1)" "(2 :: int) ^ width s \<le> 2 ^ width t"
    using wider by (auto intro: power_le)
  moreover have "width s < width t \<Longrightarrow> (2 :: int) ^ width s \<le> 2 ^ (width t - 1)" by (intro power_le) simp
  moreover have "is_signed t \<Longrightarrow> \<not> is_signed s \<Longrightarrow> \<not> width s < width t \<Longrightarrow> convert s (type_max t) = type_max t"
    using wider power_half [OF s] s t by (intro convert_in_type) (auto simp: in_type_def type_min_def type_max_def
        intro: less_le_trans [of _ 0])
  ultimately show ?thesis
    using x wider power_half [OF t] power_half [OF s]
    by (cases "is_signed t"; cases "is_signed s")
      (auto simp: is_within_range_def in_type_def type_min_def type_max_def simp del: power_increasing_iff)
next
  case False
  have "(2 :: int) ^ (width t - 1) \<le> 2 ^ (width s - 1)" "(2 :: int) ^ width t \<le> 2 ^ (width s - 1)"
    using False by (auto intro: power_le)
  moreover have "is_signed t \<Longrightarrow> \<not> is_signed s \<Longrightarrow> convert s (type_max t) = type_max t"
    using False calculation power_half [OF s] power_half [OF t] zero_less_power [of "2 :: int" "width t - 1"]
    by (intro convert_in_type) (auto simp: in_type_def type_min_def type_max_def s simp del: zero_less_power)
  ultimately show ?thesis
    using x False power_half [OF t] power_half [OF s]
    by (cases "is_signed t"; cases "is_signed s")
      (auto simp: is_within_range_def in_type_def type_min_def type_max_def simp del: power_increasing_iff)
qed

section \<open>Sequences of operations\<close>

datatype checked_op = Add int | Sub int | Mul int | Div int

fun operand :: "checked_op \<Rightarrow> int" where
  "operand (Add y) = y" | "operand (Sub y) = y" | "operand (Mul y) = y" | "operand (Div y) = y"

fun run_op :: "int_type \<Rightarrow> checked_op \<Rightarrow> checked \<Rightarrow> checked" where
  "run_op t (Add y) c = add t y c"
| "run_op t (Sub y) c = sub t y c"
| "run_op t (Mul y) c = mul t y c"
| "run_op t (Div y) c = div_checked t y c"

text \<open>The same on integers: there is no result when one is outside the type, or undefined.\<close>

fun exact_op :: "checked_op \<Rightarrow> int \<Rightarrow> int option" where
  "exact_op (Add y) x = Some (x + y)"
| "exact_op (Sub y) x = Some (x - y)"
| "exact_op (Mul y) x = Some (x * y)"
| "exact_op (Div y) x = (if y = 0 then None else Some (quot_to_zero x y))"

definition exact_step :: "int_type \<Rightarrow> checked_op \<Rightarrow> int option \<Rightarrow> int option" where
  "exact_step t opn r = Option.bind r (\<lambda>x. case exact_op opn x of
     None \<Rightarrow> None | Some y \<Rightarrow> if in_type t y then Some y else None)"

lemma quot_in_type:
  assumes "0 < width t" and "in_type t a" "in_type t b" and "b \<noteq> 0"
  shows "in_type t (quot_to_zero a b) \<longleftrightarrow> \<not> (is_signed t \<and> b = - 1 \<and> a = type_min t)"
proof (cases "is_signed t")
  case False
  then have "0 \<le> a" "0 < b" using assms by (auto simp: in_type_def type_min_def)
  then have "quot_to_zero a b = a div b" "0 \<le> a div b" "a div b \<le> a"
    using zdiv_mono2 [of a 1 b] by (auto simp: quot_to_zero_def sgn_if pos_imp_zdiv_nonneg_iff)
  with False assms(2) show ?thesis by (auto simp: in_type_def type_min_def)
next
  case True
  define M :: int where "M = 2 ^ (width t - 1)"
  have M: "type_min t = - M" "type_max t = M - 1" "0 < M"
    using True by (simp_all add: type_min_def type_max_def M_def)
  have a: "- M \<le> a" "a < M" using assms(2) by (auto simp: in_type_def M)
  consider "b = 1" | "b = - 1" | "2 \<le> \<bar>b\<bar>" using assms(4) by linarith
  then show ?thesis
  proof cases
    case 1
    then have "quot_to_zero a b = a" by (simp add: quot_to_zero_def sgn_mult_abs)
    with 1 assms(2) show ?thesis by simp
  next
    case 2
    then have "quot_to_zero a b = - a" by (simp add: quot_to_zero_def sgn_mult_abs)
    with 2 a True show ?thesis by (auto simp: in_type_def M)
  next
    case 3
    have "\<bar>a\<bar> div \<bar>b\<bar> \<le> \<bar>a\<bar> div 2" using 3 by (intro zdiv_mono2) auto
    also have "\<dots> < M" using a M(3) by linarith
    finally have "\<bar>a\<bar> div \<bar>b\<bar> < M" .
    moreover have "0 \<le> \<bar>a\<bar> div \<bar>b\<bar>" using 3 by (simp add: pos_imp_zdiv_nonneg_iff)
    ultimately have "- M \<le> quot_to_zero a b \<and> quot_to_zero a b < M"
      by (auto simp: quot_to_zero_def sgn_if)
    with 3 True show ?thesis by (auto simp: in_type_def M)
  qed
qed

lemma run_op_exact:
  assumes "0 < width t" and "in_type t (operand opn)" and "in_type t (m_value c)" and "\<not> m_overflow c"
  shows "case exact_step t opn (Some (m_value c)) of
      None \<Rightarrow> m_overflow (run_op t opn c) | Some y \<Rightarrow> run_op t opn c = flagged y False \<and> in_type t y"
  using assms quot_in_type [OF assms(1,3), of "operand opn"]
  by (cases opn) (auto simp: exact_step_def add_def sub_def mul_def div_checked_def with_builtin_def
      builtin_overflow_def flagged_def convert_in_type split: if_splits)

lemma run_op_sticky: "m_overflow c \<Longrightarrow> m_overflow (run_op t opn c)"
  by (cases opn) (auto simp: add_def sub_def mul_def div_checked_def with_builtin_def builtin_overflow_def)

lemma run_sticky: "m_overflow c \<Longrightarrow> m_overflow (fold (run_op t) ops c)"
  by (induction ops arbitrary: c) (simp_all add: run_op_sticky)

lemma exact_none: "fold (exact_step t) ops None = None"
  by (induction ops) (simp_all add: exact_step_def)

section \<open>Properties\<close>

lemma run_ops_exact:
  assumes "0 < width t" and "in_type t v" and "\<forall>opn \<in> set ops. in_type t (operand opn)"
  shows "case fold (exact_step t) ops (Some v) of
      None \<Rightarrow> has_overflow (fold (run_op t) ops (checked_of v))
    | Some x \<Rightarrow> \<not> has_overflow (fold (run_op t) ops (checked_of v)) \<and>
        checked_value (fold (run_op t) ops (checked_of v)) = Inr x"
  using assms(2,3)
proof (induction ops arbitrary: v)
  case Nil
  then show ?case by (simp add: checked_of_def flagged_def has_overflow_def checked_value_def)
next
  case (Cons opn ops)
  have "case exact_step t opn (Some v) of
      None \<Rightarrow> m_overflow (run_op t opn (checked_of v)) | Some y \<Rightarrow> run_op t opn (checked_of v) = flagged y False \<and> in_type t y"
    using run_op_exact [OF assms(1), of opn "checked_of v"] Cons.prems by (simp add: checked_of_def flagged_def)
  then consider "exact_step t opn (Some v) = None" "m_overflow (run_op t opn (checked_of v))"
    | y where "exact_step t opn (Some v) = Some y" "run_op t opn (checked_of v) = checked_of y" "in_type t y"
    by (auto simp: checked_of_def split: option.splits)
  then show ?case
  proof cases
    case 1
    then show ?thesis using run_sticky [of "run_op t opn (checked_of v)" t ops] exact_none [of t ops]
      by (simp add: has_overflow_def)
  next
    case 2
    then show ?thesis using Cons.IH [of y] Cons.prems by (simp split: option.splits)
  qed
qed

text \<open>
  C19. An object made from a value of any integral type and taken through any sequence of additions,
  subtractions, multiplications and divisions by values of its own type has its flag set exactly if the
  value given or some intermediate result does not exist or does not fit the type, and while the flag is not
  set its value is the exact result.
\<close>

theorem checked_arithmetic_exact:
  assumes "0 < width t" and "0 < width source" and "in_type source v"
    and "\<forall>opn \<in> set ops. in_type t (operand opn)"
  shows "case fold (exact_step t) ops (if in_type t v then Some v else None) of
      None \<Rightarrow> has_overflow (fold (run_op t) ops (checked_from t source v))
    | Some x \<Rightarrow> \<not> has_overflow (fold (run_op t) ops (checked_from t source v)) \<and>
        checked_value (fold (run_op t) ops (checked_from t source v)) = Inr x"
proof (cases "in_type t v")
  case True
  then have "checked_from t source v = checked_of v"
    using is_within_range_iff [OF assms(1-3)] convert_in_type [OF True assms(1)]
    by (simp add: checked_from_def checked_of_def)
  then show ?thesis using run_ops_exact [OF assms(1) True assms(4)] True by (simp split: option.splits)
next
  case False
  then have "m_overflow (checked_from t source v)"
    using is_within_range_iff [OF assms(1-3)] by (simp add: checked_from_def flagged_def)
  then show ?thesis using False run_sticky [of _ t ops] by (simp add: exact_none has_overflow_def)
qed

theorem checked_arithmetic_exact_witness:
  "has_overflow (fold (run_op \<lparr>width = 8, is_signed = True\<rparr>) [Add 27, Div (- 1), Sub 2, Div 0]
     (checked_from \<lparr>width = 8, is_signed = True\<rparr> \<lparr>width = 8, is_signed = False\<rparr> 100)) \<and>
   checked_value (fold (run_op \<lparr>width = 8, is_signed = True\<rparr>) [Add 27, Div (- 1), Sub 1]
     (checked_from \<lparr>width = 8, is_signed = True\<rparr> \<lparr>width = 8, is_signed = False\<rparr> 100)) = Inr (- 128)"
  using checked_arithmetic_exact [of "\<lparr>width = 8, is_signed = True\<rparr>" "\<lparr>width = 8, is_signed = False\<rparr>" 100
      "[Add 27, Div (- 1), Sub 2, Div 0]"]
    checked_arithmetic_exact [of "\<lparr>width = 8, is_signed = True\<rparr>" "\<lparr>width = 8, is_signed = False\<rparr>" 100
      "[Add 27, Div (- 1), Sub 1]"]
  by (simp add: exact_step_def in_type_def type_min_def type_max_def quot_to_zero_def)

text \<open>
  The saturating operations return the exact result cut to the range of the type, and never flag an
  overflow.
\<close>

theorem saturating_clamps:
  assumes "0 < width t" and "in_type t v" and "in_type t other"
  shows "saturating_add t other (checked_of v) = flagged (max (type_min t) (min (type_max t) (v + other))) False \<and>
         saturating_sub t other (checked_of v) = flagged (max (type_min t) (min (type_max t) (v - other))) False"
  using assms convert_in_type [OF _ assms(1), of "v + other"] convert_in_type [OF _ assms(1), of "v - other"]
  by (auto simp: saturating_add_def saturating_sub_def add_def sub_def with_builtin_def builtin_overflow_def
      checked_of_def flagged_def Let_def in_type_def)

theorem saturating_clamps_witness:
  "saturating_add \<lparr>width = 8, is_signed = False\<rparr> 100 (checked_of 200) = flagged 255 False"
  using saturating_clamps [of "\<lparr>width = 8, is_signed = False\<rparr>" 200 100]
  by (simp add: in_type_def type_min_def type_max_def)

text \<open>
  What the code does against its names: \<open>operator-\<close> adds, and the postfix increment counts from zero,
  because making the old copy takes the value away.
\<close>

lemma checked_minus_adds: "checked_minus t a b = checked_plus t a b"
  by (simp add: checked_minus_def checked_plus_def)

lemma post_increment_restarts: "snd (post_increment t c) = add t 1 (checked_of 0)"
  by (simp add: post_increment_def copy_exchange_def checked_of_def)

end
