(* ===== verification/CircularQueue.thy ===== *)
theory CircularQueue
  imports AK_Prelude
begin

text \<open>
  \<open>AK/CircularQueue.h\<close>: a ring of \<open>Capacity\<close> slots. A slot is \<open>None\<close> while no object lives in it. The
  queue is shown to be a list that forgets its oldest element when it is full.
\<close>

section \<open>The interface of a bounded queue\<close>

text \<open>
  \<open>put\<close> drops the oldest element of a full queue, \<open>take_first\<close> refuses an empty one. A request to the queue
  is \<open>Some x\<close> for putting \<open>x\<close> and \<open>None\<close> for taking; \<open>serve\<close> collects what is taken.
\<close>

fun serve :: "('a \<Rightarrow> 'q \<Rightarrow> 'q) \<Rightarrow> ('q \<Rightarrow> ('a \<times> 'q) error_or) \<Rightarrow> 'a option list \<Rightarrow> 'q \<Rightarrow> ('a list \<times> 'q) error_or" where
  "serve put take_first [] q = Inr ([], q)"
| "serve put take_first (Some x # rs) q = serve put take_first rs (put x q)"
| "serve put take_first (None # rs) q =
     try_then (take_first q) (\<lambda>(x, q). try_then (serve put take_first rs q) (\<lambda>(xs, q). Inr (x # xs, q)))"

fun list_put :: "nat \<Rightarrow> 'a \<Rightarrow> 'a list \<Rightarrow> 'a list" where
  "list_put n x xs = (if length xs = n then tl xs @ [x] else xs @ [x])"

fun list_take :: "'a list \<Rightarrow> ('a \<times> 'a list) error_or" where
  "list_take [] = Inl VerifyFailed"
| "list_take (x # xs) = Inr (x, xs)"

locale bounded_queue =
  fixes put :: "'a \<Rightarrow> 'q \<Rightarrow> 'q" and take_first :: "'q \<Rightarrow> ('a \<times> 'q) error_or"
    and contents :: "'q \<Rightarrow> 'a list" and ok :: "'q \<Rightarrow> bool" and room :: "'q \<Rightarrow> nat"
  assumes room_pos: "ok q \<Longrightarrow> 0 < room q"
    and bounded: "ok q \<Longrightarrow> length (contents q) \<le> room q"
    and put_room: "ok q \<Longrightarrow> room (put x q) = room q"
    and put_ok: "ok q \<Longrightarrow> ok (put x q)"
    and put_contents: "ok q \<Longrightarrow> contents (put x q) = list_put (room q) x (contents q)"
    and take_empty: "ok q \<Longrightarrow> contents q = [] \<Longrightarrow> take_first q = Inl VerifyFailed"
    and take_cons: "ok q \<Longrightarrow> contents q = x # xs \<Longrightarrow> \<exists>q'. take_first q = Inr (x, q') \<and> contents q' = xs \<and> ok q' \<and> room q' = room q"
begin

lemma serve_simulates:
  "ok q \<Longrightarrow>
   (case serve (list_put (room q)) list_take rs (contents q) of
      Inl e \<Rightarrow> serve put take_first rs q = Inl e
    | Inr (xs, final) \<Rightarrow> \<exists>q'. serve put take_first rs q = Inr (xs, q') \<and> contents q' = final \<and> ok q' \<and> room q' = room q)"
proof (induction rs arbitrary: q)
  case Nil
  then show ?case by simp
next
  case step: (Cons r rs)
  show ?case
  proof (cases r)
    case (Some x)
    with step.IH [OF put_ok [OF step.prems, of x]] show ?thesis
      by (simp add: put_contents [OF step.prems] put_room [OF step.prems] del: list_put.simps split: sum.splits prod.splits)
  next
    case None
    show ?thesis
    proof (cases "contents q")
      case Nil
      then show ?thesis using None take_empty [OF step.prems] by simp
    next
      case (Cons x xs)
      then obtain q' where "take_first q = Inr (x, q')" "contents q' = xs" "ok q'" "room q' = room q"
        using take_cons [OF step.prems] by blast
      with step.IH [of q'] None Cons show ?thesis by (auto split: sum.splits)
    qed
  qed
qed

lemma put_all:
  "ok q \<Longrightarrow> contents (fold put xs q) = drop (length (contents q @ xs) - room q) (contents q @ xs) \<and> ok (fold put xs q)"
proof (induction xs arbitrary: q)
  case Nil
  then show ?case using bounded [of q] by simp
next
  case (Cons x xs)
  have "contents (fold put (x # xs) q) =
      drop (length (list_put (room q) x (contents q) @ xs) - room q) (list_put (room q) x (contents q) @ xs)"
    using Cons.IH [OF put_ok [OF Cons.prems]] put_contents [OF Cons.prems] put_room [OF Cons.prems] by simp
  also have "\<dots> = drop (length (contents q @ x # xs) - room q) (contents q @ x # xs)"
  proof (cases "length (contents q) = room q")
    case True
    with room_pos [OF Cons.prems] obtain y ys where q: "contents q = y # ys" by (cases "contents q") auto
    then have "length (contents q @ x # xs) - room q = Suc (length (ys @ x # xs) - room q)"
      using True by simp
    then show ?thesis using True q by simp
  next
    case False
    then show ?thesis by simp
  qed
  finally show ?case using Cons.IH [OF put_ok [OF Cons.prems]] by simp
qed

end

section \<open>The ring\<close>

record 'a ring =
  storage :: "'a option list"
  count_used :: nat
  head :: nat

text \<open>Indices are \<open>size_t\<close>, whose sums wrap around.\<close>

definition size_add :: "nat \<Rightarrow> nat \<Rightarrow> nat" where
  "size_add a b = (a + b) mod 2 ^ 64"

definition capacity :: "'a ring \<Rightarrow> nat" where
  "capacity q = length (storage q)"

definition slot_of :: "'a ring \<Rightarrow> nat \<Rightarrow> nat" where
  "slot_of q i = size_add (head q) i mod capacity q"

definition ring_new :: "nat \<Rightarrow> 'a ring" where
  "ring_new cap = \<lparr>storage = replicate cap None, count_used = 0, head = 0\<rparr>"

definition ring_clear :: "'a ring \<Rightarrow> 'a ring" where
  "ring_clear q = \<lparr>storage = fold (\<lambda>i s. s[slot_of q i := None]) [0..<count_used q] (storage q),
                   count_used = 0, head = 0\<rparr>"

definition ring_is_empty :: "'a ring \<Rightarrow> bool" where
  "ring_is_empty q \<longleftrightarrow> count_used q = 0"

definition enqueue :: "'a \<Rightarrow> 'a ring \<Rightarrow> 'a ring" where
  "enqueue value q =
     (let slot = slot_of q (count_used q);
          s = (if count_used q = capacity q then (storage q)[slot := None] else storage q);
          s = s[slot := Some value]
      in if count_used q = capacity q
         then q\<lparr>storage := s, head := size_add (head q) 1 mod capacity q\<rparr>
         else q\<lparr>storage := s, count_used := count_used q + 1\<rparr>)"

definition dequeue :: "'a ring \<Rightarrow> ('a \<times> 'a ring) error_or" where
  "dequeue q =
     verify (\<not> ring_is_empty q)
       (let value = the (storage q ! head q)
        in Inr (value, q\<lparr>storage := (storage q)[head q := None],
                         head := size_add (head q) 1 mod capacity q, count_used := count_used q - 1\<rparr>))"

text \<open>\<open>at\<close> tests nothing; \<open>None\<close> is the read of a slot without an object. \<open>size() - 1\<close> wraps around.\<close>

definition ring_at :: "'a ring \<Rightarrow> nat \<Rightarrow> 'a option" where
  "ring_at q i = storage q ! slot_of q i"

definition ring_first :: "'a ring \<Rightarrow> 'a option" where
  "ring_first q = ring_at q 0"

definition ring_last :: "'a ring \<Rightarrow> 'a option" where
  "ring_last q = ring_at q ((count_used q + 2 ^ 64 - 1) mod 2 ^ 64)"

definition ring_iterate :: "'a ring \<Rightarrow> 'a option list" where
  "ring_iterate q = map (ring_at q) [0..<count_used q]"

section \<open>Invariant and contents\<close>

definition queued :: "'a ring \<Rightarrow> 'a list" where
  "queued q = map (\<lambda>i. the (storage q ! ((head q + i) mod length (storage q)))) [0..<count_used q]"

lemma nth_queued: "i < count_used q \<Longrightarrow> queued q ! i = the (storage q ! ((head q + i) mod length (storage q)))"
  by (simp add: queued_def)

text \<open>Exactly the slots of the queued elements hold an object, so none is leaked or destroyed twice.\<close>

definition ring_ok :: "nat \<Rightarrow> 'a ring \<Rightarrow> bool" where
  "ring_ok cap q \<longleftrightarrow> length (storage q) = cap \<and> count_used q \<le> cap \<and> head q < cap \<and> cap < 2 ^ 63 \<and>
     (\<forall>i < cap. storage q ! ((head q + i) mod cap) \<noteq> None \<longleftrightarrow> i < count_used q)"

lemma queued_length [simp]: "length (queued q) = count_used q"
  by (simp add: queued_def)

lemma mod_add_cases: "h < n \<Longrightarrow> i < n \<Longrightarrow> (h + i) mod n = (if h + i < n then h + i else h + i - n)" for h :: nat
  by (simp add: mod_if)

lemma mod_add_back: "h < n \<Longrightarrow> i < n \<Longrightarrow> h = (h + (i + 1)) mod n \<longleftrightarrow> i + 1 = n" for h :: nat
  by (cases "i + 1 = n") (auto simp: mod_if)

lemma slot_of_ok: "ring_ok cap q \<Longrightarrow> i \<le> cap \<Longrightarrow> slot_of q i = (head q + i) mod cap"
  by (simp add: ring_ok_def slot_of_def size_add_def capacity_def)

lemma ring_new_ok: "0 < cap \<Longrightarrow> cap < 2 ^ 63 \<Longrightarrow> ring_ok cap (ring_new cap :: 'a ring) \<and> queued (ring_new cap :: 'a ring) = []"
  by (simp add: ring_ok_def ring_new_def queued_def)

lemma enqueue_ok:
  assumes ok: "ring_ok cap q"
  shows "ring_ok cap (enqueue x q) \<and> queued (enqueue x q) = list_put cap x (queued q)"
proof (cases "count_used q = cap")
  case True
  then have q: "enqueue x q = q\<lparr>storage := (storage q)[head q := Some x], head := (head q + 1) mod cap\<rparr>"
    using ok slot_of_ok [OF ok, of cap] by (simp add: enqueue_def capacity_def ring_ok_def size_add_def Let_def)
  have full: "\<And>i. i < cap \<Longrightarrow> storage q ! ((head q + i) mod cap) \<noteq> None" and h: "head q < cap" and l: "length (storage q) = cap"
    using ok True by (auto simp: ring_ok_def)
  have shift: "((head q + 1) mod cap + i) mod cap = (head q + (i + 1)) mod cap" for i by (simp add: mod_simps)
  have at: "(storage (enqueue x q)) ! ((head (enqueue x q) + i) mod cap) =
      (if i + 1 = cap then Some x else storage q ! ((head q + (i + 1)) mod cap))" if "i < cap" for i
    using that h l mod_add_back [OF h that] by (simp add: q shift nth_list_update del: One_nat_def)
  have ok': "ring_ok cap (enqueue x q)"
    using ok True at full by (simp add: ring_ok_def q shift del: One_nat_def)
  show ?thesis
  proof (intro conjI ok' nth_equalityI)
    show "length (queued (enqueue x q)) = length (list_put cap x (queued q))"
      using True h by (simp add: q)
    fix i assume "i < length (queued (enqueue x q))"
    then have i: "i < cap" using True by (simp add: q)
    have "queued (enqueue x q) ! i = the (storage (enqueue x q) ! ((head (enqueue x q) + i) mod cap))"
      using i True l by (simp add: queued_def q)
    also have "\<dots> = list_put cap x (queued q) ! i"
      unfolding at [OF i] using i True l
      by (auto simp: queued_def nth_append nth_tl not_less less_Suc_eq)
    finally show "queued (enqueue x q) ! i = list_put cap x (queued q) ! i" .
  qed
next
  case False
  then have room: "count_used q < cap" using ok by (simp add: ring_ok_def)
  have h: "head q < cap" and l: "length (storage q) = cap" using ok by (auto simp: ring_ok_def)
  have q: "enqueue x q = q\<lparr>storage := (storage q)[(head q + count_used q) mod cap := Some x], count_used := count_used q + 1\<rparr>"
    using False l slot_of_ok [OF ok, of "count_used q"] room by (simp add: enqueue_def capacity_def Let_def)
  have at: "storage (enqueue x q) ! ((head q + i) mod cap) =
      (if i = count_used q then Some x else storage q ! ((head q + i) mod cap))" if "i < cap" for i
    using that h l room by (auto simp: q mod_add_cases nth_list_update)
  have "ring_ok cap (enqueue x q)" using ok room at by (auto simp: ring_ok_def q)
  moreover have "queued (enqueue x q) = queued q @ [x]"
    using at room l by (auto simp: queued_def q)
  ultimately show ?thesis using False by simp
qed

lemma dequeue_ok:
  assumes ok: "ring_ok cap q" and q: "queued q = x # xs"
  shows "\<exists>q'. dequeue q = Inr (x, q') \<and> queued q' = xs \<and> ring_ok cap q'"
proof -
  define q' where "q' = q\<lparr>storage := (storage q)[head q := None], head := (head q + 1) mod cap, count_used := count_used q - 1\<rparr>"
  have h: "head q < cap" "cap < 2 ^ 63" and l: "length (storage q) = cap" using ok by (auto simp: ring_ok_def)
  have pos: "0 < count_used q" "count_used q \<le> cap" "count_used q = Suc (length xs)"
    using q ok queued_length [of q] by (auto simp: ring_ok_def)
  have x: "x = the (storage q ! head q)"
    using arg_cong [OF q, of "\<lambda>l. l ! 0"] pos(1) h l by (simp add: queued_def del: upt_Suc)
  have deq: "dequeue q = Inr (x, q')"
    using pos h l x by (simp add: dequeue_def ring_is_empty_def q'_def size_add_def capacity_def)
  have shift: "((head q + 1) mod cap + i) mod cap = (head q + (i + 1)) mod cap" for i by (simp add: mod_simps)
  have at: "storage q' ! ((head q' + i) mod cap) =
      (if i + 1 = cap then None else storage q ! ((head q + (i + 1)) mod cap))" if "i < cap" for i
    using that h l mod_add_back [OF h(1) that] by (simp add: q'_def shift nth_list_update del: One_nat_def)
  have slot: "i < cap \<Longrightarrow> storage q ! ((head q + i) mod cap) \<noteq> None \<longleftrightarrow> i < count_used q" for i
    using ok by (simp add: ring_ok_def)
  have "storage q' ! ((head q' + i) mod cap) \<noteq> None \<longleftrightarrow> i < count_used q'" if "i < cap" for i
    unfolding at [OF that] using that pos slot [of "i + 1"] by (auto simp: q'_def)
  moreover have "(head q + 1) mod cap < cap" using h by simp
  ultimately have "ring_ok cap q'" using h l pos by (simp add: ring_ok_def q'_def)
  moreover have "queued q' = xs"
  proof (rule nth_equalityI)
    show "length (queued q') = length xs" using pos by (simp add: q'_def)
    fix i assume "i < length (queued q')"
    then have i: "i + 1 < cap" "i + 1 < count_used q" using pos by (auto simp: q'_def)
    have "queued q' ! i = the (storage q' ! ((head q' + i) mod cap))"
      using i l by (subst nth_queued) (simp_all add: q'_def)
    also have "\<dots> = queued q ! (i + 1)" using i at [of i] l by (simp add: queued_def)
    finally show "queued q' ! i = xs ! i" using q by simp
  qed
  ultimately show ?thesis using deq by blast
qed

lemma dequeue_empty: "queued q = [] \<Longrightarrow> dequeue q = Inl VerifyFailed"
  using queued_length [of q] by (simp add: dequeue_def ring_is_empty_def)

text \<open>The ring provides the interface, whatever its capacity.\<close>

lemma ring_ok_capacity: "ring_ok cap q \<Longrightarrow> capacity q = cap"
  by (simp add: ring_ok_def capacity_def)

lemma enqueue_capacity: "capacity (enqueue x q) = capacity q"
  by (simp add: enqueue_def capacity_def Let_def)

interpretation ring_queue: bounded_queue enqueue dequeue queued "\<lambda>q. ring_ok (capacity q) q" capacity
proof unfold_locales
  fix q :: "'a ring" and x xs
  assume ok: "ring_ok (capacity q) q"
  then show "0 < capacity q" "length (queued q) \<le> capacity q" by (auto simp: ring_ok_def)
  show "capacity (enqueue x q) = capacity q" by (rule enqueue_capacity)
  show "ring_ok (capacity (enqueue x q)) (enqueue x q)" "queued (enqueue x q) = list_put (capacity q) x (queued q)"
    using enqueue_ok [OF ok, of x] by (simp_all add: enqueue_capacity)
  show "queued q = [] \<Longrightarrow> dequeue q = Inl VerifyFailed" by (rule dequeue_empty)
  assume "queued q = x # xs"
  from dequeue_ok [OF ok this] ring_ok_capacity
  show "\<exists>q'. dequeue q = Inr (x, q') \<and> queued q' = xs \<and> ring_ok (capacity q') q' \<and> capacity q' = capacity q"
    by metis
qed

lemma ring_clear_ok:
  assumes ok: "ring_ok cap q"
  shows "ring_clear q = ring_new cap"
proof -
  have l: "length (storage q) = cap" "0 < cap" "count_used q \<le> cap" using ok by (auto simp: ring_ok_def)
  have len: "length (fold (\<lambda>i s. s[slot_of q i := None]) is s) = length s" for "is" s
    by (induction "is" arbitrary: s) auto
  have at: "j < length s \<Longrightarrow> fold (\<lambda>i s. s[slot_of q i := None]) is s ! j =
      (if j \<in> slot_of q ` set is then None else s ! j)" for "is" s j
    by (induction "is" arbitrary: s) (auto simp: nth_list_update)
  have "fold (\<lambda>i s. s[slot_of q i := None]) [0..<count_used q] (storage q) = replicate cap None"
  proof (rule nth_equalityI)
    fix j assume "j < length (fold (\<lambda>i s. s[slot_of q i := None]) [0..<count_used q] (storage q))"
    then have j: "j < cap" using l by (simp add: len)
    have h: "head q < cap" using ok by (simp add: ring_ok_def)
    define i where "i = (j + (cap - head q)) mod cap"
    have i: "i < cap" "(head q + i) mod cap = j" using j h l by (auto simp: i_def mod_simps)
    show "fold (\<lambda>i s. s[slot_of q i := None]) [0..<count_used q] (storage q) ! j = replicate cap None ! j"
    proof (cases "i < count_used q")
      case True
      then have "j \<in> slot_of q ` set [0..<count_used q]" using i slot_of_ok [OF ok, of i] by force
      then show ?thesis using at [of j "storage q" "[0..<count_used q]"] j l by simp
    next
      case False
      then have "storage q ! j = None" using ok i by (auto simp: ring_ok_def)
      then show ?thesis using at [of j "storage q" "[0..<count_used q]"] j l by simp
    qed
  qed (use l in \<open>simp add: len\<close>)
  then show ?thesis by (simp add: ring_clear_def ring_new_def)
qed

section \<open>Properties\<close>

text \<open>
  C20. For every sequence of requests, the ring answers what a list of bounded length answers: the elements in
  the order they came, the oldest dropped when one comes to a full ring, and a refusal at the first taking
  from an empty one. The slots with objects stay exactly those of the queued elements.
\<close>

theorem ring_refines_bounded_list:
  assumes "ring_ok cap q"
  shows "case serve (list_put cap) list_take requests (queued q) of
      Inl e \<Rightarrow> serve enqueue dequeue requests q = Inl e
    | Inr (taken, final) \<Rightarrow>
        \<exists>q'. serve enqueue dequeue requests q = Inr (taken, q') \<and> queued q' = final \<and> ring_ok cap q'"
  using ring_queue.serve_simulates [of q requests] ring_ok_capacity [OF assms] assms
  by (auto split: sum.splits)

theorem ring_refines_bounded_list_witness:
  "\<exists>q' :: nat ring. serve enqueue dequeue [Some 1, Some 2, Some 3, None, Some 4, None] (ring_new 2) = Inr ([2, 3], q') \<and>
        queued q' = [4] \<and> ring_ok 2 q'"
proof -
  have q: "ring_ok 2 (ring_new 2 :: nat ring)" "queued (ring_new 2 :: nat ring) = []"
    using ring_new_ok [of 2, where 'a = nat] by simp_all
  show ?thesis
    using ring_refines_bounded_list [OF q(1), of "[Some 1, Some 2, Some 3, None, Some 4, None]"]
    unfolding q(2) by simp
qed

text \<open>
  Reading by index, by iteration and at both ends gives the queued elements; the last of an empty ring is the
  read of a slot without an object.
\<close>

lemma ring_reads:
  assumes ok: "ring_ok cap q"
  shows "ring_iterate q = map Some (queued q)"
    and "queued q \<noteq> [] \<Longrightarrow> ring_first q = Some (hd (queued q)) \<and> ring_last q = Some (last (queued q))"
proof -
  have at: "ring_at q i = Some (queued q ! i)" if "i < count_used q" for i
  proof -
    have "i < cap" "length (storage q) = cap" using that ok by (auto simp: ring_ok_def)
    moreover from this have "storage q ! ((head q + i) mod cap) \<noteq> None" using that ok by (auto simp: ring_ok_def)
    ultimately show ?thesis using that slot_of_ok [OF ok, of i] by (simp add: ring_at_def queued_def)
  qed
  then show "ring_iterate q = map Some (queued q)"
    by (auto simp: ring_iterate_def intro: nth_equalityI)
  assume ne: "queued q \<noteq> []"
  have pos: "0 < count_used q" "count_used q \<le> 2 ^ 63"
    using ne ok by (auto simp: ring_ok_def queued_def)
  then have "(count_used q + 2 ^ 64 - 1) mod 2 ^ 64 = count_used q - 1" by (simp add: mod_if)
  then show "ring_first q = Some (hd (queued q)) \<and> ring_last q = Some (last (queued q))"
    using at [of 0] at [of "count_used q - 1"] pos ne
    by (simp add: ring_first_def ring_last_def hd_conv_nth last_conv_nth)
qed

end
