(* ===== verification/RedBlackTree.thy ===== *)
theory RedBlackTree
  imports AK_Prelude
begin

text \<open>
  \<open>AK/RedBlackTree.h\<close>: nodes are objects of a store, addressed by pointers; \<open>None\<close> is the null pointer.
  The two rotations and the two branches of the fixups are mirror images and are written once, for a side.
  \<open>unclde\<close> in \<open>insert_fixups\<close> is read as \<open>uncle\<close>, and \<open>node->rotate_right->parent\<close> in \<open>remove\<close>, which
  names no field, as \<open>node->right_child->parent\<close>.
\<close>

section \<open>Nodes and the store\<close>

type_synonym ptr = "nat option"

datatype color = Red | Black

record ('k, 'v) node =
  left_child :: ptr
  right_child :: ptr
  parent :: ptr
  color :: color
  key :: 'k
  node_value :: 'v

record ('k, 'v) tree =
  store :: "nat \<rightharpoonup> ('k, 'v) node"
  m_root :: ptr
  tree_size :: nat
  m_minimum :: ptr

definition tree_new :: "(nat \<rightharpoonup> ('k, 'v) node) \<Rightarrow> ('k, 'v) tree" where
  "tree_new objects = \<lparr>store = objects, m_root = None, tree_size = 0, m_minimum = None\<rparr>"

text \<open>The dereference of a pointer, and the assignment to a field behind it.\<close>

definition deref :: "('k, 'v) tree \<Rightarrow> ptr \<Rightarrow> ('k, 'v) node error_or" where
  "deref s p = (case Option.bind p (store s) of None \<Rightarrow> Inl BadPointer | Some n \<Rightarrow> Inr n)"

definition assign :: "ptr \<Rightarrow> (('k, 'v) node \<Rightarrow> ('k, 'v) node) \<Rightarrow> ('k, 'v) tree \<Rightarrow> ('k, 'v) tree error_or" where
  "assign p f s = try_then (deref s p) (\<lambda>n. Inr (s\<lparr>store := (store s)(the p \<mapsto> f n)\<rparr>))"

definition set_left :: "ptr \<Rightarrow> ptr \<Rightarrow> ('k, 'v) tree \<Rightarrow> ('k, 'v) tree error_or" where
  "set_left p q = assign p (\<lambda>n. n\<lparr>left_child := q\<rparr>)"

definition set_right :: "ptr \<Rightarrow> ptr \<Rightarrow> ('k, 'v) tree \<Rightarrow> ('k, 'v) tree error_or" where
  "set_right p q = assign p (\<lambda>n. n\<lparr>right_child := q\<rparr>)"

definition set_parent :: "ptr \<Rightarrow> ptr \<Rightarrow> ('k, 'v) tree \<Rightarrow> ('k, 'v) tree error_or" where
  "set_parent p q = assign p (\<lambda>n. n\<lparr>parent := q\<rparr>)"

definition set_color :: "ptr \<Rightarrow> color \<Rightarrow> ('k, 'v) tree \<Rightarrow> ('k, 'v) tree error_or" where
  "set_color p c = assign p (\<lambda>n. n\<lparr>color := c\<rparr>)"

datatype side = LeftSide | RightSide

fun opposite :: "side \<Rightarrow> side" where
  "opposite LeftSide = RightSide"
| "opposite RightSide = LeftSide"

fun child :: "side \<Rightarrow> ('k, 'v) node \<Rightarrow> ptr" where
  "child LeftSide n = left_child n"
| "child RightSide n = right_child n"

fun set_child :: "side \<Rightarrow> ptr \<Rightarrow> ptr \<Rightarrow> ('k, 'v) tree \<Rightarrow> ('k, 'v) tree error_or" where
  "set_child LeftSide = set_left"
| "set_child RightSide = set_right"

section \<open>Rotations\<close>

text \<open>Putting \<open>q\<close> where \<open>p\<close> hangs from its parent.\<close>

definition replace_child :: "ptr \<Rightarrow> ptr \<Rightarrow> ptr \<Rightarrow> ('k, 'v) tree \<Rightarrow> ('k, 'v) tree error_or" where
  "replace_child par p q s =
     (if par = None then Inr (s\<lparr>m_root := q\<rparr>)
      else try_then (deref s par) (\<lambda>n.
        if left_child n = p then set_left par q s else set_right par q s))"

definition tree_rotate :: "side \<Rightarrow> ptr \<Rightarrow> ('k, 'v) tree \<Rightarrow> ('k, 'v) tree error_or" where
  "tree_rotate sd subtree_root s =
     verify (subtree_root \<noteq> None) (try_then (deref s subtree_root) (\<lambda>r.
       let pivot = child (opposite sd) r in
       verify (pivot \<noteq> None) (let par = parent r in
         try_then (deref s pivot) (\<lambda>p. let inner = child sd p in
         try_then (set_child (opposite sd) subtree_root inner s) (\<lambda>s.
         try_then (if inner \<noteq> None then set_parent inner subtree_root s else Inr s) (\<lambda>s.
         try_then (set_child sd pivot subtree_root s) (\<lambda>s.
         try_then (set_parent subtree_root pivot s) (\<lambda>s.
         try_then (set_parent pivot par s) (\<lambda>s.
         replace_child par subtree_root pivot s)))))))))"

definition tree_rotate_left :: "ptr \<Rightarrow> ('k, 'v) tree \<Rightarrow> ('k, 'v) tree error_or" where
  "tree_rotate_left = tree_rotate LeftSide"

definition tree_rotate_right :: "ptr \<Rightarrow> ('k, 'v) tree \<Rightarrow> ('k, 'v) tree error_or" where
  "tree_rotate_right = tree_rotate RightSide"

section \<open>Searching\<close>

partial_function (option) find_node :: "('k::linorder, 'v) tree \<Rightarrow> ptr \<Rightarrow> 'k \<Rightarrow> ptr outcome" where
  "find_node s node k =
     (if node = None then Some (Inr None)
      else and_then (Some (deref s node)) (\<lambda>n.
        if key n = k then Some (Inr node)
        else if k < key n then find_node s (left_child n) k
        else find_node s (right_child n) k))"

partial_function (option) find_largest_not_above ::
    "('k::linorder, 'v) tree \<Rightarrow> ptr \<Rightarrow> ptr \<Rightarrow> 'k \<Rightarrow> ptr outcome" where
  "find_largest_not_above s node candidate k =
     (if node = None then Some (Inr candidate)
      else and_then (Some (deref s node)) (\<lambda>n.
        if k = key n then Some (Inr node)
        else if k < key n then find_largest_not_above s (left_child n) candidate k
        else find_largest_not_above s (right_child n) node k))"

partial_function (option) find_smallest_not_below ::
    "('k::linorder, 'v) tree \<Rightarrow> ptr \<Rightarrow> ptr \<Rightarrow> 'k \<Rightarrow> ptr outcome" where
  "find_smallest_not_below s node candidate k =
     (if node = None then Some (Inr candidate)
      else and_then (Some (deref s node)) (\<lambda>n.
        if key n = k then Some (Inr node)
        else if key n \<le> k then find_smallest_not_below s (right_child n) candidate k
        else find_smallest_not_below s (left_child n) node k))"

text \<open>
  \<open>descend\<close> is the inner loop of \<open>successor\<close> (to the left) and \<open>predecessor\<close> (to the right), \<open>ascend\<close> the
  loop up the parents.
\<close>

partial_function (option) descend :: "side \<Rightarrow> ('k, 'v) tree \<Rightarrow> ptr \<Rightarrow> ptr outcome" where
  "descend sd s node =
     and_then (Some (deref s node)) (\<lambda>n. if child sd n = None then Some (Inr node) else descend sd s (child sd n))"

partial_function (option) ascend :: "side \<Rightarrow> ('k, 'v) tree \<Rightarrow> ptr \<Rightarrow> ptr \<Rightarrow> ptr outcome" where
  "ascend sd s node temp =
     (if temp = None then Some (Inr None)
      else and_then (Some (deref s temp)) (\<lambda>t.
        if node = child sd t then ascend sd s temp (parent t) else Some (Inr temp)))"

definition neighbour :: "side \<Rightarrow> ('k, 'v) tree \<Rightarrow> ptr \<Rightarrow> ptr outcome" where
  "neighbour sd s node =
     and_then (Some (verify (node \<noteq> None) (deref s node))) (\<lambda>n.
       if child sd n \<noteq> None then descend (opposite sd) s (child sd n) else ascend sd s node (parent n))"

definition successor :: "('k, 'v) tree \<Rightarrow> ptr \<Rightarrow> ptr outcome" where
  "successor = neighbour RightSide"

definition predecessor :: "('k, 'v) tree \<Rightarrow> ptr \<Rightarrow> ptr outcome" where
  "predecessor = neighbour LeftSide"

section \<open>Insertion\<close>

text \<open>The loop to the place of a new key: from \<open>temp\<close>, with its parent.\<close>

partial_function (option) find_place :: "('k::linorder, 'v) tree \<Rightarrow> 'k \<Rightarrow> ptr \<Rightarrow> ptr \<Rightarrow> ptr outcome" where
  "find_place s k par temp =
     (if temp = None then Some (Inr par)
      else and_then (Some (deref s temp)) (\<lambda>t.
        find_place s k temp (if k < key t then left_child t else right_child t)))"

definition is_red :: "('k, 'v) tree \<Rightarrow> ptr \<Rightarrow> bool error_or" where
  "is_red s p = (if p = None then Inr False else try_then (deref s p) (\<lambda>n. Inr (color n = Red)))"

definition fixup_needed :: "('k, 'v) tree \<Rightarrow> ptr \<Rightarrow> bool error_or" where
  "fixup_needed s node = try_then (deref s node) (\<lambda>n. is_red s (parent n))"

text \<open>
  One branch of the loop body of \<open>insert_fixups\<close>: the parent is the \<open>sd\<close> child of the grandparent, the
  uncle the other one, and a node on the inner side is rotated outwards first.
\<close>

definition insert_fixup_side ::
    "side \<Rightarrow> ptr \<Rightarrow> ptr \<Rightarrow> ('k, 'v) tree \<Rightarrow> (ptr \<times> ('k, 'v) tree) error_or" where
  "insert_fixup_side sd node grand_parent s =
     try_then (deref s node) (\<lambda>n. try_then (deref s grand_parent) (\<lambda>g.
     let uncle = child (opposite sd) g in
     try_then (is_red s uncle) (\<lambda>uncle_red.
     if uncle_red then
       try_then (set_color (parent n) Black s) (\<lambda>s.
       try_then (set_color uncle Black s) (\<lambda>s.
       try_then (set_color grand_parent Red s) (\<lambda>s.
       Inr (grand_parent, s))))
     else
       try_then (deref s (parent n)) (\<lambda>p.
       try_then (if child (opposite sd) p = node
                 then try_then (tree_rotate sd (parent n) s) (\<lambda>s. Inr (parent n, s))
                 else Inr (node, s)) (\<lambda>(node, s).
       try_then (deref s node) (\<lambda>n.
       try_then (set_color (parent n) Black s) (\<lambda>s.
       try_then (set_color grand_parent Red s) (\<lambda>s.
       try_then (tree_rotate (opposite sd) grand_parent s) (\<lambda>s.
       Inr (node, s))))))))))"

definition insert_fixup_body :: "ptr \<Rightarrow> ('k, 'v) tree \<Rightarrow> (ptr \<times> ('k, 'v) tree) error_or" where
  "insert_fixup_body node s =
     try_then (deref s node) (\<lambda>n. try_then (deref s (parent n)) (\<lambda>p.
     let grand_parent = parent p in
     try_then (deref s grand_parent) (\<lambda>g.
     if right_child g = parent n then insert_fixup_side RightSide node grand_parent s
     else insert_fixup_side LeftSide node grand_parent s)))"

partial_function (option) insert_fixup_loop :: "ptr \<Rightarrow> ('k, 'v) tree \<Rightarrow> ('k, 'v) tree outcome" where
  "insert_fixup_loop node s =
     and_then (Some (fixup_needed s node)) (\<lambda>needed.
       if needed then and_then (Some (insert_fixup_body node s)) (\<lambda>(node, s). insert_fixup_loop node s)
       else Some (Inr s))"

definition insert_fixups :: "ptr \<Rightarrow> ('k, 'v) tree \<Rightarrow> ('k, 'v) tree outcome" where
  "insert_fixups node s =
     and_then (Some (verify (node \<noteq> None) (deref s node))) (\<lambda>n.
     and_then (Some (verify (color n = Red) (Inr ()))) (\<lambda>_.
     and_then (insert_fixup_loop node s) (\<lambda>s. Some (set_color (m_root s) Black s))))"

definition link :: "ptr \<Rightarrow> ptr \<Rightarrow> ('k::linorder, 'v) tree \<Rightarrow> ('k, 'v) tree error_or" where
  "link node par s =
     try_then (deref s node) (\<lambda>n. try_then (deref s par) (\<lambda>p.
     try_then (if key n < key p then set_left par node s else set_right par node s) (\<lambda>s.
     set_parent node par s)))"

definition insert_node :: "ptr \<Rightarrow> ('k::linorder, 'v) tree \<Rightarrow> ('k, 'v) tree outcome" where
  "insert_node node s =
     and_then (Some (verify (node \<noteq> None) (deref s node))) (\<lambda>n.
     and_then (find_place s (key n) None (m_root s)) (\<lambda>par.
     if par = None then
       and_then (Some (set_color node Black s)) (\<lambda>s.
       Some (Inr (s\<lparr>m_root := node, tree_size := 1, m_minimum := node\<rparr>)))
     else
       and_then (Some (link node par s)) (\<lambda>s.
       and_then (Some (deref s par)) (\<lambda>p.
       and_then (if parent p \<noteq> None then insert_fixups node s else Some (Inr s)) (\<lambda>s.
       let s = s\<lparr>tree_size := tree_size s + 1\<rparr> in
       and_then (Some (deref s (m_minimum s))) (\<lambda>m.
       Some (Inr (if left_child m = node then s\<lparr>m_minimum := node\<rparr> else s))))))))"

text \<open>
  \<open>try_insert\<close> of \<open>RedBlackTree\<close>: \<open>fresh\<close> is the address that \<open>new (nothrow)\<close> yields, if any.
\<close>

definition new_node :: "'k \<Rightarrow> 'v \<Rightarrow> ('k, 'v) node" where
  "new_node k v = \<lparr>left_child = None, right_child = None, parent = None, color = Red, key = k, node_value = v\<rparr>"

definition tree_try_insert :: "ptr \<Rightarrow> 'k::linorder \<Rightarrow> 'v \<Rightarrow> ('k, 'v) tree \<Rightarrow> ('k, 'v) tree outcome" where
  "tree_try_insert fresh k v s =
     (case fresh of
        None \<Rightarrow> Some (Inl ENOMEM)
      | Some a \<Rightarrow> insert_node (Some a) (s\<lparr>store := (store s)(a \<mapsto> new_node k v)\<rparr>))"

section \<open>Removal\<close>

definition exchange ::
    "(('k, 'v) node \<Rightarrow> 'f) \<Rightarrow> (ptr \<Rightarrow> 'f \<Rightarrow> ('k, 'v) tree \<Rightarrow> ('k, 'v) tree error_or) \<Rightarrow> ptr \<Rightarrow> ptr \<Rightarrow> ('k, 'v) tree \<Rightarrow>
     ('k, 'v) tree error_or" where
  "exchange get put p q s =
     try_then (deref s p) (\<lambda>n. try_then (deref s q) (\<lambda>m.
     try_then (put p (get m) s) (\<lambda>s. put q (get n) s)))"

text \<open>A node with two children changes places with its successor.\<close>

definition relink :: "ptr \<Rightarrow> ptr \<Rightarrow> ('k, 'v) tree \<Rightarrow> ('k, 'v) tree error_or" where
  "relink node successor_node s =
     try_then (deref s successor_node) (\<lambda>m. try_then (deref s node) (\<lambda>n.
     let neighbour_swap = (parent m = node) in
     try_then (set_parent (left_child n) successor_node s) (\<lambda>s.
     try_then (if \<not> neighbour_swap then set_parent (right_child n) successor_node s else Inr s) (\<lambda>s.
     try_then (replace_child (parent n) node successor_node s) (\<lambda>s.
     try_then (deref s successor_node) (\<lambda>m.
     try_then (if right_child m \<noteq> None then set_parent (right_child m) node s else Inr s) (\<lambda>s.
     try_then (if neighbour_swap
               then try_then (deref s node) (\<lambda>n. try_then (set_parent successor_node (parent n) s) (\<lambda>s.
                    set_parent node successor_node s))
               else try_then (replace_child (parent m) successor_node node s) (\<lambda>s.
                    exchange parent set_parent node successor_node s)) (\<lambda>s.
     try_then (exchange left_child set_left node successor_node s) (\<lambda>s.
     try_then (if neighbour_swap
               then try_then (deref s successor_node) (\<lambda>m. try_then (set_right node (right_child m) s) (\<lambda>s.
                    set_right successor_node node s))
               else exchange right_child set_right node successor_node s) (\<lambda>s.
     exchange color set_color node successor_node s))))))))))"

text \<open>A node with at most one child is replaced by it; the child and the parent are what the fixups start from.\<close>

definition splice :: "ptr \<Rightarrow> ('k, 'v) tree \<Rightarrow> (ptr \<times> ptr \<times> color \<times> ('k, 'v) tree) error_or" where
  "splice node s =
     try_then (deref s node) (\<lambda>n.
     let child = (if left_child n \<noteq> None then left_child n else right_child n) in
     try_then (if child \<noteq> None then set_parent child (parent n) s else Inr s) (\<lambda>s.
     try_then (replace_child (parent n) node child s) (\<lambda>s.
     Inr (child, parent n, color n, s))))"

text \<open>
  One branch of the loop body of \<open>remove_fixups\<close>. Where the sibling and its children are black, the branch for
  the right side goes on with the parent; the one for the left side has the statement \<open>node->parent;\<close>, which
  does nothing.
\<close>

definition both_black :: "('k, 'v) tree \<Rightarrow> ptr \<Rightarrow> ptr \<Rightarrow> bool error_or" where
  "both_black s p q = try_then (is_red s p) (\<lambda>red. if red then Inr False else try_then (is_red s q) (\<lambda>red. Inr (\<not> red)))"

definition remove_fixup_side :: "side \<Rightarrow> ptr \<Rightarrow> ptr \<Rightarrow> ('k, 'v) tree \<Rightarrow> (ptr \<times> ('k, 'v) tree) error_or" where
  "remove_fixup_side sd node par s =
     try_then (deref s par) (\<lambda>p.
     let sibling = child (opposite sd) p in
     try_then (deref s sibling) (\<lambda>sb.
     try_then (if color sb = Red
               then try_then (set_color sibling Black s) (\<lambda>s. try_then (set_color par Red s) (\<lambda>s.
                    try_then (tree_rotate sd par s) (\<lambda>s. try_then (deref s par) (\<lambda>p.
                    Inr (child (opposite sd) p, s)))))
               else Inr (sibling, s)) (\<lambda>(sibling, s).
     try_then (deref s sibling) (\<lambda>sb.
     try_then (both_black s (left_child sb) (right_child sb)) (\<lambda>black.
     if black then
       try_then (set_color sibling Red s) (\<lambda>s. Inr (if sd = LeftSide then node else par, s))
     else
       try_then (is_red s (child (opposite sd) sb)) (\<lambda>outer_red.
       try_then (if \<not> outer_red
                 then try_then (set_color (child sd sb) Black s) (\<lambda>s. try_then (set_color sibling Red s) (\<lambda>s.
                      try_then (tree_rotate (opposite sd) sibling s) (\<lambda>s. try_then (deref s par) (\<lambda>p.
                      Inr (child (opposite sd) p, s)))))
                 else Inr (sibling, s)) (\<lambda>(sibling, s).
       try_then (deref s par) (\<lambda>p.
       try_then (set_color sibling (color p) s) (\<lambda>s.
       try_then (set_color par Black s) (\<lambda>s.
       try_then (deref s sibling) (\<lambda>sb.
       try_then (set_color (child (opposite sd) sb) Black s) (\<lambda>s.
       try_then (tree_rotate sd par s) (\<lambda>s.
       Inr (m_root s, s))))))))))))))"

partial_function (option) remove_fixup_loop :: "ptr \<Rightarrow> ptr \<Rightarrow> ('k, 'v) tree \<Rightarrow> (ptr \<times> ('k, 'v) tree) outcome" where
  "remove_fixup_loop node par s =
     (if node = m_root s then Some (Inr (node, s))
      else and_then (Some (is_red s node)) (\<lambda>red.
        if red then Some (Inr (node, s))
        else and_then (Some (deref s par)) (\<lambda>p.
             and_then (Some (remove_fixup_side (if left_child p = node then LeftSide else RightSide) node par s)) (\<lambda>(node, s).
             and_then (Some (deref s node)) (\<lambda>n. remove_fixup_loop node (parent n) s)))))"

definition remove_fixups :: "ptr \<Rightarrow> ptr \<Rightarrow> ('k, 'v) tree \<Rightarrow> ('k, 'v) tree outcome" where
  "remove_fixups node par s =
     and_then (remove_fixup_loop node par s) (\<lambda>(node, s). Some (set_color node Black s))"

definition remove_node :: "ptr \<Rightarrow> ('k, 'v) tree \<Rightarrow> ('k, 'v) tree outcome" where
  "remove_node node s =
     and_then (Some (verify (node \<noteq> None) (Inr ()))) (\<lambda>_.
     if tree_size s = 1 then Some (Inr (s\<lparr>m_root := None, m_minimum := None, tree_size := 0\<rparr>))
     else
       and_then (if m_minimum s = node
                 then and_then (successor s node) (\<lambda>next_node. Some (Inr (s\<lparr>m_minimum := next_node\<rparr>)))
                 else Some (Inr s)) (\<lambda>s.
       and_then (Some (deref s node)) (\<lambda>n.
       and_then (if left_child n \<noteq> None \<and> right_child n \<noteq> None
                 then and_then (successor s node) (\<lambda>next_node. Some (relink node next_node s))
                 else Some (Inr s)) (\<lambda>s.
       and_then (Some (splice node s)) (\<lambda>(child, par, c, s).
       and_then (if c \<noteq> Red then remove_fixups child par s else Some (Inr s)) (\<lambda>s.
       Some (Inr (s\<lparr>tree_size := tree_size s - 1\<rparr>))))))))"

text \<open>
  The operations of \<open>RedBlackTree\<close> on keys. \<open>delete\<close> ends a node; the destructor of a node ends its children,
  which are null here. A search that finds nothing makes \<open>remove\<close> answer false.
\<close>

definition detach_and_delete :: "ptr \<Rightarrow> ('k, 'v) tree \<Rightarrow> ('k, 'v) tree error_or" where
  "detach_and_delete node s =
     try_then (set_right node None s) (\<lambda>s. try_then (set_left node None s) (\<lambda>s.
     Inr (s\<lparr>store := (store s)(the node := None)\<rparr>)))"

definition unsafe_remove :: "'k::linorder \<Rightarrow> ('k, 'v) tree \<Rightarrow> ('v \<times> ('k, 'v) tree) outcome" where
  "unsafe_remove k s =
     and_then (find_node s (m_root s) k) (\<lambda>node.
     and_then (Some (verify (node \<noteq> None) (Inr ()))) (\<lambda>_.
     and_then (remove_node node s) (\<lambda>s.
     and_then (Some (deref s node)) (\<lambda>n.
     and_then (Some (detach_and_delete node s)) (\<lambda>s. Some (Inr (node_value n, s)))))))"

definition tree_remove :: "'k::linorder \<Rightarrow> ('k, 'v) tree \<Rightarrow> (bool \<times> ('k, 'v) tree) outcome" where
  "tree_remove k s =
     and_then (find_node s (m_root s) k) (\<lambda>node.
     if node = None then Some (Inr (False, s))
     else and_then (remove_node node s) (\<lambda>s.
          and_then (Some (detach_and_delete node s)) (\<lambda>s. Some (Inr (True, s)))))"

partial_function (option) delete_node :: "ptr \<Rightarrow> ('k, 'v) tree \<Rightarrow> ('k, 'v) tree outcome" where
  "delete_node node s =
     (if node = None then Some (Inr s)
      else and_then (Some (deref s node)) (\<lambda>n.
           and_then (delete_node (left_child n) s) (\<lambda>s.
           and_then (delete_node (right_child n) s) (\<lambda>s.
           Some (Inr (s\<lparr>store := (store s)(the node := None)\<rparr>))))))"

definition tree_clear :: "('k, 'v) tree \<Rightarrow> ('k, 'v) tree outcome" where
  "tree_clear s =
     and_then (delete_node (m_root s) s) (\<lambda>s.
     Some (Inr (s\<lparr>m_root := None, m_minimum := None, tree_size := 0\<rparr>)))"

section \<open>Lookup and iterators\<close>

definition value_at :: "('k, 'v) tree \<Rightarrow> ptr \<Rightarrow> 'v option error_or" where
  "value_at s node = (if node = None then Inr None else try_then (deref s node) (\<lambda>n. Inr (Some (node_value n))))"

definition tree_find :: "'k::linorder \<Rightarrow> ('k, 'v) tree \<Rightarrow> 'v option outcome" where
  "tree_find k s = and_then (find_node s (m_root s) k) (\<lambda>p. Some (value_at s p))"

definition tree_find_largest_not_above :: "'k::linorder \<Rightarrow> ('k, 'v) tree \<Rightarrow> 'v option outcome" where
  "tree_find_largest_not_above k s =
     and_then (find_largest_not_above s (m_root s) None k) (\<lambda>p. Some (value_at s p))"

definition tree_find_smallest_not_below :: "'k::linorder \<Rightarrow> ('k, 'v) tree \<Rightarrow> 'v option outcome" where
  "tree_find_smallest_not_below k s =
     and_then (find_smallest_not_below s (m_root s) None k) (\<lambda>p. Some (value_at s p))"

record iterator =
  m_node :: ptr
  m_prev :: ptr

definition begin_iterator :: "('k, 'v) tree \<Rightarrow> iterator" where
  "begin_iterator s = \<lparr>m_node = m_minimum s, m_prev = None\<rparr>"

definition end_iterator :: iterator where
  "end_iterator = \<lparr>m_node = None, m_prev = None\<rparr>"

definition begin_from :: "('k::linorder, 'v) tree \<Rightarrow> 'k \<Rightarrow> iterator outcome" where
  "begin_from s k = and_then (find_node s (m_root s) k) (\<lambda>p. Some (Inr \<lparr>m_node = p, m_prev = None\<rparr>))"

definition increment :: "('k, 'v) tree \<Rightarrow> iterator \<Rightarrow> iterator outcome" where
  "increment s it =
     (if m_node it = None then Some (Inr it)
      else and_then (successor s (m_node it)) (\<lambda>p. Some (Inr \<lparr>m_node = p, m_prev = m_node it\<rparr>)))"

definition decrement :: "('k, 'v) tree \<Rightarrow> iterator \<Rightarrow> iterator outcome" where
  "decrement s it =
     (if m_prev it = None then Some (Inr it)
      else and_then (predecessor s (m_prev it)) (\<lambda>p. Some (Inr \<lparr>m_node = m_prev it, m_prev = p\<rparr>)))"

definition largest_not_above_iterator :: "('k::linorder, 'v) tree \<Rightarrow> 'k \<Rightarrow> iterator outcome" where
  "largest_not_above_iterator s k =
     and_then (find_largest_not_above s (m_root s) None k) (\<lambda>node.
     if node = None then Some (Inr end_iterator)
     else and_then (predecessor s node) (\<lambda>p. Some (Inr \<lparr>m_node = node, m_prev = p\<rparr>)))"

definition smallest_not_below_iterator :: "('k::linorder, 'v) tree \<Rightarrow> 'k \<Rightarrow> iterator outcome" where
  "smallest_not_below_iterator s k =
     and_then (find_smallest_not_below s (m_root s) None k) (\<lambda>node.
     if node = None then Some (Inr end_iterator)
     else and_then (predecessor s node) (\<lambda>p. Some (Inr \<lparr>m_node = node, m_prev = p\<rparr>)))"

end
