(* ===== verification/RedBlackTree_Shape.thy ===== *)
theory RedBlackTree_Shape
  imports RedBlackTree
begin

text \<open>
  The trees that a store represents: a datatype of labelled trees, the relation to the store, and zippers, so
  that a pointer into the middle of a tree is a subtree in a context. Rotations and colour changes are
  computed on zippers.
\<close>

section \<open>Trees and contexts\<close>

datatype ('k, 'v) shape =
    Tip
  | Branch "('k, 'v) shape" nat color 'k 'v "('k, 'v) shape"

fun ptr_of :: "('k, 'v) shape \<Rightarrow> ptr" where
  "ptr_of Tip = None"
| "ptr_of (Branch l a c k v r) = Some a"

fun inorder :: "('k, 'v) shape \<Rightarrow> (nat \<times> 'k \<times> 'v) list" where
  "inorder Tip = []"
| "inorder (Branch l a c k v r) = inorder l @ (a, k, v) # inorder r"

abbreviation addrs :: "('k, 'v) shape \<Rightarrow> nat list" where
  "addrs t \<equiv> map fst (inorder t)"

text \<open>The tree is in the store, its root hanging from \<open>par\<close>.\<close>

fun tree_in :: "(nat \<rightharpoonup> ('k, 'v) node) \<Rightarrow> ptr \<Rightarrow> ('k, 'v) shape \<Rightarrow> bool" where
  "tree_in h par Tip = True"
| "tree_in h par (Branch l a c k v r) =
     (h a = Some \<lparr>left_child = ptr_of l, right_child = ptr_of r, parent = par, color = c, key = k, node_value = v\<rparr> \<and>
      tree_in h (Some a) l \<and> tree_in h (Some a) r)"

text \<open>\<open>on sd\<close> builds a branch from its \<open>sd\<close> child and its other child.\<close>

fun on :: "side \<Rightarrow> ('k, 'v) shape \<Rightarrow> nat \<Rightarrow> color \<Rightarrow> 'k \<Rightarrow> 'v \<Rightarrow> ('k, 'v) shape \<Rightarrow> ('k, 'v) shape" where
  "on LeftSide t a c k v u = Branch t a c k v u"
| "on RightSide t a c k v u = Branch u a c k v t"

fun node_on :: "side \<Rightarrow> ptr \<Rightarrow> ptr \<Rightarrow> ptr \<Rightarrow> color \<Rightarrow> 'k \<Rightarrow> 'v \<Rightarrow> ('k, 'v) node" where
  "node_on LeftSide p q par c k v = \<lparr>left_child = p, right_child = q, parent = par, color = c, key = k, node_value = v\<rparr>"
| "node_on RightSide p q par c k v = \<lparr>left_child = q, right_child = p, parent = par, color = c, key = k, node_value = v\<rparr>"

text \<open>A frame is a branch without its \<open>sd\<close> child; the innermost frame comes first.\<close>

datatype ('k, 'v) frame = Frame side nat color 'k 'v "('k, 'v) shape"

fun plug :: "('k, 'v) frame list \<Rightarrow> ('k, 'v) shape \<Rightarrow> ('k, 'v) shape" where
  "plug [] t = t"
| "plug (Frame sd a c k v u # ctx) t = plug ctx (on sd t a c k v u)"

fun ctx_ptr :: "('k, 'v) frame list \<Rightarrow> ptr" where
  "ctx_ptr [] = None"
| "ctx_ptr (Frame sd a c k v u # ctx) = Some a"

fun ctx_in :: "(nat \<rightharpoonup> ('k, 'v) node) \<Rightarrow> ('k, 'v) frame list \<Rightarrow> ptr \<Rightarrow> bool" where
  "ctx_in h [] p = True"
| "ctx_in h (Frame sd a c k v u # ctx) p =
     (h a = Some (node_on sd p (ptr_of u) (ctx_ptr ctx) c k v) \<and> tree_in h (Some a) u \<and> ctx_in h ctx (Some a))"

fun before_ctx :: "('k, 'v) frame list \<Rightarrow> (nat \<times> 'k \<times> 'v) list" where
  "before_ctx [] = []"
| "before_ctx (Frame LeftSide a c k v u # ctx) = before_ctx ctx"
| "before_ctx (Frame RightSide a c k v u # ctx) = before_ctx ctx @ inorder u @ [(a, k, v)]"

fun after_ctx :: "('k, 'v) frame list \<Rightarrow> (nat \<times> 'k \<times> 'v) list" where
  "after_ctx [] = []"
| "after_ctx (Frame LeftSide a c k v u # ctx) = (a, k, v) # inorder u @ after_ctx ctx"
| "after_ctx (Frame RightSide a c k v u # ctx) = after_ctx ctx"

text \<open>The tree of a state.\<close>

definition shows_tree :: "('k, 'v) tree \<Rightarrow> ('k, 'v) shape \<Rightarrow> bool" where
  "shows_tree s t \<longleftrightarrow> tree_in (store s) None t \<and> m_root s = ptr_of t \<and> distinct (addrs t)"

section \<open>Plugging\<close>

named_theorems shape_simps

lemma opposite_opposite [simp]: "opposite (opposite sd) = sd" "opposite sd \<noteq> sd" "sd \<noteq> opposite sd"
  by (cases sd; simp)+

lemma ptr_of_on [simp]: "ptr_of (on sd t a c k v u) = Some a"
  by (cases sd) simp_all

lemma tree_in_on [simp]:
  "tree_in h par (on sd t a c k v u) \<longleftrightarrow>
     h a = Some (node_on sd (ptr_of t) (ptr_of u) par c k v) \<and> tree_in h (Some a) t \<and> tree_in h (Some a) u"
  by (cases sd) auto

lemma on_opposite: "on (opposite sd) t a c k v u = on sd u a c k v t"
  by (cases sd) simp_all

lemma node_on_simps [simp]:
  "parent (node_on sd p q par c k v) = par" "color (node_on sd p q par c k v) = c"
  "key (node_on sd p q par c k v) = k" "node_value (node_on sd p q par c k v) = v"
  "child sd (node_on sd p q par c k v) = p" "child (opposite sd) (node_on sd p q par c k v) = q"
  "(node_on sd p q par c k v)\<lparr>parent := par'\<rparr> = node_on sd p q par' c k v"
  "(node_on sd p q par c k v)\<lparr>color := c'\<rparr> = node_on sd p q par c' k v"
  by (cases sd; simp)+

lemma node_on_opposite: "node_on (opposite sd) p q par c k v = node_on sd q p par c k v"
  by (cases sd) simp_all

lemma inorder_plug: "inorder (plug ctx t) = before_ctx ctx @ inorder t @ after_ctx ctx"
proof (induction ctx arbitrary: t)
  case (Cons f ctx)
  then show ?case by (cases f; cases "case f of Frame sd a c k v u \<Rightarrow> sd") simp_all
qed simp

lemma plug_in: "tree_in h None (plug ctx t) \<longleftrightarrow> ctx_in h ctx (ptr_of t) \<and> tree_in h (ctx_ptr ctx) t"
proof (induction ctx arbitrary: t)
  case (Cons f ctx)
  then show ?case by (cases f) auto
qed simp

lemma ptr_of_plug: "ptr_of t = ptr_of t' \<Longrightarrow> ptr_of (plug ctx t) = ptr_of (plug ctx t')"
proof (induction ctx arbitrary: t t')
  case (Cons f ctx)
  then show ?case by (cases f) auto
qed simp

lemma ptr_of_plug_cons: "ctx \<noteq> [] \<Longrightarrow> ptr_of (plug ctx t) = ptr_of (plug ctx t')"
proof (cases ctx)
  case (Cons f ctx')
  then show ?thesis by (cases f) (auto intro: ptr_of_plug)
qed simp

lemma ctx_ptr_None [simp]: "ctx_ptr ctx = None \<longleftrightarrow> ctx = []"
  by (cases ctx rule: ctx_ptr.cases) simp_all

section \<open>Changes elsewhere\<close>

lemma tree_in_cong: "(\<And>a. a \<in> set (addrs t) \<Longrightarrow> h a = h' a) \<Longrightarrow> tree_in h par t = tree_in h' par t"
proof (induction t arbitrary: par)
  case (Branch l a c k v r)
  have "tree_in h (Some a) l = tree_in h' (Some a) l" "tree_in h (Some a) r = tree_in h' (Some a) r"
    using Branch.prems by (auto intro!: Branch.IH)
  then show ?case using Branch.prems by simp
qed simp

abbreviation ctx_addrs :: "('k, 'v) frame list \<Rightarrow> nat set" where
  "ctx_addrs ctx \<equiv> fst ` (set (before_ctx ctx) \<union> set (after_ctx ctx))"

lemma ctx_addrs_Cons [simp]:
  "ctx_addrs (Frame sd a c k v u # ctx) = insert a (set (addrs u)) \<union> ctx_addrs ctx"
  by (cases sd) auto

lemma ctx_in_cong: "(\<And>a. a \<in> ctx_addrs ctx \<Longrightarrow> h a = h' a) \<Longrightarrow> ctx_in h ctx p = ctx_in h' ctx p"
proof (induction ctx arbitrary: p)
  case (Cons f ctx)
  obtain sd a c k v u where f: "f = Frame sd a c k v u" by (cases f)
  have "ctx_in h ctx (Some a) = ctx_in h' ctx (Some a)" using Cons.prems by (intro Cons.IH) (auto simp: f)
  moreover have "tree_in h (Some a) u = tree_in h' (Some a) u"
    using Cons.prems by (intro tree_in_cong) (auto simp: f)
  ultimately show ?case using Cons.prems by (simp add: f)
qed simp

lemma tree_in_upd [simp]: "a \<notin> set (addrs t) \<Longrightarrow> tree_in (h(a := x)) par t = tree_in h par t"
  by (rule tree_in_cong) auto

lemma ctx_in_upd [simp]: "a \<notin> ctx_addrs ctx \<Longrightarrow> ctx_in (h(a := x)) ctx p = ctx_in h ctx p"
  by (rule ctx_in_cong) auto

lemma distinct_plug:
  "distinct (addrs (plug ctx t)) \<longleftrightarrow>
     distinct (addrs t) \<and> distinct (map fst (before_ctx ctx @ after_ctx ctx)) \<and> set (addrs t) \<inter> ctx_addrs ctx = {}"
  by (auto simp: inorder_plug)

text \<open>Reparenting a tree is one update at its root.\<close>

lemma tree_in_reparent:
  assumes "tree_in h par t" and "t \<noteq> Tip" and "distinct (addrs t)"
  shows "\<exists>n. h (the (ptr_of t)) = Some n \<and> tree_in (h(the (ptr_of t) \<mapsto> n\<lparr>parent := par'\<rparr>)) par' t"
  using assms by (cases t) auto

text \<open>Another child below the innermost frame is one update at its node.\<close>

lemma set_child_node_on:
  "sd = LeftSide \<and> n = node_on sd p q par c k v \<Longrightarrow> n\<lparr>left_child := p'\<rparr> = node_on sd p' q par c k v"
  "sd = RightSide \<and> n = node_on sd p q par c k v \<Longrightarrow> n\<lparr>right_child := p'\<rparr> = node_on sd p' q par c k v"
  by auto

end
