(* ===== verification/RedBlackTree_Rotate.thy ===== *)
theory RedBlackTree_Rotate
  imports RedBlackTree_Shape
begin

text \<open>What the primitive changes of the store do to the tree represented.\<close>

lemma deref_Some [simp]: "store s a = Some n \<Longrightarrow> deref s (Some a) = Inr n"
  by (simp add: deref_def)

lemma deref_None [simp]: "deref s None = Inl BadPointer"
  by (simp add: deref_def)

lemma assign_Some: "store s a = Some n \<Longrightarrow> assign (Some a) f s = Inr (s\<lparr>store := (store s)(a \<mapsto> f n)\<rparr>)"
  by (simp add: assign_def)

lemmas assigns = set_left_def set_right_def set_parent_def set_color_def

lemma set_child_Some:
  "store s a = Some (node_on sd p q par c k v) \<Longrightarrow>
   set_child sd (Some a) p' s = Inr (s\<lparr>store := (store s)(a \<mapsto> node_on sd p' q par c k v)\<rparr>)"
  by (cases sd) (simp_all add: assigns assign_Some)

text \<open>The rest of the state: an operation of the tree leaves alone what is no address of it.\<close>

definition only_tree :: "nat set \<Rightarrow> ('k, 'v) tree \<Rightarrow> ('k, 'v) tree \<Rightarrow> bool" where
  "only_tree A s s' \<longleftrightarrow> tree_size s' = tree_size s \<and> m_minimum s' = m_minimum s \<and> (\<forall>a. a \<notin> A \<longrightarrow> store s' a = store s a)"

lemma only_tree_trans: "only_tree A s s' \<Longrightarrow> only_tree A s' s'' \<Longrightarrow> only_tree A s s''"
  by (simp add: only_tree_def)

lemma only_tree_mono: "only_tree A s s' \<Longrightarrow> A \<subseteq> B \<Longrightarrow> only_tree B s s'"
  by (auto simp: only_tree_def)

lemma replace_child_ctx:
  assumes "ctx_in (store s) ctx (Some a)" and "a \<notin> ctx_addrs ctx"
    and "distinct (map fst (before_ctx ctx @ after_ctx ctx))"
  shows "\<exists>s'. replace_child (ctx_ptr ctx) (Some a) q s = Inr s' \<and> ctx_in (store s') ctx q \<and>
      m_root s' = (if ctx = [] then q else m_root s) \<and> only_tree (ctx_addrs ctx) s s'"
proof (cases ctx)
  case Nil
  then show ?thesis by (simp add: replace_child_def only_tree_def)
next
  case (Cons f ctx')
  obtain sd g c k v u where f: "f = Frame sd g c k v u" by (cases f)
  have g: "store s g = Some (node_on sd (Some a) (ptr_of u) (ctx_ptr ctx') c k v)"
    using assms(1) by (simp add: Cons f)
  have "ptr_of u \<noteq> Some a" using assms(2) by (cases u) (auto simp: Cons f)
  then have "replace_child (Some g) (Some a) q s = set_child sd (Some g) q s"
    using g by (cases sd) (simp_all add: replace_child_def)
  moreover have "g \<notin> set (addrs u)" "g \<notin> ctx_addrs ctx'"
    using assms(3) by (cases sd; auto simp: Cons f)+
  ultimately show ?thesis
    using assms(1) set_child_Some [OF g, of q] by (simp add: Cons f only_tree_def)
qed

lemma rotate_represents:
  assumes "shows_tree s (plug ctx (on sd x a c k v (on sd y b d j w z)))"
  shows "\<exists>s'. tree_rotate sd (Some a) s = Inr s' \<and> shows_tree s' (plug ctx (on sd (on sd x a c k v y) b d j w z)) \<and>
      only_tree (set (addrs (plug ctx (on sd x a c k v (on sd y b d j w z))))) s s'"
proof -
  let ?old = "on sd x a c k v (on sd y b d j w z)" and ?new = "on sd (on sd x a c k v y) b d j w z"
  have inord: "mset (inorder ?new) = mset (inorder ?old)" by (cases sd) simp_all
  have h: "ctx_in (store s) ctx (Some a)" "tree_in (store s) (ctx_ptr ctx) ?old" and root: "m_root s = ptr_of (plug ctx ?old)"
    and dist: "distinct (addrs (plug ctx ?old))"
    using assms by (auto simp: shows_tree_def plug_in)
  have d: "distinct (addrs ?old)" "distinct (map fst (before_ctx ctx @ after_ctx ctx))" "set (addrs ?old) \<inter> ctx_addrs ctx = {}"
    using dist by (simp_all add: distinct_plug)
  have apart: "a \<noteq> b" "a \<notin> set (addrs x)" "a \<notin> set (addrs y)" "a \<notin> set (addrs z)"
    "b \<notin> set (addrs x)" "b \<notin> set (addrs y)" "b \<notin> set (addrs z)"
    "set (addrs y) \<inter> set (addrs x) = {}" "set (addrs y) \<inter> set (addrs z) = {}"
    "distinct (addrs y)"
    using d(1) by (cases sd; auto)+
  have out: "a \<notin> ctx_addrs ctx" "b \<notin> ctx_addrs ctx" "set (addrs y) \<inter> ctx_addrs ctx = {}"
    using d(3) by (cases sd; auto)+
  define s1 where "s1 = s\<lparr>store := (store s)(a \<mapsto> node_on sd (ptr_of x) (ptr_of y) (ctx_ptr ctx) c k v)\<rparr>"
  define s2 where "s2 = s1\<lparr>store := (case y of Tip \<Rightarrow> store s1
      | Branch l e f m q r \<Rightarrow> (store s1)(e \<mapsto> (the (store s1 e))\<lparr>parent := Some a\<rparr>))\<rparr>"
  define s3 where "s3 = s2\<lparr>store := (store s2)(a \<mapsto> node_on sd (ptr_of x) (ptr_of y) (Some b) c k v,
      b \<mapsto> node_on sd (Some a) (ptr_of z) (ctx_ptr ctx) d j w)\<rparr>"
  have a: "store s a = Some (node_on sd (ptr_of x) (Some b) (ctx_ptr ctx) c k v)"
    and b: "store s b = Some (node_on sd (ptr_of y) (ptr_of z) (Some a) d j w)"
    using h(2) by simp_all
  have y: "tree_in (store s) (Some b) y" "tree_in (store s) (Some a) x" "tree_in (store s) (Some b) z"
    using h(2) by simp_all
  have y1: "tree_in (store s1) (Some b) y" using y apart by (simp add: s1_def)
  have s2: "ptr_of y \<noteq> None \<Longrightarrow> set_parent (ptr_of y) (Some a) s1 = Inr s2" "ptr_of y = None \<Longrightarrow> s1 = s2"
    using y1 by (cases y; simp add: s2_def assigns assign_Some)+
  have y2: "tree_in (store s2) (Some a) y"
    using tree_in_reparent [OF y1, of "Some a"] apart by (cases y) (auto simp: s2_def)
  have same2: "store s2 e = store s1 e" if "e \<notin> set (addrs y)" for e
    using that by (cases y) (simp_all add: s2_def)
  have ab: "store s2 a = Some (node_on sd (ptr_of x) (ptr_of y) (ctx_ptr ctx) c k v)"
     "store s2 b = Some (node_on sd (ptr_of y) (ptr_of z) (Some a) d j w)"
    using apart b by (simp_all add: same2) (simp_all add: s1_def)
  define t1 where "t1 = s2\<lparr>store := (store s2)(b \<mapsto> node_on sd (Some a) (ptr_of z) (Some a) d j w)\<rparr>"
  define t2 where "t2 = t1\<lparr>store := (store t1)(a \<mapsto> node_on sd (ptr_of x) (ptr_of y) (Some b) c k v)\<rparr>"
  have steps: "set_child (opposite sd) (Some a) (ptr_of y) s = Inr s1"
    "set_child sd (Some b) (Some a) s2 = Inr t1" "set_parent (Some a) (Some b) t1 = Inr t2"
    "set_parent (Some b) (ctx_ptr ctx) t2 = Inr s3"
    using a ab apart(1) set_child_Some [of s a "opposite sd" "Some b" "ptr_of x" "ctx_ptr ctx" c k v "ptr_of y"]
      set_child_Some [of s2 b sd "ptr_of y" "ptr_of z" "Some a" d j w "Some a"]
    by (simp_all add: node_on_opposite s1_def t1_def t2_def s3_def assigns assign_Some)
  have "tree_rotate sd (Some a) s = replace_child (ctx_ptr ctx) (Some a) (Some b) s3"
    using a b s2 steps by (cases "ptr_of y = None") (simp_all add: tree_rotate_def Let_def del: not_None_eq)
  moreover have s3: "store s3 e = store s e" if "e \<notin> {a, b}" "e \<notin> set (addrs y)" for e
    using that by (simp add: s3_def same2) (simp add: s1_def)
  moreover have "ctx_in (store s3) ctx (Some a)"
  proof -
    have "store s3 e = store s e" if "e \<in> ctx_addrs ctx" for e
      using that out by (intro s3) (metis disjoint_iff empty_iff insert_iff)+
    then show ?thesis using h(1) ctx_in_cong by metis
  qed
  moreover have new: "tree_in (store s3) (ctx_ptr ctx) ?new"
  proof -
    have "tree_in (store s3) p t = tree_in (store s) p t"
      if "a \<notin> set (addrs t)" "b \<notin> set (addrs t)" "set (addrs y) \<inter> set (addrs t) = {}" for p t
      using that by (intro tree_in_cong s3) (metis disjoint_iff empty_iff insert_iff)+
    then have "tree_in (store s3) (Some a) x" "tree_in (store s3) (Some b) z"
      using y apart by simp_all
    moreover have "tree_in (store s3) (Some a) y" using y2 apart by (simp add: s3_def)
    ultimately show ?thesis using apart(1) by (simp add: s3_def)
  qed
  ultimately obtain s' where s': "tree_rotate sd (Some a) s = Inr s'" "ctx_in (store s') ctx (Some b)"
    "m_root s' = (if ctx = [] then Some b else m_root s3)" "only_tree (ctx_addrs ctx) s3 s'"
    using replace_child_ctx [of s3 ctx a "Some b"] out d(2) by auto
  have "tree_in (store s') (ctx_ptr ctx) ?new"
  proof (rule iffD1 [OF tree_in_cong new])
    fix e assume "e \<in> set (addrs ?new)"
    then have "e \<in> set (addrs ?old)" using mset_eq_setD [OF inord] by simp
    then have "e \<notin> ctx_addrs ctx" using d(3) by blast
    then show "store s3 e = store s' e" using s'(4) by (simp add: only_tree_def)
  qed
  moreover have "m_root s' = ptr_of (plug ctx ?new)"
  proof (cases "ctx = []")
    case False
    moreover have "m_root s3 = m_root s" by (simp add: s3_def s2_def s1_def)
    ultimately show ?thesis using s'(3) root ptr_of_plug_cons by metis
  qed (use s'(3) in simp)
  moreover have dist': "mset (addrs (plug ctx ?new)) = mset (addrs (plug ctx ?old))"
    using inord by (simp add: inorder_plug)
  ultimately have "shows_tree s' (plug ctx ?new)"
    using s'(2) dist mset_eq_imp_distinct_iff [OF dist'] by (simp add: shows_tree_def plug_in)
  moreover have "only_tree (set (addrs (plug ctx ?old))) s s3"
    using s3 by (cases sd) (auto simp: only_tree_def s3_def s2_def s1_def inorder_plug)
  then have "only_tree (set (addrs (plug ctx ?old))) s s'"
    by (rule only_tree_trans) (rule only_tree_mono [OF s'(4)], auto simp: inorder_plug)
  ultimately show ?thesis using s'(1) by blast
qed

end
