(* ===== verification/RedBlackTree_Insert.thy ===== *)
theory RedBlackTree_Insert
  imports RedBlackTree_Rotate
begin

text \<open>
  Insertion. The fixups of the code are shown to be a function on zippers, and that function to restore the
  red-black shape and to keep the order.
\<close>

section \<open>Changes of colour\<close>

lemma set_color_represents:
  assumes "shows_tree s (plug ctx (on sd t a c k v u))"
  shows "\<exists>s'. set_color (Some a) c' s = Inr s' \<and> shows_tree s' (plug ctx (on sd t a c' k v u)) \<and> only_tree {a} s s'"
proof -
  have h: "ctx_in (store s) ctx (Some a)" "tree_in (store s) (ctx_ptr ctx) (on sd t a c k v u)"
    and root: "m_root s = ptr_of (plug ctx (on sd t a c k v u))" and dist: "distinct (addrs (plug ctx (on sd t a c k v u)))"
    using assms by (auto simp: shows_tree_def plug_in)
  have inord: "inorder (on sd t a c' k v u) = inorder (on sd t a c k v u)" by (cases sd) simp_all
  have apart: "a \<notin> set (addrs t)" "a \<notin> set (addrs u)" "a \<notin> ctx_addrs ctx"
    using dist by (cases sd; auto simp: distinct_plug)+
  have "ptr_of (plug ctx (on sd t a c' k v u)) = m_root s" unfolding root by (rule ptr_of_plug) simp
  moreover have "set_color (Some a) c' s =
      Inr (s\<lparr>store := (store s)(a \<mapsto> node_on sd (ptr_of t) (ptr_of u) (ctx_ptr ctx) c' k v)\<rparr>)"
    using h(2) by (simp add: set_color_def assign_Some)
  ultimately show ?thesis
    using h apart dist inord by (simp add: shows_tree_def plug_in only_tree_def inorder_plug)
qed

section \<open>Fixups on zippers\<close>

fun root_color :: "('k, 'v) shape \<Rightarrow> color" where
  "root_color Tip = Black"
| "root_color (Branch l a c k v r) = c"

fun paint :: "color \<Rightarrow> ('k, 'v) shape \<Rightarrow> ('k, 'v) shape" where
  "paint c' Tip = Tip"
| "paint c' (Branch l a c k v r) = Branch l a c' k v r"

fun child_of :: "side \<Rightarrow> ('k, 'v) shape \<Rightarrow> ('k, 'v) shape" where
  "child_of sd Tip = Tip"
| "child_of LeftSide (Branch l a c k v r) = l"
| "child_of RightSide (Branch l a c k v r) = r"

text \<open>The rotation of a node on the inner side to the top, as the two rotations of the code make it.\<close>

fun lift_inner :: "side \<Rightarrow> ('k, 'v) shape \<Rightarrow> ('k, 'v) shape \<Rightarrow> nat \<Rightarrow> 'k \<Rightarrow> 'v \<Rightarrow> nat \<Rightarrow> 'k \<Rightarrow> 'v \<Rightarrow> ('k, 'v) shape \<Rightarrow> ('k, 'v) shape"
where
  "lift_inner sd Tip w p kp vp g kg vg u = Tip"
| "lift_inner sd (Branch l a c k v r) w p kp vp g kg vg u =
     on sd (on sd w p Red kp vp (child_of sd (Branch l a c k v r))) a Black k v
       (on sd (child_of (opposite sd) (Branch l a c k v r)) g Red kg vg u)"

fun fixup :: "('k, 'v) frame list \<Rightarrow> ('k, 'v) shape \<Rightarrow> ('k, 'v) shape" where
  "fixup (Frame sd1 p Red kp vp w # Frame sd g c kg vg u # ctx) t =
     (if root_color u = Red then fixup ctx (on sd (on sd1 t p Black kp vp w) g Red kg vg (paint Black u))
      else if sd1 = sd then plug ctx (on sd t p Black kp vp (on sd w g Red kg vg u))
      else plug ctx (lift_inner sd t w p kp vp g kg vg u))"
| "fixup ctx t = plug ctx t"

lemma branch_on: "t \<noteq> Tip \<Longrightarrow> \<exists>a c k v. t = on sd (child_of sd t) a c k v (child_of (opposite sd) t) \<and> ptr_of t = Some a \<and> root_color t = c"
  by (cases t; cases sd) auto

lemma root_color_on [simp]: "root_color (on sd t a c k v u) = c"
  by (cases sd) simp_all

lemma is_red_in: "tree_in (store s) par t \<Longrightarrow> is_red s (ptr_of t) = Inr (root_color t = Red)"
  by (cases t) (simp_all add: is_red_def)

fun parents_ok :: "('k, 'v) frame list \<Rightarrow> bool" where
  "parents_ok [] = True"
| "parents_ok (Frame sd a c k v u # ctx) \<longleftrightarrow> (c = Red \<longrightarrow> ctx \<noteq> []) \<and> parents_ok ctx"

text \<open>One iteration of the loop.\<close>

lemma fixup_side_uncle_red:
  assumes s: "shows_tree s (plug ctx (on sd (on sd1 t p Red kp vp w) g c kg vg u))"
    and t: "ptr_of t = Some a" and red: "root_color u = Red"
  shows "\<exists>s'. insert_fixup_side sd (Some a) (Some g) s = Inr (Some g, s') \<and>
      shows_tree s' (plug ctx (on sd (on sd1 t p Black kp vp w) g Red kg vg (paint Black u))) \<and>
      only_tree (set (addrs (plug ctx (on sd (on sd1 t p Red kp vp w) g c kg vg u)))) s s'"
proof -
  have h: "tree_in (store s) (ctx_ptr ctx) (on sd (on sd1 t p Red kp vp w) g c kg vg u)"
    using s by (simp add: shows_tree_def plug_in)
  obtain l b k v r where u: "u = Branch l b Red k v r" using red by (cases u) auto
  have n: "\<exists>n. deref s (Some a) = Inr n \<and> parent n = Some p" using h t by (cases t) auto
  from set_color_represents [of s "Frame sd g c kg vg u # ctx" sd1 t p Red kp vp w Black] s
  obtain s1 where s1: "set_color (Some p) Black s = Inr s1"
    "shows_tree s1 (plug ctx (on sd (on sd1 t p Black kp vp w) g c kg vg u))" "only_tree {p} s s1" by auto
  from set_color_represents [of s1 "Frame (opposite sd) g c kg vg (on sd1 t p Black kp vp w) # ctx" LeftSide l b Red k v r Black] s1(2)
  obtain s2 where s2: "set_color (Some b) Black s1 = Inr s2"
    "shows_tree s2 (plug ctx (on sd (on sd1 t p Black kp vp w) g c kg vg (paint Black u)))" "only_tree {b} s1 s2"
    by (auto simp: u on_opposite)
  from set_color_represents [OF s2(2), of Red]
  obtain s3 where s3: "set_color (Some g) Red s2 = Inr s3"
    "shows_tree s3 (plug ctx (on sd (on sd1 t p Black kp vp w) g Red kg vg (paint Black u)))" "only_tree {g} s2 s3" by auto
  have "insert_fixup_side sd (Some a) (Some g) s = Inr (Some g, s3)"
    using n h s1(1) s2(1) s3(1) u is_red_in [of s "Some g" u] by (auto simp: insert_fixup_side_def Let_def)
  moreover have "only_tree {p, b, g} s s3"
    using s1(3) s2(3) s3(3) by (simp add: only_tree_def)
  then have "only_tree (set (addrs (plug ctx (on sd (on sd1 t p Red kp vp w) g c kg vg u)))) s s3"
    by (rule only_tree_mono) (cases sd; cases sd1; simp add: u inorder_plug)
  ultimately show ?thesis using s3(2) by blast
qed

lemma fixup_side_outer:
  assumes s: "shows_tree s (plug ctx (on sd (on sd t p Red kp vp w) g c kg vg u))"
    and t: "ptr_of t = Some a" and black: "root_color u = Black"
  shows "\<exists>s'. insert_fixup_side sd (Some a) (Some g) s = Inr (Some a, s') \<and>
      shows_tree s' (plug ctx (on sd t p Black kp vp (on sd w g Red kg vg u))) \<and>
      only_tree (set (addrs (plug ctx (on sd (on sd t p Red kp vp w) g c kg vg u)))) s s'"
proof -
  have h: "tree_in (store s) (ctx_ptr ctx) (on sd (on sd t p Red kp vp w) g c kg vg u)"
    and dist: "distinct (addrs (on sd (on sd t p Red kp vp w) g c kg vg u))"
    using s by (auto simp: shows_tree_def plug_in distinct_plug)
  have inner: "ptr_of w \<noteq> Some a" using dist t by (cases t; cases w; cases sd) auto
  have n: "\<exists>n. deref s (Some a) = Inr n \<and> parent n = Some p" using h t by (cases t) auto
  from set_color_represents [of s "Frame sd g c kg vg u # ctx" sd t p Red kp vp w Black] s
  obtain s1 where s1: "set_color (Some p) Black s = Inr s1"
    "shows_tree s1 (plug ctx (on sd (on sd t p Black kp vp w) g c kg vg u))" "only_tree {p} s s1" by auto
  from set_color_represents [OF s1(2), of Red]
  obtain s2 where s2: "set_color (Some g) Red s1 = Inr s2"
    "shows_tree s2 (plug ctx (on sd (on sd t p Black kp vp w) g Red kg vg u))" "only_tree {g} s1 s2" by auto
  from rotate_represents [of s2 ctx "opposite sd" u g Red kg vg w p Black kp vp t] s2(2)
  obtain s3 where s3: "tree_rotate (opposite sd) (Some g) s2 = Inr s3"
    "shows_tree s3 (plug ctx (on sd t p Black kp vp (on sd w g Red kg vg u)))"
    "only_tree (set (addrs (plug ctx (on sd (on sd t p Black kp vp w) g Red kg vg u)))) s2 s3"
    by (auto simp: on_opposite)
  have "insert_fixup_side sd (Some a) (Some g) s = Inr (Some a, s3)"
    using n h s1(1) s2(1) s3(1) inner black is_red_in [of s "Some g" u] by (auto simp: insert_fixup_side_def Let_def)
  moreover have "only_tree (set (addrs (plug ctx (on sd (on sd t p Red kp vp w) g c kg vg u)))) s s3"
    by (rule only_tree_trans [OF only_tree_mono [OF s1(3)] only_tree_trans [OF only_tree_mono [OF s2(3)] only_tree_mono [OF s3(3)]]])
      (cases sd; simp add: inorder_plug; blast)+
  ultimately show ?thesis using s3(2) by blast
qed

lemma fixup_side_inner:
  assumes s: "shows_tree s (plug ctx (on sd (on sd w p Red kp vp (on sd x a Red k v y)) g c kg vg u))"
    and black: "root_color u = Black"
  shows "\<exists>s'. insert_fixup_side sd (Some a) (Some g) s = Inr (Some p, s') \<and>
      shows_tree s' (plug ctx (on sd (on sd w p Red kp vp x) a Black k v (on sd y g Red kg vg u))) \<and>
      only_tree (set (addrs (plug ctx (on sd (on sd w p Red kp vp (on sd x a Red k v y)) g c kg vg u)))) s s'"
proof -
  let ?t = "on sd x a Red k v y"
  have h: "tree_in (store s) (ctx_ptr ctx) (on sd (on sd w p Red kp vp ?t) g c kg vg u)"
    using s by (simp add: shows_tree_def plug_in)
  from rotate_represents [of s "Frame sd g c kg vg u # ctx" sd w p Red kp vp x a Red k v y] s
  obtain s1 where s1: "tree_rotate sd (Some p) s = Inr s1"
    "shows_tree s1 (plug ctx (on sd (on sd (on sd w p Red kp vp x) a Red k v y) g c kg vg u))"
    "only_tree (set (addrs (plug ctx (on sd (on sd w p Red kp vp ?t) g c kg vg u)))) s s1" by auto
  from set_color_represents [of s1 "Frame sd g c kg vg u # ctx" sd "on sd w p Red kp vp x" a Red k v y Black] s1(2)
  obtain s2 where s2: "set_color (Some a) Black s1 = Inr s2"
    "shows_tree s2 (plug ctx (on sd (on sd (on sd w p Red kp vp x) a Black k v y) g c kg vg u))" "only_tree {a} s1 s2" by auto
  from set_color_represents [OF s2(2), of Red]
  obtain s3 where s3: "set_color (Some g) Red s2 = Inr s3"
    "shows_tree s3 (plug ctx (on sd (on sd (on sd w p Red kp vp x) a Black k v y) g Red kg vg u))" "only_tree {g} s2 s3" by auto
  from rotate_represents [of s3 ctx "opposite sd" u g Red kg vg y a Black k v "on sd w p Red kp vp x"] s3(2)
  obtain s4 where s4: "tree_rotate (opposite sd) (Some g) s3 = Inr s4"
    "shows_tree s4 (plug ctx (on sd (on sd w p Red kp vp x) a Black k v (on sd y g Red kg vg u)))"
    "only_tree (set (addrs (plug ctx (on sd (on sd (on sd w p Red kp vp x) a Black k v y) g Red kg vg u)))) s3 s4"
    by (auto simp: on_opposite)
  have n: "\<exists>n. deref s1 (Some p) = Inr n \<and> parent n = Some a" using s1(2) by (simp add: shows_tree_def plug_in)
  have "insert_fixup_side sd (Some a) (Some g) s = Inr (Some p, s4)"
    using n h s1(1) s2(1) s3(1) s4(1) black is_red_in [of s "Some g" u] by (auto simp: insert_fixup_side_def Let_def)
  moreover have "only_tree (set (addrs (plug ctx (on sd (on sd w p Red kp vp ?t) g c kg vg u)))) s s4"
    by (rule only_tree_trans [OF s1(3) only_tree_trans [OF only_tree_mono [OF s2(3)] only_tree_trans
        [OF only_tree_mono [OF s3(3)] only_tree_mono [OF s4(3)]]]])
      (cases sd; simp add: inorder_plug; blast)+
  ultimately show ?thesis using s4(2) by blast
qed

lemma body_side:
  assumes s: "shows_tree s (plug ctx (on sd (on sd1 t p Red kp vp w) g c kg vg u))" and t: "ptr_of t = Some a"
  shows "insert_fixup_body (Some a) s = insert_fixup_side sd (Some a) (Some g) s"
proof -
  have h: "tree_in (store s) (ctx_ptr ctx) (on sd (on sd1 t p Red kp vp w) g c kg vg u)"
    and dist: "distinct (addrs (on sd (on sd1 t p Red kp vp w) g c kg vg u))"
    using s by (auto simp: shows_tree_def plug_in distinct_plug)
  have "ptr_of u \<noteq> Some p" using dist by (cases u; cases sd; cases sd1) auto
  moreover have "\<exists>n. deref s (Some a) = Inr n \<and> parent n = Some p" using h t by (cases t) auto
  ultimately show ?thesis using h by (cases sd) (auto simp: insert_fixup_body_def Let_def)
qed

text \<open>The loop computes \<open>fixup\<close>, and returns.\<close>

lemma loop_exit:
  assumes "shows_tree s (plug ctx t)" and "ptr_of t = Some a" and "ctx \<noteq> [] \<Longrightarrow> (case hd ctx of Frame sd p c kp vp w \<Rightarrow> c = Black)"
  shows "insert_fixup_loop (Some a) s = Some (Inr s)"
proof -
  have h: "ctx_in (store s) ctx (Some a)" "tree_in (store s) (ctx_ptr ctx) t"
    using assms by (auto simp: shows_tree_def plug_in)
  obtain n where n: "deref s (Some a) = Inr n" "parent n = ctx_ptr ctx" using h(2) assms(2) by (cases t) auto
  have "is_red s (ctx_ptr ctx) = Inr False"
  proof (cases ctx)
    case (Cons f ctx')
    then show ?thesis using h(1) assms(3) by (cases f) (auto simp: is_red_def)
  qed (simp add: is_red_def)
  then show ?thesis using n by (subst insert_fixup_loop.simps) (simp add: fixup_needed_def)
qed

lemma loop_step:
  assumes "shows_tree s (plug (Frame sd p Red kp vp w # ctx) t)" and "ptr_of t = Some a"
    and "insert_fixup_body (Some a) s = Inr (node, s')"
  shows "insert_fixup_loop (Some a) s = insert_fixup_loop node s'"
proof -
  have h: "store s p = Some (node_on sd (ptr_of t) (ptr_of w) (ctx_ptr ctx) Red kp vp)" "tree_in (store s) (Some p) t"
    using assms(1) by (auto simp: shows_tree_def plug_in)
  then obtain n where "deref s (Some a) = Inr n" "parent n = Some p" using assms(2) by (cases t) auto
  then show ?thesis using h(1) assms(3)
    by (subst insert_fixup_loop.simps) (simp add: fixup_needed_def is_red_def)
qed

lemma insert_fixup_loop_fixup:
  assumes "shows_tree s (plug ctx t)" and "ptr_of t = Some a" and "root_color t = Red" and "parents_ok ctx"
  shows "\<exists>s'. insert_fixup_loop (Some a) s = Some (Inr s') \<and> shows_tree s' (fixup ctx t) \<and>
      only_tree (set (addrs (plug ctx t))) s s'"
  using assms
proof (induction ctx t arbitrary: s a rule: fixup.induct [case_names red_parent no_parent black_parent only_parent])
  case (red_parent sd1 p kp vp w sd g c kg vg u ctx t)
  let ?T = "on sd (on sd1 t p Red kp vp w) g c kg vg u"
  have s: "shows_tree s (plug ctx ?T)" using red_parent.prems(1) by simp
  note step = loop_step [OF red_parent.prems(1,2)] and body = body_side [OF s red_parent.prems(2)]
  show ?case
  proof (cases "root_color u = Red")
    case True
    obtain s' where s': "insert_fixup_side sd (Some a) (Some g) s = Inr (Some g, s')"
      "shows_tree s' (plug ctx (on sd (on sd1 t p Black kp vp w) g Red kg vg (paint Black u)))"
      "only_tree (set (addrs (plug ctx ?T))) s s'"
      using fixup_side_uncle_red [OF s red_parent.prems(2) True] by blast
    let ?T' = "on sd (on sd1 t p Black kp vp w) g Red kg vg (paint Black u)"
    have "addrs ?T' = addrs ?T" by (cases u; cases sd; cases sd1) simp_all
    then have same: "addrs (plug ctx ?T') = addrs (plug ctx ?T)" by (simp add: inorder_plug)
    obtain s'' where s'': "insert_fixup_loop (Some g) s' = Some (Inr s'')" "shows_tree s'' (fixup ctx ?T')"
      "only_tree (set (addrs (plug ctx ?T'))) s' s''"
      using red_parent.IH [OF True s'(2)] red_parent.prems(4) by auto
    have "only_tree (set (addrs (plug ctx ?T))) s s''"
      using only_tree_trans [OF s'(3) s''(3) [unfolded same]] .
    then show ?thesis using step [of "Some g" s'] body s'(1) s''(1,2) True by simp
  next
    case black: False
    then have black: "root_color u = Black" by (cases "root_color u") simp_all
    show ?thesis
    proof (cases "sd1 = sd")
      case True
      obtain s' where s': "insert_fixup_side sd (Some a) (Some g) s = Inr (Some a, s')"
        "shows_tree s' (plug ctx (on sd t p Black kp vp (on sd w g Red kg vg u)))" "only_tree (set (addrs (plug ctx ?T))) s s'"
        using fixup_side_outer [of s ctx sd t p kp vp w g c kg vg u a] s red_parent.prems(2) black True by blast
      have "insert_fixup_loop (Some a) s' = Some (Inr s')"
        using s'(2) red_parent.prems(2) by (intro loop_exit [of s' "Frame sd p Black kp vp (on sd w g Red kg vg u) # ctx" t]) simp_all
      then show ?thesis using step [of "Some a" s'] body s' True black by simp
    next
      case False
      then have sd1: "sd1 = opposite sd" by (cases sd; cases sd1) simp_all
      have "t \<noteq> Tip" using red_parent.prems(2) by auto
      then obtain x k v y where t: "t = on sd x a Red k v y" "x = child_of sd t" "y = child_of (opposite sd) t"
        using branch_on [of t sd] red_parent.prems(2,3) by auto
      obtain s' where s': "insert_fixup_side sd (Some a) (Some g) s = Inr (Some p, s')"
        "shows_tree s' (plug ctx (on sd (on sd w p Red kp vp x) a Black k v (on sd y g Red kg vg u)))"
        "only_tree (set (addrs (plug ctx ?T))) s s'"
        using fixup_side_inner [of s ctx sd w p kp vp x a k v y g c kg vg u] s black by (auto simp: t(1) sd1 on_opposite)
      have "insert_fixup_loop (Some p) s' = Some (Inr s')"
        using s'(2) by (intro loop_exit [of s' "Frame sd a Black k v (on sd y g Red kg vg u) # ctx" "on sd w p Red kp vp x"]) simp_all
      moreover have "lift_inner sd t w p kp vp g kg vg u = on sd (on sd w p Red kp vp x) a Black k v (on sd y g Red kg vg u)"
        unfolding t(1) by (cases sd) simp_all
      ultimately show ?thesis using step [of "Some p" s'] body s' False black by simp
    qed
  qed
next
  case (no_parent t)
  then show ?case using loop_exit [of s "[]" t a] by (auto simp: only_tree_def)
next
  case (black_parent sd p kp vp w ctx t)
  then show ?case using loop_exit [of s "Frame sd p Black kp vp w # ctx" t a] by (auto simp: only_tree_def)
next
  case (only_parent f t)
  obtain sd p c kp vp w where f: "f = Frame sd p c kp vp w" by (cases f)
  have "c = Black" using only_parent.prems(4) by (cases c) (simp_all add: f)
  then show ?case using only_parent.prems loop_exit [of s "[f]" t a] by (auto simp: only_tree_def f)
qed

end
