(* ===== verification/RedBlackTree_Correct.thy ===== *)
theory RedBlackTree_Correct
  imports RedBlackTree_Insert
begin

text \<open>
  Insertion keeps the red-black shape, the order of the keys, the size and the pointer to the least node.
\<close>

section \<open>The red-black shape\<close>

fun bheight :: "('k, 'v) shape \<Rightarrow> nat" where
  "bheight Tip = 0"
| "bheight (Branch l a c k v r) = (if c = Black then bheight l + 1 else bheight l)"

fun invc :: "('k, 'v) shape \<Rightarrow> bool" where
  "invc Tip = True"
| "invc (Branch l a c k v r) \<longleftrightarrow> (c = Red \<longrightarrow> root_color l = Black \<and> root_color r = Black) \<and> invc l \<and> invc r"

fun invh :: "('k, 'v) shape \<Rightarrow> bool" where
  "invh Tip = True"
| "invh (Branch l a c k v r) \<longleftrightarrow> bheight l = bheight r \<and> invh l \<and> invh r"

definition rb :: "('k, 'v) shape \<Rightarrow> bool" where
  "rb t \<longleftrightarrow> invc t \<and> invh t \<and> root_color t = Black"

text \<open>What a context asks of a tree of black height \<open>n\<close> in its hole.\<close>

fun top_color :: "('k, 'v) frame list \<Rightarrow> color" where
  "top_color [] = Black"
| "top_color (Frame sd a c k v u # ctx) = c"

fun ctx_ok :: "nat \<Rightarrow> ('k, 'v) frame list \<Rightarrow> bool" where
  "ctx_ok n [] = True"
| "ctx_ok n (Frame sd a c k v u # ctx) \<longleftrightarrow>
     invc u \<and> invh u \<and> bheight u = n \<and>
     (c = Red \<longrightarrow> root_color u = Black \<and> ctx \<noteq> [] \<and> top_color ctx = Black) \<and>
     ctx_ok (if c = Black then n + 1 else n) ctx"

lemma not_Red [simp]: "c \<noteq> Red \<longleftrightarrow> c = Black" "c \<noteq> Black \<longleftrightarrow> c = Red"
  by (cases c; simp)+

lemma inv_on [simp]:
  "invc (on sd t a c k v u) \<longleftrightarrow> (c = Red \<longrightarrow> root_color t = Black \<and> root_color u = Black) \<and> invc t \<and> invc u"
  "invh (on sd t a c k v u) \<longleftrightarrow> bheight t = bheight u \<and> invh t \<and> invh u"
  by (cases sd; auto)+

lemma bheight_on [simp]: "bheight t = bheight u \<Longrightarrow> bheight (on sd t a c k v u) = (if c = Black then bheight t + 1 else bheight t)"
  by (cases sd) simp_all

lemma rb_plug:
  "rb (plug ctx t) \<longleftrightarrow>
     ctx_ok (bheight t) ctx \<and> invc t \<and> invh t \<and> (ctx = [] \<or> top_color ctx = Red \<longrightarrow> root_color t = Black)"
proof (induction ctx arbitrary: t)
  case Nil
  then show ?case by (simp add: rb_def)
next
  case (Cons f ctx)
  obtain sd a c k v u where f: "f = Frame sd a c k v u" by (cases f)
  show ?case by (cases c; cases "bheight t = bheight u") (auto simp: f Cons.IH)
qed

lemma ctx_ok_parents: "ctx_ok n ctx \<Longrightarrow> parents_ok ctx"
  by (induction n ctx rule: ctx_ok.induct) simp_all

lemma paint_simps [simp]:
  "inorder (paint c t) = inorder t" "invh (paint c t) = invh t" "ptr_of (paint c t) = ptr_of t"
  "root_color (paint Black t) = Black" "invc t \<Longrightarrow> invc (paint Black t)" "paint c Tip = Tip"
  by (cases t; simp)+

lemma paint_red_root: "root_color t = Red \<Longrightarrow> bheight (paint Black t) = bheight t + 1"
  by (cases t) simp_all

lemma paint_on [simp]: "paint c' (on sd t a c k v u) = on sd t a c' k v u"
  by (cases sd) simp_all

lemma paint_id: "root_color t = c \<Longrightarrow> t \<noteq> Tip \<Longrightarrow> paint c t = t"
  by (cases t) simp_all

lemma child_of_on [simp]:
  "child_of sd (on sd t a c k v u) = t" "child_of (opposite sd) (on sd t a c k v u) = u"
  by (cases sd; simp)+

lemma lift_inner_on:
  "lift_inner sd (on sd x a c k v y) w p kp vp g kg vg u = on sd (on sd w p Red kp vp x) a Black k v (on sd y g Red kg vg u)"
  by (cases sd) simp_all

section \<open>The fixups keep the order and restore the shape\<close>

lemma inorder_on_cong: "inorder t = inorder t' \<Longrightarrow> inorder u = inorder u' \<Longrightarrow> inorder (on sd t a c k v u) = inorder (on sd t' a c' k v u')"
  by (cases sd) simp_all

lemma inorder_fixup: "t \<noteq> Tip \<Longrightarrow> inorder (fixup ctx t) = inorder (plug ctx t)"
proof (induction ctx t rule: fixup.induct [case_names red_parent no_parent black_parent only_parent])
  case (red_parent sd1 p kp vp w sd g c kg vg u ctx t)
  obtain x a c' k v y where t: "t = on sd x a c' k v y" using branch_on [OF red_parent(2), of sd] by blast
  show ?case
  proof (cases "root_color u = Red")
    case True
    have "on sd (on sd1 t p Black kp vp w) g Red kg vg (paint Black u) \<noteq> Tip" by (cases sd) simp_all
    then show ?thesis using red_parent(1) [OF True] True
      by (cases sd; cases sd1) (simp_all add: inorder_plug)
  next
    case False
    then show ?thesis
      by (cases sd; cases sd1) (simp_all add: inorder_plug t)
  qed
qed simp_all

lemma fixup_rb:
  assumes "ctx_ok (bheight t) ctx" and "invc t" and "invh t" and "root_color t = Red"
  shows "rb (paint Black (fixup ctx t))"
  using assms
proof (induction ctx t rule: fixup.induct [case_names red_parent no_parent black_parent only_parent])
  case (red_parent sd1 p kp vp w sd g c kg vg u ctx t)
  have c: "c = Black" and ok: "ctx_ok (bheight t + 1) ctx" "invc w" "invh w" "bheight w = bheight t" "root_color w = Black"
    "invc u" "invh u" "bheight u = bheight t" using red_parent.prems by auto
  have "t \<noteq> Tip" using red_parent.prems by auto
  then obtain x a k v y where t: "t = on sd x a Red k v y" using branch_on [of t sd] red_parent.prems by auto
  show ?case
  proof (cases "root_color u = Red")
    case True
    then show ?thesis using red_parent(1) red_parent.prems ok by (simp add: paint_red_root)
  next
    case u: False
    show ?thesis
    proof (cases "sd1 = sd")
      case True
      have "rb (plug ctx (on sd t p Black kp vp (on sd w g Red kg vg u)))"
        using ok u red_parent.prems by (simp add: rb_plug)
      then show ?thesis using True u by (auto simp: rb_def)
    next
      case False
      have "rb (plug ctx (on sd (on sd w p Red kp vp x) a Black k v (on sd y g Red kg vg u)))"
        using ok u red_parent.prems by (auto simp: rb_plug t)
      then show ?thesis using False u by (auto simp: rb_def t lift_inner_on)
    qed
  qed
next
  case (no_parent t)
  then show ?case by (simp add: rb_def)
next
  case (black_parent sd p kp vp w ctx t)
  then have "rb (plug (Frame sd p Black kp vp w # ctx) t)" by (subst rb_plug) auto
  then show ?case by (simp add: rb_def)
next
  case (only_parent f t)
  obtain sd p c kp vp w where f: "f = Frame sd p c kp vp w" by (cases f)
  from only_parent have "c = Black" by (auto simp: f)
  then have "rb (plug [f] t)" using only_parent by (subst rb_plug) (auto simp: f)
  then show ?case by (simp add: rb_def)
qed

section \<open>Colours that stay\<close>

text \<open>
  The new node stays red unless it is rotated upwards, and then it is not the least one. The update of
  \<open>m_minimum\<close> relies on this.
\<close>

fun colors :: "('k, 'v) shape \<Rightarrow> (nat \<times> color) list" where
  "colors Tip = []"
| "colors (Branch l a c k v r) = colors l @ (a, c) # colors r"

lemma colors_on [simp]: "set (colors (on sd t a c k v u)) = insert (a, c) (set (colors t) \<union> set (colors u))"
  by (cases sd) auto

lemma colors_plug: "set (colors t) \<subseteq> set (colors (plug ctx t))"
proof (induction ctx arbitrary: t)
  case (Cons f ctx)
  obtain sd a c k v u where f: "f = Frame sd a c k v u" by (cases f)
  show ?case using Cons.IH [of "on sd t a c k v u"] by (auto simp: f)
qed simp

lemma colors_addrs: "map fst (colors t) = addrs t"
  by (induction t) simp_all

lemma root_plug: "ptr_of (plug ctx t) = Some x \<Longrightarrow> x \<in> ctx_addrs ctx \<or> ctx = [] \<and> ptr_of t = Some x"
proof (induction ctx arbitrary: t)
  case (Cons f ctx)
  obtain sd a c k v u where f: "f = Frame sd a c k v u" by (cases f)
  show ?case using Cons.IH [of "on sd t a c k v u"] Cons.prems by (simp add: f del: before_ctx.simps after_ctx.simps) blast
qed simp

definition stays :: "nat \<Rightarrow> color \<Rightarrow> ('k, 'v) shape \<Rightarrow> bool" where
  "stays x c t \<longleftrightarrow> (x, c) \<in> set (colors t) \<and> ptr_of t \<noteq> Some x"

lemma stays_on: "stays x c (on sd t a c' k v u) \<longleftrightarrow> x \<noteq> a \<and> ((x, c) \<in> set (colors t) \<or> (x, c) \<in> set (colors u))"
  by (auto simp: stays_def)

lemma stays_plug:
  assumes "distinct (addrs (plug ctx t))" and "stays x c t"
  shows "stays x c (plug ctx t)"
proof -
  have "x \<in> set (addrs t)" using assms(2) by (metis colors_addrs fst_conv image_eqI set_map stays_def)
  then have "x \<notin> ctx_addrs ctx" using assms(1) by (auto simp: distinct_plug)
  then show ?thesis using assms(2) colors_plug [of t ctx] root_plug [of ctx t x] by (auto simp: stays_def)
qed

lemma addrs_paint_on: "mset (addrs (on sd (on sd1 t p Black kp vp w) g Red kg vg (paint Black u))) =
    mset (addrs (on sd (on sd1 t p Red kp vp w) g c kg vg u))"
  by (cases sd; cases sd1; cases u) simp_all

lemma distinct_plug_cong: "mset (addrs t) = mset (addrs t') \<Longrightarrow> distinct (addrs (plug ctx t)) = distinct (addrs (plug ctx t'))"
  by (rule mset_eq_imp_distinct_iff) (simp add: inorder_plug)

lemma stays_addrs: "stays x c t \<Longrightarrow> x \<in> set (addrs t)"
  by (metis colors_addrs fst_conv image_eqI set_map stays_def)

lemma addrs_on [simp]: "set (addrs (on sd t a c k v u)) = insert a (set (addrs t) \<union> set (addrs u))"
  by (cases sd) auto

lemma distinct_on: "distinct (addrs (on sd t a c k v u)) \<Longrightarrow> a \<notin> set (addrs t) \<and> a \<notin> set (addrs u)"
  by (cases sd) auto

lemma root_stays:
  assumes "distinct (addrs (plug ctx t))" and "ptr_of t = Some a" and "ctx \<noteq> []"
  shows "stays a (root_color t) (plug ctx t)"
proof -
  have "a \<in> set (addrs t)" "(a, root_color t) \<in> set (colors t)" using assms(2) by (cases t; simp)+
  moreover from this have "a \<notin> ctx_addrs ctx" using assms(1) by (auto simp: distinct_plug)
  ultimately show ?thesis using assms(3) colors_plug [of t ctx] root_plug [of ctx t a] by (auto simp: stays_def)
qed

lemma fixup_stays: "distinct (addrs (plug ctx t)) \<Longrightarrow> t \<noteq> Tip \<Longrightarrow> stays x c t \<Longrightarrow> stays x c (fixup ctx t)"
proof (induction ctx t rule: fixup.induct [case_names red_parent no_parent black_parent only_parent])
  case (red_parent sd1 p kp vp w sd g c' kg vg u ctx t)
  let ?T = "on sd (on sd1 t p Red kp vp w) g c' kg vg u"
  have dist: "distinct (addrs (plug ctx ?T))" using red_parent.prems(1) by simp
  then have "distinct (addrs ?T)" by (simp add: distinct_plug)
  moreover from this have "g \<notin> set (addrs (on sd1 t p Red kp vp w))" by (rule conjunct1 [OF distinct_on])
  moreover have "p \<notin> set (addrs t)" using calculation(1) by (cases sd; cases sd1) auto
  moreover have "set (addrs t) \<subseteq> set (addrs (on sd1 t p Red kp vp w))" unfolding addrs_on by blast
  ultimately have x: "x \<noteq> g" "x \<noteq> p" "(x, c) \<in> set (colors t)"
    using stays_addrs [OF red_parent.prems(3)] red_parent.prems(3) by (auto simp: stays_def simp del: addrs_on)
  show ?case
  proof (cases "root_color u = Red")
    case True
    have "distinct (addrs (plug ctx (on sd (on sd1 t p Black kp vp w) g Red kg vg (paint Black u))))"
      using dist distinct_plug_cong [OF addrs_paint_on] by metis
    moreover have "on sd (on sd1 t p Black kp vp w) g Red kg vg (paint Black u) \<noteq> Tip" by (cases sd) simp_all
    ultimately show ?thesis using red_parent(1) [OF True] True x by (simp add: stays_on)
  next
    case black: False
    show ?thesis
    proof (cases "sd1 = sd")
      case True
      have "distinct (addrs (plug ctx (on sd t p Black kp vp (on sd w g Red kg vg u))))"
        using dist distinct_plug_cong [of "on sd t p Black kp vp (on sd w g Red kg vg u)" ?T]
        by (cases sd) (simp_all add: True)
      then have "stays x c (plug ctx (on sd t p Black kp vp (on sd w g Red kg vg u)))"
        by (rule stays_plug) (use x in \<open>simp add: stays_on\<close>)
      then show ?thesis using black True by simp
    next
      case False
      obtain y a d k v z where t: "t = on sd y a d k v z" using branch_on [OF red_parent.prems(2), of sd] by blast
      let ?L = "on sd (on sd w p Red kp vp y) a Black k v (on sd z g Red kg vg u)"
      have "distinct (addrs (plug ctx ?L))"
        using dist distinct_plug_cong [of ?L ?T] False by (cases sd; cases sd1) (simp_all add: t)
      moreover have "stays x c ?L" using x red_parent.prems(3) by (auto simp: stays_on t)
      ultimately have "stays x c (plug ctx ?L)" by (rule stays_plug)
      then show ?thesis using black False by (simp add: t lift_inner_on)
    qed
  qed
qed (auto intro: stays_plug simp del: plug.simps)

lemma fixup_least_stays:
  assumes "distinct (addrs (plug ctx t))" and "t = Branch Tip a Red k v Tip" and "before_ctx ctx = []" and "ctx \<noteq> []"
    and "parents_ok ctx"
  shows "stays a Red (fixup ctx t)"
proof (cases "(ctx, t)" rule: fixup.cases)
  case (1 sd1 p kp vp w sd g c' kg vg u ctx' t')
  let ?T = "on sd (on sd1 t p Red kp vp w) g c' kg vg u"
  have sides: "sd1 = LeftSide" "sd = LeftSide" using assms(3) 1 by (cases sd1; cases sd; simp)+
  have dist: "distinct (addrs (plug ctx' ?T))" using assms(1) 1 by simp
  then have x: "a \<noteq> g" "a \<noteq> p" using assms(2) by (auto simp: distinct_plug sides)
  show ?thesis
  proof (cases "root_color u = Red")
    case True
    have "distinct (addrs (plug ctx' (on sd (on sd1 t p Black kp vp w) g Red kg vg (paint Black u))))"
      using dist distinct_plug_cong [OF addrs_paint_on] by metis
    moreover have "stays a Red (on sd (on sd1 t p Black kp vp w) g Red kg vg (paint Black u))"
      using x assms(2) by (simp add: stays_def sides)
    ultimately have "stays a Red (fixup ctx' (on sd (on sd1 t p Black kp vp w) g Red kg vg (paint Black u)))"
      by (rule_tac fixup_stays) (simp_all add: sides)
    then show ?thesis using True 1 by simp
  next
    case False
    have "distinct (addrs (plug ctx' (on sd t p Black kp vp (on sd w g Red kg vg u))))"
      using dist distinct_plug_cong [of "on sd t p Black kp vp (on sd w g Red kg vg u)" ?T] by (simp add: sides)
    moreover have "stays a Red (on sd t p Black kp vp (on sd w g Red kg vg u))"
      using x assms(2) by (simp add: stays_def sides)
    ultimately have "stays a Red (plug ctx' (on sd t p Black kp vp (on sd w g Red kg vg u)))" by (rule stays_plug)
    then show ?thesis using False 1 by (simp add: sides)
  qed
qed (use assms root_stays [OF assms(1), of a] in \<open>simp_all del: plug.simps\<close>)

end
