(* ===== verification/RedBlackTree_Properties.thy ===== *)
theory RedBlackTree_Properties
  imports RedBlackTree_Correct
begin

text \<open>
  Insertion as a whole, the searches and the iteration, over the list of the nodes in order.
\<close>

section \<open>The place of a new key\<close>

abbreviation cell_key :: "nat \<times> 'k \<times> 'v \<Rightarrow> 'k" where
  "cell_key x \<equiv> fst (snd x)"

definition insert_after :: "nat \<times> 'k::linorder \<times> 'v \<Rightarrow> (nat \<times> 'k \<times> 'v) list \<Rightarrow> (nat \<times> 'k \<times> 'v) list" where
  "insert_after x xs =
     takeWhile (\<lambda>y. cell_key y \<le> cell_key x) xs @ x # dropWhile (\<lambda>y. cell_key y \<le> cell_key x) xs"

lemma insert_after_left: "cell_key x < cell_key y \<Longrightarrow> insert_after x (xs @ y # ys) = insert_after x xs @ y # ys"
  by (induction xs) (auto simp: insert_after_def)

lemma insert_after_right:
  "\<forall>z \<in> set xs. cell_key z \<le> cell_key x \<Longrightarrow> cell_key y \<le> cell_key x \<Longrightarrow> insert_after x (xs @ y # ys) = xs @ y # insert_after x ys"
  by (induction xs) (auto simp: insert_after_def)

lemma mset_insert_after: "mset (insert_after x xs) = add_mset x (mset xs)"
proof -
  have "mset (takeWhile (\<lambda>y. cell_key y \<le> cell_key x) xs) + mset (dropWhile (\<lambda>y. cell_key y \<le> cell_key x) xs) = mset xs"
    by (simp flip: mset_append)
  then show ?thesis by (simp add: insert_after_def)
qed

lemma set_insert_after: "set (insert_after x xs) = insert x (set xs)"
  using arg_cong [OF mset_insert_after, of set_mset] by simp

lemma length_insert_after: "length (insert_after x xs) = length xs + 1"
  by (induction xs) (auto simp: insert_after_def)

lemma sorted_insert_after: "sorted (map cell_key xs) \<Longrightarrow> sorted (map cell_key (insert_after x xs))"
proof (induction xs)
  case (Cons y ys)
  then show ?case
  proof (cases "cell_key y \<le> cell_key x")
    case True
    then have "insert_after x (y # ys) = y # insert_after x ys" by (simp add: insert_after_def)
    then show ?thesis using Cons True by (auto simp: set_insert_after)
  next
    case False
    then show ?thesis using Cons by (auto simp: insert_after_def)
  qed
qed (simp add: insert_after_def)

fun place_of :: "'k::linorder \<Rightarrow> ('k, 'v) frame list \<Rightarrow> ('k, 'v) shape \<Rightarrow> ('k, 'v) frame list" where
  "place_of k ctx Tip = ctx"
| "place_of k ctx (Branch l a c k' v r) =
     (if k < k' then place_of k (Frame LeftSide a c k' v r # ctx) l else place_of k (Frame RightSide a c k' v l # ctx) r)"

lemma plug_place: "plug (place_of k ctx t) Tip = plug ctx t"
  by (induction t arbitrary: ctx) simp_all

lemma find_place_place:
  "tree_in (store s) (ctx_ptr ctx) t \<Longrightarrow> find_place s k (ctx_ptr ctx) (ptr_of t) = Some (Inr (ctx_ptr (place_of k ctx t)))"
proof (induction t arbitrary: ctx)
  case Tip
  then show ?case by (subst find_place.simps) simp
next
  case (Branch l a c k' v r)
  then show ?case
    using Branch.IH(1) [of "Frame LeftSide a c k' v r # ctx"] Branch.IH(2) [of "Frame RightSide a c k' v l # ctx"]
    by (subst find_place.simps) simp
qed

fun sided :: "'k::linorder \<Rightarrow> ('k, 'v) frame list \<Rightarrow> bool" where
  "sided k [] = True"
| "sided k (Frame sd a c k' v u # ctx) \<longleftrightarrow> (sd = LeftSide \<longleftrightarrow> k < k')"

lemma sided_place: "sided k ctx \<Longrightarrow> sided k (place_of k ctx t)"
  by (induction t arbitrary: ctx) simp_all

lemma place_Nil: "place_of k ctx t = [] \<longleftrightarrow> ctx = [] \<and> t = Tip"
  by (induction t arbitrary: ctx) simp_all

lemma inorder_place:
  "sorted (map cell_key (inorder t)) \<Longrightarrow>
   inorder (plug (place_of k ctx t) (Branch Tip a c k v Tip)) = before_ctx ctx @ insert_after (a, k, v) (inorder t) @ after_ctx ctx"
proof (induction t arbitrary: ctx)
  case Tip
  then show ?case by (simp add: inorder_plug insert_after_def)
next
  case (Branch l b d k' v' r)
  have s: "sorted (map cell_key (inorder l))" "sorted (map cell_key (inorder r))" "\<forall>z \<in> set (inorder l). cell_key z \<le> k'"
    using Branch.prems by (auto simp: sorted_append)
  show ?case
  proof (cases "k < k'")
    case True
    then show ?thesis using Branch.IH(1) [OF s(1)] insert_after_left [of "(a, k, v)" "(b, k', v')"] by simp
  next
    case False
    then have "\<forall>z \<in> set (inorder l). cell_key z \<le> k" using s(3) by auto
    then show ?thesis
      using False Branch.IH(2) [OF s(2)] insert_after_right [of "inorder l" "(a, k, v)" "(b, k', v')"] by simp
  qed
qed

section \<open>Linking the new node\<close>

lemma link_represents:
  assumes s: "shows_tree s (plug (Frame sd p c kp vp u # ctx) Tip)"
    and a: "store s a = Some (new_node k v)" "a \<notin> set (addrs (plug (Frame sd p c kp vp u # ctx) Tip))"
    and side: "sd = LeftSide \<longleftrightarrow> k < kp"
  shows "\<exists>s'. link (Some a) (Some p) s = Inr s' \<and>
      shows_tree s' (plug (Frame sd p c kp vp u # ctx) (Branch Tip a Red k v Tip)) \<and> only_tree {a, p} s s'"
proof -
  let ?ctx = "Frame sd p c kp vp u # ctx"
  have h: "store s p = Some (node_on sd None (ptr_of u) (ctx_ptr ctx) c kp vp)" "ctx_in (store s) ?ctx None"
    and dist: "distinct (addrs (plug ?ctx Tip))" and root: "m_root s = ptr_of (plug ?ctx Tip)"
    using s by (auto simp: shows_tree_def plug_in simp del: plug.simps)
  have out: "a \<noteq> p" "a \<notin> set (addrs u)" "a \<notin> ctx_addrs ctx" using a(2) by (cases sd; auto simp: inorder_plug)+
  define n where "n = \<lparr>left_child = None, right_child = None, parent = Some p, color = Red, key = k, node_value = v\<rparr>"
  define s' where "s' = s\<lparr>store := (store s)(p \<mapsto> node_on sd (Some a) (ptr_of u) (ctx_ptr ctx) c kp vp, a \<mapsto> n)\<rparr>"
  have "link (Some a) (Some p) s = Inr s'"
  proof -
    have "(if k < kp then set_left (Some p) (Some a) s else set_right (Some p) (Some a) s) = set_child sd (Some p) (Some a) s"
      using side by (cases sd) simp_all
    then show ?thesis using h a out set_child_Some [OF h(1), of "Some a"]
      by (simp add: link_def set_parent_def assign_Some s'_def n_def new_node_def)
  qed
  moreover have "shows_tree s' (plug ?ctx (Branch Tip a Red k v Tip))"
  proof -
    have "p \<notin> set (addrs u)" "p \<notin> ctx_addrs ctx" using dist by (cases sd; auto simp: inorder_plug)+
    then have "tree_in (store s') None (plug ?ctx (Branch Tip a Red k v Tip))"
      using h out by (simp add: s'_def n_def plug_in)
    moreover have "m_root s' = ptr_of (plug ?ctx (Branch Tip a Red k v Tip))"
      unfolding s'_def using root ptr_of_plug_cons [of ?ctx] by simp
    moreover have "distinct (addrs (plug ?ctx (Branch Tip a Red k v Tip)))"
      using dist a(2) unfolding inorder_plug [of ?ctx] by auto
    ultimately show ?thesis by (simp add: shows_tree_def)
  qed
  moreover have "only_tree {a, p} s s'" by (simp add: only_tree_def s'_def)
  ultimately show ?thesis by blast
qed

section \<open>The least node\<close>

lemma least_no_left: "tree_in h par t \<Longrightarrow> inorder t = (m, y) # rest \<Longrightarrow> \<exists>n. h m = Some n \<and> left_child n = None"
proof (induction t arbitrary: par rest)
  case (Branch l a c k v r)
  then show ?case by (cases l) (auto simp: append_eq_Cons_conv Cons_eq_append_conv)
qed simp

lemma inorder_Nil [simp]: "inorder t = [] \<longleftrightarrow> t = Tip"
  by (cases t) simp_all

lemma colors_addr: "(x, c) \<in> set (colors t) \<Longrightarrow> x \<in> set (addrs t)"
  by (metis colors_addrs fst_conv image_eqI set_map)

lemma black_height_pos: "root_color t = Black \<Longrightarrow> t \<noteq> Tip \<Longrightarrow> 0 < bheight t"
  by (cases t) simp_all

lemma least_red_left:
  assumes "tree_in h par t" and "invc t" and "invh t" and "distinct (addrs t)"
    and "inorder t = (a, x) # (m, y) # rest" and "(a, Red) \<in> set (colors t)"
  shows "\<exists>n. h m = Some n \<and> left_child n = Some a"
  using assms
proof (induction t arbitrary: par rest)
  case (Branch l b c k v r)
  have l_col: "(a, Red) \<in> set (colors l)" if "a \<in> set (addrs l)"
  proof -
    have "a \<noteq> b" "a \<notin> set (addrs r)" using that Branch.prems(4) by auto
    then show ?thesis using Branch.prems(6) colors_addr [of a Red r] by auto
  qed
  show ?case
  proof (cases "inorder l")
    case Nil
    then have l: "l = Tip" by (cases l) simp_all
    then have "b = a" using Branch.prems(5) by simp
    then have "a \<notin> set (addrs r)" using Branch.prems(4) by auto
    then have "c = Red" using Branch.prems(6) colors_addr [of a Red r] l by auto
    then have "r = Tip" using Branch.prems(2,3) l black_height_pos [of r] by auto
    then show ?thesis using Branch.prems(5) l by simp
  next
    case (Cons z zs)
    show ?thesis
    proof (cases zs)
      case Nil
      then have "ptr_of l = Some a" "m = b"
        using Cons Branch.prems(5) by (cases l; auto simp: append_eq_Cons_conv)+
      then show ?thesis using Branch.prems(1) by simp
    next
      case (Cons z' zs')
      then show ?thesis using Branch.IH(1) [of "Some b" zs'] Branch.prems \<open>inorder l = z # zs\<close> l_col by auto
    qed
  qed
qed simp

section \<open>Insertion\<close>

definition rb_tree_ok :: "('k::linorder, 'v) tree \<Rightarrow> ('k, 'v) shape \<Rightarrow> bool" where
  "rb_tree_ok s t \<longleftrightarrow> shows_tree s t \<and> rb t \<and> sorted (map cell_key (inorder t)) \<and> tree_size s = length (inorder t) \<and>
     m_minimum s = (case inorder t of [] \<Rightarrow> None | x # xs \<Rightarrow> Some (fst x))"

lemma stays_paint: "stays x c t \<Longrightarrow> (x, c) \<in> set (colors (paint c' t))"
  by (cases t) (auto simp: stays_def)

lemma insert_fixups_represents:
  assumes s: "shows_tree s (plug ctx (Branch Tip a Red k v Tip))" and ok: "ctx_ok 0 ctx" and ne: "ctx \<noteq> []"
  shows "\<exists>s' t. insert_fixups (Some a) s = Some (Inr s') \<and> shows_tree s' t \<and> rb t \<and>
      inorder t = before_ctx ctx @ (a, k, v) # after_ctx ctx \<and> (before_ctx ctx = [] \<longrightarrow> (a, Red) \<in> set (colors t)) \<and>
      only_tree (set (addrs (plug ctx (Branch Tip a Red k v Tip)))) s s'"
proof -
  let ?t = "Branch Tip a Red k v Tip"
  let ?T = "paint Black (fixup ctx ?t)"
  obtain s1 where s1: "insert_fixup_loop (Some a) s = Some (Inr s1)" "shows_tree s1 (fixup ctx ?t)"
    "only_tree (set (addrs (plug ctx ?t))) s s1"
    using insert_fixup_loop_fixup [OF s, of a] ctx_ok_parents [OF ok] by auto
  have inord: "inorder (fixup ctx ?t) = inorder (plug ctx ?t)" by (rule inorder_fixup) simp
  then have "fixup ctx ?t \<noteq> Tip" by (auto simp: inorder_plug)
  then obtain l b c kb vb r where root: "fixup ctx ?t = Branch l b c kb vb r" by (cases "fixup ctx ?t") auto
  then have b: "b \<in> set (addrs (plug ctx ?t))" "m_root s1 = Some b"
    using s1(2) by (simp_all add: inord [symmetric] shows_tree_def)
  obtain s2 where s2: "set_color (Some b) Black s1 = Inr s2" "shows_tree s2 ?T" "only_tree {b} s1 s2"
    using set_color_represents [of s1 "[]" LeftSide l b c kb vb r Black] s1(2) by (auto simp: root)
  have "rb ?T" using fixup_rb [of ?t ctx] ok by simp
  moreover have "(a, Red) \<in> set (colors ?T)" if "before_ctx ctx = []"
    using fixup_least_stays [of ctx ?t a k v] s ne that ctx_ok_parents [OF ok] stays_paint
    by (simp add: shows_tree_def)
  moreover have "\<exists>n. deref s (Some a) = Inr n \<and> color n = Red" using s by (simp add: shows_tree_def plug_in)
  then have "insert_fixups (Some a) s = Some (Inr s2)" using s1(1) b(2) s2(1) by (auto simp: insert_fixups_def)
  moreover have "only_tree (set (addrs (plug ctx ?t))) s s2"
    using only_tree_trans [OF s1(3) only_tree_mono [OF s2(3)]] b(1) by simp
  ultimately show ?thesis using s2(2) inord by (auto simp: inorder_plug)
qed

lemma insert_node_ok:
  assumes ok: "rb_tree_ok s t" and a: "store s a = Some (new_node k v)" "a \<notin> set (addrs t)"
  shows "\<exists>s' t'. insert_node (Some a) s = Some (Inr s') \<and> rb_tree_ok s' t' \<and>
      inorder t' = insert_after (a, k, v) (inorder t) \<and>
      (\<forall>x. x \<notin> insert a (set (addrs t)) \<longrightarrow> store s' x = store s x)"
proof -
  define ctx where "ctx = place_of k [] t"
  have rep: "shows_tree s t" and rbt: "rb t" and sorted: "sorted (map cell_key (inorder t))"
    using ok by (simp_all add: rb_tree_ok_def)
  have plug: "plug ctx Tip = t" by (simp add: ctx_def plug_place)
  have find: "find_place s k None (m_root s) = Some (Inr (ctx_ptr ctx))"
    using find_place_place [of s "[]" t k] rep by (simp add: shows_tree_def ctx_def)
  have inord: "before_ctx ctx @ (a, k, v) # after_ctx ctx = insert_after (a, k, v) (inorder t)"
    using inorder_place [OF sorted, where k = k and a = a and v = v and ctx = "[]"] by (simp add: ctx_def inorder_plug)
  have old: "inorder t = before_ctx ctx @ after_ctx ctx" using arg_cong [OF plug, of inorder] by (simp add: inorder_plug)
  have sorted': "sorted (map cell_key (insert_after (a, k, v) (inorder t)))" using sorted_insert_after [OF sorted] .
  show ?thesis
  proof (cases ctx)
    case Nil
    then have t: "t = Tip" using plug by simp
    define s' where "s' = s\<lparr>store := (store s)(a \<mapsto> (new_node k v)\<lparr>color := Black\<rparr>), m_root := Some a, tree_size := 1, m_minimum := Some a\<rparr>"
    have "insert_node (Some a) s = Some (Inr s')"
      using find a Nil by (simp add: insert_node_def set_color_def assign_Some s'_def new_node_def)
    moreover have "rb_tree_ok s' (Branch Tip a Black k v Tip)"
      by (simp add: rb_tree_ok_def shows_tree_def s'_def rb_def new_node_def)
    ultimately show ?thesis by (intro exI [of _ s'] exI) (auto simp: t insert_after_def s'_def)
  next
    case (Cons f ctx')
    obtain sd p c kp vp u where f: "f = Frame sd p c kp vp u" by (cases f)
    let ?t = "Branch Tip a Red k v Tip"
    have side: "sd = LeftSide \<longleftrightarrow> k < kp" using sided_place [of k "[]" t] by (simp add: ctx_def [symmetric] Cons f)
    have ctx_ok: "ctx_ok 0 ctx" using rbt unfolding plug [symmetric] rb_plug by simp
    obtain s1 where s1: "link (Some a) (Some p) s = Inr s1" "shows_tree s1 (plug ctx ?t)" "only_tree {a, p} s s1"
      using link_represents [of s sd p c kp vp u ctx' a k v] rep a side plug unfolding Cons f by auto
    have p: "\<exists>n. deref s1 (Some p) = Inr n \<and> parent n = ctx_ptr ctx'" using s1(2) by (simp add: Cons f shows_tree_def plug_in)
    obtain s2 t2 where s2: "(if ctx_ptr ctx' \<noteq> None then insert_fixups (Some a) s1 else Some (Inr s1)) = Some (Inr s2)"
      "shows_tree s2 t2" "rb t2" "inorder t2 = before_ctx ctx @ (a, k, v) # after_ctx ctx"
      "before_ctx ctx = [] \<Longrightarrow> (a, Red) \<in> set (colors t2)" "only_tree (set (addrs (plug ctx ?t))) s1 s2"
    proof (cases ctx')
      case Nil
      have "rb (plug ctx ?t)" using ctx_ok by (subst rb_plug) (auto simp: Cons f Nil)
      then show ?thesis using that [of s1 "plug ctx ?t"] s1(2) colors_plug [of ?t ctx]
        by (auto simp: only_tree_def inorder_plug Nil)
    next
      case (Cons f' ctx'')
      then show ?thesis using insert_fixups_represents [OF s1(2) ctx_ok] that \<open>ctx = f # ctx'\<close> by auto
    qed
    have t2: "inorder t2 = insert_after (a, k, v) (inorder t)" using s2(4) inord by simp
    have "t \<noteq> Tip" using plug Cons f by (auto simp: ctx_def)
    then obtain m y rest where least: "inorder t = (m, y) # rest" by (cases "inorder t") auto
    have m: "m_minimum s2 = Some m" "tree_size s2 = length (inorder t)"
      using ok least s1(3) s2(6) by (simp_all add: rb_tree_ok_def only_tree_def)
    have distinct2: "distinct (addrs t2)" and in2: "tree_in (store s2) None t2" using s2(2) by (simp_all add: shows_tree_def)
    obtain n where n: "store s2 m = Some n" "left_child n = Some a \<longleftrightarrow> before_ctx ctx = []"
    proof (cases "before_ctx ctx")
      case Nil
      then have "inorder t2 = (a, k, v) # (m, y) # rest" using s2(4) old least by simp
      then show ?thesis using that least_red_left [OF in2 _ _ distinct2 _ s2(5) [OF Nil]] s2(3) Nil by (auto simp: rb_def)
    next
      case (Cons x xs)
      then have "inorder t2 = (m, y) # xs @ (a, k, v) # after_ctx ctx" using s2(4) old least by simp
      then show ?thesis using that least_no_left [OF in2] Cons by auto
    qed
    define s3 where "s3 = s2\<lparr>tree_size := tree_size s2 + 1\<rparr>"
    define s4 where "s4 = (if before_ctx ctx = [] then s3\<lparr>m_minimum := Some a\<rparr> else s3)"
    have "insert_node (Some a) s = Some (Inr s4)"
      using find a s1(1) p s2(1) m n by (cases "ctx' = []") (auto simp: insert_node_def Cons f s3_def s4_def deref_def new_node_def Let_def)
    moreover have "m_minimum s4 = Some (fst (hd (inorder t2)))"
      using s2(4) old least m(1) by (cases "before_ctx ctx") (simp_all add: s4_def s3_def)
    then have "rb_tree_ok s4 t2"
      using s2(2,3) sorted' t2 m length_insert_after [of "(a, k, v)" "inorder t"] by (auto simp: rb_tree_ok_def shows_tree_def s4_def s3_def insert_after_def split: list.splits)
    moreover have "store s4 x = store s x" if "x \<notin> insert a (set (addrs t))" for x
    proof -
      have "set (addrs (plug ctx ?t)) = insert a (set (addrs t))" by (auto simp: old inorder_plug)
      moreover have "p \<in> set (addrs t)" by (cases sd) (simp_all add: old Cons f)
      ultimately have "x \<notin> set (addrs (plug ctx ?t))" "x \<noteq> p" using that by auto
      then show ?thesis using that s1(3) s2(6) by (simp add: only_tree_def s4_def s3_def)
    qed
    ultimately show ?thesis using t2 by blast
  qed
qed

section \<open>Searching\<close>

lemma sorted_branch:
  assumes "sorted (map cell_key (inorder (Branch l a c k v r)))"
  shows "sorted (map cell_key (inorder l))" and "sorted (map cell_key (inorder r))"
    and "\<And>z. z \<in> set (inorder l) \<Longrightarrow> cell_key z \<le> k" and "\<And>z. z \<in> set (inorder r) \<Longrightarrow> k \<le> cell_key z"
  using assms by (auto simp: sorted_append)

lemma find_node_find:
  "tree_in (store s) par t \<Longrightarrow> sorted (map cell_key (inorder t)) \<Longrightarrow>
   \<exists>p. find_node s (ptr_of t) k = Some (Inr p) \<and>
     (case p of None \<Rightarrow> k \<notin> cell_key ` set (inorder t) | Some a \<Rightarrow> \<exists>v. (a, k, v) \<in> set (inorder t))"
proof (induction t arbitrary: par)
  case Tip
  then show ?case by (subst find_node.simps) simp
next
  case (Branch l a c k' v r)
  note sub = sorted_branch [OF Branch.prems(2)]
  consider "k' = k" | "k < k'" | "k' < k" by force
  then show ?case
  proof cases
    case 1
    then show ?thesis using Branch.prems(1) by (subst find_node.simps) auto
  next
    case 2
    obtain p where "find_node s (ptr_of l) k = Some (Inr p)"
      "case p of None \<Rightarrow> k \<notin> cell_key ` set (inorder l) | Some a \<Rightarrow> \<exists>v. (a, k, v) \<in> set (inorder l)"
      using Branch.IH(1) [of "Some a"] Branch.prems(1) sub(1) by auto
    moreover have "k \<notin> cell_key ` set (inorder r)" using sub(4) 2 by force
    ultimately show ?thesis using 2 Branch.prems(1)
      by (subst find_node.simps) (auto split: option.splits)
  next
    case 3
    obtain p where "find_node s (ptr_of r) k = Some (Inr p)"
      "case p of None \<Rightarrow> k \<notin> cell_key ` set (inorder r) | Some a \<Rightarrow> \<exists>v. (a, k, v) \<in> set (inorder r)"
      using Branch.IH(2) [of "Some a"] Branch.prems(1) sub(2) by auto
    moreover have "k \<notin> cell_key ` set (inorder l)" using sub(3) 3 by force
    ultimately show ?thesis using 3 Branch.prems(1)
      by (subst find_node.simps) (auto split: option.splits)
  qed
qed

text \<open>\<open>p\<close> is the node of a greatest key in a set of nodes, or a least one; the candidate if there is none.\<close>

definition greatest :: "(nat \<times> 'k::linorder \<times> 'v) set \<Rightarrow> ptr \<Rightarrow> ptr \<Rightarrow> bool" where
  "greatest Z candidate p \<longleftrightarrow>
     (if Z = {} then p = candidate else \<exists>x \<in> Z. p = Some (fst x) \<and> (\<forall>z \<in> Z. cell_key z \<le> cell_key x))"

definition least :: "(nat \<times> 'k::linorder \<times> 'v) set \<Rightarrow> ptr \<Rightarrow> ptr \<Rightarrow> bool" where
  "least Z candidate p \<longleftrightarrow>
     (if Z = {} then p = candidate else \<exists>x \<in> Z. p = Some (fst x) \<and> (\<forall>z \<in> Z. cell_key x \<le> cell_key z))"

lemma greatest_member: "x \<in> Z \<Longrightarrow> \<forall>z \<in> Z. cell_key z \<le> cell_key x \<Longrightarrow> greatest Z c (Some (fst x))"
  and least_member: "x \<in> Z \<Longrightarrow> \<forall>z \<in> Z. cell_key x \<le> cell_key z \<Longrightarrow> least Z c (Some (fst x))"
  by (auto simp: greatest_def least_def)

lemma greatest_above:
  assumes "greatest B (Some (fst x)) p" and "x \<in> A" and "\<forall>a \<in> A. cell_key a \<le> cell_key x" and "\<forall>b \<in> B. cell_key x \<le> cell_key b"
  shows "greatest (A \<union> B) c p"
proof (cases "B = {}")
  case True
  then have "p = Some (fst x)" using assms(1) by (simp add: greatest_def)
  then show ?thesis using greatest_member [OF assms(2,3)] True by simp
next
  case False
  then obtain y where y: "y \<in> B" "p = Some (fst y)" "\<forall>z \<in> B. cell_key z \<le> cell_key y"
    using assms(1) by (auto simp: greatest_def)
  then have "\<forall>z \<in> A \<union> B. cell_key z \<le> cell_key y" using assms(3,4) by (meson UnE order_trans)
  then show ?thesis using y greatest_member [of y "A \<union> B"] by simp
qed

lemma least_below:
  assumes "least B (Some (fst x)) p" and "x \<in> A" and "\<forall>a \<in> A. cell_key x \<le> cell_key a" and "\<forall>b \<in> B. cell_key b \<le> cell_key x"
  shows "least (A \<union> B) c p"
proof (cases "B = {}")
  case True
  then have "p = Some (fst x)" using assms(1) by (simp add: least_def)
  then show ?thesis using least_member [OF assms(2,3)] True by simp
next
  case False
  then obtain y where y: "y \<in> B" "p = Some (fst y)" "\<forall>z \<in> B. cell_key y \<le> cell_key z"
    using assms(1) by (auto simp: least_def)
  then have "\<forall>z \<in> A \<union> B. cell_key y \<le> cell_key z" using assms(3,4) by (meson UnE order_trans)
  then show ?thesis using y least_member [of y "A \<union> B"] by simp
qed

abbreviation cells_upto :: "('k::linorder, 'v) shape \<Rightarrow> 'k \<Rightarrow> (nat \<times> 'k \<times> 'v) set" where
  "cells_upto t k \<equiv> {z \<in> set (inorder t). cell_key z \<le> k}"

abbreviation cells_from :: "('k::linorder, 'v) shape \<Rightarrow> 'k \<Rightarrow> (nat \<times> 'k \<times> 'v) set" where
  "cells_from t k \<equiv> {z \<in> set (inorder t). k \<le> cell_key z}"

lemma find_largest_not_above_greatest:
  "tree_in (store s) par t \<Longrightarrow> sorted (map cell_key (inorder t)) \<Longrightarrow>
   \<exists>p. find_largest_not_above s (ptr_of t) c k = Some (Inr p) \<and> greatest (cells_upto t k) c p"
proof (induction t arbitrary: par c)
  case Tip
  then show ?case by (subst find_largest_not_above.simps) (simp add: greatest_def)
next
  case (Branch l a col k' v r)
  note sub = sorted_branch [OF Branch.prems(2)]
  let ?x = "(a, k', v)"
  consider "k = k'" | "k < k'" | "k' < k" by force
  then show ?case
  proof cases
    case 1
    then show ?thesis
      using Branch.prems(1) greatest_member [of ?x "cells_upto (Branch l a col k' v r) k" c]
      by (subst find_largest_not_above.simps) auto
  next
    case 2
    then have "cells_upto (Branch l a col k' v r) k = cells_upto l k" using sub(4) by force
    then show ?thesis using 2 Branch.prems(1) Branch.IH(1) [of "Some a" c] sub(1)
      by (subst find_largest_not_above.simps) auto
  next
    case 3
    obtain p where p: "find_largest_not_above s (ptr_of r) (Some a) k = Some (Inr p)" "greatest (cells_upto r k) (Some a) p"
      using Branch.IH(2) [of "Some a" "Some a"] Branch.prems(1) sub(2) by auto
    have "cells_upto (Branch l a col k' v r) k = insert ?x (set (inorder l)) \<union> cells_upto r k" using 3 sub(3) by force
    moreover have "greatest (insert ?x (set (inorder l)) \<union> cells_upto r k) c p"
      by (rule greatest_above [of _ ?x]) (use p sub in auto)
    ultimately show ?thesis using 3 p(1) Branch.prems(1) by (subst find_largest_not_above.simps) auto
  qed
qed

lemma find_smallest_not_below_least:
  "tree_in (store s) par t \<Longrightarrow> sorted (map cell_key (inorder t)) \<Longrightarrow>
   \<exists>p. find_smallest_not_below s (ptr_of t) c k = Some (Inr p) \<and> least (cells_from t k) c p"
proof (induction t arbitrary: par c)
  case Tip
  then show ?case by (subst find_smallest_not_below.simps) (simp add: least_def)
next
  case (Branch l a col k' v r)
  note sub = sorted_branch [OF Branch.prems(2)]
  let ?x = "(a, k', v)"
  consider "k = k'" | "k' < k" | "k < k'" by force
  then show ?case
  proof cases
    case 1
    then show ?thesis
      using Branch.prems(1) least_member [of ?x "cells_from (Branch l a col k' v r) k" c]
      by (subst find_smallest_not_below.simps) auto
  next
    case 2
    then have "cells_from (Branch l a col k' v r) k = cells_from r k" using sub(3) by force
    then show ?thesis using 2 Branch.prems(1) Branch.IH(2) [of "Some a" c] sub(2)
      by (subst find_smallest_not_below.simps) auto
  next
    case 3
    obtain p where p: "find_smallest_not_below s (ptr_of l) (Some a) k = Some (Inr p)" "least (cells_from l k) (Some a) p"
      using Branch.IH(1) [of "Some a" "Some a"] Branch.prems(1) sub(1) by auto
    have "cells_from (Branch l a col k' v r) k = insert ?x (set (inorder r)) \<union> cells_from l k" using 3 sub(4) by force
    moreover have "least (insert ?x (set (inorder r)) \<union> cells_from l k) c p"
      by (rule least_below [of _ ?x]) (use p sub in auto)
    ultimately show ?thesis using 3 p(1) Branch.prems(1) by (subst find_smallest_not_below.simps) auto
  qed
qed

section \<open>Iteration\<close>

fun first_of :: "side \<Rightarrow> (nat \<times> 'k \<times> 'v) list \<Rightarrow> ptr" where
  "first_of LeftSide xs = (if xs = [] then None else Some (fst (hd xs)))"
| "first_of RightSide xs = (if xs = [] then None else Some (fst (last xs)))"

fun beyond :: "side \<Rightarrow> ('k, 'v) frame list \<Rightarrow> (nat \<times> 'k \<times> 'v) list" where
  "beyond LeftSide ctx = before_ctx ctx"
| "beyond RightSide ctx = after_ctx ctx"

lemma descend_first:
  "tree_in (store s) par t \<Longrightarrow> t \<noteq> Tip \<Longrightarrow> descend sd s (ptr_of t) = Some (Inr (first_of sd (inorder t)))"
proof (induction t arbitrary: par)
  case (Branch l a c k v r)
  then show ?case using Branch.IH(1) [of "Some a"] Branch.IH(2) [of "Some a"]
    by (cases sd; cases l; cases r; subst descend.simps) (auto simp: hd_append)
qed simp

lemma ascend_beyond:
  assumes "ctx_in (store s) ctx (Some a)" and "a \<notin> ctx_addrs ctx" and "distinct (map fst (before_ctx ctx @ after_ctx ctx))"
  shows "ascend sd s (Some a) (ctx_ptr ctx) = Some (Inr (first_of (opposite sd) (beyond sd ctx)))"
  using assms
proof (induction ctx arbitrary: a)
  case Nil
  then show ?case by (cases sd; subst ascend.simps) simp_all
next
  case (Cons f ctx)
  obtain sd' p c k v u where f: "f = Frame sd' p c k v u" by (cases f)
  have p: "store s p = Some (node_on sd' (Some a) (ptr_of u) (ctx_ptr ctx) c k v)" "ctx_in (store s) ctx (Some p)"
    using Cons.prems(1) by (simp_all add: f)
  have "ptr_of u \<noteq> Some a" using Cons.prems(2) by (cases u) (auto simp: f)
  moreover have "p \<notin> ctx_addrs ctx" "distinct (map fst (before_ctx ctx @ after_ctx ctx))"
    using Cons.prems(3) by (cases sd'; auto simp: f)+
  ultimately show ?case using p Cons.IH [OF p(2)]
    by (cases sd; cases sd'; subst ascend.simps) (simp_all add: f)
qed

lemma neighbour_zipper:
  assumes "shows_tree s (plug ctx (on sd t a c k v u))"
  shows "neighbour sd s (Some a) =
     Some (Inr (if t = Tip then first_of (opposite sd) (beyond sd ctx) else first_of (opposite sd) (inorder t)))"
proof -
  have h: "ctx_in (store s) ctx (Some a)" "tree_in (store s) (ctx_ptr ctx) (on sd t a c k v u)"
    and dist: "distinct (addrs (plug ctx (on sd t a c k v u)))"
    using assms by (auto simp: shows_tree_def plug_in)
  have "a \<notin> ctx_addrs ctx" "distinct (map fst (before_ctx ctx @ after_ctx ctx))"
    using dist by (cases sd; auto simp: distinct_plug)+
  then show ?thesis
    using h ascend_beyond [OF h(1)] descend_first [of s "Some a" t "opposite sd"]
    by (cases t) (simp_all add: neighbour_def)
qed

lemma inorder_zipper_in:
  "inorder t = xs @ (a, k, v) # ys \<Longrightarrow>
   \<exists>ctx' l c r. plug ctx t = plug ctx' (Branch l a c k v r) \<and>
     before_ctx ctx @ xs = before_ctx ctx' @ inorder l \<and> ys @ after_ctx ctx = inorder r @ after_ctx ctx'"
proof (induction t arbitrary: ctx xs ys)
  case (Branch l b c k' v' r)
  consider zs where "inorder l = xs @ (a, k, v) # zs" "ys = zs @ (b, k', v') # inorder r"
    | "inorder l = xs" "(b, k', v') = (a, k, v)" "ys = inorder r"
    | zs where "xs = inorder l @ (b, k', v') # zs" "inorder r = zs @ (a, k, v) # ys"
    using Branch.prems by (auto simp: append_eq_append_conv2 Cons_eq_append_conv append_eq_Cons_conv)
  then show ?case
  proof cases
    case 1
    then show ?thesis using Branch.IH(1) [of xs zs "Frame LeftSide b c k' v' r # ctx"] by simp
  next
    case 2
    then show ?thesis by (intro exI [of _ ctx] exI [of _ l] exI [of _ c] exI [of _ r]) simp
  next
    case 3
    then show ?thesis using Branch.IH(2) [of zs ys "Frame RightSide b c k' v' l # ctx"] by simp
  qed
qed simp

lemma neighbour_in_order:
  assumes "shows_tree s t" and "inorder t = xs @ (a, k, v) # ys"
  shows "successor s (Some a) = Some (Inr (first_of LeftSide ys))"
    and "predecessor s (Some a) = Some (Inr (first_of RightSide xs))"
proof -
  obtain ctx l c r where z: "t = plug ctx (Branch l a c k v r)" "xs = before_ctx ctx @ inorder l" "ys = inorder r @ after_ctx ctx"
    using inorder_zipper_in [OF assms(2), of "[]"] by auto
  show "successor s (Some a) = Some (Inr (first_of LeftSide ys))"
    using neighbour_zipper [of s ctx RightSide r a c k v l] assms(1) z
    by (cases r) (auto simp: successor_def hd_append)
  show "predecessor s (Some a) = Some (Inr (first_of RightSide xs))"
    using neighbour_zipper [of s ctx LeftSide l a c k v r] assms(1) z
    by (cases l) (auto simp: predecessor_def)
qed

end
