(* ===== verification/RedBlackTree_Remove.thy ===== *)
theory RedBlackTree_Remove
  imports RedBlackTree_Properties
begin

text \<open>
  Removal of a node with at most one child, as far as the code gets it right, and where it does not; clearing.
\<close>

lemma ptr_of_plug_None: "ptr_of (plug ctx t) = None \<Longrightarrow> t = Tip"
  using inorder_plug [of ctx t] by (cases "plug ctx t") auto

section \<open>Splicing a node out\<close>

fun only_child :: "('k, 'v) shape \<Rightarrow> ('k, 'v) shape \<Rightarrow> ('k, 'v) shape" where
  "only_child Tip r = r"
| "only_child l r = l"

lemma splice_represents:
  assumes s: "shows_tree s (plug ctx (Branch l a c k v r))" and one: "l = Tip \<or> r = Tip"
  shows "\<exists>s'. splice (Some a) s = Inr (ptr_of (only_child l r), ctx_ptr ctx, c, s') \<and>
      shows_tree s' (plug ctx (only_child l r)) \<and> only_tree (set (addrs (plug ctx (only_child l r)))) s s'"
proof -
  let ?u = "only_child l r"
  have h: "ctx_in (store s) ctx (Some a)" "tree_in (store s) (ctx_ptr ctx) (Branch l a c k v r)"
    and root: "m_root s = ptr_of (plug ctx (Branch l a c k v r))" and dist: "distinct (addrs (plug ctx (Branch l a c k v r)))"
    using s by (auto simp: shows_tree_def plug_in)
  have u: "tree_in (store s) (Some a) ?u" "inorder (Branch l a c k v r) = inorder l @ (a, k, v) # inorder r"
    "set (addrs ?u) = set (addrs l) \<union> set (addrs r)" "distinct (addrs ?u)" "a \<notin> set (addrs ?u)"
    using h(2) one dist by (cases l; auto simp: distinct_plug)+
  have out: "a \<notin> ctx_addrs ctx" "set (addrs ?u) \<inter> ctx_addrs ctx = {}" "distinct (map fst (before_ctx ctx @ after_ctx ctx))"
    using dist u(3) by (auto simp: distinct_plug)
  define s1 where "s1 = s\<lparr>store := (case ?u of Tip \<Rightarrow> store s
      | Branch l' e f m q r' \<Rightarrow> (store s)(e \<mapsto> (the (store s e))\<lparr>parent := ctx_ptr ctx\<rparr>))\<rparr>"
  have s1: "ptr_of ?u \<noteq> None \<Longrightarrow> set_parent (ptr_of ?u) (ctx_ptr ctx) s = Inr s1" "ptr_of ?u = None \<Longrightarrow> s = s1"
    using u(1) by (cases ?u; simp add: s1_def set_parent_def assign_Some)+
  have same: "store s1 e = store s e" if "e \<notin> set (addrs ?u)" for e
    using that by (cases ?u) (simp_all add: s1_def)
  have in1: "tree_in (store s1) (ctx_ptr ctx) ?u"
    using tree_in_reparent [OF u(1) _ u(4), of "ctx_ptr ctx"] by (cases ?u) (auto simp: s1_def)
  have "ctx_in (store s1) ctx (Some a)"
  proof -
    have "store s1 e = store s e" if "e \<in> ctx_addrs ctx" for e
      using that out(2) by (intro same) (metis disjoint_iff)
    then show ?thesis using h(1) ctx_in_cong by metis
  qed
  then obtain s2 where s2: "replace_child (ctx_ptr ctx) (Some a) (ptr_of ?u) s1 = Inr s2" "ctx_in (store s2) ctx (ptr_of ?u)"
    "m_root s2 = (if ctx = [] then ptr_of ?u else m_root s1)" "only_tree (ctx_addrs ctx) s1 s2"
    using replace_child_ctx [OF _ out(1,3)] by blast
  have "splice (Some a) s = Inr (ptr_of ?u, ctx_ptr ctx, c, s2)"
    using h(2) s1 s2(1) one by (cases l; cases r) (simp_all add: splice_def Let_def)
  moreover have "shows_tree s2 (plug ctx ?u)"
  proof -
    have "tree_in (store s2) (ctx_ptr ctx) ?u"
    proof (rule iffD1 [OF tree_in_cong in1])
      fix e assume "e \<in> set (addrs ?u)"
      then have "e \<notin> ctx_addrs ctx" using out(2) by blast
      then show "store s1 e = store s2 e" using s2(4) by (simp add: only_tree_def)
    qed
    moreover have "m_root s2 = ptr_of (plug ctx ?u)"
    proof (cases "ctx = []")
      case False
      then show ?thesis using s2(3) root ptr_of_plug_cons [OF False] by (simp add: s1_def)
    qed (use s2(3) in simp)
    moreover have "distinct (addrs (plug ctx ?u))" using u(4) out by (simp add: distinct_plug)
    ultimately show ?thesis using s2(2) by (simp add: shows_tree_def plug_in)
  qed
  moreover have "only_tree (set (addrs (plug ctx ?u))) s s2"
  proof (rule only_tree_trans [OF _ only_tree_mono [OF s2(4)]])
    show "only_tree (set (addrs (plug ctx ?u))) s s1"
      using same by (auto simp: only_tree_def s1_def inorder_plug)
  qed (auto simp: inorder_plug)
  ultimately show ?thesis by blast
qed

section \<open>Removal that needs no more than a colour change\<close>

lemma remove_fixups_red:
  assumes "shows_tree s (plug ctx (Branch l b Red k v r))"
  shows "\<exists>s'. remove_fixups (Some b) par s = Some (Inr s') \<and> shows_tree s' (plug ctx (Branch l b Black k v r)) \<and> only_tree {b} s s'"
proof -
  have "store s b = Some \<lparr>left_child = ptr_of l, right_child = ptr_of r, parent = ctx_ptr ctx, color = Red, key = k, node_value = v\<rparr>"
    using assms by (simp add: shows_tree_def plug_in)
  then have "remove_fixup_loop (Some b) par s = Some (Inr (Some b, s))"
    by (subst remove_fixup_loop.simps) (simp add: is_red_def)
  then show ?thesis
    using set_color_represents [of s ctx LeftSide l b Red k v r Black] assms by (auto simp: remove_fixups_def)
qed

lemma inorder_only_child: "l = Tip \<or> r = Tip \<Longrightarrow> inorder (only_child l r) = inorder l @ inorder r"
  by (cases l) auto

lemma rb_only_child:
  assumes "rb (plug ctx (Branch l a c k v r))" and "l = Tip \<or> r = Tip"
  shows "c = Red \<Longrightarrow> only_child l r = Tip \<and> rb (plug ctx Tip)"
    and "c = Black \<Longrightarrow> root_color (only_child l r) = Red \<Longrightarrow> rb (plug ctx (paint Black (only_child l r)))"
proof -
  have inv: "ctx_ok (if c = Black then bheight l + 1 else bheight l) ctx" "invc l" "invc r" "invh l" "invh r" "bheight l = bheight r"
    "c = Red \<Longrightarrow> root_color l = Black \<and> root_color r = Black"
    using assms(1) by (auto simp: rb_plug)
  show "only_child l r = Tip \<and> rb (plug ctx Tip)" if "c = Red"
  proof -
    have "bheight l = 0" "bheight r = 0" using inv(6) assms(2) by auto
    then have "l = Tip" "r = Tip" using inv(7) that black_height_pos by (metis less_irrefl)+
    then show ?thesis using inv that by (simp add: rb_plug)
  qed
  show "rb (plug ctx (paint Black (only_child l r)))" if "c = Black" "root_color (only_child l r) = Red"
    using inv that assms(2) paint_red_root [of "only_child l r"] by (cases l) (auto simp: rb_plug)
qed

lemma remove_node_ok:
  assumes ok: "rb_tree_ok s (plug ctx (Branch l a c k v r))" and one: "l = Tip \<or> r = Tip"
    and easy: "c = Red \<or> root_color (only_child l r) = Red"
  shows "\<exists>s' t'. remove_node (Some a) s = Some (Inr s') \<and> rb_tree_ok s' t' \<and>
      inorder t' = before_ctx ctx @ inorder l @ inorder r @ after_ctx ctx \<and>
      (\<forall>x. x \<notin> set (addrs t') \<longrightarrow> store s' x = store s x)"
proof -
  let ?t = "plug ctx (Branch l a c k v r)" and ?u = "only_child l r"
  let ?xs = "before_ctx ctx @ inorder l" and ?ys = "inorder r @ after_ctx ctx"
  have rep: "shows_tree s ?t" and rbt: "rb ?t" and sorted: "sorted (map cell_key (inorder ?t))"
    and sz: "tree_size s = length (inorder ?t)" and mn: "m_minimum s = (case inorder ?t of [] \<Rightarrow> None | x # xs \<Rightarrow> Some (fst x))"
    using ok by (simp_all add: rb_tree_ok_def)
  have inord: "inorder ?t = ?xs @ (a, k, v) # ?ys" by (simp add: inorder_plug)
  have sorted': "sorted (map cell_key (?xs @ ?ys))" using sorted unfolding inord by (auto simp: sorted_append)
  have a: "\<exists>n. deref s (Some a) = Inr n \<and> (left_child n = None \<or> right_child n = None)"
    using rep one by (auto simp: shows_tree_def plug_in)
  show ?thesis
  proof (cases "?xs @ ?ys")
    case Nil
    then have "remove_node (Some a) s = Some (Inr (s\<lparr>m_root := None, m_minimum := None, tree_size := 0\<rparr>))"
      using sz inord by (simp add: remove_node_def)
    moreover have "rb_tree_ok (s\<lparr>m_root := None, m_minimum := None, tree_size := 0\<rparr>) Tip"
      by (simp add: rb_tree_ok_def shows_tree_def rb_def)
    ultimately show ?thesis using Nil by (intro exI [of _ "s\<lparr>m_root := None, m_minimum := None, tree_size := 0\<rparr>"] exI [of _ Tip]) simp
  next
    case (Cons z zs)
    define s0 where "s0 = s\<lparr>m_minimum := Some (fst z)\<rparr>"
    have "m_minimum s = Some a \<longleftrightarrow> ?xs = []"
      using mn rep unfolding inord shows_tree_def by (cases ?xs) auto
    moreover have "m_minimum s = Some (fst z)" if "?xs \<noteq> []"
      using that mn Cons unfolding inord by (cases ?xs) auto
    moreover have "successor s (Some a) = Some (Inr (Some (fst z)))" if "?xs = []"
      using neighbour_in_order(1) [OF rep inord] that Cons by auto
    ultimately have least: "(if m_minimum s = Some a
        then and_then (successor s (Some a)) (\<lambda>next_node. Some (Inr (s\<lparr>m_minimum := next_node\<rparr>))) else Some (Inr s)) = Some (Inr s0)"
      by (cases "?xs = []") (simp_all add: s0_def)
    have rep0: "shows_tree s0 ?t" using rep by (simp add: shows_tree_def s0_def)
    obtain s1 where s1: "splice (Some a) s0 = Inr (ptr_of ?u, ctx_ptr ctx, c, s1)" "shows_tree s1 (plug ctx ?u)"
      "only_tree (set (addrs (plug ctx ?u))) s0 s1"
      using splice_represents [OF rep0 one] by blast
    obtain s2 t' where s2: "(if c \<noteq> Red then remove_fixups (ptr_of ?u) (ctx_ptr ctx) s1 else Some (Inr s1)) = Some (Inr s2)"
      "shows_tree s2 t'" "rb t'" "inorder t' = inorder (plug ctx ?u)" "only_tree (set (addrs (plug ctx ?u))) s1 s2"
    proof (cases c)
      case Red
      then show ?thesis using that [of s1 "plug ctx ?u"] s1(2) rb_only_child(1) [OF rbt one] by (simp add: only_tree_def)
    next
      case Black
      then have "root_color ?u = Red" using easy by simp
      then obtain l' b k' v' r' where u: "?u = Branch l' b Red k' v' r'" by (cases ?u) auto
      then obtain s2 where "remove_fixups (Some b) (ctx_ptr ctx) s1 = Some (Inr s2)" "shows_tree s2 (plug ctx (paint Black ?u))" "only_tree {b} s1 s2"
        using remove_fixups_red [of s1 ctx l' b k' v' r'] s1(2) by auto
      moreover have "rb (plug ctx (paint Black ?u))" using rb_only_child(2) [OF rbt one Black] u by simp
      ultimately show ?thesis using that [of s2 "plug ctx (paint Black ?u)"] Black u
        by (auto simp: inorder_plug intro: only_tree_mono)
    qed
    define s' where "s' = s2\<lparr>tree_size := tree_size s2 - 1\<rparr>"
    have same: "tree_size s2 = tree_size s" "m_minimum s2 = Some (fst z)" "\<forall>x. x \<notin> set (addrs (plug ctx ?u)) \<longrightarrow> store s2 x = store s x"
      using s1(3) s2(5) by (simp_all add: only_tree_def s0_def)
    have t': "inorder t' = ?xs @ ?ys" using s2(4) inorder_only_child [OF one] by (simp add: inorder_plug)
    have "remove_node (Some a) s = Some (Inr s')"
      using least a s1(1) s2(1) sz inord Cons by (auto simp: remove_node_def s'_def s0_def deref_def split: option.splits)
    moreover have "rb_tree_ok s' t'"
      unfolding rb_tree_ok_def
    proof (intro conjI)
      show "shows_tree s' t'" using s2(2) by (simp add: shows_tree_def s'_def)
      show "sorted (map cell_key (inorder t'))" using sorted' unfolding t' .
      show "tree_size s' = length (inorder t')" using same(1) sz unfolding t' inord by (simp add: s'_def)
      show "m_minimum s' = (case inorder t' of [] \<Rightarrow> None | x # xs \<Rightarrow> Some (fst x))"
        using same(2) unfolding t' Cons by (simp add: s'_def)
    qed (rule s2(3))
    ultimately show ?thesis using t' same(3) s2(4) by (intro exI [of _ s'] exI [of _ t']) (simp add: s'_def)
  qed
qed

section \<open>Clearing\<close>

lemma delete_node_frees:
  "tree_in (store s) par t \<Longrightarrow> distinct (addrs t) \<Longrightarrow>
   delete_node (ptr_of t) s = Some (Inr (s\<lparr>store := (\<lambda>x. if x \<in> set (addrs t) then None else store s x)\<rparr>))"
proof (induction t arbitrary: s par)
  case Tip
  then show ?case by (subst delete_node.simps) simp
next
  case (Branch l a c k v r)
  let ?s = "s\<lparr>store := (\<lambda>x. if x \<in> set (addrs l) then None else store s x)\<rparr>"
  have h: "deref s (Some a) = Inr \<lparr>left_child = ptr_of l, right_child = ptr_of r, parent = par, color = c, key = k, node_value = v\<rparr>"
    "tree_in (store s) (Some a) l" "tree_in (store s) (Some a) r"
    and d: "distinct (addrs l)" "distinct (addrs r)" "set (addrs r) \<inter> set (addrs l) = {}"
    using Branch.prems by auto
  have "tree_in (store ?s) (Some a) r"
    using h(3) d(3) by (subst tree_in_cong [of _ _ "store s"]) (auto simp: disjoint_iff)
  from Branch.IH(1) [OF h(2) d(1)] Branch.IH(2) [OF this d(2)] h(1) show ?case
    by (subst delete_node.simps) (auto simp: fun_eq_iff)
qed

section \<open>Properties\<close>

text \<open>
  C21. Inserting a key into a red-black tree in the store, at an address that is not one of its nodes, returns
  a red-black tree that has the new node behind all keys that are not greater, the right size and the
  pointer to its least node, and changes nothing else in the store.
\<close>

theorem tree_insert_correct:
  assumes "rb_tree_ok s t" and "a \<notin> set (addrs t)"
  shows "\<exists>s' t'. tree_try_insert (Some a) k v s = Some (Inr s') \<and> rb_tree_ok s' t' \<and>
      inorder t' = insert_after (a, k, v) (inorder t) \<and>
      (\<forall>x. x \<notin> insert a (set (addrs t)) \<longrightarrow> store s' x = store s x)"
proof -
  let ?s = "s\<lparr>store := (store s)(a \<mapsto> new_node k v)\<rparr>"
  have "rb_tree_ok ?s t" using assms by (simp add: rb_tree_ok_def shows_tree_def)
  from insert_node_ok [OF this _ assms(2), of k v] show ?thesis by (auto simp: tree_try_insert_def)
qed

text \<open>
  Searching returns: a node with the key exactly if there is one; the greatest key not above and the
  least key not below the given one exactly if there is such a key.
\<close>

theorem tree_search_correct:
  assumes "rb_tree_ok s t"
  shows "(\<exists>p. find_node s (m_root s) k = Some (Inr p) \<and>
           (case p of None \<Rightarrow> k \<notin> cell_key ` set (inorder t) | Some a \<Rightarrow> \<exists>v. (a, k, v) \<in> set (inorder t))) \<and>
         (\<exists>p. find_largest_not_above s (m_root s) None k = Some (Inr p) \<and> greatest (cells_upto t k) None p) \<and>
         (\<exists>p. find_smallest_not_below s (m_root s) None k = Some (Inr p) \<and> least (cells_from t k) None p)"
  using assms find_node_find [of s None t k] find_largest_not_above_greatest [of s None t None k]
    find_smallest_not_below_least [of s None t None k]
  by (simp add: rb_tree_ok_def shows_tree_def)

text \<open>
  Iteration follows the order of the keys: \<open>begin\<close> is the first node, \<open>successor\<close> the next one and
  \<open>predecessor\<close> the previous one, and both end at a null pointer.
\<close>

theorem tree_iteration_in_order:
  assumes "rb_tree_ok s t" and "inorder t = xs @ (a, k, v) # ys"
  shows "m_node (begin_iterator s) = Some (fst (hd (inorder t))) \<and>
         increment s \<lparr>m_node = Some a, m_prev = q\<rparr> =
           Some (Inr \<lparr>m_node = (if ys = [] then None else Some (fst (hd ys))), m_prev = Some a\<rparr>) \<and>
         decrement s \<lparr>m_node = q, m_prev = Some a\<rparr> =
           Some (Inr \<lparr>m_node = Some a, m_prev = (if xs = [] then None else Some (fst (last xs)))\<rparr>)"
  using assms neighbour_in_order [of s t xs a k v ys]
  by (cases xs) (simp_all add: rb_tree_ok_def begin_iterator_def increment_def decrement_def)

text \<open>
  C22. Removing a node with at most one child, where the node or that child is red, returns a red-black tree
  without the node, of the right size and with the pointer to its least node.
\<close>

theorem tree_remove_correct:
  assumes "rb_tree_ok s (plug ctx (Branch l a c k v r))" and "l = Tip \<or> r = Tip"
    and "c = Red \<or> root_color (only_child l r) = Red"
  shows "\<exists>s' t'. remove_node (Some a) s = Some (Inr s') \<and> rb_tree_ok s' t' \<and>
      inorder t' = before_ctx ctx @ inorder l @ inorder r @ after_ctx ctx \<and>
      (\<forall>x. x \<notin> set (addrs t') \<longrightarrow> store s' x = store s x)"
  by (rule remove_node_ok [OF assms])

text \<open>A small tree for the witnesses: three black nodes, of the keys 10, 20 and 30.\<close>

definition small_shape :: "(nat, unit) shape" where
  "small_shape = Branch (Branch Tip 1 Black 10 () Tip) 2 Black 20 () (Branch Tip 3 Black 30 () Tip)"

definition small_tree :: "(nat, unit) tree" where
  "small_tree = \<lparr>store = [1 \<mapsto> (new_node 10 ())\<lparr>parent := Some 2, color := Black\<rparr>,
      2 \<mapsto> (new_node 20 ())\<lparr>left_child := Some 1, right_child := Some 3, color := Black\<rparr>,
      3 \<mapsto> (new_node 30 ())\<lparr>parent := Some 2, color := Black\<rparr>],
    m_root = Some 2, tree_size = 3, m_minimum = Some 1\<rparr>"

lemma small_tree_ok: "rb_tree_ok small_tree small_shape"
  by (simp add: rb_tree_ok_def shows_tree_def rb_def small_tree_def small_shape_def new_node_def)

theorem tree_insert_correct_witness:
  "\<exists>s' t'. tree_try_insert (Some 4) 15 () small_tree = Some (Inr s') \<and> rb_tree_ok s' t' \<and>
      inorder t' = [(1, 10, ()), (4, 15, ()), (2, 20, ()), (3, 30, ())]"
  using tree_insert_correct [OF small_tree_ok, of 4 15 "()"]
  by (auto simp: small_shape_def insert_after_def)

theorem tree_search_correct_witness:
  "\<exists>p. find_largest_not_above small_tree (m_root small_tree) None 25 = Some (Inr p) \<and> p = Some 2"
proof -
  have "cells_upto small_shape 25 = {(1, 10, ()), (2, 20, ())}" by (auto simp: small_shape_def)
  then show ?thesis using tree_search_correct [OF small_tree_ok, of 25] by (auto simp: greatest_def)
qed

theorem tree_iteration_in_order_witness:
  "increment small_tree \<lparr>m_node = Some 1, m_prev = None\<rparr> = Some (Inr \<lparr>m_node = Some 2, m_prev = Some 1\<rparr>)"
  using tree_iteration_in_order [OF small_tree_ok, of "[]" 1 10 "()" "[(2, 20, ()), (3, 30, ())]" None]
  by (simp add: small_shape_def)

theorem tree_remove_correct_witness:
  "\<exists>s' t'. remove_node (Some 5) \<lparr>store = [5 \<mapsto> (new_node (7 :: nat) ())\<lparr>color := Black\<rparr>\<lparr>right_child := Some 6\<rparr>,
        6 \<mapsto> (new_node 8 ())\<lparr>parent := Some 5\<rparr>], m_root = Some 5, tree_size = 2, m_minimum = Some 5\<rparr> = Some (Inr s') \<and>
      rb_tree_ok s' t' \<and> inorder t' = [(6, 8, ())]"
proof -
  let ?s = "\<lparr>store = [5 \<mapsto> (new_node (7 :: nat) ())\<lparr>color := Black\<rparr>\<lparr>right_child := Some 6\<rparr>,
        6 \<mapsto> (new_node 8 ())\<lparr>parent := Some 5\<rparr>], m_root = Some 5, tree_size = 2, m_minimum = Some 5\<rparr>"
  have "rb_tree_ok ?s (plug [] (Branch Tip 5 Black 7 () (Branch Tip 6 Red 8 () Tip)))"
    by (simp add: rb_tree_ok_def shows_tree_def rb_def new_node_def)
  from tree_remove_correct [OF this] show ?thesis by auto
qed

text \<open>
  C23. Removing a black leaf that is a left child, where the sibling and its children are black, reads through
  a null pointer: the fixups do not go on with the parent.
\<close>

theorem tree_remove_left_leaf_crashes:
  assumes "rb_tree_ok s (plug ctx (Branch (Branch Tip a Black k v Tip) p c kp vp (Branch ul b Black kb vb ur)))"
    and "root_color ul = Black" and "root_color ur = Black"
  shows "remove_node (Some a) s = Some (Inl BadPointer)"
proof -
  let ?u = "Branch ul b Black kb vb ur"
  let ?t = "plug (Frame LeftSide p c kp vp ?u # ctx) (Branch Tip a Black k v Tip)"
  let ?xs = "before_ctx ctx" and ?ys = "(p, kp, vp) # inorder ?u @ after_ctx ctx"
  have rep: "shows_tree s ?t" and sz: "tree_size s \<noteq> 1"
    using assms(1) by (simp_all add: rb_tree_ok_def inorder_plug)
  have inord: "inorder ?t = ?xs @ (a, k, v) # ?ys" by (simp add: inorder_plug)
  obtain s0 where s0: "(if m_minimum s = Some a
        then and_then (successor s (Some a)) (\<lambda>next_node. Some (Inr (s\<lparr>m_minimum := next_node\<rparr>))) else Some (Inr s)) = Some (Inr s0)"
    "shows_tree s0 ?t" "tree_size s0 = tree_size s"
  proof (cases "m_minimum s = Some a")
    case True
    then show ?thesis using that [of "s\<lparr>m_minimum := Some p\<rparr>"] neighbour_in_order(1) [OF rep inord] rep
      by (simp add: shows_tree_def)
  next
    case False
    then show ?thesis using that [of s] rep by simp
  qed
  obtain s1 where s1: "splice (Some a) s0 = Inr (None, Some p, Black, s1)" "shows_tree s1 (plug ctx (Branch Tip p c kp vp ?u))"
    using splice_represents [OF s0(2)] by auto
  obtain s2 where s2: "set_color (Some b) Red s1 = Inr s2"
    using set_color_represents [of s1 "Frame RightSide p c kp vp Tip # ctx" LeftSide ul b Black kb vb ur Red] s1(2) by auto
  have h: "tree_in (store s1) (ctx_ptr ctx) (Branch Tip p c kp vp ?u)" "m_root s1 \<noteq> None"
    using s1(2) ptr_of_plug_None [of ctx "Branch Tip p c kp vp ?u"] by (auto simp: shows_tree_def plug_in)
  have "remove_fixup_side LeftSide None (Some p) s1 = Inr (None, s2)"
    using h(1) s2 is_red_in [of s1 "Some b" ul] is_red_in [of s1 "Some b" ur] assms(2,3)
    by (simp add: remove_fixup_side_def both_black_def)
  then have "remove_fixup_loop None (Some p) s1 = Some (Inl BadPointer)"
    using h by (subst remove_fixup_loop.simps) (auto simp: is_red_def)
  moreover have "\<exists>n. deref s0 (Some a) = Inr n \<and> left_child n = None" using s0(2) by (simp add: shows_tree_def plug_in)
  ultimately show ?thesis using sz s0(1) s1(1) by (auto simp: remove_node_def remove_fixups_def)
qed

theorem tree_remove_left_leaf_crashes_witness: "remove_node (Some 1) small_tree = Some (Inl BadPointer)"
  using tree_remove_left_leaf_crashes [of small_tree "[]" 1 10 "()" 2 Black 20 "()" Tip 3 30 "()" Tip] small_tree_ok
  by (simp add: small_shape_def)

text \<open>Clearing frees exactly the nodes of the tree.\<close>

lemma tree_clear_frees:
  assumes "rb_tree_ok s t"
  shows "\<exists>s'. tree_clear s = Some (Inr s') \<and> rb_tree_ok s' Tip \<and>
      (\<forall>x. store s' x = (if x \<in> set (addrs t) then None else store s x))"
  using assms delete_node_frees [of s None t] by (simp add: rb_tree_ok_def shows_tree_def tree_clear_def rb_def)

end
