(* ===== verification/MemMem.thy ===== *)
theory MemMem
  imports Vector_Correct
begin

text \<open>
  \<open>AK/MemMem.h\<close>: search for a byte string. Memory ranges are lists of bytes and a pointer into the haystack is
  its offset; the null pointer is \<open>None\<close>. The repeated declaration at the head of \<open>bitap_bitwise\<close> is read once.
  \<open>Vector\<close> and \<open>Span\<close> indexing is \<open>VERIFY\<close>ed, so an index outside is an error value; the counters of type
  \<open>int\<close> are checked, and the table is a \<open>Vector<int, 64>\<close>, whose resizing may need the allocator \<open>env\<close>.
\<close>

section \<open>The reference: the first occurrence\<close>

definition occurs_at :: "'a list \<Rightarrow> 'a list \<Rightarrow> nat \<Rightarrow> bool" where
  "occurs_at needle haystack i \<longleftrightarrow> i + length needle \<le> length haystack \<and> take (length needle) (drop i haystack) = needle"

definition first_occurrence :: "'a list \<Rightarrow> 'a list \<Rightarrow> nat option" where
  "first_occurrence needle haystack = List.find (occurs_at needle haystack) [0..<length haystack + 1]"

section \<open>Shift-or search\<close>

definition needle_masks :: "u8 list \<Rightarrow> u32 list" where
  "needle_masks needle =
     foldl (\<lambda>masks i. masks[unat (needle ! i) := masks ! unat (needle ! i) AND NOT (push_bit i 1)])
       (replicate 256 0xFFFFFFFF) [0..<length needle]"

fun bitap_loop :: "u32 list \<Rightarrow> nat \<Rightarrow> u8 list \<Rightarrow> nat \<Rightarrow> u32 \<Rightarrow> nat option" where
  "bitap_loop masks n [] i lookup = None"
| "bitap_loop masks n (c # cs) i lookup =
     (let lookup = push_bit 1 (lookup OR masks ! unat c) in
      if lookup AND push_bit n 1 = 0 then Some (i + 1 - n) else bitap_loop masks n cs (i + 1) lookup)"

definition bitap_bitwise :: "u8 list \<Rightarrow> u8 list \<Rightarrow> nat option error_or" where
  "bitap_bitwise haystack needle =
     verify (length needle < 32) (Inr (bitap_loop (needle_masks needle) (length needle) haystack 0 0xFFFFFFFE))"

section \<open>Knuth, Morris and Pratt\<close>

text \<open>The inner \<open>do\<close> loop; the condition tests the candidate before it indexes.\<close>

partial_function (option) fall_back :: "u8 list \<Rightarrow> int list \<Rightarrow> u8 \<Rightarrow> int \<Rightarrow> int outcome" where
  "fall_back needle table c candidate =
     and_then (Some (item_at table candidate)) (\<lambda>candidate.
     if candidate \<ge> 0
     then and_then (Some (item_at needle candidate)) (\<lambda>d.
          if d \<noteq> c then fall_back needle table c candidate else Some (Inr candidate))
     else Some (Inr candidate))"

partial_function (option) table_loop :: "u8 list \<Rightarrow> int list \<Rightarrow> nat \<Rightarrow> int \<Rightarrow> int list outcome" where
  "table_loop needle table position candidate =
     (if position < length needle
      then and_then (Some (item_at needle candidate)) (\<lambda>d.
           if needle ! position = d
           then and_then (Some (item_at table candidate)) (\<lambda>t.
                and_then (Some (int32 (candidate + 1))) (\<lambda>candidate.
                table_loop needle (table[position := t]) (position + 1) candidate))
           else (let table = table[position := candidate] in
                 and_then (fall_back needle table (needle ! position) candidate) (\<lambda>candidate.
                 and_then (Some (int32 (candidate + 1))) (\<lambda>candidate.
                 table_loop needle table (position + 1) candidate))))
      else Some (Inr table))"

definition prepare_kmp_partial_table :: "allocator \<Rightarrow> u8 list \<Rightarrow> int list outcome" where
  "prepare_kmp_partial_table env needle =
     and_then (Some (vec_resize env 64 0 (vec_empty 64) (length needle) False)) (\<lambda>table.
     and_then (Some (verify (0 < vsize table) (Inr ()))) (\<lambda>_.
     table_loop needle ((elems table)[0 := - 1]) 1 0))"

text \<open>The haystack comes in chunks.\<close>

partial_function (option) kmp_search_loop ::
    "u8 list \<Rightarrow> int list \<Rightarrow> u8 list list \<Rightarrow> nat \<Rightarrow> nat \<Rightarrow> int \<Rightarrow> nat option outcome" where
  "kmp_search_loop needle table chunks current_haystack_index total_haystack_index needle_index =
     (case chunks of
        [] \<Rightarrow> Some (Inr None)
      | chunk # rest \<Rightarrow>
          if current_haystack_index \<ge> length chunk
          then kmp_search_loop needle table rest 0 total_haystack_index needle_index
          else and_then (Some (item_at needle needle_index)) (\<lambda>d.
               if d = chunk ! current_haystack_index
               then and_then (Some (int32 (needle_index + 1))) (\<lambda>needle_index.
                    if nat needle_index = length needle
                    then Some (Inr (Some (total_haystack_index + 1 - nat needle_index)))
                    else kmp_search_loop needle table chunks (current_haystack_index + 1) (total_haystack_index + 1)
                           needle_index)
               else and_then (Some (item_at table needle_index)) (\<lambda>t.
                    if t < 0
                    then and_then (Some (int32 (t + 1))) (\<lambda>needle_index.
                         kmp_search_loop needle table chunks (current_haystack_index + 1) (total_haystack_index + 1)
                           needle_index)
                    else kmp_search_loop needle table chunks current_haystack_index total_haystack_index t)))"

definition memmem_chunks :: "allocator \<Rightarrow> u8 list list \<Rightarrow> u8 list \<Rightarrow> nat option outcome" where
  "memmem_chunks env chunks needle =
     and_then (prepare_kmp_partial_table env needle) (\<lambda>table. kmp_search_loop needle table chunks 0 0 0)"

section \<open>The search in memory\<close>

definition memmem_optional :: "allocator \<Rightarrow> u8 list \<Rightarrow> u8 list \<Rightarrow> nat option outcome" where
  "memmem_optional env haystack needle =
     (if length needle = 0 then Some (Inr (Some 0))
      else if length haystack < length needle then Some (Inr None)
      else if length haystack = length needle then Some (Inr (if haystack = needle then Some 0 else None))
      else if length needle < 32 then Some (bitap_bitwise haystack needle)
      else memmem_chunks env [haystack] needle)"

definition memmem :: "allocator \<Rightarrow> u8 list \<Rightarrow> u8 list \<Rightarrow> nat option outcome" where
  "memmem env haystack needle = memmem_optional env haystack needle"

section \<open>Occurrences\<close>

lemma find_upt_Some:
  "List.find P [0..<n] = Some i \<longleftrightarrow> i < n \<and> P i \<and> (\<forall>j < i. \<not> P j)"
proof (induction n)
  case (Suc n)
  show ?case
  proof (cases "List.find P [0..<n]")
    case None
    then have "\<forall>j < n. \<not> P j" by (auto simp: find_None_iff)
    then show ?thesis using None by (auto simp: find_append less_Suc_eq)
  next
    case (Some j)
    then have "j < n \<and> P j \<and> (\<forall>k < j. \<not> P k)" using Suc.IH Some by (auto simp: find_Some_iff)
    then show ?thesis using Some by (auto simp: find_append less_Suc_eq) (meson linorder_neqE_nat)
  qed
qed simp

lemma first_occurrence_Some:
  "first_occurrence needle haystack = Some i \<longleftrightarrow>
     occurs_at needle haystack i \<and> (\<forall>j < i. \<not> occurs_at needle haystack j)"
  unfolding first_occurrence_def find_upt_Some by (auto simp: occurs_at_def)

lemma first_occurrence_None: "first_occurrence needle haystack = None \<longleftrightarrow> (\<forall>i. \<not> occurs_at needle haystack i)"
  by (auto simp: first_occurrence_def find_None_iff occurs_at_def)

lemma occurs_at_nth:
  "occurs_at needle haystack i \<longleftrightarrow>
     i + length needle \<le> length haystack \<and> (\<forall>m < length needle. haystack ! (i + m) = needle ! m)"
  by (auto simp: occurs_at_def list_eq_iff_nth_eq)

section \<open>Borders\<close>

text \<open>\<open>k\<close> is the length of a proper border of the first \<open>j\<close> bytes; a strong one differs in the next byte.\<close>

definition bord :: "'a list \<Rightarrow> nat \<Rightarrow> nat \<Rightarrow> bool" where
  "bord w k j \<longleftrightarrow> k < j \<and> (\<forall>m < k. w ! m = w ! (j - k + m))"

definition strong :: "'a list \<Rightarrow> nat \<Rightarrow> nat \<Rightarrow> bool" where
  "strong w k j \<longleftrightarrow> bord w k j \<and> w ! k \<noteq> w ! j"

lemma bord_0: "0 < j \<Longrightarrow> bord w 0 j"
  by (simp add: bord_def)

lemma bordD: "bord w k j \<Longrightarrow> m < k \<Longrightarrow> w ! m = w ! (j - k + m)"
  by (simp add: bord_def)

lemma bord_trans: "bord w k c \<Longrightarrow> bord w c p \<Longrightarrow> bord w k p"
proof -
  assume k: "bord w k c" and c: "bord w c p"
  have "w ! m = w ! (p - k + m)" if "m < k" for m
  proof -
    have "w ! m = w ! (c - k + m)" using k that by (simp add: bord_def)
    also have "\<dots> = w ! (p - c + (c - k + m))"
    proof (rule bordD [OF c])
      have "k < c" using k by (simp add: bord_def)
      then show "c - k + m < c" using that by arith
    qed
    also have "p - c + (c - k + m) = p - k + m" using k c by (simp add: bord_def)
    finally show ?thesis .
  qed
  then show ?thesis using k c by (simp add: bord_def)
qed

lemma bord_down: "bord w k p \<Longrightarrow> bord w c p \<Longrightarrow> k < c \<Longrightarrow> bord w k c"
proof -
  assume k: "bord w k p" and c: "bord w c p" and less: "k < c"
  have "w ! m = w ! (c - k + m)" if "m < k" for m
  proof -
    have "w ! (c - k + m) = w ! (p - c + (c - k + m))" using c less that by (simp add: bord_def)
    also have "p - c + (c - k + m) = p - k + m" using k c less by (simp add: bord_def)
    finally show ?thesis using k that by (simp add: bord_def)
  qed
  then show ?thesis using less by (simp add: bord_def)
qed

lemma bord_Suc: "bord w (Suc k) (Suc p) \<longleftrightarrow> bord w k p \<and> w ! k = w ! p"
  by (auto simp: bord_def less_Suc_eq)

text \<open>An entry of the table: the longest strong border, or -1.\<close>

definition entry_ok :: "'a list \<Rightarrow> int \<Rightarrow> nat \<Rightarrow> bool" where
  "entry_ok w t j \<longleftrightarrow>
     (if t < 0 then t = - 1 \<and> (\<forall>k. \<not> strong w k j) else strong w (nat t) j \<and> (\<forall>k. strong w k j \<longrightarrow> k \<le> nat t))"

definition kmp_table_ok :: "'a list \<Rightarrow> int list \<Rightarrow> nat \<Rightarrow> bool" where
  "kmp_table_ok w table n \<longleftrightarrow> length table = length w \<and> (\<forall>j < n. entry_ok w (table ! j) j)"

lemma kmp_table_ok_mono: "kmp_table_ok w table n \<Longrightarrow> m \<le> n \<Longrightarrow> kmp_table_ok w table m"
  by (auto simp: kmp_table_ok_def)

lemma fall_back_correct:
  assumes "kmp_table_ok needle table p" and "p < length needle" and "bord needle c p" and "needle ! c \<noteq> needle ! p"
    and "\<And>k. bord needle k p \<Longrightarrow> c < k \<Longrightarrow> needle ! k \<noteq> needle ! p"
  shows "\<exists>r. fall_back needle table (needle ! p) (int c) = Some (Inr r) \<and>
      (if r < 0 then r = - 1 \<and> (\<forall>k. bord needle k p \<longrightarrow> needle ! k \<noteq> needle ! p)
       else bord needle (nat r) p \<and> needle ! nat r = needle ! p \<and>
         (\<forall>k. bord needle k p \<and> needle ! k = needle ! p \<longrightarrow> k \<le> nat r))"
  using assms(3-)
proof (induction c rule: less_induct)
  case (less c)
  have c: "c < p" "c < length table" using less.prems(1) assms(1,2) by (auto simp: bord_def kmp_table_ok_def)
  have entry: "entry_ok needle (table ! c) c" using c assms(1) by (simp add: kmp_table_ok_def)
  have skip: "needle ! k \<noteq> needle ! p" if "bord needle k p" "\<not> strong needle k c" for k
  proof (cases k c rule: linorder_cases)
    case less': less
    then have "bord needle k c" using that(1) less.prems(1) bord_down by blast
    then show ?thesis using that(2) less.prems(2) by (auto simp: strong_def)
  qed (use less.prems that in auto)
  show ?case
  proof (cases "table ! c < 0")
    case True
    then have "table ! c = - 1" "\<forall>k. bord needle k p \<longrightarrow> needle ! k \<noteq> needle ! p"
      using entry skip by (auto simp: entry_ok_def)
    then show ?thesis using c by (subst fall_back.simps) simp
  next
    case False
    define d where "d = nat (table ! c)"
    have d: "table ! c = int d" "strong needle d c" "\<And>k. strong needle k c \<Longrightarrow> k \<le> d"
      using False entry by (simp_all add: d_def entry_ok_def)
    have dp: "d < c" "d < length needle" "bord needle d p"
      using d(2) bord_trans less.prems(1) c assms(2) by (auto simp: strong_def bord_def)
    have max: "needle ! k \<noteq> needle ! p" if "bord needle k p" "d < k" for k
      using skip that d(3) by (meson not_le)
    show ?thesis
    proof (cases "needle ! d = needle ! p")
      case True
      then have "fall_back needle table (needle ! p) (int c) = Some (Inr (int d))"
        using c d(1) dp by (subst fall_back.simps) simp
      then show ?thesis using True dp(3) max by (intro exI [of _ "int d"]) (auto simp: not_less [symmetric])
    next
      case False
      then have "fall_back needle table (needle ! p) (int c) = fall_back needle table (needle ! p) (int d)"
        using c d(1) dp by (subst fall_back.simps) simp
      then show ?thesis using less.IH [OF dp(1,3) False] max by simp
    qed
  qed
qed

lemma table_loop_correct:
  assumes small: "length needle < 2 ^ 31"
    and "kmp_table_ok needle table p" and "0 < p" and "p \<le> length needle"
    and "bord needle c p" and "\<And>k. bord needle k p \<Longrightarrow> k \<le> c"
  shows "\<exists>table'. table_loop needle table p (int c) = Some (Inr table') \<and> kmp_table_ok needle table' (length needle)"
  using assms(2-)
proof (induction "length needle - p" arbitrary: p c table)
  case 0
  then show ?case by (subst table_loop.simps) simp
next
  case (Suc n)
  have p: "p < length needle" "c < p" "length table = length needle"
    using Suc.hyps(2) Suc.prems by (auto simp: bord_def kmp_table_ok_def)
  have step: "kmp_table_ok needle (table[p := t]) (p + 1)" if "entry_ok needle t p" for t
    using Suc.prems(1) that p by (auto simp: kmp_table_ok_def less_Suc_eq)
  show ?case
  proof (cases "needle ! p = needle ! c")
    case True
    have "strong needle k p \<longleftrightarrow> strong needle k c" for k
    proof
      assume s: "strong needle k p"
      then have "k \<noteq> c" "k \<le> c" using True Suc.prems(5) by (auto simp: strong_def)
      then show "strong needle k c" using s True bord_down Suc.prems(4) by (fastforce simp: strong_def)
    qed (use True bord_trans Suc.prems(4) in \<open>auto simp: strong_def\<close>)
    then have "entry_ok needle (table ! c) p" using Suc.prems(1) p by (auto simp: entry_ok_def kmp_table_ok_def)
    moreover have "bord needle (Suc c) (Suc p)" using True Suc.prems(4) by (simp add: bord_Suc)
    moreover have "k \<le> Suc c" if "bord needle k (Suc p)" for k
      using that Suc.prems(5) by (cases k) (auto simp: bord_Suc)
    ultimately show ?thesis
      using Suc.hyps(1) [of "p + 1" "table[p := table ! c]" "c + 1"] Suc.hyps(2) step p True small
      by (subst table_loop.simps) (simp add: add.commute)
  next
    case False
    let ?table = "table[p := int c]"
    have "entry_ok needle (int c) p" using False Suc.prems(4,5) by (auto simp: entry_ok_def strong_def)
    then have ok: "kmp_table_ok needle ?table (p + 1)" by (rule step)
    then have ok': "kmp_table_ok needle ?table p" by (rule kmp_table_ok_mono) simp
    obtain r where r: "fall_back needle ?table (needle ! p) (int c) = Some (Inr r)"
      "if r < 0 then r = - 1 \<and> (\<forall>k. bord needle k p \<longrightarrow> needle ! k \<noteq> needle ! p)
       else bord needle (nat r) p \<and> needle ! nat r = needle ! p \<and>
         (\<forall>k. bord needle k p \<and> needle ! k = needle ! p \<longrightarrow> k \<le> nat r)"
      using fall_back_correct [OF ok' p(1) Suc.prems(4)] False Suc.prems(5) by (metis not_le)
    define d where "d = nat (r + 1)"
    have d: "r + 1 = int d" using r(2) by (auto simp: d_def split: if_splits)
    have "bord needle d (Suc p)"
      using r(2) by (cases "r < 0") (auto simp: d_def bord_0 bord_Suc nat_add_distrib)
    moreover have "k \<le> d" if "bord needle k (Suc p)" for k
      using that r(2) by (cases k; cases "r < 0") (auto simp: bord_Suc d_def nat_add_distrib)
    moreover from calculation(1) have checked: "int32 (r + 1) = Inr (int d)"
      using d p(1) small by (simp add: bord_def)
    ultimately show ?thesis
      using Suc.hyps(1) [of "p + 1" ?table d] Suc.hyps(2) ok p False r(1) d checked
      by (subst table_loop.simps) simp
  qed
qed

text \<open>The table needs an allocation when the needle is longer than its inline capacity.\<close>

definition table_fits :: "allocator \<Rightarrow> nat \<Rightarrow> bool" where
  "table_fits env n \<longleftrightarrow> n \<le> 64 \<or> can_allocate env (good_size env n)"

lemma resized_table:
  assumes "alloc_ok env"
  shows "(vec_resize env 64 (0 :: int) (vec_empty 64) n False = Inl VerifyFailed \<and> \<not> table_fits env n) \<or>
    (\<exists>v. vec_resize env 64 (0 :: int) (vec_empty 64) n False = Inr v \<and> vsize v = n \<and> elems v = replicate n 0)"
proof -
  have "vec_ok (vec_empty 64 :: int vec)" by (rule vec_empty_ok) (simp add: size_max_def)
  from try_resize_result [OF this assms, where ic = 64 and n = n and keep = False and d = 0]
  consider "try_resize env 64 0 (vec_empty 64 :: int vec) n False = Inl ENOMEM" "64 < n" "\<not> can_allocate env (good_size env n)"
    | v where "try_resize env 64 0 (vec_empty 64 :: int vec) n False = Inr v" "elems v = replicate n 0"
    by (auto simp: size_max_def vec_empty_def elems_def)
  then show ?thesis
  proof cases
    case 1
    then show ?thesis by (simp add: vec_resize_def table_fits_def)
  next
    case 2
    moreover from this have "vsize v = n" by (metis length_elems length_replicate)
    ultimately show ?thesis by (simp add: vec_resize_def)
  qed
qed

lemma prepare_kmp_partial_table_correct:
  assumes "needle \<noteq> []" and "length needle < 2 ^ 31" and "alloc_ok env"
  shows "(prepare_kmp_partial_table env needle = Some (Inl VerifyFailed) \<and> \<not> table_fits env (length needle)) \<or>
    (\<exists>table. prepare_kmp_partial_table env needle = Some (Inr table) \<and> kmp_table_ok needle table (length needle))"
proof -
  have "kmp_table_ok needle ((replicate (length needle) 0)[0 := - 1]) 1"
    using assms by (auto simp: kmp_table_ok_def entry_ok_def strong_def bord_def)
  moreover have "bord needle 0 1" "\<And>k. bord needle k 1 \<Longrightarrow> k \<le> 0" by (auto simp: bord_def)
  ultimately have "\<exists>table. table_loop needle ((replicate (length needle) 0)[0 := - 1]) 1 0 = Some (Inr table) \<and>
      kmp_table_ok needle table (length needle)"
    using table_loop_correct [OF assms(2), of "(replicate (length needle) 0)[0 := - 1]" 1 0] assms(1)
    by (simp add: Suc_le_eq)
  then show ?thesis
    using resized_table [OF assms(3), of "length needle"] assms(1) by (auto simp: prepare_kmp_partial_table_def)
qed

section \<open>The search over chunks\<close>

definition search_ok :: "u8 list \<Rightarrow> u8 list \<Rightarrow> nat \<Rightarrow> nat \<Rightarrow> bool" where
  "search_ok needle text i q \<longleftrightarrow>
     q < length needle \<and> q \<le> i \<and> (\<forall>m < q. text ! (i - q + m) = needle ! m) \<and> (\<forall>j < i - q. \<not> occurs_at needle text j)"

text \<open>After a mismatch no occurrence can start between the old alignment and that of a longest strong border.\<close>

lemma no_occurrence_between:
  assumes "search_ok needle text i q" and "i < length text" and "needle ! q \<noteq> text ! i"
    and "\<And>k. strong needle k q \<Longrightarrow> int k \<le> t" and "occurs_at needle text j" and "j \<le> i"
  shows "int (i - j) \<le> t"
proof -
  have q: "q < length needle" "q \<le> i" "\<And>m. m < q \<Longrightarrow> text ! (i - q + m) = needle ! m" "i - q \<le> j"
    using assms(1,5) by (auto simp: search_ok_def not_less [symmetric])
  define k where "k = i - j"
  have k: "k \<le> q" "j = i - k" "k \<le> i" using q assms(6) by (auto simp: k_def)
  have occ: "text ! (j + m) = needle ! m" if "m < length needle" for m
    using assms(5) that by (simp add: occurs_at_nth)
  have "needle ! k = text ! i" using occ [of k] k q(1) by simp
  then have "k \<noteq> q" "needle ! k \<noteq> needle ! q" using assms(3) by auto
  moreover have "needle ! m = needle ! (q - k + m)" if "m < k" for m
  proof -
    have "needle ! (q - k + m) = text ! (i - q + (q - k + m))" using q(3) [of "q - k + m"] k that by simp
    also have "i - q + (q - k + m) = j + m" using k q(2) by simp
    finally show ?thesis using occ [of m] that k q(1) by simp
  qed
  ultimately have "strong needle k q" using k(1) by (simp add: strong_def bord_def)
  then show ?thesis using assms(4) by (simp add: k_def)
qed

lemma kmp_search_loop_correct:
  assumes small: "length needle < 2 ^ 31"
    and "kmp_table_ok needle table (length needle)" and "text = pre @ concat chunks"
    and "tot = length pre + cur" and "chunks = [] \<longrightarrow> cur = 0" and "chunks \<noteq> [] \<longrightarrow> cur \<le> length (hd chunks)"
    and "search_ok needle text tot q"
  shows "kmp_search_loop needle table chunks cur tot (int q) = Some (Inr (first_occurrence needle text))"
  using assms(3-)
proof (induction "length chunks + 2 * (length text - tot) + q" arbitrary: pre chunks cur tot q rule: less_induct)
  case less
  show ?case
  proof (cases chunks)
    case Nil
    then have "\<not> occurs_at needle text j" for j
      using less.prems by (cases "j < tot - q") (auto simp: search_ok_def occurs_at_def)
    then have "first_occurrence needle text = None" by (simp add: first_occurrence_None)
    then show ?thesis using Nil by (subst kmp_search_loop.simps) simp
  next
    case (Cons chunk rest)
    show ?thesis
    proof (cases "cur \<ge> length chunk")
      case True
      then have "kmp_search_loop needle table rest 0 tot (int q) = Some (Inr (first_occurrence needle text))"
        using less.prems Cons by (intro less.hyps [of _ _ _ "pre @ chunk"]) auto
      then show ?thesis using True Cons by (subst kmp_search_loop.simps) simp
    next
      case inside: False
      have q: "q < length needle" "q \<le> tot" "\<And>m. m < q \<Longrightarrow> text ! (tot - q + m) = needle ! m"
        "\<And>j. j < tot - q \<Longrightarrow> \<not> occurs_at needle text j"
        using less.prems(5) by (auto simp: search_ok_def)
      have i: "tot < length text" "text ! tot = chunk ! cur"
        using less.prems Cons inside by (auto simp: nth_append)
      show ?thesis
      proof (cases "needle ! q = chunk ! cur")
        case True
        have match: "text ! (tot - q + m) = needle ! m" if "m < Suc q" for m
          using that q(2,3) True i by (cases "m = q") auto
        show ?thesis
        proof (cases "Suc q = length needle")
          case last: True
          have "occurs_at needle text (tot - q)"
            using match q(2) i last by (auto simp: occurs_at_nth)
          then have "first_occurrence needle text = Some (tot - q)"
            using q(4) by (simp add: first_occurrence_Some)
          then show ?thesis using Cons inside True last q(1) small
            by (subst kmp_search_loop.simps) (simp add: nat_add_distrib)
        next
          case False
          have "search_ok needle text (Suc tot) (Suc q)"
            using q match False by (auto simp: search_ok_def)
          then have "kmp_search_loop needle table chunks (Suc cur) (Suc tot) (int (Suc q)) = Some (Inr (first_occurrence needle text))"
            using less.prems Cons inside i by (intro less.hyps [of _ _ _ pre]) auto
          then show ?thesis using Cons inside True False q(1) small
            by (subst kmp_search_loop.simps) (simp add: nat_add_distrib add.commute)
        qed
      next
        case mismatch: False
        have qt: "q < length table" "entry_ok needle (table ! q) q" using q(1) assms(2) by (auto simp: kmp_table_ok_def)
        have between: "int (tot - j) \<le> table ! q" if "occurs_at needle text j" "j \<le> tot" for j
        proof (rule no_occurrence_between [OF less.prems(5) i(1)])
          show "int k \<le> table ! q" if "strong needle k q" for k
            using qt(2) that by (auto simp: entry_ok_def split: if_splits)
        qed (use mismatch i that in auto)
        show ?thesis
        proof (cases "table ! q < 0")
          case True
          then have t: "table ! q = - 1" using qt(2) by (auto simp: entry_ok_def split: if_splits)
          have "\<not> occurs_at needle text j" if "j < Suc tot" for j
            using between [of j] t that by auto
          then have "search_ok needle text (Suc tot) 0" using q(1) by (auto simp: search_ok_def)
          then have "kmp_search_loop needle table chunks (Suc cur) (Suc tot) (int 0) = Some (Inr (first_occurrence needle text))"
            using less.prems Cons inside i by (intro less.hyps [of _ _ _ pre]) auto
          then show ?thesis using Cons inside mismatch qt t q(1) by (subst kmp_search_loop.simps) simp
        next
          case False
          define d where "d = nat (table ! q)"
          have d: "table ! q = int d" "bord needle d q" "d < q"
            using False qt(2) by (auto simp: d_def entry_ok_def strong_def bord_def)
          have "\<not> occurs_at needle text j" if "j < tot - d" for j
          proof
            assume "occurs_at needle text j"
            then have "int (tot - j) \<le> int d" using between [of j] d(1) that by simp
            then show False using that by simp
          qed
          moreover have "text ! (tot - d + m) = needle ! m" if "m < d" for m
          proof -
            have "text ! (tot - d + m) = text ! (tot - q + (q - d + m))" using d(3) q(2) by simp
            also have "\<dots> = needle ! (q - d + m)" using d(3) that by (intro q(3)) simp
            finally show ?thesis using bordD [OF d(2) that] by simp
          qed
          ultimately have "search_ok needle text tot d" using q d(3) by (simp add: search_ok_def)
          then have "kmp_search_loop needle table chunks cur tot (int d) = Some (Inr (first_occurrence needle text))"
            using less.prems Cons inside d(3) by (intro less.hyps [of _ _ _ pre]) auto
          then show ?thesis using Cons inside mismatch qt d(1) q(1) by (subst kmp_search_loop.simps) simp
        qed
      qed
    qed
  qed
qed

text \<open>An error, when the table cannot be allocated, or the first occurrence.\<close>

definition table_failed :: "allocator \<Rightarrow> u8 list \<Rightarrow> nat option outcome \<Rightarrow> bool" where
  "table_failed env needle r \<longleftrightarrow> r = Some (Inl VerifyFailed) \<and> \<not> table_fits env (length needle)"

lemma memmem_chunks_correct:
  assumes "needle \<noteq> []" and "length needle < 2 ^ 31" and "alloc_ok env"
  shows "table_failed env needle (memmem_chunks env chunks needle) \<or>
    memmem_chunks env chunks needle = Some (Inr (first_occurrence needle (concat chunks)))"
proof (cases "prepare_kmp_partial_table env needle = Some (Inl VerifyFailed) \<and> \<not> table_fits env (length needle)")
  case True
  then show ?thesis by (simp add: memmem_chunks_def table_failed_def)
next
  case False
  then obtain table where t: "prepare_kmp_partial_table env needle = Some (Inr table)" "kmp_table_ok needle table (length needle)"
    using prepare_kmp_partial_table_correct [OF assms] by blast
  have "kmp_search_loop needle table chunks 0 0 (int 0) = Some (Inr (first_occurrence needle (concat chunks)))"
    using assms(1) by (intro kmp_search_loop_correct [OF assms(2) t(2), of _ "[]"]) (auto simp: search_ok_def)
  then show ?thesis using t(1) by (simp add: memmem_chunks_def)
qed

section \<open>Shift-or\<close>

lemma needle_masks_bit:
  assumes "n \<le> length needle" and "n \<le> 32"
  shows "length (foldl (\<lambda>masks i. masks[unat (needle ! i) := masks ! unat (needle ! i) AND NOT (push_bit i 1)])
           (replicate 256 0xFFFFFFFF) [0..<n] :: u32 list) = 256 \<and>
         (\<forall>c :: u8. \<forall>j < 32. bit (foldl (\<lambda>masks i. masks[unat (needle ! i) := masks ! unat (needle ! i) AND NOT (push_bit i 1)])
           (replicate 256 0xFFFFFFFF) [0..<n] ! unat c :: u32) j \<longleftrightarrow> \<not> (j < n \<and> needle ! j = c))"
  using assms
proof (induction n)
  case 0
  have "bit (0xFFFFFFFF :: u32) j" if "j < 32" for j
  proof -
    have "(0xFFFFFFFF :: u32) = - 1" by simp
    then show ?thesis using that by (simp only: bit_minus_1_iff) simp
  qed
  moreover have "unat c < 256" for c :: u8 using unsigned_less [of c] by simp
  ultimately show ?case by simp
next
  case (Suc n)
  let ?m = "foldl (\<lambda>masks i. masks[unat (needle ! i) := masks ! unat (needle ! i) AND NOT (push_bit i 1)])
           (replicate 256 0xFFFFFFFF) [0..<n] :: u32 list"
  have IH: "length ?m = 256" "\<And>c :: u8. \<And>j. j < 32 \<Longrightarrow> bit (?m ! unat c) j \<longleftrightarrow> \<not> (j < n \<and> needle ! j = c)"
    using Suc by simp_all
  have lt: "unat c < 256" for c :: u8 using unsigned_less [of c] by simp
  have "bit (?m[unat (needle ! n) := ?m ! unat (needle ! n) AND NOT (push_bit n 1)] ! unat c) j \<longleftrightarrow>
      \<not> (j < Suc n \<and> needle ! j = c)" if "j < 32" for c :: u8 and j
  proof (cases "c = needle ! n")
    case True
    then show ?thesis using IH lt that by (auto simp: bit_simps less_Suc_eq)
  next
    case False
    then have "unat (needle ! n) \<noteq> unat c" by (metis word_unat_eq_iff)
    then show ?thesis using False IH(2) [OF that, of c] by (auto simp: less_Suc_eq)
  qed
  then show ?case using IH(1) by simp
qed

definition shift_or_state :: "u8 list \<Rightarrow> u8 list \<Rightarrow> u32 \<Rightarrow> bool" where
  "shift_or_state needle seen lookup \<longleftrightarrow>
     (\<forall>j \<le> length needle. \<not> bit lookup j \<longleftrightarrow>
        j \<le> length seen \<and> (\<forall>m < j. seen ! (length seen - j + m) = needle ! m))"

lemma shift_or_step:
  assumes state: "shift_or_state needle seen lookup" and n: "length needle < 32"
    and mask: "\<And>j. j < 32 \<Longrightarrow> bit msk j \<longleftrightarrow> \<not> (j < length needle \<and> needle ! j = c)"
  shows "shift_or_state needle (seen @ [c]) (push_bit 1 (lookup OR msk))"
  unfolding shift_or_state_def
proof (intro allI impI)
  fix j assume j: "j \<le> length needle"
  show "\<not> bit (push_bit 1 (lookup OR msk)) j \<longleftrightarrow>
      j \<le> length (seen @ [c]) \<and> (\<forall>m < j. (seen @ [c]) ! (length (seen @ [c]) - j + m) = needle ! m)"
  proof (cases j)
    case 0
    then show ?thesis by (simp add: bit_push_bit_iff bit_or_iff del: push_bit_Suc)
  next
    case (Suc i)
    have "bit (push_bit 1 (lookup OR msk)) j \<longleftrightarrow> bit lookup i \<or> bit msk i"
      using Suc j n by (simp add: bit_push_bit_iff bit_or_iff del: push_bit_Suc)
    moreover have "(seen @ [c]) ! (length (seen @ [c]) - j + m) = seen ! (length seen - i + m)" if "m < i" "i \<le> length seen" for m
    proof -
      have "length seen - i + m < length seen" using that by arith
      then show ?thesis using that Suc by (simp add: nth_append)
    qed
    moreover have "(seen @ [c]) ! (length (seen @ [c]) - j + i) = c" if "i \<le> length seen"
      using that Suc by simp
    ultimately show ?thesis
      using state mask [of i] Suc j n by (auto simp: shift_or_state_def less_Suc_eq)
  qed
qed

lemma bitap_loop_correct:
  assumes n: "length needle < 32" "needle \<noteq> []"
    and mask: "\<And>c j. j < 32 \<Longrightarrow> bit (masks ! unat c) j \<longleftrightarrow> \<not> (j < length needle \<and> needle ! j = (c :: u8))"
    and "shift_or_state needle seen lookup" and "\<forall>j. j + length needle \<le> length seen \<longrightarrow> \<not> occurs_at needle (seen @ cs) j"
  shows "bitap_loop masks (length needle) cs (length seen) lookup = first_occurrence needle (seen @ cs)"
  using assms(4,5)
proof (induction cs arbitrary: seen lookup)
  case Nil
  then have "first_occurrence needle seen = None" by (auto simp: first_occurrence_None occurs_at_def)
  then show ?case by simp
next
  case (Cons c cs)
  let ?seen = "seen @ [c]" and ?lookup = "push_bit 1 (lookup OR masks ! unat c)"
  have state: "shift_or_state needle ?seen ?lookup" using shift_or_step [OF Cons.prems(1) n(1)] mask by blast
  have test: "?lookup AND push_bit (length needle) 1 = 0 \<longleftrightarrow> \<not> bit ?lookup (length needle)"
    by (simp only: push_bit_of_1 and_exp_eq_0_iff_not_bit)
  have here: "\<not> bit ?lookup (length needle) \<longleftrightarrow> length needle \<le> length ?seen \<and> occurs_at needle (?seen @ cs) (length ?seen - length needle)"
    using state by (auto simp: shift_or_state_def occurs_at_nth nth_append)
  show ?case
  proof (cases "bit ?lookup (length needle)")
    case True
    have "\<not> occurs_at needle (?seen @ cs) j" if "j + length needle \<le> length ?seen" for j
    proof (cases "j + length needle = length ?seen")
      case eq: True
      then have "j = length ?seen - length needle" by simp
      then show ?thesis using here True eq by simp
    next
      case False
      then show ?thesis using Cons.prems(2) that by simp
    qed
    then show ?thesis using Cons.IH [OF state] True test by (simp add: Let_def)
  next
    case False
    then have occ: "length needle \<le> length ?seen" "occurs_at needle (seen @ c # cs) (length ?seen - length needle)" using here by simp_all
    have "first_occurrence needle (seen @ c # cs) = Some (length ?seen - length needle)"
      unfolding first_occurrence_Some using occ Cons.prems(2) by auto
    then show ?thesis using False test by (simp add: Let_def)
  qed
qed

lemma bitap_bitwise_correct:
  assumes "length needle < 32" and "needle \<noteq> []"
  shows "bitap_bitwise haystack needle = Inr (first_occurrence needle haystack)"
proof -
  have "shift_or_state needle [] 0xFFFFFFFE"
  proof -
    have "(0xFFFFFFFE :: u32) = NOT 1" by simp
    then have "bit (0xFFFFFFFE :: u32) j \<longleftrightarrow> j \<noteq> 0" if "j < 32" for j
      using that by (simp only:) (simp add: bit_simps)
    then show ?thesis using assms by (auto simp: shift_or_state_def)
  qed
  moreover have "bit (needle_masks needle ! unat c) j \<longleftrightarrow> \<not> (j < length needle \<and> needle ! j = c)" if "j < 32" for c j
    using needle_masks_bit [of "length needle" needle] assms(1) that by (simp add: needle_masks_def)
  ultimately show ?thesis
    using bitap_loop_correct [of needle "needle_masks needle" "[]" "0xFFFFFFFE" haystack] assms
    by (simp add: bitap_bitwise_def occurs_at_def)
qed

lemma memmem_short:
  assumes "length needle < 32 \<or> length haystack \<le> length needle"
  shows "memmem_optional env haystack needle = Some (Inr (first_occurrence needle haystack))"
proof -
  have "first_occurrence [] haystack = Some 0" by (simp add: first_occurrence_Some occurs_at_def)
  moreover have "length haystack < length needle \<Longrightarrow> first_occurrence needle haystack = None"
    by (simp add: first_occurrence_None occurs_at_def)
  moreover have "first_occurrence needle haystack = (if haystack = needle then Some 0 else None)"
    if "length haystack = length needle"
    using that by (auto simp: first_occurrence_Some first_occurrence_None occurs_at_def)
  ultimately show ?thesis
    using bitap_bitwise_correct [of needle haystack] assms by (auto simp: memmem_optional_def)
qed

lemma memmem_correct:
  assumes "length needle < 2 ^ 31" and "alloc_ok env"
  shows "(32 \<le> length needle \<and> table_failed env needle (memmem_optional env haystack needle)) \<or>
    memmem_optional env haystack needle = Some (Inr (first_occurrence needle haystack))"
proof (cases "length needle < 32 \<or> length haystack \<le> length needle")
  case True
  then show ?thesis by (simp add: memmem_short)
next
  case False
  then have "memmem_optional env haystack needle = memmem_chunks env [haystack] needle" "needle \<noteq> []"
    by (auto simp: memmem_optional_def)
  then show ?thesis using memmem_chunks_correct [OF _ assms, of "[haystack]"] False by auto
qed

lemma memmem_fits:
  assumes "length needle < 2 ^ 31" and "alloc_ok env" and "table_fits env (length needle)"
  shows "memmem_optional env haystack needle = Some (Inr (first_occurrence needle haystack))"
  using memmem_correct [OF assms(1,2), of haystack] assms(3) by (auto simp: table_failed_def)

text \<open>The needles that are found wherever they are searched.\<close>

definition searchable :: "allocator \<Rightarrow> u8 list \<Rightarrow> bool" where
  "searchable env needle \<longleftrightarrow>
    (\<forall>haystack. memmem_optional env haystack needle = Some (Inr (first_occurrence needle haystack)))"

lemma searchable_short: "length needle < 32 \<Longrightarrow> searchable env needle"
  by (simp add: searchable_def memmem_short)

lemma searchable_fits:
  "length needle < 2 ^ 31 \<Longrightarrow> alloc_ok env \<Longrightarrow> table_fits env (length needle) \<Longrightarrow> searchable env needle"
  by (simp add: searchable_def memmem_fits)

section \<open>Properties\<close>

text \<open>
  C24. For a needle below \<open>2 ^ 31\<close> bytes, the search in memory returns the first occurrence of the needle, or
  none if there is none, whichever of its algorithms it takes; the search over chunks finds the first
  occurrence in their concatenation, across their boundaries. They fail only when the table of a needle of
  more than 64 bytes cannot be allocated.
\<close>

theorem memmem_finds_first_occurrence:
  assumes "length needle < 2 ^ 31" and "alloc_ok env"
  shows "(memmem_optional env haystack needle = Some (Inr (first_occurrence needle haystack)) \<or>
      table_failed env needle (memmem_optional env haystack needle)) \<and>
    (needle \<noteq> [] \<longrightarrow> memmem_chunks env chunks needle = Some (Inr (first_occurrence needle (concat chunks))) \<or>
      table_failed env needle (memmem_chunks env chunks needle))"
  using memmem_correct [OF assms, of haystack] memmem_chunks_correct [OF _ assms, of chunks] by blast

definition no_memory :: allocator where
  "no_memory = \<lparr>can_allocate = \<lambda>n. False, good_size = \<lambda>n. n\<rparr>"

lemma no_memory_ok: "alloc_ok no_memory"
  by (simp add: alloc_ok_def no_memory_def)

theorem memmem_finds_first_occurrence_witness:
  "memmem_chunks no_memory [[1, 2, 1], [2, 1, 3], [4]] [1, 2, 1, 3] = Some (Inr (Some 2))"
proof -
  have "first_occurrence [1, 2, 1, 3] (concat [[1, 2, 1], [2, 1, 3], [4 :: u8]]) = Some 2"
    by (simp add: first_occurrence_def occurs_at_def upt_rec)
  then show ?thesis
    using memmem_finds_first_occurrence [OF _ no_memory_ok, of "[1, 2, 1, 3]" "[]" "[[1, 2, 1], [2, 1, 3], [4]]"]
    by (simp add: table_failed_def table_fits_def)
qed

end
