(* ===== verification/Peripherals.thy ===== *)
theory Peripherals
  imports MMU
begin

unbundle bit_operations_syntax

text \<open>
  The drivers of \<open>Kernel/Arch/aarch64/RPi\<close>: memory-mapped access, the pins (\<open>GPIO\<close>), the system
  timer, the serial line (\<open>UART\<close>), the interrupt controller, the firmware mailbox and the frame
  buffer set up over it. The hardware is not under \<open>src/\<close>: it is a parameter, a record of what
  reading a register, writing one and waiting some cycles do to a device state of any type. A read
  returns the value and the state after it, since reading may have effects and time passes.
\<close>

section \<open>Memory-mapped access\<close>

record 'd hardware =
  read_reg :: "u64 \<Rightarrow> 'd \<Rightarrow> u32 \<times> 'd"
  write_reg :: "u64 \<Rightarrow> u32 \<Rightarrow> 'd \<Rightarrow> 'd"
  wait_cycles :: "nat \<Rightarrow> 'd \<Rightarrow> 'd"

definition peripheral_address :: "u32 \<Rightarrow> u64 \<Rightarrow> u64" where
  "peripheral_address midr offset = ucast (m_base_address midr) + offset"

definition mmio_read :: "'d hardware \<Rightarrow> u32 \<Rightarrow> u64 \<Rightarrow> 'd \<Rightarrow> u32 \<times> 'd" where
  "mmio_read hw midr offset = read_reg hw (peripheral_address midr offset)"

definition mmio_write :: "'d hardware \<Rightarrow> u32 \<Rightarrow> u64 \<Rightarrow> u32 \<Rightarrow> 'd \<Rightarrow> 'd" where
  "mmio_write hw midr offset v = write_reg hw (peripheral_address midr offset) v"

text \<open>Reading a register until the bits of a mask are clear; \<open>None\<close> if they never are.\<close>

partial_function (option) wait_while_set :: "'d hardware \<Rightarrow> u64 \<Rightarrow> u32 \<Rightarrow> 'd \<Rightarrow> 'd option" where
  "wait_while_set hw a flags d =
    (if fst (read_reg hw a d) AND flags \<noteq> 0
     then wait_while_set hw a flags (snd (read_reg hw a d))
     else Some (snd (read_reg hw a d)))"

section \<open>Pins\<close>

datatype pin_function = Input | Output | Alternate0 | Alternate1 | Alternate2 | Alternate3
  | Alternate4 | Alternate5

fun pin_function_code :: "pin_function \<Rightarrow> u32" where
  "pin_function_code Input = 0"
| "pin_function_code Output = 1"
| "pin_function_code Alternate0 = 4"
| "pin_function_code Alternate1 = 5"
| "pin_function_code Alternate2 = 6"
| "pin_function_code Alternate3 = 7"
| "pin_function_code Alternate4 = 3"
| "pin_function_code Alternate5 = 2"

datatype pull_state = Disable | PullDown | PullUp

fun pull_state_code :: "pull_state \<Rightarrow> u32" where
  "pull_state_code Disable = 0"
| "pull_state_code PullDown = 1"
| "pull_state_code PullUp = 2"

definition gpio_registers :: "u32 \<Rightarrow> u64" where
  "gpio_registers midr = peripheral_address midr 0x200000"

text \<open>The offsets of the fields of \<open>GPIOControlRegisters\<close>.\<close>

definition function_select :: "nat \<Rightarrow> u64" where "function_select i = of_nat (4 * i)"
definition pull_up_down_enable :: u64 where "pull_up_down_enable = 0x94"
definition pull_up_down_enable_clock :: "nat \<Rightarrow> u64" where
  "pull_up_down_enable_clock i = 0x98 + of_nat (4 * i)"

definition select_bits :: "u32 \<Rightarrow> nat \<Rightarrow> u32 \<Rightarrow> u32" where
  "select_bits function_bits start code =
    (function_bits AND NOT (push_bit start 7)) OR push_bit start code"

definition set_pin_function ::
    "'d hardware \<Rightarrow> u64 \<Rightarrow> nat \<Rightarrow> pin_function \<Rightarrow> 'd \<Rightarrow> 'd" where
  "set_pin_function hw regs pin_number f d =
    (let a = regs + function_select (pin_number div 10);
         (function_bits, d) = read_reg hw a d
     in write_reg hw a (select_bits function_bits ((pin_number mod 10) * 3) (pin_function_code f)) d)"

definition internal_enable_pins ::
    "'d hardware \<Rightarrow> u64 \<Rightarrow> u32 \<times> u32 \<Rightarrow> pull_state \<Rightarrow> 'd \<Rightarrow> 'd" where
  "internal_enable_pins hw regs enable state d =
    (let d = write_reg hw (regs + pull_up_down_enable) (pull_state_code state) d;
         d = wait_cycles hw 150 d;
         d = write_reg hw (regs + pull_up_down_enable_clock 0) (fst enable) d;
         d = write_reg hw (regs + pull_up_down_enable_clock 1) (snd enable) d;
         d = wait_cycles hw 150 d;
         d = write_reg hw (regs + pull_up_down_enable) 0 d;
         d = write_reg hw (regs + pull_up_down_enable_clock 0) 0 d
     in write_reg hw (regs + pull_up_down_enable_clock 1) 0 d)"

fun enable_bits :: "nat list \<Rightarrow> u32 \<times> u32 \<Rightarrow> u32 \<times> u32" where
  "enable_bits [] enable = enable"
| "enable_bits (pin # pins) enable =
    enable_bits pins
      (if pin < 32 then (fst enable OR push_bit pin 1, snd enable)
       else (fst enable, snd enable OR push_bit (pin - 32) 1))"

definition set_pin_pull_up_down_state ::
    "'d hardware \<Rightarrow> u64 \<Rightarrow> nat list \<Rightarrow> pull_state \<Rightarrow> 'd \<Rightarrow> 'd" where
  "set_pin_pull_up_down_state hw regs pins state =
    internal_enable_pins hw regs (enable_bits pins (0, 0)) state"

section \<open>The interrupt controller\<close>

definition irq_pending_1 :: u64 where "irq_pending_1 = 4"
definition irq_pending_2 :: u64 where "irq_pending_2 = 8"
definition enable_irqs_1 :: u64 where "enable_irqs_1 = 16"
definition enable_irqs_2 :: u64 where "enable_irqs_2 = 20"
definition disable_irqs_1 :: u64 where "disable_irqs_1 = 28"
definition disable_irqs_2 :: u64 where "disable_irqs_2 = 32"

definition irq_registers :: "u32 \<Rightarrow> u64" where
  "irq_registers midr = peripheral_address midr 0xB200"

definition set_register_bit :: "'d hardware \<Rightarrow> u64 \<Rightarrow> nat \<Rightarrow> 'd \<Rightarrow> 'd" where
  "set_register_bit hw a n d =
    (let (v, d) = read_reg hw a d in write_reg hw a (v OR push_bit n 1) d)"

definition irq_enable :: "'d hardware \<Rightarrow> u64 \<Rightarrow> u8 \<Rightarrow> 'd \<Rightarrow> 'd error_or" where
  "irq_enable hw regs interrupt_number d =
    verify (interrupt_number < 64) (Inr
      (if interrupt_number < 32 then set_register_bit hw (regs + enable_irqs_1) (unat interrupt_number) d
       else set_register_bit hw (regs + enable_irqs_2) (unat (interrupt_number - 32)) d))"

definition irq_disable :: "'d hardware \<Rightarrow> u64 \<Rightarrow> u8 \<Rightarrow> 'd \<Rightarrow> 'd error_or" where
  "irq_disable hw regs interrupt_number d =
    verify (interrupt_number < 64) (Inr
      (if interrupt_number < 32 then set_register_bit hw (regs + disable_irqs_1) (unat interrupt_number) d
       else set_register_bit hw (regs + disable_irqs_2) (unat (interrupt_number - 32)) d))"

definition irq_eoi :: "'d \<Rightarrow> 'd" where "irq_eoi d = d"

definition pending_interrupts :: "'d hardware \<Rightarrow> u64 \<Rightarrow> 'd \<Rightarrow> u64 \<times> 'd" where
  "pending_interrupts hw regs d =
    (let (second, d) = read_reg hw (regs + irq_pending_2) d;
         (first, d) = read_reg hw (regs + irq_pending_1) d
     in (push_bit 32 (ucast second) OR ucast first, d))"

section \<open>The mailbox\<close>

definition MBOX_READ_DATA :: u64 where "MBOX_READ_DATA = 0xB880"
definition MBOX_READ_STATUS :: u64 where "MBOX_READ_STATUS = 0xB880 + 0x18"
definition MBOX_WRITE_DATA :: u64 where "MBOX_WRITE_DATA = 0xB880 + 0x20"
definition MBOX_WRITE_STATUS :: u64 where "MBOX_WRITE_STATUS = 0xB880 + 0x20 + 0x18"
definition MBOX_RESPONSE_SUCCESS :: u32 where "MBOX_RESPONSE_SUCCESS = 0x80000000"
definition MBOX_REQUEST :: u32 where "MBOX_REQUEST = 0"
definition MBOX_FULL :: u32 where "MBOX_FULL = 0x80000000"
definition MBOX_EMPTY :: u32 where "MBOX_EMPTY = 0x40000000"
definition ARM_TO_VIDEOCORE_CHANNEL :: u32 where "ARM_TO_VIDEOCORE_CHANNEL = 8"

text \<open>
  A message queue is a sequence of 32-bit words in memory that the firmware reads and answers in:
  the header (its size, then the command tag), one message after the other (tag, size of the
  arguments, command tag, the arguments) and the tail. The memory is part of the device state.
\<close>

definition mailbox_message :: "u32 \<Rightarrow> u32 \<Rightarrow> u32 list \<Rightarrow> u32 list" where
  "mailbox_message tag arguments_size arguments =
    tag # arguments_size # MBOX_REQUEST # arguments"

definition message_header :: "u32 list" where
  "message_header = [0, MBOX_REQUEST]"

definition message_tail :: "u32 list" where
  "message_tail = [0]"

fun write_words :: "'d hardware \<Rightarrow> u64 \<Rightarrow> u32 list \<Rightarrow> 'd \<Rightarrow> 'd" where
  "write_words hw a [] d = d"
| "write_words hw a (v # vs) d = write_words hw (a + 4) vs (write_reg hw a v d)"

definition set_queue_size :: "'d hardware \<Rightarrow> u64 \<Rightarrow> u32 \<Rightarrow> 'd \<Rightarrow> 'd" where
  "set_queue_size hw queue n = write_reg hw queue n"

definition message_success :: "'d hardware \<Rightarrow> u64 \<Rightarrow> 'd \<Rightarrow> bool \<times> 'd" where
  "message_success hw queue d =
    (let (tag, d) = read_reg hw (queue + 4) d in (tag = MBOX_RESPONSE_SUCCESS, d))"

definition wait_until_we_can_write :: "'d hardware \<Rightarrow> u32 \<Rightarrow> 'd \<Rightarrow> 'd option" where
  "wait_until_we_can_write hw midr =
    wait_while_set hw (peripheral_address midr MBOX_WRITE_STATUS) MBOX_FULL"

definition wait_for_reply :: "'d hardware \<Rightarrow> u32 \<Rightarrow> 'd \<Rightarrow> 'd option" where
  "wait_for_reply hw midr =
    wait_while_set hw (peripheral_address midr MBOX_READ_STATUS) MBOX_EMPTY"

partial_function (option) reply_loop ::
    "'d hardware \<Rightarrow> u32 \<Rightarrow> u64 \<Rightarrow> u32 \<Rightarrow> 'd \<Rightarrow> (bool \<times> 'd) option" where
  "reply_loop hw midr queue request d =
    Option.bind (wait_for_reply hw midr d) (\<lambda>d.
      if fst (mmio_read hw midr MBOX_READ_DATA d) = request
      then Some (message_success hw queue (snd (mmio_read hw midr MBOX_READ_DATA d)))
      else reply_loop hw midr queue request (snd (mmio_read hw midr MBOX_READ_DATA d)))"

definition send_queue ::
    "'d hardware \<Rightarrow> u32 \<Rightarrow> u64 \<Rightarrow> u32 \<Rightarrow> 'd \<Rightarrow> (bool \<times> 'd) option" where
  "send_queue hw midr queue queue_size d =
    Option.bind (wait_until_we_can_write hw midr (set_queue_size hw queue queue_size d))
      (reply_loop hw midr queue
        (ucast (queue AND NOT 0xF) OR (ARM_TO_VIDEOCORE_CHANNEL AND 0xF)))"

text \<open>
  The sizes of the queues are those of structures aligned to 16 bytes: 28 bytes of words take 32 here,
  36 take 48 in \<open>set_clock_rate\<close>.
\<close>

definition query_firmware_version :: "'d hardware \<Rightarrow> u32 \<Rightarrow> u64 \<Rightarrow> 'd \<Rightarrow> (u32 \<times> 'd) option" where
  "query_firmware_version hw midr queue d =
    (let d = write_words hw queue (message_header @ mailbox_message 0x1 4 [0] @ message_tail) d
     in Option.bind (send_queue hw midr queue 32 d) (\<lambda>(ok, d).
          if ok then Some (read_reg hw (queue + 20) d) else Some (0xFFFFFFFF, d)))"

section \<open>The system timer\<close>

definition counter_low :: u64 where "counter_low = 4"
definition counter_high :: u64 where "counter_high = 8"
definition control_and_status :: u64 where "control_and_status = 0"
definition compare_register :: "nat \<Rightarrow> u64" where "compare_register i = 12 + of_nat (4 * i)"

record timer =
  timer_registers :: u64
  m_interrupt_interval :: u32
  m_current_timer_value :: u32

definition timer_new :: "u32 \<Rightarrow> timer" where
  "timer_new midr =
    \<lparr>timer_registers = peripheral_address midr 0x3000, m_interrupt_interval = 0,
     m_current_timer_value = 0\<rparr>"

definition microseconds_since_boot :: "'d hardware \<Rightarrow> u64 \<Rightarrow> 'd \<Rightarrow> u64 \<times> 'd" where
  "microseconds_since_boot hw regs d =
    (let (high, d) = read_reg hw (regs + counter_high) d;
         (low, d) = read_reg hw (regs + counter_low) d;
         (high_again, d) = read_reg hw (regs + counter_high) d
     in if high \<noteq> high_again
        then let (high, d) = read_reg hw (regs + counter_high) d;
                 (low, d) = read_reg hw (regs + counter_low) d
             in (push_bit 32 (ucast high) OR ucast low, d)
        else (push_bit 32 (ucast high) OR ucast low, d))"

definition set_compare :: "'d hardware \<Rightarrow> u64 \<Rightarrow> nat \<Rightarrow> u32 \<Rightarrow> 'd \<Rightarrow> 'd" where
  "set_compare hw regs timer_id v = write_reg hw (regs + compare_register timer_id) v"

definition clear_interrupt :: "'d hardware \<Rightarrow> u64 \<Rightarrow> nat \<Rightarrow> 'd \<Rightarrow> 'd" where
  "clear_interrupt hw regs timer_id = write_reg hw (regs + control_and_status) (push_bit timer_id 1)"

definition set_interrupt_interval_usec :: "u32 \<Rightarrow> timer \<Rightarrow> timer" where
  "set_interrupt_interval_usec interval t = t\<lparr>m_interrupt_interval := interval\<rparr>"

definition timer_handle_irq :: "'d hardware \<Rightarrow> timer \<Rightarrow> 'd \<Rightarrow> bool \<times> timer \<times> 'd" where
  "timer_handle_irq hw t d =
    (let t = t\<lparr>m_current_timer_value := m_current_timer_value t + m_interrupt_interval t\<rparr>;
         d = set_compare hw (timer_registers t) 1 (m_current_timer_value t) d
     in (True, t, clear_interrupt hw (timer_registers t) 1 d))"

text \<open>\<open>enable_irq\<close> belongs to \<open>IRQHandler\<close>, which is not under \<open>src/\<close>: an argument.\<close>

definition enable_interrupt_mode ::
    "'d hardware \<Rightarrow> ('d \<Rightarrow> 'd) \<Rightarrow> timer \<Rightarrow> 'd \<Rightarrow> timer \<times> 'd" where
  "enable_interrupt_mode hw enable_irq t d =
    (let (us, d) = microseconds_since_boot hw (timer_registers t) d;
         t = t\<lparr>m_current_timer_value := ucast us\<rparr>;
         t = t\<lparr>m_current_timer_value := m_current_timer_value t + m_interrupt_interval t\<rparr>;
         d = set_compare hw (timer_registers t) 1 (m_current_timer_value t) d
     in (t, enable_irq d))"

datatype clock_id = Reserved | EMMC | UART_clock | ARM | CORE | V3D | H264 | ISP | SDRAM | PIXEL
  | PWM | HEVC | EMMC2 | M2MC | PIXEL_BVB

fun clock_id_code :: "clock_id \<Rightarrow> u32" where
  "clock_id_code Reserved = 0"
| "clock_id_code EMMC = 1"
| "clock_id_code UART_clock = 2"
| "clock_id_code ARM = 3"
| "clock_id_code CORE = 4"
| "clock_id_code V3D = 5"
| "clock_id_code H264 = 6"
| "clock_id_code ISP = 7"
| "clock_id_code SDRAM = 8"
| "clock_id_code PIXEL = 9"
| "clock_id_code PWM = 10"
| "clock_id_code HEVC = 11"
| "clock_id_code EMMC2 = 12"
| "clock_id_code M2MC = 13"
| "clock_id_code PIXEL_BVB = 14"

definition set_clock_rate ::
    "'d hardware \<Rightarrow> u32 \<Rightarrow> u64 \<Rightarrow> clock_id \<Rightarrow> u32 \<Rightarrow> bool \<Rightarrow> 'd \<Rightarrow> (u32 \<times> 'd) option" where
  "set_clock_rate hw midr queue clock rate_hz skip_setting_turbo d =
    (let d = write_words hw queue
               (message_header
                @ mailbox_message 0x38002 12 [clock_id_code clock, rate_hz, if skip_setting_turbo then 1 else 0]
                @ message_tail) d
     in Option.bind (send_queue hw midr queue 48 d) (\<lambda>(ok, d).
          if ok then Some (read_reg hw (queue + 24) d) else Some (0, d)))"

section \<open>The serial line\<close>

definition uart_data :: u64 where "uart_data = 0"
definition uart_flag :: u64 where "uart_flag = 24"
definition integer_baud_rate_divisor :: u64 where "integer_baud_rate_divisor = 36"
definition fractional_baud_rate_divisor :: u64 where "fractional_baud_rate_divisor = 40"
definition line_control :: u64 where "line_control = 44"
definition uart_control :: u64 where "uart_control = 48"

definition ReceiveFifoEmpty :: u32 where "ReceiveFifoEmpty = push_bit 4 1"
definition TransmitFifoFull :: u32 where "TransmitFifoFull = push_bit 5 1"
definition EnableFIFOs :: u32 where "EnableFIFOs = push_bit 4 1"
definition WordLength8Bits :: u32 where "WordLength8Bits = push_bit 5 3"
definition UARTEnable :: u32 where "UARTEnable = push_bit 0 1"
definition TransmitEnable :: u32 where "TransmitEnable = push_bit 8 1"
definition ReceiveEnable :: u32 where "ReceiveEnable = push_bit 9 1"

definition uart_registers :: "u32 \<Rightarrow> u64" where
  "uart_registers midr = peripheral_address midr 0x201000"

definition wait_until_we_can_send :: "'d hardware \<Rightarrow> u64 \<Rightarrow> 'd \<Rightarrow> 'd option" where
  "wait_until_we_can_send hw regs = wait_while_set hw (regs + uart_flag) TransmitFifoFull"

definition wait_until_we_can_receive :: "'d hardware \<Rightarrow> u64 \<Rightarrow> 'd \<Rightarrow> 'd option" where
  "wait_until_we_can_receive hw regs = wait_while_set hw (regs + uart_flag) ReceiveFifoEmpty"

definition send :: "'d hardware \<Rightarrow> u64 \<Rightarrow> u32 \<Rightarrow> 'd \<Rightarrow> 'd option" where
  "send hw regs c d =
    Option.bind (wait_until_we_can_send hw regs d) (\<lambda>d. Some (write_reg hw (regs + uart_data) c d))"

text \<open>\<open>char\<close> is unsigned on this architecture. A newline is sent after a carriage return.\<close>

fun print_str :: "'d hardware \<Rightarrow> u64 \<Rightarrow> u8 list \<Rightarrow> 'd \<Rightarrow> 'd option" where
  "print_str hw regs [] d = Some d"
| "print_str hw regs (c # s) d =
    Option.bind (if c = 10 then send hw regs 13 d else Some d) (\<lambda>d.
    Option.bind (send hw regs (ucast c) d) (\<lambda>d.
    print_str hw regs s d))"

definition receive :: "'d hardware \<Rightarrow> u64 \<Rightarrow> 'd \<Rightarrow> (u32 \<times> 'd) option" where
  "receive hw regs d =
    Option.bind (wait_until_we_can_send hw regs d) (\<lambda>d.
      let (v, d) = read_reg hw (regs + uart_data) d in Some (v AND 0xFF, d))"

text \<open>
  The divisor is computed in \<open>int\<close>, of 32 bits; a result outside its range and a division by zero
  are undefined in C++, the value \<open>None\<close>. Division truncates.
\<close>

definition int_result :: "int \<Rightarrow> int option" where
  "int_result x = (if - (2 ^ 31) \<le> x \<and> x < 2 ^ 31 then Some x else None)"

definition int_divide :: "int \<Rightarrow> int \<Rightarrow> int option" where
  "int_divide x y = (if y = 0 then None else int_result (sgn x * sgn y * (\<bar>x\<bar> div \<bar>y\<bar>)))"

definition baud_rate_divisor :: "int \<Rightarrow> int \<Rightarrow> u32 option" where
  "baud_rate_divisor baud_rate frequency =
    Option.bind (int_result (4 * frequency)) (\<lambda>scaled.
    Option.bind (int_divide baud_rate 2) (\<lambda>half.
    Option.bind (int_result (scaled + half)) (\<lambda>numerator.
    Option.bind (int_divide numerator baud_rate) (\<lambda>q. Some (word_of_int q)))))"

definition set_baud_rate :: "'d hardware \<Rightarrow> u64 \<Rightarrow> int \<Rightarrow> int \<Rightarrow> 'd \<Rightarrow> 'd option" where
  "set_baud_rate hw regs baud_rate frequency d =
    Option.bind (baud_rate_divisor baud_rate frequency) (\<lambda>divisor.
      let d = write_reg hw (regs + integer_baud_rate_divisor) (divisor div 64) d
      in Some (write_reg hw (regs + fractional_baud_rate_divisor) (divisor mod 64) d))"

definition uart_new :: "'d hardware \<Rightarrow> u32 \<Rightarrow> u64 \<Rightarrow> 'd \<Rightarrow> 'd option" where
  "uart_new hw midr queue d =
    (let regs = uart_registers midr; pins = gpio_registers midr;
         d = write_reg hw (regs + uart_control) 0 d
     in Option.bind (set_clock_rate hw midr queue UART_clock (16 * 115200) True d) (\<lambda>(rate_in_hz, d).
        let d = set_pin_function hw pins 14 Alternate0 d;
            d = set_pin_function hw pins 15 Alternate0 d;
            d = set_pin_pull_up_down_state hw pins [14, 15] Disable d
        in Option.bind (set_baud_rate hw regs 115200 (sint rate_in_hz) d) (\<lambda>d.
           let d = write_reg hw (regs + line_control) (EnableFIFOs OR WordLength8Bits) d
           in Some (write_reg hw (regs + uart_control) (UARTEnable OR TransmitEnable OR ReceiveEnable) d))))"

section \<open>The frame buffer\<close>

datatype pixel_order = RGB | BGR

record framebuffer =
  m_width :: u16
  m_height :: u16
  m_depth :: u8
  m_gpu_buffer :: u64
  m_buffer_size :: u32
  m_pitch :: u32
  m_initialized :: bool
  m_pixel_order :: pixel_order

definition framebuffer_messages :: "u32 list" where
  "framebuffer_messages =
    message_header
    @ mailbox_message 0x48003 8 [0, 0] @ mailbox_message 0x48004 8 [0, 0]
    @ mailbox_message 0x48009 8 [0, 0] @ mailbox_message 0x48005 4 [0]
    @ mailbox_message 0x48006 4 [0] @ mailbox_message 0x40001 8 [0, 0]
    @ mailbox_message 0x40008 4 [0] @ message_tail"

text \<open>
  The fields of the queue by their offset: physical width and height at 20 and 24, virtual width and
  height at 40 and 44, virtual offset at 60 and 64, depth at 80, pixel order at 96, address (which
  shares its word with the alignment asked for) and size of the buffer at 112 and 116, pitch at 132.
  A chain of conditions reads its fields one by one and stops at the first that decides it.
\<close>

fun write_fields :: "'d hardware \<Rightarrow> u64 \<Rightarrow> (u64 \<times> u32) list \<Rightarrow> 'd \<Rightarrow> 'd" where
  "write_fields hw queue [] d = d"
| "write_fields hw queue ((offset, v) # rest) d =
    write_fields hw queue rest (write_reg hw (queue + offset) v d)"

fun fields_satisfy :: "'d hardware \<Rightarrow> u64 \<Rightarrow> (u64 \<times> (u32 \<Rightarrow> bool)) list \<Rightarrow> 'd \<Rightarrow> bool \<times> 'd" where
  "fields_satisfy hw queue [] d = (True, d)"
| "fields_satisfy hw queue ((offset, ok) # rest) d =
    (let (v, d) = read_reg hw (queue + offset) d
     in if ok v then fields_satisfy hw queue rest d else (False, d))"

definition framebuffer_checks :: "(u64 \<times> (u32 \<Rightarrow> bool)) list" where
  "framebuffer_checks =
    [(20, \<lambda>v. v = 1280), (24, \<lambda>v. v = 720), (40, \<lambda>v. v = 1280), (44, \<lambda>v. v = 720),
     (60, \<lambda>v. v = 0), (64, \<lambda>v. v = 0), (80, \<lambda>v. v = 32), (116, \<lambda>v. v \<noteq> 0), (112, \<lambda>v. v \<noteq> 0),
     (132, \<lambda>v. v \<noteq> 0)]"

definition framebuffer_unset :: framebuffer where
  "framebuffer_unset =
    \<lparr>m_width = 1280, m_height = 720, m_depth = 32, m_gpu_buffer = 0, m_buffer_size = 0, m_pitch = 0,
     m_initialized = False, m_pixel_order = RGB\<rparr>"

definition framebuffer_read :: "'d hardware \<Rightarrow> u64 \<Rightarrow> 'd \<Rightarrow> framebuffer \<times> 'd" where
  "framebuffer_read hw queue d =
    (let (address, d) = read_reg hw (queue + 112) d;
         (n, d) = read_reg hw (queue + 116) d;
         (pitch, d) = read_reg hw (queue + 132) d;
         (order, d) = read_reg hw (queue + 96) d
     in (framebuffer_unset
           \<lparr>m_gpu_buffer := ucast (address AND 0x3FFFFFFF), m_buffer_size := n, m_pitch := pitch,
            m_pixel_order := (if order = 1 then RGB else if order = 0 then BGR else RGB),
            m_initialized := True\<rparr>, d))"

definition framebuffer_new :: "'d hardware \<Rightarrow> u32 \<Rightarrow> u64 \<Rightarrow> 'd \<Rightarrow> (framebuffer \<times> 'd) option" where
  "framebuffer_new hw midr queue d =
    (let d = write_words hw queue framebuffer_messages d;
         d = set_queue_size hw queue 144 d;
         d = write_fields hw queue
               [(20, 1280), (24, 720), (40, 1280), (44, 720), (80, 32), (96, 1), (112, 4096)] d
     in Option.bind (send_queue hw midr queue 4 d) (\<lambda>(ok, d).
          if \<not> ok then Some (framebuffer_unset, d)
          else let (ok, d) = fields_satisfy hw queue framebuffer_checks d
               in if ok then Some (framebuffer_read hw queue d) else Some (framebuffer_unset, d)))"

end
