(* ===== verification/Peripherals_Correct.thy ===== *)
theory Peripherals_Correct
  imports Peripherals
begin

unbundle bit_operations_syntax

text \<open>
  What the drivers do on hardware that keeps its documented promises. Each promise is stated where
  it is used, about the device parameter, and each theorem is applied to a concrete device.
\<close>

section \<open>Pins\<close>

text \<open>Hardware whose registers are plain memory.\<close>

definition plain_memory :: "(u64 \<Rightarrow> u32) hardware" where
  "plain_memory = \<lparr>read_reg = (\<lambda>a d. (d a, d)), write_reg = (\<lambda>a v d. d(a := v)), wait_cycles = (\<lambda>n d. d)\<rparr>"

lemma plain_memory_simps [simp]:
  "read_reg plain_memory a d = (d a, d)"
  "write_reg plain_memory a v d = d(a := v)"
  "wait_cycles plain_memory n d = d"
  by (simp_all add: plain_memory_def)

text \<open>The function code that the select registers hold for a pin.\<close>

definition selected_code :: "(u64 \<Rightarrow> u32) \<Rightarrow> u64 \<Rightarrow> nat \<Rightarrow> u32" where
  "selected_code d regs pin_number =
    drop_bit ((pin_number mod 10) * 3) (d (regs + function_select (pin_number div 10))) AND 7"

lemma bit_seven [simp]: "bit (7 :: int) n \<longleftrightarrow> n < 3"
proof -
  have "(7 :: int) = mask 3" by (simp only: mask_eq_exp_minus_1) simp
  then show ?thesis by (simp only: bit_mask_iff) simp
qed

lemma pin_function_code_small: "bit (pin_function_code f) n \<Longrightarrow> n < 3"
proof -
  assume b: "bit (pin_function_code f) n"
  have "pin_function_code f = pin_function_code f AND 7"
    by (cases f) simp_all
  then have "bit (pin_function_code f AND 7) n" using b by simp
  then show ?thesis by (simp add: bit_and_iff)
qed

lemma bit_select_bits:
  assumes "start + 3 \<le> 32" and "n < 32"
  shows "bit (select_bits v start (pin_function_code f)) n \<longleftrightarrow>
    (if start \<le> n \<and> n < start + 3 then bit (pin_function_code f) (n - start) else bit v n)"
  using assms pin_function_code_small [of f "n - start"]
  by (auto simp: select_bits_def bit_or_iff bit_and_iff bit_not_iff bit_push_bit_iff)

lemma field_of_select_bits:
  assumes "start + 3 \<le> 32" and "other + 3 \<le> 32"
    and "other = start \<or> other + 3 \<le> start \<or> start + 3 \<le> other"
  shows "drop_bit other (select_bits v start (pin_function_code f)) AND 7 =
    (if other = start then pin_function_code f else drop_bit other v AND 7)"
proof (rule bit_eqI)
  fix n :: nat
  assume "possible_bit TYPE(u32) n"
  then have "n < 32" by simp
  show "bit (drop_bit other (select_bits v start (pin_function_code f)) AND 7) n =
    bit (if other = start then pin_function_code f else drop_bit other v AND 7) n"
  proof (cases "n < 3")
    case True
    then show ?thesis
      using assms bit_select_bits [OF assms(1), of "other + n" v f]
      by (auto simp: bit_and_iff bit_drop_bit_eq)
  next
    case False
    then show ?thesis
      using pin_function_code_small [of f n] by (auto simp: bit_and_iff)
  qed
qed

lemma function_select_inject:
  assumes "i < 6" and "j < 6" and "function_select i = function_select j"
  shows "i = j"
proof -
  have "(of_nat (4 * i) :: u64) = of_nat (4 * j)" using assms(3) by (simp only: function_select_def)
  then have "4 * i = 4 * j"
    using assms(1,2) by (simp only: word_of_nat_eq_iff take_bit_nat_eq_self_iff) (simp add: take_bit_nat_eq_self)
  then show ?thesis by simp
qed

text \<open>
  C26. Selecting the function of a pin changes the code of that pin and of no other of the 60 pins.
\<close>

theorem set_pin_function_correct:
  assumes "p < 60" and "q < 60"
  shows "selected_code (set_pin_function plain_memory regs p f d) regs q =
    (if q = p then pin_function_code f else selected_code d regs q)"
proof -
  have "p mod 10 < 10" "q mod 10 < 10" by simp_all
  then have range: "(p mod 10) * 3 + 3 \<le> 32" "(q mod 10) * 3 + 3 \<le> 32" by linarith+
  have apart: "a * 3 = b * 3 \<or> a * 3 + 3 \<le> b * 3 \<or> b * 3 + 3 \<le> a * 3" for a b :: nat by presburger
  show ?thesis
  proof (cases "q div 10 = p div 10")
    case True
    then have "q = p \<longleftrightarrow> q mod 10 = p mod 10" by (metis div_mult_mod_eq)
    then show ?thesis using True field_of_select_bits [OF range apart]
      by (simp add: selected_code_def set_pin_function_def Let_def)
  next
    case False
    moreover have "q div 10 < 6" "p div 10 < 6" using assms by presburger+
    ultimately have "function_select (q div 10) \<noteq> function_select (p div 10)"
      using function_select_inject [of "q div 10" "p div 10"] by auto
    then show ?thesis using False
      by (auto simp: selected_code_def set_pin_function_def Let_def)
  qed
qed

lemma set_pin_function_correct_witness:
  "selected_code (set_pin_function plain_memory 0 14 Alternate0 (\<lambda>a. 0)) 0 14 = 4 \<and>
    selected_code (set_pin_function plain_memory 0 14 Alternate0 (\<lambda>a. 0)) 0 15 = 0"
  using set_pin_function_correct [of 14 14 0 Alternate0 "\<lambda>a. 0"] set_pin_function_correct [of 14 15 0 Alternate0 "\<lambda>a. 0"]
  by (simp add: selected_code_def)

text \<open>The pins of a list are those whose bits are set in the two words.\<close>

lemma bit_enable_bits:
  assumes "\<forall>pin\<in>set pins. pin < 64"
  shows "(n < 32 \<longrightarrow> (bit (fst (enable_bits pins e)) n \<longleftrightarrow> bit (fst e) n \<or> n \<in> set pins)) \<and>
    (n < 32 \<longrightarrow> (bit (snd (enable_bits pins e)) n \<longleftrightarrow> bit (snd e) n \<or> n + 32 \<in> set pins))"
  using assms
proof (induction pins arbitrary: e)
  case Nil
  then show ?case by simp
next
  case (Cons pin pins)
  have step: "enable_bits (pin # pins) e = enable_bits pins
      (if pin < 32 then (fst e OR push_bit pin 1, snd e) else (fst e, snd e OR push_bit (pin - 32) 1))"
    by simp
  have "pin < 64" using Cons.prems by simp
  then show ?case
    unfolding step using Cons.IH [OF ballI] Cons.prems
    by (auto simp: bit_or_iff bit_exp_iff simp del: enable_bits.simps)
qed

section \<open>Waiting\<close>

lemma wait_while_set_returns:
  assumes promise: "\<And>d. good d \<Longrightarrow> good (snd (read_reg hw a d)) \<and>
      (fst (read_reg hw a d) AND flags \<noteq> 0 \<longrightarrow> busy (snd (read_reg hw a d)) < (busy d :: nat))"
    and "good d"
  shows "\<exists>d'. wait_while_set hw a flags d = Some d' \<and> good d'"
  using assms(2)
proof (induction "busy d" arbitrary: d rule: less_induct)
  case less
  show ?case
  proof (cases "fst (read_reg hw a d) AND flags = 0")
    case True
    then show ?thesis using promise [OF less.prems] by (subst wait_while_set.simps) simp
  next
    case False
    then show ?thesis using promise [OF less.prems] less.hyps
      by (subst wait_while_set.simps) simp
  qed
qed

text \<open>A register that shows the flags for ever is waited for for ever.\<close>

lemma wait_while_set_stuck:
  assumes stuck: "\<And>d. good d \<Longrightarrow> good (snd (read_reg hw a d)) \<and> fst (read_reg hw a d) AND flags \<noteq> 0"
    and "good d"
  shows "wait_while_set hw a flags d = None"
proof -
  have "hw' = hw \<longrightarrow> a' = a \<longrightarrow> flags' = flags \<longrightarrow> \<not> good d'"
    if "wait_while_set hw' a' flags' d' = Some y" for hw' a' flags' d' y
  proof (rule wait_while_set.raw_induct
      [where P = "\<lambda>hw' a' flags' d' _. hw' = hw \<longrightarrow> a' = a \<longrightarrow> flags' = flags \<longrightarrow> \<not> good d'", OF _ that],
      intro impI notI)
    fix wait hw' a' flags' d' y
    assume hyp: "\<And>a' flags' d' b y. wait a' flags' d' b = Some y \<Longrightarrow>
        a' = hw \<longrightarrow> flags' = a \<longrightarrow> d' = flags \<longrightarrow> \<not> good b"
      and run: "(if fst (read_reg hw' a' d') AND flags' \<noteq> 0
          then wait hw' a' flags' (snd (read_reg hw' a' d')) else Some (snd (read_reg hw' a' d'))) = Some y"
      and same: "hw' = hw" "a' = a" "flags' = flags" and "good d'"
    then have "wait hw a flags (snd (read_reg hw a d')) = Some y" using stuck by simp
    then show False using hyp stuck [OF \<open>good d'\<close>] by blast
  qed
  then show ?thesis using assms(2) by (cases "wait_while_set hw a flags d") auto
qed

section \<open>The timer\<close>

text \<open>
  The counter registers show the low and the high half of a 64-bit number of microseconds that never
  runs backwards; \<open>ticks\<close> is that number in a state of the device, and reading takes time.
\<close>

definition counts_ticks :: "'d hardware \<Rightarrow> u64 \<Rightarrow> ('d \<Rightarrow> nat) \<Rightarrow> bool" where
  "counts_ticks hw regs ticks \<longleftrightarrow>
    (\<forall>d. ticks d \<le> ticks (snd (read_reg hw (regs + counter_low) d)) \<and>
         ticks d \<le> ticks (snd (read_reg hw (regs + counter_high) d)) \<and>
         fst (read_reg hw (regs + counter_low) d) = of_nat (ticks d) \<and>
         fst (read_reg hw (regs + counter_high) d) = of_nat (ticks d div 2 ^ 32))"

lemma bit_high_half: "bit (n div 4294967296) k \<longleftrightarrow> bit n (32 + k)" for n :: nat
proof -
  have "n div 4294967296 = drop_bit 32 n" by (simp add: drop_bit_eq_div)
  then show ?thesis by (simp add: bit_drop_bit_eq)
qed

lemma unat_join_halves:
  assumes "n < 2 ^ 64"
  shows "unat (push_bit 32 (ucast (of_nat (n div 2 ^ 32) :: u32)) OR ucast (of_nat n :: u32) :: u64) = n"
proof -
  have "(push_bit 32 (ucast (of_nat (n div 2 ^ 32) :: u32)) OR ucast (of_nat n :: u32) :: u64) = of_nat n"
    by (rule bit_word_eqI)
      (auto simp: bit_or_iff bit_push_bit_iff bit_unsigned_iff bit_of_nat_iff bit_high_half)
  then show ?thesis using assms by (simp only: unat_of_nat) simp
qed

lemma of_nat_high_eq_iff:
  assumes "m < 2 ^ 64" and "n < 2 ^ 64"
  shows "(of_nat (m div 2 ^ 32) :: u32) = of_nat (n div 2 ^ 32) \<longleftrightarrow> m div 2 ^ 32 = n div 2 ^ 32"
proof -
  have "m div 2 ^ 32 < 2 ^ 32" "n div 2 ^ 32 < 2 ^ 32" using assms by (simp_all add: less_mult_imp_div_less)
  then show ?thesis by (simp add: word_of_nat_eq_iff take_bit_nat_eq_self)
qed

text \<open>
  C27. The time read from the two halves of the counter lies between the counter at the start and at the end of
  the reading, also when the low half wraps in between, provided the reading takes less than 2^32 ticks.
\<close>

theorem microseconds_since_boot_correct:
  assumes counter: "counts_ticks hw regs ticks" and run: "microseconds_since_boot hw regs d = (us, d')"
    and soon: "ticks d' < ticks d + 2 ^ 32" and small: "ticks d' < 2 ^ 64"
  shows "ticks d \<le> unat us \<and> unat us \<le> ticks d'"
proof -
  define after_high where "after_high s = snd (read_reg hw (regs + counter_high) s)" for s
  define after_low where "after_low s = snd (read_reg hw (regs + counter_low) s)" for s
  have mono: "ticks s \<le> ticks (after_high s)" "ticks s \<le> ticks (after_low s)" for s
    using counter by (simp_all add: counts_ticks_def after_high_def after_low_def)
  have high: "read_reg hw (regs + counter_high) s = (of_nat (ticks s div 2 ^ 32), after_high s)" for s
    using counter by (simp add: counts_ticks_def after_high_def prod_eq_iff)
  have low: "read_reg hw (regs + counter_low) s = (of_nat (ticks s), after_low s)" for s
    using counter by (simp add: counts_ticks_def after_low_def prod_eq_iff)
  define d1 d2 d3 d4 where "d1 = after_high d" and "d2 = after_low d1" and "d3 = after_high d2"
    and "d4 = after_high d3"
  have order: "ticks d \<le> ticks d1" "ticks d1 \<le> ticks d2" "ticks d2 \<le> ticks d3" "ticks d3 \<le> ticks d4"
    unfolding d1_def d2_def d3_def d4_def by (rule mono)+
  note div_order = order [THEN div_le_mono, of "2 ^ 32"]
  show ?thesis
  proof (cases "(of_nat (ticks d div 2 ^ 32) :: u32) = of_nat (ticks d2 div 2 ^ 32)")
    case True
    then have run': "us = push_bit 32 (ucast (of_nat (ticks d div 2 ^ 32) :: u32)) OR ucast (of_nat (ticks d1) :: u32)"
      and "d' = d3"
      using run by (simp_all add: microseconds_since_boot_def high low Let_def d1_def d2_def d3_def)
    then have bounds: "ticks d < 2 ^ 64" "ticks d1 < 2 ^ 64" "ticks d2 < 2 ^ 64" "ticks d1 \<le> ticks d'"
      using order small by auto
    then have "ticks d div 2 ^ 32 = ticks d2 div 2 ^ 32" using True of_nat_high_eq_iff by blast
    then have "ticks d div 2 ^ 32 = ticks d1 div 2 ^ 32" using div_order(1,2) by linarith
    then have "unat us = ticks d1" using run' unat_join_halves [OF bounds(2)] by simp
    then show ?thesis using order(1) bounds(4) by simp
  next
    case False
    then have run': "us = push_bit 32 (ucast (of_nat (ticks d3 div 2 ^ 32) :: u32)) OR ucast (of_nat (ticks d4) :: u32)"
      and "d' = after_low d4"
      using run by (simp_all add: microseconds_since_boot_def high low Let_def d1_def d2_def d3_def d4_def)
    then have bounds: "ticks d4 < 2 ^ 64" "ticks d4 \<le> ticks d'" using mono(2) [of d4] small by auto
    have "ticks d div 2 ^ 32 \<noteq> ticks d2 div 2 ^ 32" using False by metis
    moreover have "ticks d4 div 2 ^ 32 \<le> ticks d div 2 ^ 32 + 1"
      using div_le_mono [of "ticks d4" "ticks d + 2 ^ 32" "2 ^ 32"] soon bounds(2) by simp
    ultimately have "ticks d3 div 2 ^ 32 = ticks d4 div 2 ^ 32" using div_order by linarith
    then have "unat us = ticks d4" using run' unat_join_halves [OF bounds(1)] by simp
    then show ?thesis using order bounds(2) by simp
  qed
qed

text \<open>A device that counts one microsecond for every read.\<close>

definition ticking :: "nat hardware" where
  "ticking = \<lparr>read_reg = (\<lambda>a n. (if a = counter_high then of_nat (n div 2 ^ 32) else of_nat n, n + 1)),
     write_reg = (\<lambda>a v n. n), wait_cycles = (\<lambda>k n. n + k)\<rparr>"

lemma ticking_counts: "counts_ticks ticking 0 id"
  by (simp add: counts_ticks_def ticking_def counter_high_def counter_low_def)

lemma microseconds_since_boot_correct_witness:
  "microseconds_since_boot ticking 0 0xFFFFFFFF = (0x100000003, 0x100000004) \<and>
   (0xFFFFFFFF :: nat) \<le> unat (0x100000003 :: u64)"
proof -
  have run: "microseconds_since_boot ticking 0 0xFFFFFFFF = (0x100000003, 0x100000004)"
    by (simp add: microseconds_since_boot_def ticking_def counter_high_def counter_low_def)
  then show ?thesis
    using microseconds_since_boot_correct [OF ticking_counts run] by simp
qed

text \<open>
  Every interrupt moves the deadline by one interval from the deadline before, not from the time at
  which the handler runs, so the schedule does not drift.
\<close>

fun fire :: "'d hardware \<Rightarrow> nat \<Rightarrow> timer \<times> 'd \<Rightarrow> timer \<times> 'd" where
  "fire hw 0 s = s"
| "fire hw (Suc n) s = fire hw n (snd (timer_handle_irq hw (fst s) (snd s)))"

lemma compare_not_control [simp]: "compare_register (Suc 0) \<noteq> control_and_status"
  by (simp add: compare_register_def control_and_status_def)

lemma timer_handle_irq_memory:
  "timer_handle_irq plain_memory t d =
    (True, t\<lparr>m_current_timer_value := m_current_timer_value t + m_interrupt_interval t\<rparr>,
     d(timer_registers t + compare_register 1 := m_current_timer_value t + m_interrupt_interval t,
       timer_registers t + control_and_status := 2))"
  by (simp add: timer_handle_irq_def set_compare_def clear_interrupt_def)

theorem timer_does_not_drift:
  assumes "(t, d') = enable_interrupt_mode plain_memory enable_irq t0 d"
    and "\<And>e. enable_irq e (timer_registers t0 + compare_register 1) = e (timer_registers t0 + compare_register 1)"
    and "(us, d'') = microseconds_since_boot plain_memory (timer_registers t0) d"
    and "(t', e) = fire plain_memory n (t, d')"
  shows "m_current_timer_value t' = ucast us + of_nat (n + 1) * m_interrupt_interval t0 \<and>
    e (timer_registers t0 + compare_register 1) = m_current_timer_value t'"
proof -
  have start: "m_current_timer_value t = ucast us + m_interrupt_interval t0"
    "m_interrupt_interval t = m_interrupt_interval t0" "timer_registers t = timer_registers t0"
    "d' (timer_registers t + compare_register 1) = m_current_timer_value t"
    using assms(1-3) by (auto simp: enable_interrupt_mode_def set_compare_def split: prod.splits)
  have "(t', e) = fire plain_memory n (t, d') \<Longrightarrow>
      d' (timer_registers t + compare_register 1) = m_current_timer_value t \<Longrightarrow>
      m_current_timer_value t' = m_current_timer_value t + of_nat n * m_interrupt_interval t \<and>
      e (timer_registers t + compare_register 1) = m_current_timer_value t'"
  proof (induction n arbitrary: t d')
    case 0
    then show ?case by simp
  next
    case (Suc n)
    from Suc.IH [OF Suc.prems(1) [simplified timer_handle_irq_memory fire.simps fst_conv snd_conv]]
    show ?case by (simp add: algebra_simps)
  qed
  with assms(4) start show ?thesis by (simp add: algebra_simps)
qed

lemma timer_does_not_drift_witness:
  "m_current_timer_value (fst (fire plain_memory 3 (enable_interrupt_mode plain_memory id
     (set_interrupt_interval_usec 1000000 (timer_new 0xD080)) (\<lambda>a. 0)))) = 4000000"
proof -
  let ?t0 = "set_interrupt_interval_usec 1000000 (timer_new 0xD080)"
  let ?s = "enable_interrupt_mode plain_memory id ?t0 (\<lambda>a. 0)"
  have us: "microseconds_since_boot plain_memory r (\<lambda>a. 0) = (0, \<lambda>a. 0)" for r
    by (simp add: microseconds_since_boot_def)
  show ?thesis
    using timer_does_not_drift [of "fst ?s" "snd ?s" id ?t0 "\<lambda>a. 0" 0 "\<lambda>a. 0"
        "fst (fire plain_memory 3 ?s)" "snd (fire plain_memory 3 ?s)" 3]
    by (simp add: us set_interrupt_interval_usec_def timer_new_def)
qed

section \<open>The serial line\<close>

text \<open>
  A transmitter: \<open>sent\<close> is what it was given so far, on the wire or still queued. Reading the flags
  leaves that alone, a full queue gets shorter while it is looked at, and a character written after
  the queue was seen not to be full is accepted.
\<close>

definition transmits :: "'d hardware \<Rightarrow> u64 \<Rightarrow> ('d \<Rightarrow> u32 list) \<Rightarrow> ('d \<Rightarrow> nat) \<Rightarrow> bool" where
  "transmits hw regs sent backlog \<longleftrightarrow>
    (\<forall>d. let (v, d') = read_reg hw (regs + uart_flag) d
         in sent d' = sent d \<and>
            (if v AND TransmitFifoFull \<noteq> 0 then backlog d' < backlog d
             else \<forall>c. sent (write_reg hw (regs + uart_data) c d') = sent d @ [c]))"

lemma send_sends:
  assumes "transmits hw regs sent backlog"
  shows "\<exists>d'. send hw regs c d = Some d' \<and> sent d' = sent d @ [c]"
proof (induction "backlog d" arbitrary: d rule: less_induct)
  case less
  obtain v d1 where r: "read_reg hw (regs + uart_flag) d = (v, d1)" by fastforce
  have promise: "sent d1 = sent d" "v AND TransmitFifoFull \<noteq> 0 \<Longrightarrow> backlog d1 < backlog d"
    "v AND TransmitFifoFull = 0 \<Longrightarrow> sent (write_reg hw (regs + uart_data) c d1) = sent d @ [c]"
    using assms [unfolded transmits_def, rule_format, of d] r by (auto split: if_splits)
  have step: "send hw regs c d =
      (if v AND TransmitFifoFull \<noteq> 0 then send hw regs c d1 else Some (write_reg hw (regs + uart_data) c d1))"
    unfolding send_def wait_until_we_can_send_def by (subst wait_while_set.simps) (simp add: r)
  show ?case
  proof (cases "v AND TransmitFifoFull = 0")
    case True
    then show ?thesis using step promise by simp
  next
    case False
    then show ?thesis using step promise(1,2) less [of d1] by simp
  qed
qed

text \<open>
  C28. Printing a string on a transmitter returns after sending its bytes in order, with a carriage return before
  every newline; no byte is lost to a full queue.
\<close>

theorem print_str_sends_lines:
  assumes "transmits hw regs sent backlog"
  shows "\<exists>d'. print_str hw regs s d = Some d' \<and>
    sent d' = sent d @ concat (map (\<lambda>c. if c = 10 then [13, 10] else [ucast c]) s)"
proof (induction s arbitrary: d)
  case Nil
  then show ?case by simp
next
  case (Cons c s)
  obtain d1 where d1: "(if c = 10 then send hw regs 13 d else Some d) = Some d1"
    and s1: "sent d1 = sent d @ (if c = 10 then [13] else [])"
    using send_sends [OF assms, of 13 d] by (cases "c = 10") auto
  obtain d2 where d2: "send hw regs (ucast c) d1 = Some d2" "sent d2 = sent d1 @ [ucast c]"
    using send_sends [OF assms, of "ucast c" d1] by blast
  obtain d3 where "print_str hw regs s d2 = Some d3"
    "sent d3 = sent d2 @ concat (map (\<lambda>c. if c = 10 then [13, 10] else [ucast c]) s)"
    using Cons.IH by blast
  then show ?case using d1 s1 d2 by simp
qed

text \<open>
  A transmitter with a queue of 16 that puts one character on the wire while its flags are read and
  drops what is written to a full queue: the state is the wire and the queue.
\<close>

definition fifo_uart :: "(u32 list \<times> u32 list) hardware" where
  "fifo_uart =
    \<lparr>read_reg = (\<lambda>a (wire, fifo). (if length fifo \<ge> 16 then TransmitFifoFull else 0,
       wire @ take 1 fifo, drop 1 fifo)),
     write_reg = (\<lambda>a c (wire, fifo). (wire, if length fifo < 16 then fifo @ [c] else fifo)),
     wait_cycles = (\<lambda>n d. d)\<rparr>"

lemma fifo_uart_transmits:
  "transmits fifo_uart regs (\<lambda>(wire, fifo). wire @ fifo) (\<lambda>(wire, fifo). length fifo)"
proof -
  have "TransmitFifoFull \<noteq> 0" by (simp add: TransmitFifoFull_def)
  then show ?thesis
    by (auto simp: transmits_def fifo_uart_def Let_def append_take_drop_id)
qed

lemma print_str_sends_lines_witness:
  "\<exists>d'. print_str fifo_uart 0 [72, 10] ([], replicate 16 0) = Some d' \<and>
    (\<lambda>(wire, fifo). wire @ fifo) d' = replicate 16 0 @ [72, 13, 10]"
  using print_str_sends_lines [OF fifo_uart_transmits, of 0 "[72, 10]" "([], replicate 16 0)"] by simp

text \<open>\<open>receive\<close> reads the data register while its queue is shown to be empty.\<close>

theorem receive_does_not_wait_for_data:
  assumes "d (regs + uart_flag) = ReceiveFifoEmpty"
  shows "receive plain_memory regs d = Some (d (regs + uart_data) AND 0xFF, d) \<and>
    wait_until_we_can_receive plain_memory regs d = None"
proof -
  have "ReceiveFifoEmpty AND TransmitFifoFull = 0" "ReceiveFifoEmpty \<noteq> 0"
    by (simp_all add: ReceiveFifoEmpty_def TransmitFifoFull_def)
  then show ?thesis
    using assms wait_while_set_stuck [of "\<lambda>d. d (regs + uart_flag) = ReceiveFifoEmpty" plain_memory
        "regs + uart_flag" ReceiveFifoEmpty d]
    by (simp add: receive_def wait_until_we_can_send_def wait_until_we_can_receive_def
        wait_while_set.simps [of plain_memory _ TransmitFifoFull])
qed

lemma receive_does_not_wait_for_data_witness:
  "receive plain_memory 0 (\<lambda>a. if a = uart_flag then ReceiveFifoEmpty else 0x141) =
    Some (0x41, \<lambda>a. if a = uart_flag then ReceiveFifoEmpty else 0x141)"
  using receive_does_not_wait_for_data [of "\<lambda>a. if a = uart_flag then ReceiveFifoEmpty else 0x141" 0]
  by (simp add: uart_data_def uart_flag_def)

text \<open>The divisor, in units of 1/64 of sixteen times the rate, is rounded to nearest.\<close>

lemma nearest_quotient:
  assumes "0 < (b :: int)"
  shows "2 * \<bar>((a + b div 2) div b) * b - a\<bar> \<le> b"
proof -
  have near: "2 * \<bar>x - a\<bar> \<le> b"
    if "x = a + h - r" "0 \<le> r" "r < b" "2 * h \<le> b" "b \<le> 2 * h + 1" for x h r :: int
    using that by (auto simp: abs_if)
  show ?thesis
  proof (rule near)
    show "(a + b div 2) div b * b = a + b div 2 - (a + b div 2) mod b"
      by (rule minus_mod_eq_div_mult [symmetric])
  qed (use assms in auto)
qed

theorem set_baud_rate_rounds:
  assumes "0 < baud" and "0 < freq" and "4 * freq + baud div 2 < 2 ^ 31"
  shows "\<exists>v. baud_rate_divisor baud freq = Some v \<and> 2 * \<bar>uint v * baud - 4 * freq\<bar> \<le> baud \<and>
    set_baud_rate plain_memory regs baud freq d = Some (d
      (regs + integer_baud_rate_divisor := v div 64, regs + fractional_baud_rate_divisor := v mod 64)) \<and>
    uint v = uint (v div 64) * 64 + uint (v mod 64)"
proof -
  let ?n = "4 * freq + baud div 2"
  let ?v = "word_of_int (?n div baud) :: u32"
  have half: "0 \<le> baud div 2" using assms by linarith
  have range: "- 2147483648 \<le> baud div 2" "freq < 536870912"
    using half assms(3) [simplified] by linarith+
  have "?n div baud \<le> ?n div 1" using assms half by (intro zdiv_mono2) simp_all
  moreover have "0 \<le> ?n div baud" using assms half by (simp add: pos_imp_zdiv_nonneg_iff)
  ultimately have q: "0 \<le> ?n div baud" "?n div baud < 2 ^ 31" using assms(3) by simp_all
  have some: "baud_rate_divisor baud freq = Some ?v"
    using assms half q range by (simp add: baud_rate_divisor_def int_divide_def int_result_def)
  have "uint ?v = ?n div baud" using q by (simp add: uint_word_of_int)
  then have "2 * \<bar>uint ?v * baud - 4 * freq\<bar> \<le> baud"
    using nearest_quotient [OF assms(1), of "4 * freq"] by simp
  moreover have "uint ?v = uint (?v div 64) * 64 + uint (?v mod 64)" by (simp add: uint_div uint_mod)
  ultimately show ?thesis using some by (auto simp: set_baud_rate_def)
qed

lemma set_baud_rate_rounds_witness:
  "\<exists>v. baud_rate_divisor 115200 (16 * 115200) = Some v \<and> 2 * \<bar>uint v * 115200 - 4 * (16 * 115200)\<bar> \<le> 115200"
  using set_baud_rate_rounds [of 115200 "16 * 115200" 0 "\<lambda>a. 0"] by auto

section \<open>The interrupt controller\<close>

lemma bit_pending_interrupts:
  assumes "pending_interrupts plain_memory regs d = (v, d')" and "n < 64"
  shows "bit v n \<longleftrightarrow> (if n < 32 then bit (d (regs + irq_pending_1)) n else bit (d (regs + irq_pending_2)) (n - 32))"
  using assms bit_imp_le_length [of "d (regs + irq_pending_1)" n]
  by (auto simp: pending_interrupts_def bit_or_iff bit_push_bit_iff bit_unsigned_iff Let_def)

lemma irq_enable_sets_bit:
  "irq_enable plain_memory regs n d =
    (if 64 \<le> n then Inl VerifyFailed
     else let a = regs + (if n < 32 then enable_irqs_1 else enable_irqs_2)
          in Inr (d(a := d a OR push_bit (unat n mod 32) 1)))"
  "irq_disable plain_memory regs n d =
    (if 64 \<le> n then Inl VerifyFailed
     else let a = regs + (if n < 32 then disable_irqs_1 else disable_irqs_2)
          in Inr (d(a := d a OR push_bit (unat n mod 32) 1)))"
proof -
  have small: "n < 32 \<Longrightarrow> unat n mod 32 = unat n" by (simp add: word_less_nat_alt)
  have large: "unat (n - 32) = unat n mod 32" if "\<not> n < 32" "n < 64"
  proof -
    have "32 \<le> n" "unat n < 64" "32 \<le> unat n" using that by (simp_all add: word_less_nat_alt word_le_nat_alt)
    then have "unat (n - 32) = unat n - 32" by (simp add: unat_sub)
    also have "\<dots> = unat n mod 32" using \<open>unat n < 64\<close> \<open>32 \<le> unat n\<close> by (simp add: mod_if)
    finally show ?thesis .
  qed
  show "irq_enable plain_memory regs n d =
      (if 64 \<le> n then Inl VerifyFailed
       else let a = regs + (if n < 32 then enable_irqs_1 else enable_irqs_2)
            in Inr (d(a := d a OR push_bit (unat n mod 32) 1)))"
    using small large by (auto simp: irq_enable_def set_register_bit_def Let_def not_le verify_def)
  show "irq_disable plain_memory regs n d =
      (if 64 \<le> n then Inl VerifyFailed
       else let a = regs + (if n < 32 then disable_irqs_1 else disable_irqs_2)
            in Inr (d(a := d a OR push_bit (unat n mod 32) 1)))"
    using small large by (auto simp: irq_disable_def set_register_bit_def Let_def not_le verify_def)
qed

section \<open>The mailbox\<close>

text \<open>
  A mailbox that has nothing to deliver and was given no request: its status shows it empty, and only
  a write to the request register ends that.
\<close>

definition silent_mailbox :: "'d hardware \<Rightarrow> u32 \<Rightarrow> ('d \<Rightarrow> bool) \<Rightarrow> bool" where
  "silent_mailbox hw midr silent \<longleftrightarrow>
    (\<forall>d. silent d \<longrightarrow>
      fst (read_reg hw (peripheral_address midr MBOX_READ_STATUS) d) AND MBOX_EMPTY \<noteq> 0 \<and>
      (\<forall>a. silent (snd (read_reg hw a d))) \<and>
      (\<forall>a v. a \<noteq> peripheral_address midr MBOX_WRITE_DATA \<longrightarrow> silent (write_reg hw a v d)) \<and>
      (\<forall>n. silent (wait_cycles hw n d)))"

lemma wait_while_set_invariant:
  assumes "\<And>d. good d \<Longrightarrow> good (snd (read_reg hw a d))" and "good d"
    and "wait_while_set hw a flags d = Some d'"
  shows "good d'"
proof -
  have "hw' = hw \<longrightarrow> a' = a \<longrightarrow> flags' = flags \<longrightarrow> good e \<longrightarrow> good e'"
    if "wait_while_set hw' a' flags' e = Some e'" for hw' a' flags' e e'
  proof (rule wait_while_set.raw_induct
      [where P = "\<lambda>hw' a' flags' e e'. hw' = hw \<longrightarrow> a' = a \<longrightarrow> flags' = flags \<longrightarrow> good e \<longrightarrow> good e'", OF _ that],
      intro impI)
    fix wait hw' a' flags' e e'
    assume hyp: "\<And>a' flags' d' b y. wait a' flags' d' b = Some y \<Longrightarrow>
        a' = hw \<longrightarrow> flags' = a \<longrightarrow> d' = flags \<longrightarrow> good b \<longrightarrow> good y"
      and run: "(if fst (read_reg hw' a' e) AND flags' \<noteq> 0
          then wait hw' a' flags' (snd (read_reg hw' a' e)) else Some (snd (read_reg hw' a' e))) = Some e'"
      and same: "hw' = hw" "a' = a" "flags' = flags" and "good e"
    have next_good: "good (snd (read_reg hw a e))" using assms(1) \<open>good e\<close> by blast
    show "good e'"
      using run next_good hyp [of hw a flags "snd (read_reg hw a e)" e'] same by (auto split: if_splits)
  qed
  then show ?thesis using assms(2,3) by blast
qed

lemma wait_for_reply_stuck:
  assumes "silent_mailbox hw midr silent" and "silent d"
  shows "wait_for_reply hw midr d = None"
  unfolding wait_for_reply_def
  by (rule wait_while_set_stuck [of silent]) (use assms in \<open>auto simp: silent_mailbox_def\<close>)

lemma silent_mailboxD:
  assumes "silent_mailbox hw midr silent" and "silent d"
  shows "silent (snd (read_reg hw a d))" and "silent (wait_cycles hw n d)"
    and "a \<noteq> peripheral_address midr MBOX_WRITE_DATA \<Longrightarrow> silent (write_reg hw a v d)"
  using assms by (simp_all add: silent_mailbox_def)

lemma send_queue_stuck:
  assumes "silent_mailbox hw midr silent" and "silent d"
    and "queue \<noteq> peripheral_address midr MBOX_WRITE_DATA"
  shows "send_queue hw midr queue queue_size d = None"
proof -
  have start: "silent (set_queue_size hw queue queue_size d)"
    unfolding set_queue_size_def by (rule silent_mailboxD(3) [OF assms])
  have stuck: "reply_loop hw midr queue request d' = None" if "silent d'" for request d'
    by (subst reply_loop.simps) (simp add: wait_for_reply_stuck [OF assms(1) that])
  show ?thesis
  proof (cases "wait_until_we_can_write hw midr (set_queue_size hw queue queue_size d)")
    case None
    then show ?thesis by (simp add: send_queue_def)
  next
    case (Some d')
    then have "silent d'"
      unfolding wait_until_we_can_write_def
      by (rule wait_while_set_invariant [of silent, rotated 2])
        (use start silent_mailboxD(1) [OF assms(1)] in auto)
    then show ?thesis using Some stuck by (simp add: send_queue_def)
  qed
qed

lemma write_words_silent:
  assumes "silent_mailbox hw midr silent" and "silent d"
    and "\<forall>k<length vs. a + of_nat (4 * k) \<noteq> peripheral_address midr MBOX_WRITE_DATA"
  shows "silent (write_words hw a vs d)"
  using assms(2,3)
proof (induction vs arbitrary: a d)
  case Nil
  then show ?case by simp
next
  case (Cons v vs)
  have "silent (write_reg hw a v d)"
    using silent_mailboxD(3) [OF assms(1) Cons.prems(1), of a v] Cons.prems(2) by fastforce
  moreover have "a + 4 + of_nat (4 * k) \<noteq> peripheral_address midr MBOX_WRITE_DATA" if "k < length vs" for k
    using Cons.prems(2) [rule_format, of "Suc k"] that by (simp add: algebra_simps)
  ultimately show ?case using Cons.IH by simp
qed

lemma write_fields_silent:
  assumes "silent_mailbox hw midr silent" and "silent d"
    and "\<forall>(offset, v)\<in>set fs. queue + offset \<noteq> peripheral_address midr MBOX_WRITE_DATA"
  shows "silent (write_fields hw queue fs d)"
  using assms(2,3)
proof (induction fs arbitrary: d)
  case Nil
  then show ?case by simp
next
  case (Cons f fs)
  then show ?case using silent_mailboxD(3) [OF assms(1)] by (cases f) simp
qed

text \<open>
  So every exchange with the firmware waits for ever: the version query, the clock rate, the set-up
  of the serial line and that of the frame buffer.
\<close>

text \<open>
  C29. On a mailbox that delivers only answers to requests, no exchange with the firmware returns, since the request
  is never written to it.
\<close>

theorem firmware_requests_never_return:
  assumes "silent_mailbox hw midr silent" and "silent d"
    and apart: "\<And>k. k < 36 \<Longrightarrow> queue + of_nat (4 * k) \<noteq> peripheral_address midr MBOX_WRITE_DATA"
  shows "query_firmware_version hw midr queue d = None \<and>
    set_clock_rate hw midr queue clock rate skip d = None \<and>
    uart_new hw midr queue d = None \<and>
    framebuffer_new hw midr queue d = None"
proof -
  have queue: "queue \<noteq> peripheral_address midr MBOX_WRITE_DATA" using apart [of 0] by simp
  note stuck = send_queue_stuck [OF assms(1) _ queue]
  have words: "silent (write_words hw queue vs e)" if "length vs \<le> 36" "silent e" for vs e
    using write_words_silent [OF assms(1) that(2)] apart that(1) by auto
  have sent: "send_queue hw midr queue n (write_words hw queue vs e) = None"
    if "length vs \<le> 36" "silent e" for n vs e
    using words that stuck by blast
  have clock: "set_clock_rate hw midr queue c r s e = None" if "silent e" for c r s e
    unfolding set_clock_rate_def Let_def
    by (subst sent) (simp_all add: that message_header_def mailbox_message_def message_tail_def)
  have control: "uart_registers midr + uart_control \<noteq> peripheral_address midr MBOX_WRITE_DATA"
    by (simp add: uart_registers_def peripheral_address_def uart_control_def MBOX_WRITE_DATA_def)
  have "silent (write_fields hw queue
      [(20, 1280), (24, 720), (40, 1280), (44, 720), (80, 32), (96, 1), (112, 4096)] e)" if "silent e" for e
    by (rule write_fields_silent [OF assms(1) that])
      (use apart [of 5] apart [of 6] apart [of 10] apart [of 11] apart [of 20] apart [of 24] apart [of 28] in simp)
  moreover have "silent (set_queue_size hw queue n e)" if "silent e" for n e
    unfolding set_queue_size_def by (rule silent_mailboxD(3) [OF assms(1) that queue])
  moreover have "silent (write_words hw queue framebuffer_messages d)"
    by (rule words) (use assms(2) in \<open>simp_all add: framebuffer_messages_def message_header_def
        mailbox_message_def message_tail_def\<close>)
  ultimately have "framebuffer_new hw midr queue d = None"
    by (simp add: framebuffer_new_def stuck)
  moreover have "uart_new hw midr queue d = None"
    using clock [OF silent_mailboxD(3) [OF assms(1,2) control]] by (simp add: uart_new_def)
  moreover have "query_firmware_version hw midr queue d = None"
    unfolding query_firmware_version_def Let_def
    by (subst sent) (simp_all add: assms(2) message_header_def mailbox_message_def message_tail_def)
  ultimately show ?thesis using clock assms(2) by simp
qed

text \<open>Plain memory with the empty flag set is a mailbox without firmware behind it.\<close>

lemma plain_memory_silent:
  "silent_mailbox (plain_memory\<lparr>write_reg := (\<lambda>a v d. if a = peripheral_address midr MBOX_READ_STATUS then d else d(a := v))\<rparr>)
    midr (\<lambda>d. d (peripheral_address midr MBOX_READ_STATUS) = MBOX_EMPTY)"
  by (auto simp: silent_mailbox_def plain_memory_def MBOX_EMPTY_def)

lemma firmware_requests_never_return_witness:
  "query_firmware_version
     (plain_memory\<lparr>write_reg := (\<lambda>a v d. if a = peripheral_address 0xD080 MBOX_READ_STATUS then d else d(a := v))\<rparr>)
     0xD080 0x80000 (\<lambda>a. MBOX_EMPTY) = None"
proof -
  have address: "peripheral_address 0xD080 MBOX_WRITE_DATA = 0xFE00B8A0"
    by (simp add: peripheral_address_def MBOX_WRITE_DATA_def m_base_address_def part_num_def RaspberryPi3_def
        drop_bit_eq_div)
  have "\<forall>k\<in>set [0..<36]. (0x80000 :: u64) + of_nat (4 * k) \<noteq> peripheral_address 0xD080 MBOX_WRITE_DATA"
    unfolding address by (simp add: upt_rec)
  then have apart: "(0x80000 :: u64) + of_nat (4 * k) \<noteq> peripheral_address 0xD080 MBOX_WRITE_DATA" if "k < 36" for k
    using that by (simp add: atLeastLessThan_def)
  show ?thesis
    using firmware_requests_never_return [OF plain_memory_silent _ apart, of "\<lambda>a. MBOX_EMPTY"] by simp
qed

end
