(* ===== verification/Interrupts.thy ===== *)
theory Interrupts
  imports AK_Prelude
begin

unbundle bit_operations_syntax

text \<open>
  \<open>Kernel/Arch/aarch64/Interrupts.cpp\<close>: the table of interrupt handlers, their registration and the
  dispatch of the pending interrupts of every controller. A handler is an address. The classes of
  the handlers (\<open>Kernel/Interrupts\<close>) and the list of controllers are not under \<open>src/\<close>: they are the
  parameter \<open>handler_ops\<close>. The table is \<open>static\<close>, so no code outside this file can name it: their operations
  act on the \<open>world\<close>, the rest of the kernel's state. The two through which this file has a handler
  registered, \<open>register_interrupt_handler\<close> and \<open>SharedIRQHandler::initialize\<close>, call back into it and get the
  whole state. A handler that registers or removes handlers while it runs is not modelled: registrations and
  removals are steps between interrupts.
\<close>

datatype handler_type =
  IRQHandler | SharedIRQHandler | SpuriousInterruptHandler | UnhandledInterruptHandler

type_synonym handler = nat

record 's interrupts =
  s_interrupt_handlers :: "handler option list"
  world :: 's

record 's handler_ops =
  type_of :: "handler \<Rightarrow> 's \<Rightarrow> handler_type"
  is_shared_handler :: "handler \<Rightarrow> 's \<Rightarrow> bool"
  is_sharing_with_others :: "handler \<Rightarrow> 's \<Rightarrow> bool"
  sharing_devices_count :: "handler \<Rightarrow> 's \<Rightarrow> nat"
  increment_invoking_counter :: "handler \<Rightarrow> 's \<Rightarrow> 's"
  handle_one :: "handler \<Rightarrow> 's \<Rightarrow> 's"
  eoi :: "handler \<Rightarrow> 's \<Rightarrow> 's"
  register_handler :: "handler \<Rightarrow> handler \<Rightarrow> 's \<Rightarrow> 's"
  unregister_handler :: "handler \<Rightarrow> handler \<Rightarrow> 's \<Rightarrow> 's"
  unregister_interrupt_handler :: "handler \<Rightarrow> 's \<Rightarrow> 's"
  delete_handler :: "handler \<Rightarrow> 's \<Rightarrow> 's"
  new_unhandled :: "u8 \<Rightarrow> 's \<Rightarrow> handler \<times> 's"
  initialize_shared :: "u8 \<Rightarrow> 's interrupts \<Rightarrow> 's interrupts error_or"
  register_interrupt_handler :: "handler \<Rightarrow> 's interrupts \<Rightarrow> 's interrupts error_or"

definition on_world :: "('s \<Rightarrow> 's) \<Rightarrow> 's interrupts \<Rightarrow> 's interrupts" where
  "on_world f s = s\<lparr>world := f (world s)\<rparr>"

section \<open>The table\<close>

definition handler_slot :: "u8 \<Rightarrow> 's interrupts \<Rightarrow> handler option error_or" where
  "handler_slot n s =
    verify (unat n < length (s_interrupt_handlers s)) (Inr (s_interrupt_handlers s ! unat n))"

definition set_handler_slot :: "u8 \<Rightarrow> handler option \<Rightarrow> 's interrupts \<Rightarrow> 's interrupts" where
  "set_handler_slot n h s = s\<lparr>s_interrupt_handlers := (s_interrupt_handlers s)[unat n := h]\<rparr>"

definition the_handler :: "handler option \<Rightarrow> handler error_or" where
  "the_handler slot = (case slot of None \<Rightarrow> Inl VerifyFailed | Some h \<Rightarrow> Inr h)"

definition get_interrupt_handler :: "u8 \<Rightarrow> 's interrupts \<Rightarrow> handler error_or" where
  "get_interrupt_handler n s = try_then (handler_slot n s) the_handler"

section \<open>Dispatch\<close>

definition invoke :: "'s handler_ops \<Rightarrow> u8 \<Rightarrow> 's interrupts \<Rightarrow> 's interrupts error_or" where
  "invoke ops irq s =
    try_then (get_interrupt_handler irq s) (\<lambda>h.
      Inr (on_world (eoi ops h) (on_world (handle_one ops h) (on_world (increment_invoking_counter ops h) s))))"

function dispatch_pending :: "'s handler_ops \<Rightarrow> u64 \<Rightarrow> u8 \<Rightarrow> 's interrupts \<Rightarrow> 's interrupts error_or" where
  "dispatch_pending ops pending irq s =
    (if pending = 0 then Inr s
     else if pending AND 1 \<noteq> 1 then dispatch_pending ops (drop_bit 1 pending) (irq + 1) s
     else try_then (invoke ops irq s) (\<lambda>s. dispatch_pending ops (drop_bit 1 pending) (irq + 1) s))"
  by pat_completeness auto

lemma drop_bit_one_smaller: "w \<noteq> 0 \<Longrightarrow> unat (drop_bit (Suc 0) w) < unat w" for w :: u64
proof -
  assume "w \<noteq> 0"
  then have "0 < unat w" by (simp add: unat_gt_0)
  moreover have "unat (drop_bit (Suc 0) w) = unat w div 2"
    by (subst unat_drop_bit_eq) (simp add: drop_bit_eq_div)
  ultimately show ?thesis by simp
qed

termination dispatch_pending
  by (relation "measure (\<lambda>(ops, pending, irq, s). unat pending)") (auto simp: drop_bit_one_smaller)

declare dispatch_pending.simps [simp del]

fun handle_interrupt ::
    "'s handler_ops \<Rightarrow> ('s \<Rightarrow> u64 \<times> 's) list \<Rightarrow> 's interrupts \<Rightarrow> 's interrupts error_or"
  where
    "handle_interrupt ops [] s = Inr s"
  | "handle_interrupt ops (pending_interrupts # controllers) s =
      (let (pending, w) = pending_interrupts (world s)
       in try_then (dispatch_pending ops pending 0 (s\<lparr>world := w\<rparr>)) (\<lambda>s. handle_interrupt ops controllers s))"

section \<open>Registration\<close>

definition register_generic_interrupt_handler ::
    "'s handler_ops \<Rightarrow> u8 \<Rightarrow> handler \<Rightarrow> 's interrupts \<Rightarrow> 's interrupts error_or" where
  "register_generic_interrupt_handler ops n h s =
    try_then (handler_slot n s) (\<lambda>slot. case slot of
      None \<Rightarrow> Inr (set_handler_slot n (Some h) s)
    | Some old \<Rightarrow>
        if type_of ops old (world s) = UnhandledInterruptHandler
        then Inr (set_handler_slot n (Some h)
               (on_world (delete_handler ops old) (on_world (unregister_interrupt_handler ops old) s)))
        else if is_shared_handler ops old (world s) \<and> \<not> is_sharing_with_others ops old (world s)
        then verify (type_of ops old (world s) = SharedIRQHandler) (Inr (on_world (register_handler ops old h) s))
        else if \<not> is_shared_handler ops old (world s)
        then if type_of ops old (world s) = SpuriousInterruptHandler then Inl VerifyFailed
             else verify (type_of ops old (world s) = IRQHandler)
               (try_then (initialize_shared ops n (set_handler_slot n None s)) (\<lambda>s.
                try_then (get_interrupt_handler n s) (\<lambda>shared.
                   let s = on_world (register_handler ops shared old) s
                   in try_then (get_interrupt_handler n s) (\<lambda>shared.
                      Inr (on_world (register_handler ops shared h) s)))))
        else Inl VerifyFailed)"

definition revert_to_unused_handler :: "'s handler_ops \<Rightarrow> u8 \<Rightarrow> 's interrupts \<Rightarrow> 's interrupts error_or" where
  "revert_to_unused_handler ops n s =
    (let (h, w) = new_unhandled ops n (world s) in register_interrupt_handler ops h (s\<lparr>world := w\<rparr>))"

definition unregister_generic_interrupt_handler ::
    "'s handler_ops \<Rightarrow> u8 \<Rightarrow> handler \<Rightarrow> 's interrupts \<Rightarrow> 's interrupts error_or" where
  "unregister_generic_interrupt_handler ops n h s =
    try_then (get_interrupt_handler n s) (\<lambda>old.
      if type_of ops old (world s) = UnhandledInterruptHandler then Inr s
      else if is_shared_handler ops old (world s) \<and> \<not> is_sharing_with_others ops old (world s)
      then verify (type_of ops old (world s) = SharedIRQHandler)
        (let s = on_world (unregister_handler ops old h) s
         in if sharing_devices_count ops old (world s) = 0
            then revert_to_unused_handler ops n (set_handler_slot n None s)
            else Inr s)
      else Inr s)"

text \<open>The counter of the loop is a byte; the table has 64 slots.\<close>

function initalize_from :: "'s handler_ops \<Rightarrow> u8 \<Rightarrow> 's interrupts \<Rightarrow> 's interrupts error_or" where
  "initalize_from ops i s =
    (if i < 64
     then try_then (revert_to_unused_handler ops i s) (\<lambda>s. initalize_from ops (i + 1) s)
     else Inr s)"
  by pat_completeness auto

lemma byte_suc: "i < 64 \<Longrightarrow> unat (i + 1) = unat i + 1" for i :: u8
  by (simp add: unat_plus_simple [THEN iffD1] word_less_nat_alt unat_word_ariths)

termination initalize_from
  by (relation "measure (\<lambda>(ops, i, s). 64 - unat i)") (auto simp: byte_suc word_less_nat_alt)

declare initalize_from.simps [simp del]

definition initalize_interrupts :: "'s handler_ops \<Rightarrow> 's interrupts \<Rightarrow> 's interrupts error_or" where
  "initalize_interrupts ops s = initalize_from ops 0 s"

section \<open>The pending bits, lowest first\<close>

text \<open>The reference: the handlers of the set bits in increasing order, until one is missing.\<close>

fun invoke_all :: "'s handler_ops \<Rightarrow> nat list \<Rightarrow> 's interrupts \<Rightarrow> 's interrupts error_or" where
  "invoke_all ops [] s = Inr s"
| "invoke_all ops (n # ns) s = try_then (invoke ops (of_nat n) s) (invoke_all ops ns)"

lemma dispatch_pending_from:
  "k \<le> 64 \<Longrightarrow> dispatch_pending ops (drop_bit k pending) (of_nat k) s =
    invoke_all ops (filter (bit pending) [k..<64]) s"
proof (induction "64 - k" arbitrary: k s)
  case 0
  then have "drop_bit k pending = 0" by (auto intro!: bit_eqI simp: bit_drop_bit_eq bit_imp_le_length)
  then show ?case using 0 by (simp add: dispatch_pending.simps)
next
  case (Suc m)
  then have k: "k < 64" by simp
  have rest: "dispatch_pending ops (drop_bit 1 (drop_bit k pending)) (of_nat k + 1) =
      invoke_all ops (filter (bit pending) [Suc k..<64])"
  proof
    show "dispatch_pending ops (drop_bit 1 (drop_bit k pending)) (of_nat k + 1) s' =
        invoke_all ops (filter (bit pending) [Suc k..<64]) s'" for s'
      using Suc.hyps(1) [of "Suc k" s'] Suc.hyps(2) k by (simp add: add.commute)
  qed
  have odd: "drop_bit k pending AND 1 = 1 \<longleftrightarrow> bit pending k"
    by (simp add: and_one_eq odd_iff_mod_2_eq_one [symmetric] bit_iff_odd_drop_bit)
  have range: "[k..<64] = k # [Suc k..<64]" using k by (rule upt_conv_Cons)
  show ?case
  proof (cases "drop_bit k pending = 0")
    case True
    then have "\<not> bit pending n" if "k \<le> n" for n
      using that bit_drop_bit_eq [of k pending] by (metis bit_0_eq bot_apply bot_bool_def le_add_diff_inverse o_apply)
    then have "filter (bit pending) [k..<64] = []" by (auto simp: filter_empty_conv)
    then show ?thesis using True by (simp add: dispatch_pending.simps)
  next
    case False
    then show ?thesis
      using odd rest by (subst dispatch_pending.simps) (simp add: range del: drop_bit_drop_bit)
  qed
qed

text \<open>
  The dispatch loop over a word of pending bits invokes the handlers of the set bits, each once and in
  increasing order, stopping at a missing one.
\<close>

theorem dispatch_visits_pending:
  "dispatch_pending ops pending 0 s = invoke_all ops (filter (bit pending) [0..<64]) s"
  using dispatch_pending_from [of 0 ops pending s] by simp

section \<open>Every interrupt finds a handler\<close>

definition filled_except :: "nat set \<Rightarrow> 's interrupts \<Rightarrow> bool" where
  "filled_except holes s \<longleftrightarrow> length (s_interrupt_handlers s) = 64 \<and>
    (\<forall>i<64. i \<notin> holes \<longrightarrow> s_interrupt_handlers s ! i \<noteq> None)"

abbreviation filled :: "'s interrupts \<Rightarrow> bool" where
  "filled \<equiv> filled_except {}"

lemma set_handler_slot_filled:
  assumes "filled_except holes s"
  shows "filled_except (holes - {unat n}) (set_handler_slot n (Some h) s)"
    and "filled_except (insert (unat n) holes) (set_handler_slot n None s)"
  using assms
  by (cases "unat n < 64"; auto simp: filled_except_def set_handler_slot_def nth_list_update)+

lemma set_handler_filled: "filled s \<Longrightarrow> filled (set_handler_slot n (Some h) s)"
  using set_handler_slot_filled(1) [of "{}"] by simp

lemma on_world_simps [simp]:
  "s_interrupt_handlers (on_world f s) = s_interrupt_handlers s"
  "filled_except holes (on_world f s) \<longleftrightarrow> filled_except holes s"
  "filled_except holes (s\<lparr>world := w\<rparr>) \<longleftrightarrow> filled_except holes s"
  "handler_slot n (on_world f s) = handler_slot n s"
  by (simp_all add: on_world_def filled_except_def handler_slot_def)

text \<open>
  What this file uses the handler classes for: a handler made for the unhandled interrupts of a number
  registers itself under this number, and setting up the shared handler of a number makes a new handler and
  registers that. Both do it by the function of this file.
\<close>

definition handlers_register_themselves :: "'s handler_ops \<Rightarrow> bool" where
  "handlers_register_themselves ops \<longleftrightarrow>
    (\<forall>n w s. register_interrupt_handler ops (fst (new_unhandled ops n w)) s =
      register_generic_interrupt_handler ops n (fst (new_unhandled ops n w)) s) \<and>
    (\<forall>n s. \<exists>h w. initialize_shared ops n s = register_generic_interrupt_handler ops n h (s\<lparr>world := w\<rparr>))"

lemma handler_of_filled:
  assumes "filled s" and "unat n < 64"
  shows "\<exists>h. get_interrupt_handler n s = Inr h"
  using assms by (auto simp: filled_except_def get_interrupt_handler_def handler_slot_def the_handler_def
      split: option.splits)

text \<open>Every handler that is called runs, and the table stays as it is.\<close>

lemma invoke_filled:
  assumes "filled s" and "unat irq < 64"
  shows "\<exists>w. invoke ops irq s = Inr (s\<lparr>world := w\<rparr>)"
  using handler_of_filled [OF assms] by (auto simp: invoke_def on_world_def)

lemma invoke_all_filled:
  assumes "filled s" and "\<forall>n\<in>set ns. n < 64"
  shows "\<exists>w. invoke_all ops ns s = Inr (s\<lparr>world := w\<rparr>)"
  using assms
proof (induction ns arbitrary: s)
  case Nil
  show ?case by (rule exI [of _ "world s"]) simp
next
  case (Cons n ns)
  have "unat (of_nat n :: u8) < 64" using Cons.prems(2) by (simp add: unat_of_nat)
  then obtain w where w: "invoke ops (of_nat n) s = Inr (s\<lparr>world := w\<rparr>)"
    using invoke_filled [OF Cons.prems(1)] by blast
  then show ?case using Cons.IH [of "s\<lparr>world := w\<rparr>"] Cons.prems by simp
qed

lemma dispatch_pending_filled: "filled s \<Longrightarrow> \<exists>w. dispatch_pending ops pending 0 s = Inr (s\<lparr>world := w\<rparr>)"
  using invoke_all_filled [of s "filter (bit pending) [0..<64]"] dispatch_pending_from [of 0 ops pending s]
  by simp

lemma handle_interrupt_filled: "filled s \<Longrightarrow> \<exists>w. handle_interrupt ops controllers s = Inr (s\<lparr>world := w\<rparr>)"
proof (induction controllers arbitrary: s)
  case Nil
  show ?case by (rule exI [of _ "world s"]) simp
next
  case (Cons c controllers)
  obtain pending w where c: "c (world s) = (pending, w)" by fastforce
  obtain w' where w': "dispatch_pending ops pending 0 (s\<lparr>world := w\<rparr>) = Inr (s\<lparr>world := w'\<rparr>)"
    using dispatch_pending_filled [of "s\<lparr>world := w\<rparr>"] Cons.prems by auto
  then show ?case using Cons.IH [of "s\<lparr>world := w'\<rparr>"] Cons.prems c by simp
qed

lemma slot_of_length:
  "length (s_interrupt_handlers s) = 64 \<Longrightarrow>
    handler_slot n s = (if unat n < 64 then Inr (s_interrupt_handlers s ! unat n) else Inl VerifyFailed)"
  by (simp add: handler_slot_def)

lemma register_empty_slot:
  assumes "length (s_interrupt_handlers s) = 64" and "unat n < 64"
    and "s_interrupt_handlers s ! unat n = None"
  shows "register_generic_interrupt_handler ops n h s = Inr (set_handler_slot n (Some h) s)"
  using assms by (simp add: register_generic_interrupt_handler_def slot_of_length)

text \<open>The emptied slot is filled again by the handler that the shared handler's set-up registers.\<close>

lemma initialize_shared_fills:
  assumes "handlers_register_themselves ops" and "filled s" and "unat n < 64"
  shows "\<exists>s'. initialize_shared ops n (set_handler_slot n None s) = Inr s' \<and> filled s'"
proof -
  let ?s = "set_handler_slot n None s"
  obtain h w where "initialize_shared ops n ?s = register_generic_interrupt_handler ops n h (?s\<lparr>world := w\<rparr>)"
    using assms(1) unfolding handlers_register_themselves_def by blast
  also have "\<dots> = Inr (set_handler_slot n (Some h) (?s\<lparr>world := w\<rparr>))"
    using assms(2,3) by (intro register_empty_slot) (simp_all add: filled_except_def set_handler_slot_def)
  finally show ?thesis
    using set_handler_slot_filled(1) [of "{unat n}" "?s\<lparr>world := w\<rparr>" n h] set_handler_slot_filled(2) [OF assms(2), of n]
    by simp
qed

lemma register_filled:
  assumes "handlers_register_themselves ops" and "filled s"
    and "register_generic_interrupt_handler ops n h s = Inr s'"
  shows "filled s'"
proof -
  have len: "length (s_interrupt_handlers s) = 64" using assms(2) by (simp add: filled_except_def)
  have n: "unat n < 64"
    using assms(3) len by (auto simp: register_generic_interrupt_handler_def slot_of_length split: if_splits)
  then obtain old where old: "s_interrupt_handlers s ! unat n = Some old"
    using assms(2) by (auto simp: filled_except_def)
  show ?thesis
    using assms(2,3) len n old initialize_shared_fills [OF assms(1,2) n]
    by (auto simp: register_generic_interrupt_handler_def slot_of_length Let_def try_then_eq_Inr_iff
        set_handler_filled split: if_splits)
qed

lemma revert_fills:
  assumes "handlers_register_themselves ops" and "filled_except (insert (unat n) holes) s" and "unat n < 64"
    and "s_interrupt_handlers s ! unat n = None"
  shows "\<exists>s'. revert_to_unused_handler ops n s = Inr s' \<and> filled_except (holes - {unat n}) s' \<and>
    (\<forall>i. i \<noteq> unat n \<longrightarrow> s_interrupt_handlers s' ! i = s_interrupt_handlers s ! i)"
proof -
  obtain h w where h: "new_unhandled ops n (world s) = (h, w)" by fastforce
  have "register_interrupt_handler ops (fst (new_unhandled ops n (world s))) (s\<lparr>world := w\<rparr>) =
      register_generic_interrupt_handler ops n (fst (new_unhandled ops n (world s))) (s\<lparr>world := w\<rparr>)"
    using assms(1) unfolding handlers_register_themselves_def by blast
  then have "revert_to_unused_handler ops n s = register_generic_interrupt_handler ops n h (s\<lparr>world := w\<rparr>)"
    by (simp add: revert_to_unused_handler_def h)
  also have "\<dots> = Inr (set_handler_slot n (Some h) (s\<lparr>world := w\<rparr>))"
    using assms(2-4) by (intro register_empty_slot) (simp_all add: filled_except_def)
  finally show ?thesis
    using set_handler_slot_filled(1) [of "insert (unat n) holes" "s\<lparr>world := w\<rparr>" n h] assms(2)
    by (auto simp: filled_except_def set_handler_slot_def)
qed

lemma unregister_filled:
  assumes "handlers_register_themselves ops" and "filled s"
    and "unregister_generic_interrupt_handler ops n h s = Inr s'"
  shows "filled s'"
proof -
  have len: "length (s_interrupt_handlers s) = 64" using assms(2) by (simp add: filled_except_def)
  have n: "unat n < 64"
    using assms(3) len
    by (auto simp: unregister_generic_interrupt_handler_def get_interrupt_handler_def slot_of_length split: if_splits)
  have revert: "filled s''"
    if "filled s0" and run: "revert_to_unused_handler ops n (set_handler_slot n None s0) = Inr s''" for s0 s''
  proof -
    have "s_interrupt_handlers (set_handler_slot n None s0) ! unat n = None"
      using that(1) n by (simp add: set_handler_slot_def filled_except_def)
    from revert_fills [OF assms(1) set_handler_slot_filled(2) [OF that(1)] n this]
    show ?thesis using run by auto
  qed
  obtain old where "get_interrupt_handler n s = Inr old"
    using handler_of_filled [OF assms(2) n] by blast
  then show ?thesis
    using assms(2,3) revert [of "on_world f s" for f]
    by (auto simp: unregister_generic_interrupt_handler_def Let_def split: if_splits)
qed

lemma initalize_from_fills:
  assumes "handlers_register_themselves ops" and "i \<le> 64" and "length (s_interrupt_handlers s) = 64"
    and "\<forall>k<64. s_interrupt_handlers s ! k = None \<longleftrightarrow> unat i \<le> k"
  shows "\<exists>s'. initalize_from ops i s = Inr s' \<and> filled s'"
  using assms(2-4)
proof (induction "64 - unat i" arbitrary: i s)
  case 0
  then have "i = 64" by (simp add: word_le_nat_alt word_unat_eq_iff)
  then show ?case using 0 by (auto simp: initalize_from.simps filled_except_def)
next
  case (Suc m)
  then have small: "i < 64" "unat i < 64" by (simp_all add: word_less_nat_alt)
  have holes: "filled_except (insert (unat i) {unat i..}) s" using Suc.prems by (auto simp: filled_except_def)
  have "s_interrupt_handlers s ! unat i = None" using Suc.prems(3) small(2) by blast
  from revert_fills [OF assms(1) holes small(2) this] obtain s1 where s1: "revert_to_unused_handler ops i s = Inr s1"
      "filled_except ({unat i..} - {unat i}) s1"
      "\<forall>k. k \<noteq> unat i \<longrightarrow> s_interrupt_handlers s1 ! k = s_interrupt_handlers s ! k"
    by blast
  have next_i: "unat (i + 1) = unat i + 1" using byte_suc [OF small(1)] .
  have "\<exists>s'. initalize_from ops (i + 1) s1 = Inr s' \<and> filled s'"
  proof (rule Suc.hyps(1))
    show "m = 64 - unat (i + 1)" using Suc.hyps(2) next_i by simp
    show "i + 1 \<le> 64" using next_i small(2) by (simp add: word_le_nat_alt)
    show "length (s_interrupt_handlers s1) = 64" using s1(2) by (simp add: filled_except_def)
    show "\<forall>k<64. s_interrupt_handlers s1 ! k = None \<longleftrightarrow> unat (i + 1) \<le> k"
    proof (intro allI impI)
      fix k :: nat
      assume k: "k < 64"
      show "s_interrupt_handlers s1 ! k = None \<longleftrightarrow> unat (i + 1) \<le> k"
      proof (cases "k = unat i")
        case True
        then show ?thesis using s1(2) k next_i by (auto simp: filled_except_def)
      next
        case False
        then show ?thesis using s1(3) Suc.prems(3) k next_i by auto
      qed
    qed
  qed
  then show ?case using s1(1) small(1) by (subst initalize_from.simps) simp
qed

section \<open>The states of the running kernel\<close>

inductive reachable ::
    "'s handler_ops \<Rightarrow> ('s \<Rightarrow> u64 \<times> 's) list \<Rightarrow> 's interrupts \<Rightarrow> bool"
  for ops controllers where
    boot: "s_interrupt_handlers s = replicate 64 None \<Longrightarrow> initalize_interrupts ops s = Inr s' \<Longrightarrow>
      reachable ops controllers s'"
  | registered: "reachable ops controllers s \<Longrightarrow> register_generic_interrupt_handler ops n h s = Inr s' \<Longrightarrow>
      reachable ops controllers s'"
  | unregistered: "reachable ops controllers s \<Longrightarrow> unregister_generic_interrupt_handler ops n h s = Inr s' \<Longrightarrow>
      reachable ops controllers s'"
  | interrupted: "reachable ops controllers s \<Longrightarrow> handle_interrupt ops controllers s = Inr s' \<Longrightarrow>
      reachable ops controllers s'"

lemma initalize_interrupts_fills:
  assumes "handlers_register_themselves ops" and "s_interrupt_handlers s = replicate 64 None"
  shows "\<exists>s'. initalize_interrupts ops s = Inr s' \<and> filled s'"
  using initalize_from_fills [OF assms(1), of 0 s] assms(2) by (simp add: initalize_interrupts_def)

lemma reachable_filled:
  assumes "handlers_register_themselves ops" and "reachable ops controllers s"
  shows "filled s"
  using assms(2)
proof induction
  case (boot s s')
  then show ?case using initalize_interrupts_fills [OF assms(1)] by force
next
  case (registered s n h s')
  then show ?case using register_filled [OF assms(1)] by blast
next
  case (unregistered s n h s')
  then show ?case using unregister_filled [OF assms(1)] by blast
next
  case (interrupted s s')
  then show ?case using handle_interrupt_filled [of s ops controllers] by force
qed

text \<open>
  C25. The boot fills the table. In every state reached from there by registering, unregistering and
  interrupts, although both empty a slot on their way, the dispatch of all controllers finds a handler for
  every pending bit and returns with the table as it was.
\<close>

theorem interrupts_always_handled:
  assumes "handlers_register_themselves ops"
  shows "(s_interrupt_handlers s0 = replicate 64 None \<longrightarrow>
      (\<exists>s. initalize_interrupts ops s0 = Inr s \<and> reachable ops controllers s)) \<and>
    (reachable ops controllers s \<longrightarrow> (\<exists>w. handle_interrupt ops controllers s = Inr (s\<lparr>world := w\<rparr>)))"
  using initalize_interrupts_fills [OF assms] reachable.boot handle_interrupt_filled [OF reachable_filled [OF assms]]
  by metis

text \<open>
  A kernel whose handlers do nothing: the handlers of unhandled interrupts are the addresses below 64, the
  shared handler is 64. Its set-up is written out for a slot that was emptied, then by the registration.
\<close>

definition idle_handlers :: "unit handler_ops" where
  "idle_handlers =
    \<lparr>type_of = (\<lambda>h w. if h < 64 then UnhandledInterruptHandler else if h = 64 then SharedIRQHandler else IRQHandler),
     is_shared_handler = (\<lambda>h w. h = 64), is_sharing_with_others = (\<lambda>h w. False),
     sharing_devices_count = (\<lambda>h w. 1), increment_invoking_counter = (\<lambda>h w. w), handle_one = (\<lambda>h w. w),
     eoi = (\<lambda>h w. w), register_handler = (\<lambda>h h' w. w), unregister_handler = (\<lambda>h h' w. w),
     unregister_interrupt_handler = (\<lambda>h w. w), delete_handler = (\<lambda>h w. w), new_unhandled = (\<lambda>n w. (unat n, w)),
     initialize_shared = (\<lambda>n s. Inr (set_handler_slot n (Some 64) s)), register_interrupt_handler = (\<lambda>h s. Inr s)\<rparr>"

definition idle_kernel :: "unit handler_ops" where
  "idle_kernel = idle_handlers\<lparr>initialize_shared := (\<lambda>n s. register_generic_interrupt_handler idle_handlers n 64 s),
     register_interrupt_handler := (\<lambda>h s. register_generic_interrupt_handler idle_handlers (of_nat h) h s)\<rparr>"

lemma idle_kernel_sel:
  "type_of idle_kernel = type_of idle_handlers" "is_shared_handler idle_kernel = is_shared_handler idle_handlers"
  "is_sharing_with_others idle_kernel = is_sharing_with_others idle_handlers"
  "register_handler idle_kernel = register_handler idle_handlers"
  "unregister_interrupt_handler idle_kernel = unregister_interrupt_handler idle_handlers"
  "delete_handler idle_kernel = delete_handler idle_handlers"
  "initialize_shared idle_kernel n s = register_generic_interrupt_handler idle_handlers n 64 s"
  "initialize_shared idle_handlers n s = Inr (set_handler_slot n (Some 64) s)"
  by (simp_all add: idle_kernel_def idle_handlers_def)

lemma idle_kernel_registers:
  "register_generic_interrupt_handler idle_kernel n h s = register_generic_interrupt_handler idle_handlers n h s"
proof (cases "unat n < length (s_interrupt_handlers s)")
  case True
  then have "register_generic_interrupt_handler idle_handlers n 64 (set_handler_slot n None s) =
      Inr (set_handler_slot n (Some 64) (set_handler_slot n None s))"
    by (simp add: register_generic_interrupt_handler_def handler_slot_def set_handler_slot_def)
  then show ?thesis
    unfolding register_generic_interrupt_handler_def [of idle_kernel] register_generic_interrupt_handler_def [of idle_handlers n h]
    by (simp only: idle_kernel_sel)
next
  case False
  then show ?thesis by (simp add: register_generic_interrupt_handler_def handler_slot_def)
qed

lemma idle_kernel_registers_itself: "handlers_register_themselves idle_kernel"
  unfolding handlers_register_themselves_def idle_kernel_registers
proof (intro conjI allI)
  fix n :: u8 and w :: unit and s :: "unit interrupts"
  show "\<exists>h w. initialize_shared idle_kernel n s = register_generic_interrupt_handler idle_handlers n h (s\<lparr>world := w\<rparr>)"
    by (intro exI [of _ "64 :: nat"] exI [of _ "()"]) (cases s; simp add: idle_kernel_sel)
  show "register_interrupt_handler idle_kernel (fst (new_unhandled idle_kernel n w)) s =
      register_generic_interrupt_handler idle_handlers n (fst (new_unhandled idle_kernel n w)) s"
    by (simp add: idle_kernel_def) (simp add: idle_handlers_def)
qed

theorem interrupts_always_handled_witness:
  "\<exists>s s'. initalize_interrupts idle_kernel \<lparr>s_interrupt_handlers = replicate 64 None, world = ()\<rparr> = Inr s \<and>
    handle_interrupt idle_kernel [\<lambda>w. (5, w)] s = Inr s'"
proof -
  note always = interrupts_always_handled [OF idle_kernel_registers_itself, where controllers = "[\<lambda>w. (5, w)]"]
  obtain s where "initalize_interrupts idle_kernel \<lparr>s_interrupt_handlers = replicate 64 None, world = ()\<rparr> = Inr s"
    and "reachable idle_kernel [\<lambda>w. (5, w)] s"
    using always [of "\<lparr>s_interrupt_handlers = replicate 64 None, world = ()\<rparr>"] by auto
  then show ?thesis using always by blast
qed

end
