(* ===== verification/BootLogo.thy ===== *)
theory BootLogo
  imports Peripherals
begin

unbundle bit_operations_syntax

text \<open>
  \<open>Kernel/Arch/aarch64/BootPPMParser.cpp\<close> and \<open>draw_logo\<close> of \<open>init.cpp\<close>: the header of the boot
  image is read, and the image is drawn in the middle of the frame buffer. A buffer is its list of
  bytes and a pointer into it an index; \<open>char\<close> is unsigned on this architecture. A read outside
  the buffer is \<open>BadPointer\<close>. \<open>draw_logo\<close> gets the address of the image and its size from the linker; that
  the frame buffer is as large as its height times its pitch is the firmware's promise and not checked, so
  a write is not an error of the model.
\<close>

section \<open>The parser\<close>

record ppm =
  m_buffer :: "u8 list"
  m_cursor :: nat
  image_width :: u32
  image_height :: u32
  pixel_data :: "nat option"

definition ppm_new :: "u8 list \<Rightarrow> ppm" where
  "ppm_new buffer =
    \<lparr>m_buffer = buffer, m_cursor = 0, image_width = 0, image_height = 0, pixel_data = None\<rparr>"

definition buffer_byte :: "u8 list \<Rightarrow> nat \<Rightarrow> u8 error_or" where
  "buffer_byte buffer i = (if i < length buffer then Inr (buffer ! i) else Inl BadPointer)"

definition check_position :: "ppm \<Rightarrow> bool" where
  "check_position p \<longleftrightarrow> \<not> length (m_buffer p) \<le> m_cursor p"

definition parse_magic :: "ppm \<Rightarrow> (bool \<times> ppm) error_or" where
  "parse_magic p =
    try_then (buffer_byte (m_buffer p) (m_cursor p)) (\<lambda>a.
      if a \<noteq> 80 then Inr (False, p)
      else try_then (buffer_byte (m_buffer p) (m_cursor p + 1)) (\<lambda>b.
        if b \<noteq> 54 then Inr (False, p)
        else let p = p\<lparr>m_cursor := m_cursor p + 2\<rparr> in Inr (check_position p, p)))"

definition parse_new_line :: "ppm \<Rightarrow> (bool \<times> ppm) error_or" where
  "parse_new_line p =
    try_then (buffer_byte (m_buffer p) (m_cursor p)) (\<lambda>a.
      if a \<noteq> 10 then Inr (False, p)
      else let p = p\<lparr>m_cursor := m_cursor p + 1\<rparr> in Inr (check_position p, p))"

text \<open>
  The loops \<open>while (check_position() && *m_cursor != ...)\<close> from the cursor \<open>i\<close>, up to the end of the buffer
  or a byte to stop at: the position is checked, then the byte is read.
\<close>

function skip_until :: "u8 set \<Rightarrow> u8 list \<Rightarrow> nat \<Rightarrow> nat error_or" where
  "skip_until stop buffer i =
    (if i < length buffer
     then try_then (buffer_byte buffer i) (\<lambda>c.
       if c \<notin> stop then skip_until stop buffer (i + 1) else Inr i)
     else Inr i)"
  by pat_completeness auto
termination by (relation "measure (\<lambda>(stop, buffer, i). length buffer - i)") auto

declare skip_until.simps [simp del]

definition parse_comment :: "ppm \<Rightarrow> (bool \<times> ppm) error_or" where
  "parse_comment p =
    try_then (buffer_byte (m_buffer p) (m_cursor p)) (\<lambda>a.
      try_then (if a = 35 then try_then (skip_until {10} (m_buffer p) (m_cursor p)) (\<lambda>i. Inr (p\<lparr>m_cursor := i + 1\<rparr>))
                else Inr p) (\<lambda>p.
        Inr (check_position p, p)))"

text \<open>The digits are added from the last to the first, each minus the code of zero, in \<open>u32\<close>.\<close>

fun add_digits :: "u8 list \<Rightarrow> nat \<Rightarrow> nat \<Rightarrow> u32 \<Rightarrow> u32 \<Rightarrow> u32 error_or" where
  "add_digits buffer begin 0 v multiplier = Inr v"
| "add_digits buffer begin (Suc n) v multiplier =
    try_then (buffer_byte buffer (begin + n)) (\<lambda>d.
      add_digits buffer begin n (v + multiplier * (ucast d - 48)) (multiplier * 10))"

text \<open>\<open>None\<close> is the result \<open>false\<close>, which leaves the argument alone.\<close>

definition parse_integer :: "ppm \<Rightarrow> (u32 option \<times> ppm) error_or" where
  "parse_integer p =
    (let begin = m_cursor p
     in try_then (skip_until {32, 10} (m_buffer p) (m_cursor p)) (\<lambda>stop.
       let p = p\<lparr>m_cursor := stop + 1\<rparr>
       in if \<not> check_position p then Inr (None, p)
          else try_then (add_digits (m_buffer p) begin (stop - begin) 0 1) (\<lambda>v. Inr (Some v, p))))"

definition parse_header :: "ppm \<Rightarrow> (bool \<times> ppm) error_or" where
  "parse_header p =
    try_then (parse_integer p) (\<lambda>(w, p). case w of None \<Rightarrow> Inr (False, p)
     | Some w \<Rightarrow> try_then (parse_integer (p\<lparr>image_width := w\<rparr>)) (\<lambda>(h, p). case h of None \<Rightarrow> Inr (False, p)
        | Some h \<Rightarrow> try_then (parse_integer (p\<lparr>image_height := h\<rparr>)) (\<lambda>(m, p). case m of None \<Rightarrow> Inr (False, p)
           | Some max_color_value \<Rightarrow>
              if max_color_value \<noteq> 255 then Inr (False, p)
              else Inr (True, p\<lparr>pixel_data := Some (m_cursor p)\<rparr>))))"

definition parse :: "ppm \<Rightarrow> (bool \<times> ppm) error_or" where
  "parse p =
    (if \<not> check_position p then Inr (False, p)
     else try_then (parse_magic p) (\<lambda>(ok, p).
       if \<not> ok then Inr (False, p)
       else try_then (parse_new_line p) (\<lambda>(ok, p).
         if \<not> ok then Inr (False, p)
         else try_then (parse_comment p) (\<lambda>(ok, p).
           if \<not> ok then Inr (False, p) else parse_header p))))"

section \<open>Drawing\<close>

record canvas =
  fb_bytes :: "nat \<Rightarrow> u8"
  fb_ptr :: nat
  logo_pixels :: nat

record logo_place =
  image_left :: u32
  image_right :: u32
  image_top :: u32
  image_bottom :: u32

definition logo_layout :: "framebuffer \<Rightarrow> ppm \<Rightarrow> logo_place" where
  "logo_layout fb p =
    (let left = (ucast (m_width fb) - image_width p) div 2;
         upper = (ucast (m_height fb) - image_height p) div 2
     in \<lparr>image_left = left, image_right = left + image_width p,
         image_top = upper, image_bottom = upper + image_height p\<rparr>)"

definition inside :: "logo_place \<Rightarrow> u32 \<Rightarrow> u32 \<Rightarrow> bool" where
  "inside l x y \<longleftrightarrow> image_left l \<le> x \<and> x < image_right l \<and> image_top l \<le> y \<and> y < image_bottom l"

definition put_pixel :: "u8 \<times> u8 \<times> u8 \<Rightarrow> canvas \<Rightarrow> canvas" where
  "put_pixel colour c =
    (case colour of (r, g, b) \<Rightarrow>
      c\<lparr>fb_bytes := (fb_bytes c)(fb_ptr c := r, fb_ptr c + 1 := g, fb_ptr c + 2 := b, fb_ptr c + 3 := 0xFF),
        fb_ptr := fb_ptr c + 4\<rparr>)"

definition draw_pixel ::
    "framebuffer \<Rightarrow> logo_place \<Rightarrow> u8 list \<Rightarrow> nat \<Rightarrow> nat \<Rightarrow> canvas \<Rightarrow> canvas error_or" where
  "draw_pixel fb l buffer y x c =
    (if inside l (of_nat x) (of_nat y)
     then try_then (buffer_byte buffer (logo_pixels c)) (\<lambda>p0.
          try_then (buffer_byte buffer (logo_pixels c + 1)) (\<lambda>p1.
          try_then (buffer_byte buffer (logo_pixels c + 2)) (\<lambda>p2.
            Inr (put_pixel (case m_pixel_order fb of RGB \<Rightarrow> (p0, p1, p2) | BGR \<Rightarrow> (p2, p1, p0))
              (c\<lparr>logo_pixels := logo_pixels c + 3\<rparr>)))))
     else Inr (put_pixel (0xBD, 0xBD, 0xBD) c))"

text \<open>A counting loop runs over the list of its counters.\<close>

fun for_each :: "('a \<Rightarrow> 's \<Rightarrow> 's error_or) \<Rightarrow> 'a list \<Rightarrow> 's \<Rightarrow> 's error_or" where
  "for_each body [] s = Inr s"
| "for_each body (x # xs) s = try_then (body x s) (for_each body xs)"

definition draw_row :: "framebuffer \<Rightarrow> logo_place \<Rightarrow> u8 list \<Rightarrow> nat \<Rightarrow> canvas \<Rightarrow> canvas error_or" where
  "draw_row fb l buffer y c =
    try_then (for_each (draw_pixel fb l buffer y) [0..<unat (m_width fb)] c) (\<lambda>c.
      Inr (c\<lparr>fb_ptr := fb_ptr c + unat (m_pitch fb - ucast (m_width fb) * 4)\<rparr>))"

definition draw_logo :: "framebuffer \<Rightarrow> u8 list \<Rightarrow> (nat \<Rightarrow> u8) \<Rightarrow> (nat \<Rightarrow> u8) error_or" where
  "draw_logo fb buffer memory =
    try_then (parse (ppm_new buffer)) (\<lambda>(ok, p). case pixel_data p of
        Some pixels \<Rightarrow> if \<not> ok then Inr memory
          else try_then (for_each (draw_row fb (logo_layout fb p) buffer) [0..<unat (m_height fb)]
                 \<lparr>fb_bytes = memory, fb_ptr = 0, logo_pixels = pixels\<rparr>) (\<lambda>c. Inr (fb_bytes c))
      | None \<Rightarrow> Inr memory)"

section \<open>Reading is safe but for one buffer\<close>

lemma skip_until_bounds:
  "i \<le> length buffer \<Longrightarrow> \<exists>k. skip_until stop buffer i = Inr k \<and> i \<le> k \<and> k \<le> length buffer"
proof (induction "length buffer - i" arbitrary: i)
  case 0
  then show ?case by (simp add: skip_until.simps)
next
  case (Suc n)
  have "n = length buffer - (i + 1)" "i + 1 \<le> length buffer" using Suc.hyps(2) by simp_all
  then obtain k where "skip_until stop buffer (i + 1) = Inr k" "i + 1 \<le> k" "k \<le> length buffer"
    using Suc.hyps(1) by blast
  then show ?case using Suc.hyps(2) by (subst skip_until.simps) (auto simp: buffer_byte_def)
qed

lemma add_digits_reads: "begin + n \<le> length buffer \<Longrightarrow> \<exists>r. add_digits buffer begin n v m = Inr r"
  by (induction n arbitrary: v m) (auto simp: buffer_byte_def)

lemma parse_step_safe:
  assumes "check_position p"
  shows "\<exists>ok p'. parse_new_line p = Inr (ok, p') \<and> (ok \<longrightarrow> check_position p')"
    and "\<exists>ok p'. parse_comment p = Inr (ok, p') \<and> (ok \<longrightarrow> check_position p')"
proof -
  show "\<exists>ok p'. parse_new_line p = Inr (ok, p') \<and> (ok \<longrightarrow> check_position p')"
    using assms by (auto simp: parse_new_line_def check_position_def buffer_byte_def Let_def)
  obtain k where "skip_until {10} (m_buffer p) (m_cursor p) = Inr k"
    using skip_until_bounds [of "m_cursor p" "m_buffer p" "{10}"] assms by (auto simp: check_position_def)
  then show "\<exists>ok p'. parse_comment p = Inr (ok, p') \<and> (ok \<longrightarrow> check_position p')"
    using assms by (auto simp: parse_comment_def check_position_def buffer_byte_def)
qed

lemma parse_integer_safe:
  assumes "check_position p"
  shows "\<exists>v p'. parse_integer p = Inr (v, p') \<and> (v \<noteq> None \<longrightarrow> check_position p')"
proof -
  have "m_cursor p \<le> length (m_buffer p)" using assms by (simp add: check_position_def)
  from skip_until_bounds [OF this, of "{32, 10}"] obtain k where
    k: "skip_until {32, 10} (m_buffer p) (m_cursor p) = Inr k" "m_cursor p \<le> k" "k \<le> length (m_buffer p)"
    by blast
  obtain v where "add_digits (m_buffer p) (m_cursor p) (k - m_cursor p) 0 1 = Inr v"
    using add_digits_reads [of "m_cursor p" "k - m_cursor p" "m_buffer p"] k(2,3) by auto
  then show ?thesis using k(1) by (auto simp: parse_integer_def Let_def)
qed

lemma parse_header_safe: "check_position p \<Longrightarrow> \<exists>r. parse_header p = Inr r"
proof -
  assume "check_position p"
  from parse_integer_safe [OF this] obtain w p1 where
    1: "parse_integer p = Inr (w, p1)" "w \<noteq> None \<longrightarrow> check_position p1" by blast
  have keep: "check_position (p1\<lparr>image_width := x\<rparr>) \<longleftrightarrow> check_position p1"
    "check_position (p2\<lparr>image_height := x\<rparr>) \<longleftrightarrow> check_position p2" for x p2
    by (simp_all add: check_position_def)
  show ?thesis
  proof (cases w)
    case (Some x)
    with 1 keep obtain h p2 where
      2: "parse_integer (p1\<lparr>image_width := x\<rparr>) = Inr (h, p2)" "h \<noteq> None \<longrightarrow> check_position p2"
      using parse_integer_safe [of "p1\<lparr>image_width := x\<rparr>"] by auto
    show ?thesis
    proof (cases h)
      case (Some y)
      with 2 keep obtain m p3 where 3: "parse_integer (p2\<lparr>image_height := y\<rparr>) = Inr (m, p3)"
        using parse_integer_safe [of "p2\<lparr>image_height := y\<rparr>"] by auto
      show ?thesis using 1 2 3 \<open>w = Some x\<close> Some by (cases m) (auto simp: parse_header_def)
    qed (use 1 2 Some in \<open>auto simp: parse_header_def\<close>)
  qed (use 1 in \<open>auto simp: parse_header_def\<close>)
qed

lemma parse_after_magic_safe:
  assumes "parse_magic p = Inr (ok, p')" and "check_position p"
  shows "\<exists>r. parse p = Inr r"
proof (cases ok)
  case True
  then have "check_position p'"
    using assms(1) by (auto simp: parse_magic_def try_then_eq_Inr_iff Let_def split: if_splits)
  then obtain ok1 p1 where p1: "parse_new_line p' = Inr (ok1, p1)" "ok1 \<longrightarrow> check_position p1"
    using parse_step_safe(1) by blast
  then obtain ok2 p2 where p2: "ok1 \<longrightarrow> parse_comment p1 = Inr (ok2, p2) \<and> (ok2 \<longrightarrow> check_position p2)"
    using parse_step_safe(2) by blast
  then obtain r where "ok1 \<longrightarrow> ok2 \<longrightarrow> parse_header p2 = Inr r"
    using parse_header_safe by blast
  then show ?thesis using assms True p1 p2 by (auto simp: parse_def)
next
  case False
  then have "parse p = Inr (False, p')" using assms by (simp add: parse_def)
  then show ?thesis by blast
qed

text \<open>
  C31. Parsing reads outside the buffer for exactly one buffer, the single byte \<open>P\<close>, whose missing
  neighbour \<open>parse_magic\<close> looks at; for every other buffer it returns, every byte that the comment's and
  the numbers' loops look at being inside.
\<close>

theorem parse_reads_inside_buffer:
  "parse (ppm_new buffer) = Inl e \<longleftrightarrow> e = BadPointer \<and> buffer = [80]"
proof (cases "parse_magic (ppm_new buffer)")
  case (Inl e')
  then have bad: "buffer = [80]" "e' = BadPointer" if "buffer \<noteq> []"
    using that by (cases buffer; cases "tl buffer"; auto simp: parse_magic_def ppm_new_def buffer_byte_def Let_def split: if_splits)+
  show ?thesis
  proof (cases "buffer = []")
    case True
    then show ?thesis by (simp add: parse_def check_position_def ppm_new_def)
  next
    case False
    then have "check_position (ppm_new buffer)" by (simp add: check_position_def ppm_new_def)
    then show ?thesis using Inl bad [OF False] by (auto simp: parse_def)
  qed
next
  case (Inr r)
  obtain ok p' where r: "r = (ok, p')" by fastforce
  have "buffer \<noteq> [80]" using Inr by (auto simp: parse_magic_def ppm_new_def buffer_byte_def)
  moreover have "\<exists>r. parse (ppm_new buffer) = Inr r"
    using parse_after_magic_safe [OF Inr [unfolded r]] by (cases "check_position (ppm_new buffer)") (auto simp: parse_def)
  ultimately show ?thesis by auto
qed

section \<open>The header is read back\<close>

fun decimal :: "nat \<Rightarrow> u8 list" where
  "decimal n = (if n < 10 then [of_nat n + 48] else decimal (n div 10) @ [of_nat (n mod 10) + 48])"

declare decimal.simps [simp del]

lemma skip_until_stops:
  assumes "\<forall>c\<in>set word. c \<notin> stop" and "c \<in> stop"
  shows "skip_until stop (prefix @ word @ c # rest) (length prefix) = Inr (length prefix + length word)"
  using assms(1)
proof (induction word arbitrary: prefix)
  case Nil
  then show ?case using assms(2) by (simp add: skip_until.simps buffer_byte_def)
next
  case (Cons d word)
  have "skip_until stop ((prefix @ [d]) @ word @ c # rest) (length (prefix @ [d])) =
      Inr (length (prefix @ [d]) + length word)"
    by (rule Cons.IH) (use Cons.prems in simp)
  then show ?case using Cons.prems by (subst skip_until.simps) (simp add: buffer_byte_def)
qed

lemma decimal_digits: "c \<in> set (decimal n) \<Longrightarrow> 48 \<le> unat c \<and> unat c \<le> 57"
proof (induction n rule: decimal.induct)
  case (1 n)
  have digit: "unat (of_nat k + 48 :: u8) = k + 48" if "k < 10" for k
    using that by (simp add: unat_word_ariths unat_of_nat)
  show ?case
    using 1 digit [of n] digit [of "n mod 10"] by (auto simp: decimal.simps [of n] split: if_splits)
qed

lemma add_digits_append:
  "n \<le> length word \<Longrightarrow> add_digits (prefix @ word @ rest) (length prefix) n v m =
     add_digits word 0 n v m"
  by (induction n arbitrary: v m) (simp_all add: nth_append buffer_byte_def)

lemma decimal_digit: "k < 10 \<Longrightarrow> (ucast (of_nat k + 48 :: u8) :: u32) - 48 = of_nat k"
proof -
  assume "k < 10"
  then have "k \<in> set [0..<10]" by simp
  moreover have "\<forall>k\<in>set [0..<10]. (ucast (of_nat k + 48 :: u8) :: u32) - 48 = of_nat k"
    by (simp add: upt_rec)
  ultimately show ?thesis by blast
qed

lemma add_digits_decimal:
  "add_digits (decimal n) 0 (length (decimal n)) v m = Inr (v + m * of_nat n)"
proof (induction n arbitrary: v m rule: decimal.induct)
  case (1 n)
  show ?case
  proof (cases "n < 10")
    case True
    then show ?thesis using decimal_digit [OF True] by (simp add: decimal.simps [of n] buffer_byte_def)
  next
    case False
    have prefix: "add_digits (decimal (n div 10) @ rest) 0 (length (decimal (n div 10))) v m =
        add_digits (decimal (n div 10)) 0 (length (decimal (n div 10))) v m" for rest v m
      using add_digits_append [of "length (decimal (n div 10))" "decimal (n div 10)" "[]" rest v m] by simp
    have "n = 10 * (n div 10) + n mod 10" by simp
    then have "(of_nat n :: u32) = 10 * of_nat (n div 10) + of_nat (n mod 10)"
      by (metis of_nat_add of_nat_mult of_nat_numeral)
    then show ?thesis
      using False 1 [OF False] decimal_digit [of "n mod 10"]
      by (simp add: decimal.simps [of n] nth_append buffer_byte_def prefix algebra_simps)
  qed
qed

lemma decimal_no_separator: "\<forall>c\<in>set (decimal n). c \<notin> {32, 10}"
  using decimal_digits [of _ n] by force

lemma parse_integer_decimal:
  assumes "m_buffer p = before @ decimal n @ c # rest" and "m_cursor p = length before"
    and "c \<in> {32, 10}" and "rest \<noteq> []"
  shows "parse_integer p = Inr (Some (of_nat n), p\<lparr>m_cursor := length before + length (decimal n) + 1\<rparr>)"
proof -
  have "skip_until {32, 10} (m_buffer p) (m_cursor p) = Inr (length before + length (decimal n))"
    unfolding assms(1,2) by (rule skip_until_stops [OF decimal_no_separator assms(3)])
  moreover have "add_digits (before @ decimal n @ c # rest) (length before) (length (decimal n)) 0 1 = Inr (of_nat n)"
    by (simp add: add_digits_append add_digits_decimal)
  ultimately show ?thesis
    using assms by (simp add: parse_integer_def check_position_def Let_def)
qed

text \<open>An image file: the magic, a comment or none, three numbers with a separator after each, the pixels.\<close>

definition ppm_header :: "u8 list option \<Rightarrow> nat \<Rightarrow> u8 \<Rightarrow> nat \<Rightarrow> u8 \<Rightarrow> u8 \<Rightarrow> u8 list" where
  "ppm_header comment w s1 h s2 s3 =
    [80, 54, 10] @ (case comment of None \<Rightarrow> [] | Some line \<Rightarrow> [35] @ line @ [10])
    @ decimal w @ [s1] @ decimal h @ [s2] @ decimal 255 @ [s3]"

lemma parse_header_ppm:
  assumes "m_buffer p = before @ decimal w @ s1 # decimal h @ s2 # decimal 255 @ s3 # pixels"
    and "m_cursor p = length before" and "{s1, s2, s3} \<subseteq> {32, 10}" and "pixels \<noteq> []"
  shows "parse_header p = Inr (True, p\<lparr>image_width := of_nat w, image_height := of_nat h,
    m_cursor := length (m_buffer p) - length pixels, pixel_data := Some (length (m_buffer p) - length pixels)\<rparr>)"
proof -
  have buffer: "m_buffer p = (before @ decimal w @ [s1]) @ decimal h @ s2 # decimal 255 @ s3 # pixels"
    "m_buffer p = (before @ decimal w @ [s1] @ decimal h @ [s2]) @ decimal 255 @ s3 # pixels"
    using assms(1) by simp_all
  have first: "parse_integer p = Inr (Some (of_nat w), p\<lparr>m_cursor := length before + length (decimal w) + 1\<rparr>)"
    by (rule parse_integer_decimal [OF assms(1,2)]) (use assms(3) in auto)
  have second: "parse_integer (p\<lparr>m_cursor := length before + length (decimal w) + 1, image_width := x\<rparr>) =
      Inr (Some (of_nat h), p\<lparr>m_cursor := length (before @ decimal w @ [s1]) + length (decimal h) + 1, image_width := x\<rparr>)" for x
    by (subst parse_integer_decimal [where before = "before @ decimal w @ [s1]" and n = h and c = s2
          and rest = "decimal 255 @ s3 # pixels"]) (use assms(3) buffer(1) in auto)
  have third: "parse_integer (p\<lparr>m_cursor := length (before @ decimal w @ [s1]) + length (decimal h) + 1,
        image_width := x, image_height := y\<rparr>) =
      Inr (Some 255, p\<lparr>m_cursor := length (before @ decimal w @ [s1] @ decimal h @ [s2]) + length (decimal 255) + 1,
        image_width := x, image_height := y\<rparr>)" for x y
    by (subst parse_integer_decimal [where before = "before @ decimal w @ [s1] @ decimal h @ [s2]" and n = 255 and c = s3
          and rest = pixels]) (use assms(3,4) buffer(2) in auto)
  have len: "length (before @ decimal w @ [s1] @ decimal h @ [s2]) + length (decimal 255) + 1 =
      length (m_buffer p) - length pixels"
    unfolding buffer(2) by simp
  show ?thesis
    unfolding parse_header_def first using second third
    by (simp only: len prod.case option.case try_then.simps) simp
qed

definition comment_bytes :: "u8 list option \<Rightarrow> u8 list" where
  "comment_bytes comment = (case comment of None \<Rightarrow> [] | Some line \<Rightarrow> [35] @ line @ [10])"

lemma decimal_first: "\<exists>d ds. decimal n = d # ds \<and> d \<noteq> 35"
proof -
  have "decimal n \<noteq> []" by (simp add: decimal.simps [of n])
  then obtain d ds where "decimal n = d # ds" by (cases "decimal n") auto
  moreover from this have "48 \<le> unat d" using decimal_digits [of d n] by simp
  ultimately show ?thesis by fastforce
qed

lemma parse_comment_skips:
  assumes "m_buffer p = [80, 54, 10] @ comment_bytes comment @ decimal w @ rest" and "m_cursor p = 3"
    and "\<forall>line. comment = Some line \<longrightarrow> 10 \<notin> set line"
  shows "parse_comment p = Inr (True, p\<lparr>m_cursor := 3 + length (comment_bytes comment)\<rparr>)"
proof (cases comment)
  case None
  obtain d ds where "decimal w = d # ds" "d \<noteq> 35" using decimal_first by blast
  then show ?thesis using None assms
    by (simp add: parse_comment_def buffer_byte_def comment_bytes_def check_position_def nth_Cons')
next
  case (Some line)
  obtain d ds where digits: "decimal w = d # ds" using decimal_first by blast
  have "skip_until {10} ([80, 54, 10] @ (35 # line) @ 10 # decimal w @ rest) (length [80, 54, 10 :: u8]) =
      Inr (length [80, 54, 10 :: u8] + length (35 # line))"
    by (rule skip_until_stops) (use assms(3) Some in auto)
  then have "skip_until {10} (m_buffer p) 3 = Inr (4 + length line)"
    using Some assms(1) by (simp add: comment_bytes_def numeral_3_eq_3)
  then show ?thesis using Some assms digits
    by (simp add: parse_comment_def buffer_byte_def comment_bytes_def check_position_def nth_Cons' Let_def)
qed

lemma parse_reads_header:
  assumes "\<forall>line. comment = Some line \<longrightarrow> 10 \<notin> set line" and "{s1, s2, s3} \<subseteq> {32, 10}" and "pixels \<noteq> []"
    and header: "header = ppm_header comment w s1 h s2 s3"
  shows "\<exists>p. parse (ppm_new (header @ pixels)) = Inr (True, p) \<and> image_width p = of_nat w \<and>
    image_height p = of_nat h \<and> pixel_data p = Some (length header) \<and> m_buffer p = header @ pixels"
proof -
  let ?buffer = "header @ pixels"
  have buffer: "?buffer = [80, 54, 10] @ comment_bytes comment @ decimal w @ s1 # decimal h @ s2 # decimal 255 @ s3 # pixels"
    by (simp add: header ppm_header_def comment_bytes_def)
  let ?p = "\<lambda>k. ppm_new ?buffer\<lparr>m_cursor := k\<rparr>"
  have start: "check_position (ppm_new ?buffer)" "parse_magic (ppm_new ?buffer) = Inr (True, ?p 2)"
      "parse_new_line (?p 2) = Inr (True, ?p 3)"
    using decimal_first [of w]
    by (auto simp: buffer ppm_new_def check_position_def parse_magic_def parse_new_line_def buffer_byte_def Let_def)
  have skip: "parse_comment (?p 3) = Inr (True, ?p 3\<lparr>m_cursor := 3 + length (comment_bytes comment)\<rparr>)"
    by (rule parse_comment_skips [OF _ _ assms(1), where w = w and rest = "s1 # decimal h @ s2 # decimal 255 @ s3 # pixels"])
      (simp_all add: buffer ppm_new_def)
  have "parse_header (?p (3 + length (comment_bytes comment))) =
      Inr (True, (?p (3 + length (comment_bytes comment)))\<lparr>image_width := of_nat w, image_height := of_nat h,
        m_cursor := length ?buffer - length pixels, pixel_data := Some (length ?buffer - length pixels)\<rparr>)"
    using parse_header_ppm [of "?p (3 + length (comment_bytes comment))" "[80, 54, 10] @ comment_bytes comment"
        w s1 h s2 s3 pixels] assms(2,3) buffer by (simp add: ppm_new_def)
  then show ?thesis
    using start skip by (simp add: parse_def) (simp add: ppm_new_def)
qed

section \<open>The image is drawn in the middle\<close>

text \<open>The place of the image in numbers, and the pixels of it that come before a place.\<close>

definition image_x :: "framebuffer \<Rightarrow> ppm \<Rightarrow> nat" where
  "image_x fb p = (unat (m_width fb) - unat (image_width p)) div 2"

definition image_y :: "framebuffer \<Rightarrow> ppm \<Rightarrow> nat" where
  "image_y fb p = (unat (m_height fb) - unat (image_height p)) div 2"

definition covered :: "framebuffer \<Rightarrow> ppm \<Rightarrow> nat \<Rightarrow> nat \<Rightarrow> bool" where
  "covered fb p x y \<longleftrightarrow> image_x fb p \<le> x \<and> x < image_x fb p + unat (image_width p) \<and>
    image_y fb p \<le> y \<and> y < image_y fb p + unat (image_height p)"

definition expected_colour :: "framebuffer \<Rightarrow> ppm \<Rightarrow> nat \<Rightarrow> nat \<Rightarrow> u8 \<times> u8 \<times> u8" where
  "expected_colour fb p x y =
    (if covered fb p x y
     then let i = the (pixel_data p) + 3 * ((y - image_y fb p) * unat (image_width p) + (x - image_x fb p));
              (r, g, b) = (m_buffer p ! i, m_buffer p ! (i + 1), m_buffer p ! (i + 2))
          in case m_pixel_order fb of RGB \<Rightarrow> (r, g, b) | BGR \<Rightarrow> (b, g, r)
     else (0xBD, 0xBD, 0xBD))"

definition shows_colour :: "(nat \<Rightarrow> u8) \<Rightarrow> nat \<Rightarrow> u8 \<times> u8 \<times> u8 \<Rightarrow> bool" where
  "shows_colour memory a colour \<longleftrightarrow>
    (memory a, memory (a + 1), memory (a + 2)) = colour \<and> memory (a + 3) = 0xFF"

definition image_fits :: "framebuffer \<Rightarrow> ppm \<Rightarrow> bool" where
  "image_fits fb p \<longleftrightarrow> unat (image_width p) \<le> unat (m_width fb) \<and> unat (image_height p) \<le> unat (m_height fb) \<and>
    (\<exists>i. pixel_data p = Some i \<and> i + 3 * (unat (image_height p) * unat (image_width p)) \<le> length (m_buffer p)) \<and>
    4 * unat (m_width fb) \<le> unat (m_pitch fb)"

lemma inside_covered:
  assumes "image_fits fb p" and "x < unat (m_width fb)" and "y < unat (m_height fb)"
  shows "inside (logo_layout fb p) (of_nat x) (of_nat y) \<longleftrightarrow> covered fb p x y"
proof -
  have half: "unat ((ucast a - b) div 2 :: u32) = (unat a - unat b) div 2 \<and>
      unat ((ucast a - b) div 2 + b :: u32) = (unat a - unat b) div 2 + unat b"
    if "unat b \<le> unat a" for a :: u16 and b :: u32
  proof -
    have "unat a < 65536" by (rule unsigned_less [of a, simplified])
    then have a: "unat (ucast a :: u32) = unat a" by (simp add: unsigned_ucast_eq take_bit_nat_eq_self)
    then have "b \<le> ucast a" using that by (simp add: word_le_nat_alt)
    then have h: "unat ((ucast a - b) div 2 :: u32) = (unat a - unat b) div 2"
      by (simp add: unat_div unat_sub a)
    have "(unat a - unat b) div 2 + unat b < 2 ^ 32" using that \<open>unat a < 65536\<close> by simp
    then show ?thesis using h by (simp add: unat_word_ariths)
  qed
  have small: "unat (of_nat k :: u32) = k" if "k < unat a" for k and a :: u16
  proof -
    have "unat a < 65536" by (rule unsigned_less [of a, simplified])
    then have "k < 65536" using that by simp
    then show ?thesis by (simp add: unat_of_nat)
  qed
  show ?thesis
    using half small [OF assms(2)] small [OF assms(3)] assms(1)
    by (simp add: inside_def logo_layout_def covered_def image_x_def image_y_def image_fits_def Let_def
        word_le_nat_alt word_less_nat_alt)
qed

definition consumed :: "framebuffer \<Rightarrow> ppm \<Rightarrow> nat \<Rightarrow> nat \<Rightarrow> nat" where
  "consumed fb p x y =
    min (unat (image_height p)) (y - image_y fb p) * unat (image_width p) +
    (if image_y fb p \<le> y \<and> y < image_y fb p + unat (image_height p)
     then min (unat (image_width p)) (x - image_x fb p) else 0)"

lemma consumed_covered:
  "covered fb p x y \<Longrightarrow> consumed fb p x y = (y - image_y fb p) * unat (image_width p) + (x - image_x fb p)"
  by (auto simp: covered_def consumed_def min_def)

lemma consumed_Suc: "consumed fb p (Suc x) y = consumed fb p x y + (if covered fb p x y then 1 else 0)"
  by (auto simp: covered_def consumed_def min_def)

lemma consumed_row:
  assumes "image_fits fb p"
  shows "consumed fb p (unat (m_width fb)) y = consumed fb p 0 (Suc y)"
proof -
  let ?w = "unat (image_width p)" and ?h = "unat (image_height p)"
  have "image_x fb p + ?w \<le> unat (m_width fb)" using assms by (auto simp: image_fits_def image_x_def)
  then have full: "min ?w (unat (m_width fb) - image_x fb p) = ?w" by simp
  consider "y < image_y fb p" | "image_y fb p \<le> y" "y < image_y fb p + ?h" | "image_y fb p + ?h \<le> y"
    by linarith
  then show ?thesis
  proof cases
    case 1
    then show ?thesis by (simp add: consumed_def)
  next
    case 2
    then have "min ?h (Suc y - image_y fb p) = Suc (min ?h (y - image_y fb p))" by auto
    then show ?thesis using 2 full by (simp add: consumed_def)
  next
    case 3
    then show ?thesis by (simp add: consumed_def min_def)
  qed
qed

lemma covered_index:
  assumes "covered fb p x y"
  shows "consumed fb p x y < unat (image_height p) * unat (image_width p)"
proof -
  let ?w = "unat (image_width p)" and ?h = "unat (image_height p)"
  have "y - image_y fb p < ?h" "x - image_x fb p < ?w" using assms by (auto simp: covered_def)
  then have "Suc (y - image_y fb p) * ?w \<le> ?h * ?w" by (intro mult_le_mono1) simp
  then show ?thesis using \<open>x - image_x fb p < ?w\<close> by (simp add: consumed_covered [OF assms])
qed

lemma draw_pixel_correct:
  assumes fits: "image_fits fb p" "pixel_data p = Some i" and "x < unat (m_width fb)" and "y < unat (m_height fb)"
    and pos: "logo_pixels c = i + 3 * consumed fb p x y"
  shows "draw_pixel fb (logo_layout fb p) (m_buffer p) y x c =
    Inr ((put_pixel (expected_colour fb p x y) c)\<lparr>logo_pixels := i + 3 * consumed fb p (Suc x) y\<rparr>)"
proof (cases "covered fb p x y")
  case True
  have "i + 3 * (unat (image_height p) * unat (image_width p)) \<le> length (m_buffer p)"
    using fits by (auto simp: image_fits_def)
  then have "logo_pixels c + 2 < length (m_buffer p)" using covered_index [OF True] pos by linarith
  then show ?thesis
    using True inside_covered [OF fits(1) assms(3,4)] pos fits(2)
    by (simp add: draw_pixel_def buffer_byte_def expected_colour_def Let_def put_pixel_def consumed_Suc
        consumed_covered [OF True] split: pixel_order.splits)
next
  case False
  then show ?thesis
    using inside_covered [OF fits(1) assms(3,4)] pos
    by (simp add: draw_pixel_def expected_colour_def put_pixel_def consumed_Suc)
qed

lemma for_each_append: "for_each body (xs @ ys) s = try_then (for_each body xs s) (for_each body ys)"
proof (induction xs arbitrary: s)
  case Nil
  then show ?case by simp
next
  case (Cons x xs)
  then show ?case by (cases "body x s") simp_all
qed

lemma put_pixel_shows:
  "shows_colour (fb_bytes (put_pixel colour c)) (fb_ptr c) colour"
  "fb_ptr (put_pixel colour c) = fb_ptr c + 4"
  "k < fb_ptr c \<or> fb_ptr c + 4 \<le> k \<Longrightarrow> fb_bytes (put_pixel colour c) k = fb_bytes c k"
  by (auto simp: put_pixel_def shows_colour_def split: prod.splits)

lemma shows_colour_frame:
  "shows_colour m a colour \<Longrightarrow> (\<And>k. a \<le> k \<Longrightarrow> k < a + 4 \<Longrightarrow> m' k = m k) \<Longrightarrow> shows_colour m' a colour"
  by (simp add: shows_colour_def)

lemma draw_row_pixels:
  assumes fits: "image_fits fb p" "pixel_data p = Some i" and "y < unat (m_height fb)"
    and "logo_pixels c = i + 3 * consumed fb p 0 y" and "n \<le> unat (m_width fb)"
  shows "\<exists>c'. for_each (draw_pixel fb (logo_layout fb p) (m_buffer p) y) [0..<n] c = Inr c' \<and>
    fb_ptr c' = fb_ptr c + 4 * n \<and> logo_pixels c' = i + 3 * consumed fb p n y \<and>
    (\<forall>x<n. shows_colour (fb_bytes c') (fb_ptr c + 4 * x) (expected_colour fb p x y)) \<and>
    (\<forall>k. k < fb_ptr c \<or> fb_ptr c + 4 * n \<le> k \<longrightarrow> fb_bytes c' k = fb_bytes c k)"
  using assms(5)
proof (induction n)
  case 0
  then show ?case using assms(4) by simp
next
  case (Suc n)
  then obtain c1 where c1: "for_each (draw_pixel fb (logo_layout fb p) (m_buffer p) y) [0..<n] c = Inr c1"
      "fb_ptr c1 = fb_ptr c + 4 * n" "logo_pixels c1 = i + 3 * consumed fb p n y"
      "\<forall>x<n. shows_colour (fb_bytes c1) (fb_ptr c + 4 * x) (expected_colour fb p x y)"
      "\<forall>k. k < fb_ptr c \<or> fb_ptr c + 4 * n \<le> k \<longrightarrow> fb_bytes c1 k = fb_bytes c k"
    by auto
  define c2 where "c2 = (put_pixel (expected_colour fb p n y) c1)\<lparr>logo_pixels := i + 3 * consumed fb p (Suc n) y\<rparr>"
  have run: "for_each (draw_pixel fb (logo_layout fb p) (m_buffer p) y) [0..<Suc n] c = Inr c2"
    using c1(1) draw_pixel_correct [OF fits _ assms(3) c1(3)] Suc.prems
    by (simp add: for_each_append c2_def)
  have bytes: "fb_bytes c2 = fb_bytes (put_pixel (expected_colour fb p n y) c1)" "fb_ptr c2 = fb_ptr c1 + 4"
    by (simp_all add: c2_def put_pixel_shows(2))
  have "shows_colour (fb_bytes c2) (fb_ptr c + 4 * x) (expected_colour fb p x y)" if "x < Suc n" for x
  proof (cases "x = n")
    case True
    then show ?thesis using put_pixel_shows(1) [of "expected_colour fb p n y" c1] bytes c1(2) by simp
  next
    case False
    then have "shows_colour (fb_bytes c1) (fb_ptr c + 4 * x) (expected_colour fb p x y)" using that c1(4) by simp
    then show ?thesis
      by (rule shows_colour_frame) (use False that bytes c1(2) in \<open>simp add: put_pixel_shows(3)\<close>)
  qed
  moreover have "fb_bytes c2 k = fb_bytes c k" if "k < fb_ptr c \<or> fb_ptr c + 4 * Suc n \<le> k" for k
  proof -
    have "k < fb_ptr c1 \<or> fb_ptr c1 + 4 \<le> k" using that c1(2) by auto
    then have "fb_bytes c2 k = fb_bytes c1 k" unfolding bytes(1) by (rule put_pixel_shows(3))
    then show ?thesis using that c1(5) by auto
  qed
  ultimately show ?case using run bytes c1(2) by (auto simp: c2_def)
qed

lemma draw_rows_pixels:
  assumes fits: "image_fits fb p" "pixel_data p = Some i" and "n \<le> unat (m_height fb)"
  shows "\<exists>c'. for_each (draw_row fb (logo_layout fb p) (m_buffer p)) [0..<n]
      \<lparr>fb_bytes = memory, fb_ptr = 0, logo_pixels = i\<rparr> = Inr c' \<and>
    fb_ptr c' = n * unat (m_pitch fb) \<and> logo_pixels c' = i + 3 * consumed fb p 0 n \<and>
    (\<forall>y<n. \<forall>x<unat (m_width fb).
      shows_colour (fb_bytes c') (y * unat (m_pitch fb) + 4 * x) (expected_colour fb p x y))"
  using assms(3)
proof (induction n)
  case 0
  then show ?case by (simp add: consumed_def)
next
  case (Suc n)
  let ?w = "unat (m_width fb)" and ?pitch = "unat (m_pitch fb)"
  obtain c1 where c1: "for_each (draw_row fb (logo_layout fb p) (m_buffer p)) [0..<n]
      \<lparr>fb_bytes = memory, fb_ptr = 0, logo_pixels = i\<rparr> = Inr c1"
      "fb_ptr c1 = n * ?pitch" "logo_pixels c1 = i + 3 * consumed fb p 0 n"
      "\<forall>y<n. \<forall>x<?w. shows_colour (fb_bytes c1) (y * ?pitch + 4 * x) (expected_colour fb p x y)"
    using Suc by auto
  obtain c2 where c2: "for_each (draw_pixel fb (logo_layout fb p) (m_buffer p) n) [0..<?w] c1 = Inr c2"
      "fb_ptr c2 = fb_ptr c1 + 4 * ?w" "logo_pixels c2 = i + 3 * consumed fb p ?w n"
      "\<forall>x<?w. shows_colour (fb_bytes c2) (fb_ptr c1 + 4 * x) (expected_colour fb p x n)"
      "\<forall>k. k < fb_ptr c1 \<or> fb_ptr c1 + 4 * ?w \<le> k \<longrightarrow> fb_bytes c2 k = fb_bytes c1 k"
    using draw_row_pixels [OF fits _ c1(3) le_refl] Suc.prems by auto
  have pitch: "4 * ?w \<le> ?pitch" using fits(1) by (simp add: image_fits_def)
  have "?w < 65536" by (rule unsigned_less [of "m_width fb", simplified])
  then have "unat (ucast (m_width fb) * 4 :: u32) = 4 * ?w"
    by (simp add: unat_word_ariths unsigned_ucast_eq take_bit_nat_eq_self)
  then have gap: "unat (m_pitch fb - ucast (m_width fb) * 4) = ?pitch - 4 * ?w"
    using pitch by (simp add: unat_sub word_le_nat_alt)
  define c3 where "c3 = c2\<lparr>fb_ptr := Suc n * ?pitch\<rparr>"
  have "fb_ptr c2 + (?pitch - 4 * ?w) = Suc n * ?pitch" using c1(2) c2(2) pitch by simp
  then have run: "for_each (draw_row fb (logo_layout fb p) (m_buffer p)) [0..<Suc n]
      \<lparr>fb_bytes = memory, fb_ptr = 0, logo_pixels = i\<rparr> = Inr c3"
    using c1(1) c2(1) gap by (simp add: for_each_append draw_row_def c3_def)
  have "shows_colour (fb_bytes c3) (y * ?pitch + 4 * x) (expected_colour fb p x y)"
    if "y < Suc n" "x < ?w" for x y
  proof (cases "y = n")
    case True
    then show ?thesis using that c2(4) c1(2) by (simp add: c3_def)
  next
    case False
    then have "y < n" using that(1) by simp
    then have "Suc y * ?pitch \<le> n * ?pitch" by (intro mult_le_mono1) simp
    then have before: "y * ?pitch + 4 * x + 4 \<le> n * ?pitch" using pitch that(2) by simp
    have "shows_colour (fb_bytes c1) (y * ?pitch + 4 * x) (expected_colour fb p x y)"
      using c1(4) \<open>y < n\<close> that(2) by blast
    then show ?thesis
      by (rule shows_colour_frame) (use before c2(5) c1(2) in \<open>simp add: c3_def\<close>)
  qed
  then show ?case using run c2(3) consumed_row [OF fits(1)] by (auto simp: c3_def)
qed

lemma draw_logo_centres_image:
  assumes "parse (ppm_new buffer) = Inr (True, p)" and "m_buffer p = buffer" and "image_fits fb p"
  shows "\<exists>memory'. draw_logo fb buffer memory = Inr memory' \<and>
    (\<forall>y<unat (m_height fb). \<forall>x<unat (m_width fb).
      shows_colour memory' (y * unat (m_pitch fb) + 4 * x) (expected_colour fb p x y))"
proof -
  obtain i where i: "pixel_data p = Some i" using assms(3) by (auto simp: image_fits_def)
  obtain c where "for_each (draw_row fb (logo_layout fb p) (m_buffer p)) [0..<unat (m_height fb)]
      \<lparr>fb_bytes = memory, fb_ptr = 0, logo_pixels = i\<rparr> = Inr c"
    "\<forall>y<unat (m_height fb). \<forall>x<unat (m_width fb).
      shows_colour (fb_bytes c) (y * unat (m_pitch fb) + 4 * x) (expected_colour fb p x y)"
    using draw_rows_pixels [OF assms(3) i le_refl] by blast
  then show ?thesis using assms(1,2) i by (simp add: draw_logo_def)
qed

text \<open>
  C30. For an image file with any comment, of a size that fits the screen and with enough pixel data, drawing
  returns and the screen shows the image centred, its bytes in the order of the frame buffer, on grey.
\<close>

theorem boot_logo_drawn:
  assumes "\<forall>line. comment = Some line \<longrightarrow> 10 \<notin> set line" and "{s1, s2, s3} \<subseteq> {32, 10}"
    and "0 < length pixels" and "3 * (h * w) \<le> length pixels"
    and "w \<le> unat (m_width fb)" and "h \<le> unat (m_height fb)" and "4 * unat (m_width fb) \<le> unat (m_pitch fb)"
    and "left = (unat (m_width fb) - w) div 2" and "upper = (unat (m_height fb) - h) div 2"
  shows "\<exists>memory'. draw_logo fb (ppm_header comment w s1 h s2 s3 @ pixels) memory = Inr memory' \<and>
    (\<forall>y<unat (m_height fb). \<forall>x<unat (m_width fb).
      shows_colour memory' (y * unat (m_pitch fb) + 4 * x)
        (if left \<le> x \<and> x < left + w \<and> upper \<le> y \<and> y < upper + h
         then let i = 3 * ((y - upper) * w + (x - left)); (r, g, b) = (pixels ! i, pixels ! (i + 1), pixels ! (i + 2))
              in case m_pixel_order fb of RGB \<Rightarrow> (r, g, b) | BGR \<Rightarrow> (b, g, r)
         else (0xBD, 0xBD, 0xBD)))"
proof -
  define header where "header = ppm_header comment w s1 h s2 s3"
  obtain p where p: "parse (ppm_new (header @ pixels)) = Inr (True, p)" "image_width p = of_nat w"
      "image_height p = of_nat h" "pixel_data p = Some (length header)" "m_buffer p = header @ pixels"
    using parse_reads_header [OF assms(1,2) _ header_def] assms(3) by auto
  have "unat (m_width fb) < 65536" "unat (m_height fb) < 65536"
    by (rule unsigned_less [of "m_width fb", simplified], rule unsigned_less [of "m_height fb", simplified])
  then have sizes: "unat (image_width p) = w" "unat (image_height p) = h"
    using assms(5,6) p(2,3) by (simp_all add: unat_of_nat)
  have fits: "image_fits fb p"
    using assms(4-7) p(4,5) by (simp add: image_fits_def sizes)
  have byte: "(header @ pixels) ! (length header + k) = pixels ! k" for k by simp
  have colour: "expected_colour fb p x y =
      (if left \<le> x \<and> x < left + w \<and> upper \<le> y \<and> y < upper + h
       then let i = 3 * ((y - upper) * w + (x - left)); (r, g, b) = (pixels ! i, pixels ! (i + 1), pixels ! (i + 2))
            in case m_pixel_order fb of RGB \<Rightarrow> (r, g, b) | BGR \<Rightarrow> (b, g, r)
       else (0xBD, 0xBD, 0xBD))" for x y
    unfolding expected_colour_def covered_def image_x_def image_y_def sizes p(4,5) assms(8,9)
    by (simp only: Let_def option.sel prod.case add.assoc byte)
  show ?thesis
    using draw_logo_centres_image [OF p(1,5) fits, of memory] unfolding colour header_def .
qed

lemma boot_logo_drawn_witness:
  "\<exists>memory'. draw_logo (framebuffer_unset\<lparr>m_pitch := 5120\<rparr>) (ppm_header (Some [71]) 1 32 1 10 10 @ [7, 8, 9]) (\<lambda>a. 0) =
    Inr memory' \<and> shows_colour memory' (359 * 5120 + 4 * 639) (7, 8, 9)"
proof -
  let ?fb = "framebuffer_unset\<lparr>m_pitch := 5120\<rparr>"
  have size: "unat (m_width ?fb) = 1280" "unat (m_height ?fb) = 720" "unat (m_pitch ?fb) = 5120"
      "m_pixel_order ?fb = RGB"
    by (simp_all add: framebuffer_unset_def)
  let ?shown = "\<lambda>memory'. \<forall>y<720. \<forall>x<1280. shows_colour memory' (y * 5120 + 4 * x)
    (if 639 \<le> x \<and> x < 639 + 1 \<and> 359 \<le> y \<and> y < 359 + 1
     then let i = 3 * ((y - 359) * 1 + (x - 639)); (r, g, b) = ([7, 8, 9] ! i, [7, 8, 9] ! (i + 1), [7, 8, 9] ! (i + 2))
          in case RGB of RGB \<Rightarrow> (r, g, b) | BGR \<Rightarrow> (b, g, r)
     else (0xBD, 0xBD, 0xBD))"
  have "\<exists>memory'. draw_logo ?fb (ppm_header (Some [71]) 1 32 1 10 10 @ [7, 8, 9]) (\<lambda>a. 0) = Inr memory' \<and> ?shown memory'"
    by (rule boot_logo_drawn [of "Some [71]" 32 10 10 "[7, 8, 9]" 1 1 ?fb 639 359 "\<lambda>a. 0", unfolded size]) simp_all
  then obtain memory' where drawn: "draw_logo ?fb (ppm_header (Some [71]) 1 32 1 10 10 @ [7, 8, 9]) (\<lambda>a. 0) = Inr memory'"
    and shown: "?shown memory'" by blast
  have "shows_colour memory' (359 * 5120 + 4 * 639) (7, 8, 9)"
    using shown [rule_format, of 359 639] by simp
  then show ?thesis using drawn by blast
qed

end
