(* ===== verification/StringView.thy ===== *)
theory StringView
  imports CharacterTypes
begin

unbundle bit_operations_syntax

text \<open>
  \<open>AK/StringView.h\<close> and \<open>AK/StringView.cpp\<close>: views of characters in memory. A view is the address of its
  first character, zero for a null view, and its characters as bytes. Two views of one piece of
  memory are related by their addresses, which the functions that continue after a part use.
\<close>

record string_view =
  m_characters :: nat
  chars :: "u8 list"

definition is_null :: "string_view \<Rightarrow> bool" where
  "is_null s \<longleftrightarrow> m_characters s = 0"

definition view_is_empty :: "string_view \<Rightarrow> bool" where
  "view_is_empty s \<longleftrightarrow> length (chars s) = 0"

definition null_view :: string_view where
  "null_view = \<lparr>m_characters = 0, chars = []\<rparr>"

definition char_at :: "string_view \<Rightarrow> nat \<Rightarrow> u8 error_or" where
  "char_at s i = verify (i < length (chars s)) (Inr (chars s ! i))"

text \<open>
  \<open>size_t\<close> and addresses have 64 bits; the sum that is checked wraps, and the constructor checks that
  the end of the view does not. A view outside the characters is \<open>BadPointer\<close>.
\<close>

definition substring_view :: "string_view \<Rightarrow> nat \<Rightarrow> nat \<Rightarrow> string_view error_or" where
  "substring_view s start len =
    verify ((start + len) mod 2 ^ 64 \<le> length (chars s))
      (verify ((m_characters s + start) mod 2 ^ 64 + len < 2 ^ 64)
        (if start + len \<le> length (chars s)
         then Inr \<lparr>m_characters = m_characters s + start, chars = take len (drop start (chars s))\<rparr>
         else Inl BadPointer))"

text \<open>The characters of a view lie in memory, so that their addresses have 64 bits.\<close>

definition in_memory :: "string_view \<Rightarrow> bool" where
  "in_memory s \<longleftrightarrow> m_characters s + length (chars s) < 2 ^ 64"

lemma substring_view_inside:
  assumes "in_memory s" and "start + len \<le> length (chars s)"
  shows "substring_view s start len =
    Inr \<lparr>m_characters = m_characters s + start, chars = take len (drop start (chars s))\<rparr>"
  using assms by (simp add: substring_view_def in_memory_def)

definition substring_view_from :: "string_view \<Rightarrow> nat \<Rightarrow> string_view error_or" where
  "substring_view_from s start =
    verify (start \<le> length (chars s)) (substring_view s start (length (chars s) - start))"

definition rest_from :: "string_view \<Rightarrow> nat \<Rightarrow> string_view error_or" where
  "rest_from s remaining_characters =
    verify (remaining_characters \<ge> m_characters s)
      (verify (remaining_characters \<le> m_characters s + length (chars s))
        (Inr \<lparr>m_characters = remaining_characters, chars = drop (remaining_characters - m_characters s) (chars s)\<rparr>))"

definition substring_view_starting_from_substring :: "string_view \<Rightarrow> string_view \<Rightarrow> string_view error_or" where
  "substring_view_starting_from_substring s substring = rest_from s (m_characters substring)"

definition substring_view_starting_after_substring :: "string_view \<Rightarrow> string_view \<Rightarrow> string_view error_or" where
  "substring_view_starting_after_substring s substring =
    rest_from s (m_characters substring + length (chars substring))"

definition view_contains_char :: "string_view \<Rightarrow> u8 \<Rightarrow> bool" where
  "view_contains_char s needle \<longleftrightarrow> needle \<in> set (chars s)"

definition starts_with_char :: "string_view \<Rightarrow> u8 \<Rightarrow> bool" where
  "starts_with_char s ch = (if view_is_empty s then False else ch = chars s ! 0)"

definition ends_with_char :: "string_view \<Rightarrow> u8 \<Rightarrow> bool" where
  "ends_with_char s ch = (if view_is_empty s then False else ch = chars s ! (length (chars s) - 1))"

text \<open>\<open>memcmp\<close> compares bytes as unsigned numbers; only the sign of its result is defined.\<close>

fun compare_bytes :: "u8 list \<Rightarrow> u8 list \<Rightarrow> int" where
  "compare_bytes (a # as) (b # bs) = (if a < b then -1 else if b < a then 1 else compare_bytes as bs)"
| "compare_bytes _ _ = 0"

definition compare_views :: "string_view \<Rightarrow> string_view \<Rightarrow> int" where
  "compare_views s other =
    (if m_characters s = 0 then if m_characters other \<noteq> 0 then -1 else 0
     else if m_characters other = 0 then 1
     else let rlen = min (length (chars s)) (length (chars other));
              c = compare_bytes (take rlen (chars s)) (take rlen (chars other))
          in if c = 0
             then if length (chars s) < length (chars other) then 1
                  else if length (chars s) = length (chars other) then 0 else 1
             else c)"

definition views_equal :: "string_view \<Rightarrow> string_view \<Rightarrow> bool" where
  "views_equal s other \<longleftrightarrow> length (chars s) = length (chars other) \<and> compare_views s other = 0"

definition views_differ :: "string_view \<Rightarrow> string_view \<Rightarrow> bool" where
  "views_differ s other \<longleftrightarrow> length (chars s) \<noteq> length (chars other) \<or> compare_views s other \<noteq> 0"

definition view_less :: "string_view \<Rightarrow> string_view \<Rightarrow> bool" where
  "view_less s other \<longleftrightarrow> compare_views s other < 0"

definition view_greater :: "string_view \<Rightarrow> string_view \<Rightarrow> bool" where
  "view_greater s other \<longleftrightarrow> compare_views s other > 0"

text \<open>The buffer after the copy, of which the first bytes are written; the result is the assigned length.\<close>

definition copy_characters_to_buffer :: "string_view \<Rightarrow> u8 list \<Rightarrow> (bool \<times> u8 list) error_or" where
  "copy_characters_to_buffer s buffer =
    verify (length buffer > 0)
      (let characters_to_copy = min (length (chars s)) (length buffer - 1)
       in Inr (length (chars s) \<noteq> 0,
            take characters_to_copy (chars s) @ 0 # drop (characters_to_copy + 1) buffer))"

section \<open>Splitting\<close>

text \<open>
  The loops of \<open>lines\<close> and \<open>split_view_if\<close> over the indices from \<open>i\<close>; the parts are appended in order.
  The parts taken lie in the view, so taking them cannot fail; an error would be passed on.
\<close>

fun lines_loop :: "string_view \<Rightarrow> u8 list \<Rightarrow> nat \<Rightarrow> nat \<Rightarrow> bool \<Rightarrow> string_view list error_or" where
  "lines_loop s [] i substart last_ch_was_cr =
    (if length (chars s) - substart \<noteq> 0
     then try_then (substring_view s substart (length (chars s) - substart)) (\<lambda>v. Inr [v]) else Inr [])"
| "lines_loop s (ch # rest) i substart last_ch_was_cr =
    (let substart' = (if ch = 10 \<and> last_ch_was_cr then i + 1 else substart);
         split = (ch = 10 \<and> \<not> last_ch_was_cr \<or> ch = 13)
     in if split
        then try_then (substring_view s substart' (i - substart')) (\<lambda>v.
          try_then (lines_loop s rest (i + 1) (i + 1) (ch = 13)) (\<lambda>vs. Inr (v # vs)))
        else lines_loop s rest (i + 1) substart' (ch = 13))"

fun split_if_loop ::
    "string_view \<Rightarrow> (u8 \<Rightarrow> bool) \<Rightarrow> bool \<Rightarrow> u8 list \<Rightarrow> nat \<Rightarrow> nat \<Rightarrow> string_view list error_or" where
  "split_if_loop s predicate keep_empty [] i substart =
    (let taillen = length (chars s) - substart
     in if taillen \<noteq> 0 \<or> keep_empty then try_then (substring_view s substart taillen) (\<lambda>v. Inr [v]) else Inr [])"
| "split_if_loop s predicate keep_empty (ch # rest) i substart =
    (if predicate ch
     then let sublen = i - substart
          in if sublen \<noteq> 0 \<or> keep_empty
             then try_then (substring_view s substart sublen) (\<lambda>v.
               try_then (split_if_loop s predicate keep_empty rest (i + 1) (i + 1)) (\<lambda>vs. Inr (v # vs)))
             else split_if_loop s predicate keep_empty rest (i + 1) (i + 1)
     else split_if_loop s predicate keep_empty rest (i + 1) substart)"

definition split_view_if :: "string_view \<Rightarrow> (u8 \<Rightarrow> bool) \<Rightarrow> bool \<Rightarrow> string_view list error_or" where
  "split_view_if s predicate keep_empty =
    (if view_is_empty s then Inr [] else split_if_loop s predicate keep_empty (chars s) 0 0)"

end
