(* ===== verification/Utf8.thy ===== *)
theory Utf8
  imports CharacterTypes
begin

unbundle bit_operations_syntax

text \<open>
  \<open>AK/UnicodeUtils.h\<close> and \<open>AK/Utf8View.cpp\<close>: encoding of code points and views of encoded text. A view
  is its list of bytes; an iterator, a pointer with the length that is left, is the list of the
  bytes that are left.
\<close>

section \<open>Encoding\<close>

definition continuation :: "u32 \<Rightarrow> nat \<Rightarrow> u8" where
  "continuation code_point n = ucast ((drop_bit n code_point AND 0x3F) OR 0x80)"

text \<open>The characters handed to the callback; \<open>None\<close> is the result -1, without a call.\<close>

definition code_point_to_utf8 :: "u32 \<Rightarrow> u8 list option" where
  "code_point_to_utf8 code_point =
    (if code_point \<le> 0x7F then Some [ucast code_point]
     else if code_point \<le> 0x7FF
     then Some [ucast ((drop_bit 6 code_point AND 0x1F) OR 0xC0), continuation code_point 0]
     else if code_point \<le> 0xFFFF
     then Some [ucast ((drop_bit 12 code_point AND 0x0F) OR 0xE0), continuation code_point 6, continuation code_point 0]
     else if code_point \<le> 0x10FFFF
     then Some [ucast ((drop_bit 18 code_point AND 0x07) OR 0xF0), continuation code_point 12,
       continuation code_point 6, continuation code_point 0]
     else None)"

section \<open>Decoding\<close>

definition decode_first_byte :: "u8 \<Rightarrow> (nat \<times> u32) option" where
  "decode_first_byte byte =
    (if byte AND 128 = 0 then Some (1, ucast byte)
     else if byte AND 64 = 0 then None
     else if byte AND 32 = 0 then Some (2, ucast (byte AND 31))
     else if byte AND 16 = 0 then Some (3, ucast (byte AND 15))
     else if byte AND 8 = 0 then Some (4, ucast (byte AND 7))
     else None)"

text \<open>The loop over the continuation bytes; \<open>None\<close> when one does not have the form 10xxxxxx.\<close>

fun add_continuations :: "u8 list \<Rightarrow> u32 \<Rightarrow> u32 option" where
  "add_continuations [] v = Some v"
| "add_continuations (b # bs) v =
    (if drop_bit 6 b \<noteq> 2 then None else add_continuations bs (push_bit 6 v OR (ucast b AND 63)))"

definition underlying_code_point_length_in_bytes :: "u8 list \<Rightarrow> nat error_or" where
  "underlying_code_point_length_in_bytes it =
    (case it of [] \<Rightarrow> Inl VerifyFailed
     | b # rest \<Rightarrow> Inr (case decode_first_byte b of None \<Rightarrow> 1
        | Some (n, v) \<Rightarrow>
            if n > length it then 1
            else if add_continuations (take (n - 1) rest) v = None then 1 else n))"

definition dereference :: "u8 list \<Rightarrow> u32 error_or" where
  "dereference it =
    (case it of [] \<Rightarrow> Inl VerifyFailed
     | b # rest \<Rightarrow> Inr (case decode_first_byte b of None \<Rightarrow> 0xFFFD
        | Some (n, v) \<Rightarrow>
            if n > length it then 0xFFFD
            else case add_continuations (take (n - 1) rest) v of None \<Rightarrow> 0xFFFD | Some w \<Rightarrow> w))"

text \<open>The increment computes the length of the code point for a message only and moves one byte.\<close>

definition iterator_increment :: "u8 list \<Rightarrow> u8 list error_or" where
  "iterator_increment it = (case it of [] \<Rightarrow> Inl VerifyFailed | b # rest \<Rightarrow> Inr rest)"

text \<open>What a loop over the view reads: the value at every position of the iterator.\<close>

function code_points :: "u8 list \<Rightarrow> u32 list" where
  "code_points it =
    (if it = [] then [] else projr (dereference it) # code_points (projr (iterator_increment it)))"
  by pat_completeness auto
termination by (relation "measure length") (auto simp: iterator_increment_def split: list.splits)

declare code_points.simps [simp del]

fun peek :: "u8 list \<Rightarrow> nat \<Rightarrow> u32 option error_or" where
  "peek it 0 = (if it = [] then Inr None else try_then (dereference it) (\<lambda>v. Inr (Some v)))"
| "peek it (Suc offset) =
    try_then (iterator_increment it) (\<lambda>it. if it = [] then Inr None else peek it offset)"

section \<open>Views\<close>

text \<open>One character of \<open>validate\<close>: the first byte, then the continuation bytes that must be there.\<close>

fun validate_from :: "u8 list \<Rightarrow> nat \<Rightarrow> bool \<times> nat" where
  "validate_from [] valid_bytes = (True, valid_bytes)"
| "validate_from (b # rest) valid_bytes =
    (case decode_first_byte b of None \<Rightarrow> (False, valid_bytes)
     | Some (n, v) \<Rightarrow>
        if length rest < n - 1 then (False, valid_bytes)
        else case add_continuations (take (n - 1) rest) v of None \<Rightarrow> (False, valid_bytes)
          | Some code_point \<Rightarrow>
              if \<not> is_unicode code_point then (False, valid_bytes)
              else validate_from (drop (n - 1) rest) (valid_bytes + n))"

definition validate :: "u8 list \<Rightarrow> bool \<times> nat" where
  "validate view = validate_from view 0"

definition view_length :: "u8 list \<Rightarrow> nat" where
  "view_length view = length (code_points view)"

definition contains_code_point :: "u8 list \<Rightarrow> u32 \<Rightarrow> bool" where
  "contains_code_point view needle \<longleftrightarrow> needle \<in> set (code_points view)"

fun all_equal :: "u8 list \<Rightarrow> u8 list \<Rightarrow> bool" where
  "all_equal k [] = True"
| "all_equal k (c # start) =
    (if dereference k \<noteq> dereference (c # start) then False else all_equal (projr (iterator_increment k)) start)"

definition view_starts_with :: "u8 list \<Rightarrow> u8 list \<Rightarrow> bool" where
  "view_starts_with view start =
    (if start = [] then True
     else if view = [] then False
     else if view_length start > view_length view then False
     else all_equal view start)"

fun iterator_from :: "u8 list \<Rightarrow> nat \<Rightarrow> nat \<Rightarrow> u8 list" where
  "iterator_from [] current_offset byte_offset = []"
| "iterator_from (b # rest) current_offset byte_offset =
    (if current_offset \<ge> byte_offset then b # rest
     else iterator_from rest (current_offset + projr (underlying_code_point_length_in_bytes (b # rest))) byte_offset)"

definition iterator_at_byte_offset :: "u8 list \<Rightarrow> nat \<Rightarrow> u8 list" where
  "iterator_at_byte_offset view byte_offset = iterator_from view 0 byte_offset"

definition byte_offset_of :: "u8 list \<Rightarrow> u8 list \<Rightarrow> nat error_or" where
  "byte_offset_of view it = verify (length it \<le> length view) (Inr (length view - length it))"

fun byte_offset_of_code_point :: "u8 list \<Rightarrow> nat \<Rightarrow> nat" where
  "byte_offset_of_code_point [] code_point_offset = 0"
| "byte_offset_of_code_point (b # rest) code_point_offset =
    (if code_point_offset = 0 then 0
     else projr (underlying_code_point_length_in_bytes (b # rest))
       + byte_offset_of_code_point rest (code_point_offset - 1))"

text \<open>
  Trimming counts bytes in \<open>size_t\<close>, whose subtraction wraps. The condition of the second half is
  \<open>mode == TrimMode::Right || TrimMode::Both\<close>, which holds for every mode. \<open>None\<close> is the empty
  view returned from within a loop.
\<close>

datatype trim_mode = TrimLeft | TrimRight | TrimBoth

fun trim_left :: "u8 list \<Rightarrow> u8 list \<Rightarrow> u64 \<Rightarrow> u64 \<Rightarrow> (u64 \<times> u64) option" where
  "trim_left characters [] substring_start substring_length = Some (substring_start, substring_length)"
| "trim_left characters (b # rest) substring_start substring_length =
    (if substring_length = 0 then None
     else if \<not> contains_code_point characters (projr (dereference (b # rest)))
     then Some (substring_start, substring_length)
     else let n = of_nat (projr (underlying_code_point_length_in_bytes (b # rest)))
          in trim_left characters rest (substring_start + n) (substring_length - n))"

fun whitespace_at_end :: "u8 list \<Rightarrow> u8 list \<Rightarrow> u64 \<Rightarrow> u64" where
  "whitespace_at_end characters [] seen = seen"
| "whitespace_at_end characters (b # rest) seen =
    whitespace_at_end characters rest
      (if contains_code_point characters (projr (dereference (b # rest)))
       then seen + of_nat (projr (underlying_code_point_length_in_bytes (b # rest))) else 0)"

definition view_substring :: "u8 list \<Rightarrow> u64 \<Rightarrow> u64 \<Rightarrow> u8 list error_or" where
  "view_substring view start len =
    verify (start + len \<le> of_nat (length view)) (Inr (take (unat len) (drop (unat start) view)))"

definition trim :: "u8 list \<Rightarrow> u8 list \<Rightarrow> trim_mode \<Rightarrow> u8 list error_or" where
  "trim view characters mode =
    (case (if mode = TrimLeft \<or> mode = TrimBoth then trim_left characters view 0 (of_nat (length view))
           else Some (0, of_nat (length view))) of
       None \<Rightarrow> Inr []
     | Some (substring_start, substring_length) \<Rightarrow>
         let seen = whitespace_at_end characters view 0
         in if seen \<ge> substring_length then Inr []
            else view_substring view substring_start (substring_length - seen))"

section \<open>What is encoded is decoded\<close>

lemma and_power_eq_0 [simp]:
  "(b AND 128 = 0) = (\<not> bit b 7)" "(b AND 64 = 0) = (\<not> bit b 6)" "(b AND 32 = 0) = (\<not> bit b 5)"
  "(b AND 16 = 0) = (\<not> bit b 4)" "(b AND 8 = 0) = (\<not> bit b 3)" for b :: u8
  using and_exp_eq_0_iff_not_bit [of b 7] and_exp_eq_0_iff_not_bit [of b 6] and_exp_eq_0_iff_not_bit [of b 5]
    and_exp_eq_0_iff_not_bit [of b 4] and_exp_eq_0_iff_not_bit [of b 3] by simp_all

lemma continuation_form: "drop_bit 6 (continuation c n) = 2"
proof (rule bit_word_eqI)
  fix k :: nat
  assume "k < LENGTH(8)"
  then have "k \<in> set [0..<8]" by simp
  moreover have "\<forall>k\<in>set [0..<8]. bit (drop_bit 6 (continuation c n)) k = bit (2 :: u8) k"
    by (simp add: upt_rec continuation_def bit_simps)
  ultimately show "bit (drop_bit 6 (continuation c n)) k = bit (2 :: u8) k" by blast
qed

lemma word_bits_eqI:
  fixes v w :: "'a :: len word"
  assumes "\<forall>k\<in>set [0..<LENGTH('a)]. bit v k = bit w k"
  shows "v = w"
  using assms by (intro bit_word_eqI) simp

lemma high_bits_clear:
  fixes c :: u32
  assumes "unat c < 2 ^ n" and "n \<le> k"
  shows "\<not> bit c k"
proof -
  have "(2 :: nat) ^ n \<le> 2 ^ k" using assms(2) by simp
  then have "unat c < 2 ^ k" using assms(1) by linarith
  then have "drop_bit k (unat c) = 0" by (simp add: drop_bit_eq_div)
  then have "\<not> bit (unat c) k" by (simp add: bit_iff_odd_drop_bit)
  then show ?thesis by (simp add: bit_unsigned_iff)
qed

lemma continuation_value: "ucast (continuation c n) AND 63 = drop_bit n c AND (63 :: u32)"
  by (rule word_bits_eqI) (simp add: upt_rec continuation_def bit_simps)

lemma first_byte:
  "decode_first_byte (ucast ((v AND 0x1F) OR 0xC0)) = Some (2, v AND 0x1F)"
  "decode_first_byte (ucast ((v AND 0x0F) OR 0xE0)) = Some (3, v AND 0x0F)"
  "decode_first_byte (ucast ((v AND 0x07) OR 0xF0)) = Some (4, v AND 0x07)" for v :: u32
proof -
  have "ucast (ucast ((v AND 0x1F) OR 0xC0) AND 31 :: u8) = v AND 0x1F"
    by (rule word_bits_eqI) (simp add: upt_rec bit_simps)
  then show "decode_first_byte (ucast ((v AND 0x1F) OR 0xC0)) = Some (2, v AND 0x1F)"
    by (simp add: decode_first_byte_def bit_simps)
  have "ucast (ucast ((v AND 0x0F) OR 0xE0) AND 15 :: u8) = v AND 0x0F"
    by (rule word_bits_eqI) (simp add: upt_rec bit_simps)
  then show "decode_first_byte (ucast ((v AND 0x0F) OR 0xE0)) = Some (3, v AND 0x0F)"
    by (simp add: decode_first_byte_def bit_simps)
  have "ucast (ucast ((v AND 0x07) OR 0xF0) AND 7 :: u8) = v AND 0x07"
    by (rule word_bits_eqI) (simp add: upt_rec bit_simps)
  then show "decode_first_byte (ucast ((v AND 0x07) OR 0xF0)) = Some (4, v AND 0x07)"
    by (simp add: decode_first_byte_def bit_simps)
qed

lemma join_bits:
  "push_bit k (drop_bit (n + k) c AND mask j) OR (drop_bit n c AND mask k) = drop_bit n c AND mask (j + k)" for c :: u32
  by (rule bit_word_eqI) (auto simp: bit_or_iff bit_and_iff bit_push_bit_iff bit_drop_bit_eq bit_mask_iff add.commute
      add.left_commute)

lemma masks: "(63 :: u32) = mask 6" "(0x1F :: u32) = mask 5" "(0x0F :: u32) = mask 4" "(0x07 :: u32) = mask 3"
  by (simp_all only: mask_eq_exp_minus_1) simp_all

lemma low_bits:
  fixes c :: u32
  assumes "unat c < 2 ^ n"
  shows "drop_bit 0 c AND mask n = c"
proof (rule bit_word_eqI)
  fix k :: nat
  have "bit c k \<Longrightarrow> k < n" using high_bits_clear [OF assms, of k] by (meson not_le)
  then show "bit (drop_bit 0 c AND mask n) k = bit c k"
    using bit_imp_le_length [of c k] by (auto simp: bit_and_iff bit_mask_iff)
qed

lemma joined_value:
  fixes c :: u32
  shows "unat c < 2 ^ 11 \<Longrightarrow> push_bit 6 (drop_bit 6 c AND 0x1F) OR (drop_bit 0 c AND 63) = c"
    and "unat c < 2 ^ 16 \<Longrightarrow> push_bit 6 (push_bit 6 (drop_bit 12 c AND 0x0F) OR (drop_bit 6 c AND 63)) OR (drop_bit 0 c AND 63) = c"
    and "unat c < 2 ^ 21 \<Longrightarrow> push_bit 6 (push_bit 6 (push_bit 6 (drop_bit 18 c AND 0x07) OR (drop_bit 12 c AND 63)) OR (drop_bit 6 c AND 63))
     OR (drop_bit 0 c AND 63) = c"
  using join_bits [of 6 0 c 5] join_bits [of 6 6 c 4] join_bits [of 6 0 c 10] join_bits [of 6 12 c 3] join_bits [of 6 6 c 9]
    join_bits [of 6 0 c 15] low_bits [of c 11] low_bits [of c 16] low_bits [of c 21]
  unfolding masks by (simp_all only: add_0 arith_simps)

text \<open>The bytes of one code point: the first byte announces the rest, which decode to the code point.\<close>

lemma encoding_shape:
  assumes "code_point_to_utf8 c = Some bs"
  shows "\<exists>b rest v. bs = b # rest \<and> decode_first_byte b = Some (length bs, v) \<and>
    add_continuations rest v = Some c \<and> is_unicode c"
proof -
  have limits: "c \<le> 0x7FF \<Longrightarrow> unat c < 2 ^ 11" "c \<le> 0xFFFF \<Longrightarrow> unat c < 2 ^ 16" "c \<le> 0x10FFFF \<Longrightarrow> unat c < 2 ^ 21"
    by (simp_all add: word_le_nat_alt)
  have ascii: "decode_first_byte (ucast c) = Some (1, c)" if "c \<le> 0x7F"
  proof -
    have "unat c < 2 ^ 7" using that by (simp add: word_le_nat_alt)
    then have "\<not> bit c k" if "7 \<le> k" for k using high_bits_clear [of c 7 k] that by simp
    moreover from this have "ucast (ucast c :: u8) = c"
      by (intro word_bits_eqI) (simp add: upt_rec bit_simps)
    ultimately show ?thesis by (simp add: decode_first_byte_def bit_simps)
  qed
  have unicode: "c \<le> 0x7F \<Longrightarrow> c \<le> 0x10FFFF" "c \<le> 0x7FF \<Longrightarrow> c \<le> 0x10FFFF" "c \<le> 0xFFFF \<Longrightarrow> c \<le> 0x10FFFF"
    by (simp_all add: word_le_nat_alt)
  note decode = unicode continuation_form continuation_value first_byte joined_value limits ascii
  show ?thesis
    using assms decode
    by (auto simp: code_point_to_utf8_def is_unicode_def split: if_splits)
qed

lemma decode_encoded:
  assumes "code_point_to_utf8 c = Some bs"
  shows "dereference (bs @ rest) = Inr c \<and> underlying_code_point_length_in_bytes (bs @ rest) = Inr (length bs) \<and>
    validate_from (bs @ rest) n = validate_from rest (n + length bs)"
proof -
  obtain b tail v where "bs = b # tail" "decode_first_byte b = Some (length bs, v)" "add_continuations tail v = Some c"
      "is_unicode c"
    using encoding_shape [OF assms] by blast
  then show ?thesis by (simp add: dereference_def underlying_code_point_length_in_bytes_def)
qed

lemma code_point_to_utf8_total: "code_point_to_utf8 c = None \<longleftrightarrow> \<not> is_unicode c"
proof -
  have "c \<le> 0x7F \<Longrightarrow> c \<le> 0x10FFFF" "c \<le> 0x7FF \<Longrightarrow> c \<le> 0x10FFFF" "c \<le> 0xFFFF \<Longrightarrow> c \<le> 0x10FFFF"
    by (simp_all add: word_le_nat_alt)
  then show ?thesis by (auto simp: code_point_to_utf8_def is_unicode_def)
qed

definition encode_all :: "u32 list \<Rightarrow> u8 list" where
  "encode_all cs = concat (map (\<lambda>c. the (code_point_to_utf8 c)) cs)"

lemma validate_encode_all:
  "\<forall>c\<in>set cs. is_unicode c \<Longrightarrow> validate_from (encode_all cs @ rest) n = validate_from rest (n + length (encode_all cs))"
proof (induction cs arbitrary: n)
  case Nil
  then show ?case by (simp add: encode_all_def)
next
  case (Cons c cs)
  obtain bs where bs: "code_point_to_utf8 c = Some bs" using Cons.prems code_point_to_utf8_total [of c] by auto
  have split: "encode_all (c # cs) = bs @ encode_all cs" using bs by (simp add: encode_all_def)
  have "validate_from (bs @ encode_all cs @ rest) n = validate_from (encode_all cs @ rest) (n + length bs)"
    using decode_encoded [OF bs] by blast
  also have "\<dots> = validate_from rest (n + length bs + length (encode_all cs))"
    using Cons by simp
  finally show ?case by (simp add: split add.assoc)
qed

text \<open>
  C32. Every code point up to 0x10FFFF, and no other, is encoded; the view of its bytes, whatever follows
  them, reads it back with its length, and the encoding of any sequence of them is valid to its end.
\<close>

theorem utf8_round_trip:
  assumes "\<forall>c\<in>set (cs @ [c]). is_unicode c"
  shows "\<exists>bs. code_point_to_utf8 c = Some bs \<and> dereference (bs @ rest) = Inr c \<and>
    underlying_code_point_length_in_bytes (bs @ rest) = Inr (length bs) \<and>
    validate (encode_all cs) = (True, length (encode_all cs))"
proof -
  obtain bs where bs: "code_point_to_utf8 c = Some bs" using assms code_point_to_utf8_total [of c] by auto
  have "validate (encode_all cs) = (True, length (encode_all cs))"
    using validate_encode_all [of cs "[]" 0] assms by (simp add: validate_def)
  then show ?thesis using bs decode_encoded [OF bs] by blast
qed

lemma utf8_round_trip_witness:
  "code_point_to_utf8 0x20AC = Some [0xE2, 0x82, 0xAC] \<and> dereference [0xE2, 0x82, 0xAC, 0x20] = Inr 0x20AC \<and>
    validate (encode_all [0x41, 0xE9]) = (True, length (encode_all [0x41, 0xE9]))"
proof -
  have "code_point_to_utf8 0x20AC = Some [0xE2, 0x82, 0xAC]"
    by (simp add: code_point_to_utf8_def continuation_def drop_bit_eq_div)
  then show ?thesis
    using utf8_round_trip [of "[0x41, 0xE9]" "0x20AC" "[0x20]"] by (auto simp: is_unicode_def)
qed

section \<open>Validation\<close>

text \<open>
  A sequence that validation accepts as one character: a first byte, the number of continuation
  bytes it announces, and a value that is a code point.
\<close>

definition accepted_sequence :: "u8 list \<Rightarrow> bool" where
  "accepted_sequence bs \<longleftrightarrow> (\<exists>b rest v c. bs = b # rest \<and> decode_first_byte b = Some (length bs, v) \<and>
    add_continuations rest v = Some c \<and> is_unicode c)"

lemma decode_first_byte_length: "decode_first_byte b = Some (n, v) \<Longrightarrow> 1 \<le> n \<and> n \<le> 4"
  by (auto simp: decode_first_byte_def split: if_splits)

lemma validate_accepted:
  assumes "accepted_sequence bs"
  shows "validate_from (bs @ rest) n = validate_from rest (n + length bs)"
  using assms by (auto simp: accepted_sequence_def)

lemma validate_from_accepts:
  "fst (validate_from view n) \<longleftrightarrow> (\<exists>parts. view = concat parts \<and> (\<forall>bs\<in>set parts. accepted_sequence bs))"
proof
  show "\<exists>parts. view = concat parts \<and> (\<forall>bs\<in>set parts. accepted_sequence bs)" if "fst (validate_from view n)"
    using that
  proof (induction view n rule: validate_from.induct)
    case (1 n)
    show ?case by (rule exI [of _ "[]"]) simp
  next
    case (2 b rest n)
    then obtain k v c where d: "decode_first_byte b = Some (k, v)" "k - 1 \<le> length rest"
      "add_continuations (take (k - 1) rest) v = Some c" "is_unicode c"
      by (auto split: option.splits if_splits)
    then have "fst (validate_from (drop (k - 1) rest) (n + k))" using 2(2) by simp
    then obtain parts where parts: "drop (k - 1) rest = concat parts" "\<forall>bs\<in>set parts. accepted_sequence bs"
      using 2(1) [OF d(1) refl _ d(3)] d(2,4) by auto
    have "accepted_sequence (b # take (k - 1) rest)"
      using d decode_first_byte_length [OF d(1)] by (auto simp: accepted_sequence_def min_def)
    moreover have "b # rest = concat ((b # take (k - 1) rest) # parts)"
      using parts(1) by (simp flip: parts(1))
    ultimately show ?case using parts(2) by (metis set_ConsD)
  qed
next
  assume "\<exists>parts. view = concat parts \<and> (\<forall>bs\<in>set parts. accepted_sequence bs)"
  then obtain parts where "view = concat parts" "\<forall>bs\<in>set parts. accepted_sequence bs" by blast
  then show "fst (validate_from view n)"
    by (induction parts arbitrary: view n) (simp_all add: validate_accepted)
qed

text \<open>Overlong encodings are among them.\<close>

lemma validate_accepts_overlong: "validate [0xC0, 0x80] = (True, 2)"
  by (simp add: validate_def decode_first_byte_def is_unicode_def bit_simps drop_bit_eq_div)

section \<open>Iteration moves by bytes\<close>

text \<open>
  The length of a view, the number of values a loop over it reads, is its number of bytes for every text,
  so a text with a code point of more than one byte is reported longer than it is.
\<close>

theorem view_length_counts_bytes:
  "view_length view = length view \<and>
    (\<forall>cs. (\<forall>c\<in>set cs. is_unicode c) \<longrightarrow> view_length (encode_all cs) = length cs \<longrightarrow> (\<forall>c\<in>set cs. c \<le> 0x7F))"
proof -
  have bytes: "view_length view = length view" for view
    unfolding view_length_def
    by (induction view) (simp_all add: code_points.simps iterator_increment_def)
  have one: "1 \<le> length (the (code_point_to_utf8 c)) \<and> (length (the (code_point_to_utf8 c)) = 1 \<longrightarrow> c \<le> 0x7F)"
    if "is_unicode c" for c
    using that by (auto simp: code_point_to_utf8_def is_unicode_def)
  have "length cs \<le> length (encode_all cs) \<and> (length (encode_all cs) = length cs \<longrightarrow> (\<forall>c\<in>set cs. c \<le> 0x7F))"
    if "\<forall>c\<in>set cs. is_unicode c" for cs
    using that
  proof (induction cs)
    case Nil
    then show ?case by (simp add: encode_all_def)
  next
    case (Cons c cs)
    then show ?case using one [of c] by (fastforce simp: encode_all_def)
  qed
  then show ?thesis using bytes by metis
qed

lemma trim_modes: "trim view characters TrimLeft = trim view characters TrimBoth"
  by (simp add: trim_def)

lemma trim_left_trims_right: "trim [0x20, 0x61, 0x20] [0x20] TrimLeft = Inr [0x61]"
  by (simp add: trim_def contains_code_point_def code_points.simps dereference_def iterator_increment_def
      underlying_code_point_length_in_bytes_def decode_first_byte_def view_substring_def word_le_nat_alt)

end
