(* ===== verification/StringUtils.thy ===== *)
theory StringUtils
  imports StringView Checked MemMem Utf8
begin

unbundle bit_operations_syntax

text \<open>
  \<open>AK/StringUtils.cpp\<close>: matching, conversion to numbers, trimming, searching and rewriting of views.
  \<open>ascii\<close> passes a character to the functions on code points. A \<open>StringBuilder\<close> is the list of
  the bytes appended so far. The searches take the allocator, which the table of a long needle may need.
\<close>

abbreviation ascii :: "u8 \<Rightarrow> u32" where "ascii c \<equiv> ucast c"

datatype case_sensitivity = CaseInsensitive | CaseSensitive

definition lower :: "u8 \<Rightarrow> u32" where
  "lower c = to_ascii_lowercase (ascii c)"

definition chars_differ :: "case_sensitivity \<Rightarrow> u8 \<Rightarrow> u8 \<Rightarrow> bool" where
  "chars_differ cs p ch = (if cs = CaseSensitive then p \<noteq> ch else lower p \<noteq> lower ch)"

section \<open>Masks\<close>

text \<open>
  The loop of \<open>matches\<close> at offset \<open>n\<close> of the string with the rests of string and mask; a span is its
  start and length. \<open>star_skip\<close> is the inner loop, which moves on until the rest of the string matches
  the rest of the mask or is empty.
\<close>

type_synonym spans = "(nat \<times> nat) list"

fun trailing_stars :: "nat \<Rightarrow> u8 list \<Rightarrow> bool \<times> spans" where
  "trailing_stars n [] = (True, [])"
| "trailing_stars n (p # pat) =
    (if p = 42 then map_prod id (Cons (n, 0)) (trailing_stars n pat) else (False, []))"

function matches_text :: "case_sensitivity \<Rightarrow> u8 list \<Rightarrow> u8 list \<Rightarrow> bool \<times> spans"
  and matches_loop :: "case_sensitivity \<Rightarrow> nat \<Rightarrow> u8 list \<Rightarrow> u8 list \<Rightarrow> bool \<times> spans"
  and star_skip :: "case_sensitivity \<Rightarrow> u8 list \<Rightarrow> u8 list \<Rightarrow> nat" where
  "matches_text cs s pat =
    (if pat = [42] then (True, [(0, length s)]) else matches_loop cs 0 s pat)"
| "matches_loop cs n [] pat = trailing_stars n pat"
| "matches_loop cs n (ch # s) [] = (False, [])"
| "matches_loop cs n (ch # s) (p # pat) =
    (if p = 42
     then if pat = [] then (True, [(n, length (ch # s))])
          else let k = star_skip cs (ch # s) pat
               in map_prod id (Cons (n, k)) (matches_loop cs (n + k) (drop k (ch # s)) pat)
     else if p = 63 then map_prod id (Cons (n, 1)) (matches_loop cs (n + 1) s pat)
     else if chars_differ cs p ch then (False, [])
     else matches_loop cs (n + 1) s pat)"
| "star_skip cs [] pat = 0"
| "star_skip cs (ch # s) pat = (if fst (matches_text cs (ch # s) pat) then 0 else star_skip cs s pat + 1)"
  by pat_completeness auto
termination
  by (relation "measures [
      (\<lambda>x. case x of Inl (cs, s, pat) \<Rightarrow> length pat | Inr (Inl (cs, n, s, pat)) \<Rightarrow> length pat
        | Inr (Inr (cs, s, pat)) \<Rightarrow> length pat),
      (\<lambda>x. case x of Inl (cs, s, pat) \<Rightarrow> 3 * length s + 1 | Inr (Inl (cs, n, s, pat)) \<Rightarrow> 3 * length s
        | Inr (Inr (cs, s, pat)) \<Rightarrow> 3 * length s + 2)]") auto

definition matches :: "case_sensitivity \<Rightarrow> string_view \<Rightarrow> string_view \<Rightarrow> bool \<times> spans" where
  "matches cs str pat =
    (if is_null str \<or> is_null pat then (is_null str \<and> is_null pat, [])
     else matches_text cs (chars str) (chars pat))"

section \<open>Trimming\<close>

text \<open>The loops of \<open>trim\<close>; \<open>None\<close> is the empty view returned from within a loop.\<close>

fun trim_start :: "u8 list \<Rightarrow> u8 list \<Rightarrow> nat \<Rightarrow> nat \<Rightarrow> (nat \<times> nat) option" where
  "trim_start characters [] substring_start substring_length = Some (substring_start, substring_length)"
| "trim_start characters (c # s) substring_start substring_length =
    (if substring_length = 0 then None
     else if c \<notin> set characters then Some (substring_start, substring_length)
     else trim_start characters s (substring_start + 1) (substring_length - 1))"

text \<open>
  The second loop runs from the last index down to one. For an empty string the index wraps; the
  length, zero, is looked at first.
\<close>

fun trim_end :: "u8 list \<Rightarrow> u8 list \<Rightarrow> nat \<Rightarrow> nat \<Rightarrow> nat option" where
  "trim_end characters str 0 substring_length = Some substring_length"
| "trim_end characters str (Suc i) substring_length =
    (if substring_length = 0 then None
     else if str ! Suc i \<in> set characters then Some substring_length
     else trim_end characters str i (substring_length - 1))"

definition empty_literal :: string_view where
  "empty_literal = \<lparr>m_characters = 1, chars = []\<rparr>"

definition trim_view :: "string_view \<Rightarrow> u8 list \<Rightarrow> trim_mode \<Rightarrow> string_view error_or" where
  "trim_view str characters mode =
    (let n = length (chars str)
     in case (if mode = TrimLeft \<or> mode = TrimBoth then trim_start characters (chars str) 0 n else Some (0, n)) of
          None \<Rightarrow> Inr empty_literal
        | Some (substring_start, substring_length) \<Rightarrow>
            case (if mode = TrimRight \<or> mode = TrimBoth
                  then if n = 0 then None else trim_end characters (chars str) (n - 1) substring_length
                  else Some substring_length) of
              None \<Rightarrow> Inr empty_literal
            | Some substring_length \<Rightarrow> substring_view str substring_start substring_length)"

definition whitespace_chars :: "u8 list" where
  "whitespace_chars = [32, 10, 9, 11, 12, 13]"

definition trim_whitespace :: "string_view \<Rightarrow> trim_mode \<Rightarrow> string_view error_or" where
  "trim_whitespace str mode = trim_view str whitespace_chars mode"

section \<open>Numbers\<close>

text \<open>An error or the value; \<open>None\<close> is the empty optional. \<open>trim_first\<close> is \<open>TrimWhitespace::Yes\<close>.\<close>

definition trimmed :: "string_view \<Rightarrow> bool \<Rightarrow> string_view error_or" where
  "trimmed str trim_first = (if trim_first then trim_whitespace str TrimBoth else Inr str)"

fun add_digits_signed :: "int_type \<Rightarrow> int \<Rightarrow> u8 list \<Rightarrow> int \<Rightarrow> int option" where
  "add_digits_signed t sign [] v = Some v"
| "add_digits_signed t sign (c # cs) v =
    (if c < 48 \<or> c > 57 then None
     else let (tens, overflow) = builtin_overflow t (v * 10)
          in if overflow then None
             else let (v, overflow) = builtin_overflow t (tens + sign * (int (unat c) - 48))
                  in if overflow then None else add_digits_signed t sign cs v)"

definition convert_to_int :: "int_type \<Rightarrow> string_view \<Rightarrow> bool \<Rightarrow> int option error_or" where
  "convert_to_int t str trim_first =
    try_then (trimmed str trim_first) (\<lambda>string.
      if view_is_empty string then Inr None
      else if chars string ! 0 = 45 \<or> chars string ! 0 = 43
      then if length (chars string) = 1 then Inr None
           else Inr (add_digits_signed t (if chars string ! 0 = 45 then -1 else 1) (drop 1 (chars string)) 0)
      else Inr (add_digits_signed t 1 (chars string) 0))"

definition convert_to_uint :: "int_type \<Rightarrow> string_view \<Rightarrow> bool \<Rightarrow> int option error_or" where
  "convert_to_uint t str trim_first =
    try_then (trimmed str trim_first) (\<lambda>string.
      if view_is_empty string then Inr None else Inr (add_digits_signed t 1 (chars string) 0))"

fun hex_digit_value :: "u8 \<Rightarrow> u8 option" where
  "hex_digit_value digit =
    (if 48 \<le> digit \<and> digit \<le> 57 then Some (digit - 48)
     else if 97 \<le> digit \<and> digit \<le> 102 then Some (10 + (digit - 97))
     else if 65 \<le> digit \<and> digit \<le> 70 then Some (10 + (digit - 65))
     else None)"

fun octal_digit_value :: "u8 \<Rightarrow> u8 option" where
  "octal_digit_value digit = (if 48 \<le> digit \<and> digit \<le> 55 then Some (digit - 48) else None)"

text \<open>The two loops differ in the bits of a digit and in its values.\<close>

fun add_digits_shifted :: "nat \<Rightarrow> (u8 \<Rightarrow> u8 option) \<Rightarrow> u8 list \<Rightarrow> 'a::len word \<Rightarrow> 'a word option" where
  "add_digits_shifted k digit_value [] v = Some v"
| "add_digits_shifted k digit_value (c # cs) v =
    (if v > drop_bit k (- 1) then None
     else case digit_value c of None \<Rightarrow> None
       | Some digit_val \<Rightarrow> add_digits_shifted k digit_value cs (push_bit k v + ucast digit_val))"

definition convert_to_uint_from_hex :: "string_view \<Rightarrow> bool \<Rightarrow> 'a::len word option error_or" where
  "convert_to_uint_from_hex str trim_first =
    try_then (trimmed str trim_first) (\<lambda>string.
      if view_is_empty string then Inr None else Inr (add_digits_shifted 4 hex_digit_value (chars string) 0))"

definition convert_to_uint_from_octal :: "string_view \<Rightarrow> bool \<Rightarrow> 'a::len word option error_or" where
  "convert_to_uint_from_octal str trim_first =
    try_then (trimmed str trim_first) (\<lambda>string.
      if view_is_empty string then Inr None else Inr (add_digits_shifted 3 octal_digit_value (chars string) 0))"

text \<open>\<open>StringView::to_uint\<close> and \<open>to_int\<close> take the default, trimming.\<close>

definition to_uint :: "int_type \<Rightarrow> string_view \<Rightarrow> int option error_or" where
  "to_uint t s = convert_to_uint t s True"

definition to_int :: "int_type \<Rightarrow> string_view \<Rightarrow> int option error_or" where
  "to_int t s = convert_to_int t s True"

section \<open>Comparison\<close>

definition equals_ignoring_case :: "string_view \<Rightarrow> string_view \<Rightarrow> bool" where
  "equals_ignoring_case a b =
    (if length (chars a) \<noteq> length (chars b) then False
     else \<forall>i\<in>set [0..<length (chars a)]. lower (chars a ! i) = lower (chars b ! i))"

text \<open>Both pointers of the loop of \<open>ends_with\<close> point into \<open>str\<close>.\<close>

definition ends_with_view :: "string_view \<Rightarrow> string_view \<Rightarrow> case_sensitivity \<Rightarrow> bool" where
  "ends_with_view str suffix cs =
    (if view_is_empty suffix then True
     else if view_is_empty str then False
     else if length (chars suffix) > length (chars str) then False
     else if cs = CaseSensitive then drop (length (chars str) - length (chars suffix)) (chars str) = chars suffix
     else \<forall>ei\<in>set [0..<length (chars suffix)].
       lower (chars str ! (length (chars str) - length (chars suffix) + ei)) = lower (chars str ! ei))"

definition starts_with_view :: "string_view \<Rightarrow> string_view \<Rightarrow> case_sensitivity \<Rightarrow> bool" where
  "starts_with_view str start cs =
    (if view_is_empty start then True
     else if view_is_empty str then False
     else if length (chars start) > length (chars str) then False
     else if m_characters str = m_characters start then True
     else if cs = CaseSensitive then take (length (chars start)) (chars str) = chars start
     else \<forall>i\<in>set [0..<length (chars start)]. lower (chars str ! i) = lower (chars start ! i))"

text \<open>
  The inner loop of \<open>contains\<close>: \<open>None\<close> when the needle is found, else the index to go on from. After
  a mismatch at \<open>ni\<close> the index has moved by \<open>ni - 1\<close>.
\<close>

function compare_from :: "u8 list \<Rightarrow> u8 list \<Rightarrow> nat \<Rightarrow> nat \<Rightarrow> nat option" where
  "compare_from hay needle si ni =
    (if si + ni < length hay
     then if lower (hay ! (si + ni)) \<noteq> lower (needle ! ni) then Some (if ni > 0 then si + (ni - 1) else si)
          else if ni + 1 = length needle then None
          else compare_from hay needle si (ni + 1)
     else Some si)"
  by pat_completeness auto
termination by (relation "measure (\<lambda>(hay, needle, si, ni). length hay - (si + ni))") auto

declare compare_from.simps [simp del]

lemma compare_from_ge: "compare_from hay needle si ni = Some j \<Longrightarrow> si \<le> j"
proof (induction hay needle si ni rule: compare_from.induct)
  case (1 hay needle si ni)
  then show ?case by (subst (asm) compare_from.simps) (auto split: if_splits)
qed

function contains_from :: "u8 list \<Rightarrow> u8 list \<Rightarrow> nat \<Rightarrow> bool" where
  "contains_from hay needle si =
    (if si < length hay
     then if lower (hay ! si) \<noteq> lower (needle ! 0) then contains_from hay needle (si + 1)
          else case compare_from hay needle si 0 of None \<Rightarrow> True | Some j \<Rightarrow> contains_from hay needle (j + 1)
     else False)"
  by pat_completeness auto
termination
  by (relation "measure (\<lambda>(hay, needle, si). length hay - si)") (auto dest: compare_from_ge)

declare contains_from.simps [simp del]

definition contains_view :: "allocator \<Rightarrow> string_view \<Rightarrow> string_view \<Rightarrow> case_sensitivity \<Rightarrow> bool outcome" where
  "contains_view env str needle cs =
    (if is_null str \<or> is_null needle \<or> view_is_empty str \<or> length (chars needle) > length (chars str)
     then Some (Inr False)
     else if view_is_empty needle then Some (Inr True)
     else if cs = CaseSensitive
     then and_then (memmem env (chars str) (chars needle)) (\<lambda>r. Some (Inr (r \<noteq> None)))
     else Some (Inr (contains_from (chars str) (chars needle) 0)))"

definition is_whitespace :: "string_view \<Rightarrow> bool" where
  "is_whitespace str \<longleftrightarrow> list_all (\<lambda>c. is_ascii_space (ascii c)) (chars str)"

section \<open>Search\<close>

definition find_char :: "string_view \<Rightarrow> u8 \<Rightarrow> nat \<Rightarrow> nat option" where
  "find_char haystack needle start =
    (if start \<ge> length (chars haystack) then None
     else List.find (\<lambda>i. chars haystack ! i = needle) [start..<length (chars haystack)])"

definition find_view :: "allocator \<Rightarrow> string_view \<Rightarrow> string_view \<Rightarrow> nat \<Rightarrow> nat option outcome" where
  "find_view env haystack needle start =
    (if start > length (chars haystack) then Some (Inr None)
     else and_then (memmem_optional env (drop start (chars haystack)) (chars needle))
       (\<lambda>index. Some (Inr (map_option (\<lambda>i. i + start) index))))"

definition find_last :: "string_view \<Rightarrow> u8 \<Rightarrow> nat option" where
  "find_last haystack needle =
    map_option (\<lambda>i. i - 1)
      (List.find (\<lambda>i. chars haystack ! (i - 1) = needle) (rev [1..<length (chars haystack) + 1]))"

function find_all_from :: "allocator \<Rightarrow> u8 list \<Rightarrow> u8 list \<Rightarrow> nat \<Rightarrow> nat list outcome" where
  "find_all_from env haystack needle current_position =
    (if current_position \<le> length haystack
     then case memmem_optional env (drop current_position haystack) needle of
            None \<Rightarrow> None
          | Some (Inl e) \<Rightarrow> Some (Inl e)
          | Some (Inr None) \<Rightarrow> Some (Inr [])
          | Some (Inr (Some maybe_position)) \<Rightarrow>
              and_then (find_all_from env haystack needle (current_position + (maybe_position + 1)))
                (\<lambda>positions. Some (Inr ((current_position + maybe_position) # positions)))
     else Some (Inr []))"
  by pat_completeness auto
termination
  by (relation "measure (\<lambda>(env, haystack, needle, current_position). Suc (length haystack) - current_position)") auto

declare find_all_from.simps [simp del]

definition find_all :: "allocator \<Rightarrow> string_view \<Rightarrow> string_view \<Rightarrow> nat list outcome" where
  "find_all env haystack needle = find_all_from env (chars haystack) (chars needle) 0"

datatype search_direction = Forward | Backward

definition find_any_of :: "string_view \<Rightarrow> string_view \<Rightarrow> search_direction \<Rightarrow> nat option" where
  "find_any_of haystack needles direction =
    (if view_is_empty haystack \<or> view_is_empty needles then None
     else if direction = Forward
     then List.find (\<lambda>i. view_contains_char needles (chars haystack ! i)) [0..<length (chars haystack)]
     else map_option (\<lambda>i. i - 1)
       (List.find (\<lambda>i. view_contains_char needles (chars haystack ! (i - 1))) (rev [1..<length (chars haystack) + 1])))"

section \<open>Rewriting\<close>

definition append_code_point :: "u32 \<Rightarrow> u8 list" where
  "append_code_point code_point =
    (case code_point_to_utf8 code_point of None \<Rightarrow> [0xEF, 0xBF, 0xBD] | Some bytes \<Rightarrow> bytes)"

fun titlecase_from :: "bool \<Rightarrow> u8 list \<Rightarrow> u8 list" where
  "titlecase_from next_is_upper [] = []"
| "titlecase_from next_is_upper (ch # s) =
    append_code_point (if next_is_upper then to_ascii_uppercase (ascii ch) else to_ascii_lowercase (ascii ch))
    @ titlecase_from (ch = 32) s"

definition to_titlecase :: "string_view \<Rightarrow> u8 list" where
  "to_titlecase str = titlecase_from True (chars str)"

definition invert_case :: "string_view \<Rightarrow> u8 list" where
  "invert_case str =
    map (\<lambda>ch. if is_ascii_lower_alpha (ascii ch) then ucast (to_ascii_lowercase (ascii ch))
           else ucast (to_ascii_lowercase (ascii ch))) (chars str)"

datatype replace_mode = ReplaceAll | ReplaceFirst

definition size_minus :: "nat \<Rightarrow> nat \<Rightarrow> nat" where
  "size_minus a b = (a + 2 ^ 64 - b) mod 2 ^ 64"

fun replace_loop :: "string_view \<Rightarrow> nat \<Rightarrow> u8 list \<Rightarrow> nat list \<Rightarrow> nat \<Rightarrow> u8 list error_or" where
  "replace_loop str n replacement [] last_position =
    try_then (substring_view str last_position (size_minus (length (chars str)) last_position)) (\<lambda>v. Inr (chars v))"
| "replace_loop str n replacement (position # positions) last_position =
    try_then (substring_view str last_position (size_minus position last_position)) (\<lambda>v.
    try_then (replace_loop str n replacement positions (position + n)) (\<lambda>rest.
      Inr (chars v @ replacement @ rest)))"

definition replace_view ::
    "allocator \<Rightarrow> string_view \<Rightarrow> string_view \<Rightarrow> string_view \<Rightarrow> replace_mode \<Rightarrow> u8 list outcome" where
  "replace_view env str needle replacement mode =
    (if view_is_empty str then Some (Inr (chars str))
     else and_then
       (if mode = ReplaceAll then find_all env str needle
        else and_then (find_view env str needle 0) (\<lambda>pos. Some (Inr (case pos of None \<Rightarrow> [] | Some p \<Rightarrow> [p]))))
       (\<lambda>positions. if positions = [] then Some (Inr (chars str))
          else Some (replace_loop str (length (chars needle)) (chars replacement) positions 0)))"

function count_loop :: "string_view \<Rightarrow> string_view \<Rightarrow> nat \<Rightarrow> nat \<Rightarrow> nat error_or" where
  "count_loop str needle bound i =
    (if i < bound
     then try_then (substring_view_from str i) (\<lambda>v.
       try_then (count_loop str needle bound (i + 1)) (\<lambda>n.
         Inr (if starts_with_view v needle CaseSensitive then n + 1 else n)))
     else Inr 0)"
  by pat_completeness auto
termination by (relation "measure (\<lambda>(str, needle, bound, i). bound - i)") auto

declare count_loop.simps [simp del]

definition count_view :: "string_view \<Rightarrow> string_view \<Rightarrow> nat error_or" where
  "count_view str needle =
    (if view_is_empty needle then Inr (length (chars str))
     else count_loop str needle ((size_minus (length (chars str)) (length (chars needle)) + 1) mod 2 ^ 64) 0)"

section \<open>Splitting at a separator\<close>

partial_function (option) split_loop :: "allocator \<Rightarrow> string_view \<Rightarrow> string_view \<Rightarrow> bool \<Rightarrow> string_view list outcome" where
  "split_loop env separator view keep_empty =
    and_then (find_view env view separator 0) (\<lambda>maybe_separator_index.
      case maybe_separator_index of
        None \<Rightarrow> Some (Inr (if keep_empty \<or> \<not> view_is_empty view then [view] else []))
      | Some separator_index \<Rightarrow>
          and_then (Some (substring_view view 0 (separator_index + length (chars separator)))) (\<lambda>part_with_separator.
          and_then (if keep_empty \<or> separator_index > 0
            then Some (try_then (substring_view part_with_separator 0 separator_index) (\<lambda>v. Inr [v]))
            else Some (Inr [])) (\<lambda>part.
          and_then (Some (substring_view_starting_after_substring view part_with_separator)) (\<lambda>view.
          and_then (split_loop env separator view keep_empty) (\<lambda>parts. Some (Inr (part @ parts)))))))"

definition split_view :: "allocator \<Rightarrow> string_view \<Rightarrow> string_view \<Rightarrow> bool \<Rightarrow> string_view list outcome" where
  "split_view env str separator keep_empty =
    (if view_is_empty separator then Some (Inl VerifyFailed)
     else if view_is_empty str then Some (Inr [])
     else split_loop env separator str keep_empty)"

definition lines :: "allocator \<Rightarrow> string_view \<Rightarrow> bool \<Rightarrow> string_view list outcome" where
  "lines env s consider_cr =
    (if view_is_empty s then Some (Inr [])
     else if \<not> consider_cr then split_view env s \<lparr>m_characters = 1, chars = [10]\<rparr> True
     else Some (lines_loop s (chars s) 0 0 False))"

end
