(* ===== verification/StringUtils_Correct.thy ===== *)
theory StringUtils_Correct
  imports StringUtils
begin

unbundle bit_operations_syntax

text \<open>
  Masks, numbers, trimming, searching and splitting of views against their specifications.
\<close>

section \<open>Masks\<close>

text \<open>A star stands for any string, a question mark for any character, another character for one equal to it.\<close>

fun glob :: "(u8 \<Rightarrow> u8 \<Rightarrow> bool) \<Rightarrow> u8 list \<Rightarrow> u8 list \<Rightarrow> bool" where
  "glob eq [] s = (s = [])"
| "glob eq (p # pat) s =
    (if p = 42 then \<exists>k\<in>set [0..<Suc (length s)]. glob eq pat (drop k s)
     else case s of [] \<Rightarrow> False | c # s \<Rightarrow> (p = 63 \<or> eq p c) \<and> glob eq pat s)"

abbreviation same_char :: "case_sensitivity \<Rightarrow> u8 \<Rightarrow> u8 \<Rightarrow> bool" where
  "same_char cs \<equiv> \<lambda>p c. \<not> chars_differ cs p c"

lemma trailing_stars_glob: "fst (trailing_stars n pat) = glob eq pat []"
  by (induction pat) simp_all

lemma star_glob:
  assumes "k \<le> length s" and "\<forall>j<k. \<not> glob eq pat (drop j s)" and "k < length s \<longrightarrow> glob eq pat (drop k s)"
  shows "glob eq (42 # pat) s \<longleftrightarrow> glob eq pat (drop k s)"
proof -
  have "k \<in> set [0..<Suc (length s)]" using assms(1) by auto
  moreover have "glob eq pat (drop k s)" if "j \<in> set [0..<Suc (length s)]" "glob eq pat (drop j s)" for j
  proof (cases "k < length s")
    case True
    then show ?thesis using assms(3) by simp
  next
    case False
    have "\<not> j < k" using assms(2) that(2) by blast
    then have "j = k" using that(1) assms(1) False by simp
    then show ?thesis using that(2) by simp
  qed
  moreover have "glob eq (42 # pat) s \<longleftrightarrow> (\<exists>j\<in>set [0..<Suc (length s)]. glob eq pat (drop j s))" by simp
  ultimately show ?thesis by blast
qed

lemma matches_glob:
  "fst (matches_text cs s pat) = glob (same_char cs) pat s"
  "fst (matches_loop cs n s pat) = glob (same_char cs) pat s"
  "star_skip cs s pat \<le> length s \<and> (\<forall>j < star_skip cs s pat. \<not> glob (same_char cs) pat (drop j s)) \<and>
    (star_skip cs s pat < length s \<longrightarrow> glob (same_char cs) pat (drop (star_skip cs s pat) s))"
proof (induction cs s pat and cs n s pat and cs s pat rule: matches_text_matches_loop_star_skip.induct)
  case (1 cs s pat)
  have "\<exists>k\<in>set [0..<Suc (length s)]. drop k s = []" by (rule bexI [of _ "length s"]) auto
  then show ?case using 1 by auto
next
  case (2 cs n pat)
  show ?case by (simp add: trailing_stars_glob)
next
  case (3 cs n ch s)
  show ?case by simp
next
  case (4 cs n ch s p pat)
  show ?case
  proof (cases "p = 42")
    case star: True
    show ?thesis
    proof (cases "pat = []")
      case True
      have "\<exists>k\<in>set [0..<Suc (length (ch # s))]. drop k (ch # s) = []"
        by (rule bexI [of _ "length (ch # s)"]) auto
      then show ?thesis using star True by simp
    next
      case False
      let ?k = "star_skip cs (ch # s) pat"
      have "glob (same_char cs) (42 # pat) (ch # s) \<longleftrightarrow> glob (same_char cs) pat (drop ?k (ch # s))"
        by (rule star_glob) (use 4(1) star False in auto)
      moreover have "fst (matches_loop cs (n + ?k) (drop ?k (ch # s)) pat) = glob (same_char cs) pat (drop ?k (ch # s))"
        using 4(2) star False by blast
      ultimately show ?thesis
        using star False by (simp add: Let_def del: glob.simps star_skip.simps matches_text.simps)
    qed
  next
    case False
    then show ?thesis using 4(3,4) by auto
  qed
next
  case (5 cs pat)
  show ?case by simp
next
  case (6 cs ch s pat)
  show ?case
  proof (cases "glob (same_char cs) pat (ch # s)")
    case True
    then show ?thesis using 6(1) by simp
  next
    case False
    have "\<not> glob (same_char cs) pat (drop j (ch # s))" if "j < Suc (star_skip cs s pat)" for j
      using that 6(2) False 6(1) by (cases j) auto
    then show ?thesis using 6 False by auto
  qed
qed

text \<open>Putting the spans in place of the wildcards of the mask.\<close>

fun fill :: "u8 list \<Rightarrow> u8 list \<Rightarrow> spans \<Rightarrow> u8 list" where
  "fill str [] sps = []"
| "fill str (p # pat) sps =
    (if p = 42 \<or> p = 63
     then (case sps of [] \<Rightarrow> [] | (start, n) # sps \<Rightarrow> take n (drop start str) @ fill str pat sps)
     else p # fill str pat sps)"

lemma trailing_stars_fill: "trailing_stars n pat = (True, sps) \<Longrightarrow> fill str pat sps = []"
proof (induction pat arbitrary: sps)
  case Nil
  then show ?case by simp
next
  case (Cons p pat)
  then show ?case by (cases "trailing_stars n pat") (auto split: if_splits)
qed

lemma matches_loop_fill:
  "matches_loop CaseSensitive n s pat = (True, sps) \<Longrightarrow> drop n str = s \<Longrightarrow> fill str pat sps = s"
proof (induction pat arbitrary: n s sps)
  case Nil
  then show ?case by (cases s) simp_all
next
  case (Cons p pat)
  show ?case
  proof (cases s)
    case Nil
    then show ?thesis using Cons.prems trailing_stars_fill [of n "p # pat" sps str] by simp
  next
    case (Cons ch s')
    consider (star) "p = 42" | (any) "p = 63" | (char) "p \<noteq> 42" "p \<noteq> 63" by blast
    then show ?thesis
    proof cases
      case star
      show ?thesis
      proof (cases "pat = []")
        case True
        then show ?thesis using Cons.prems star \<open>s = ch # s'\<close> by auto
      next
        case False
        let ?k = "star_skip CaseSensitive s pat"
        obtain sps' where sps: "sps = (n, ?k) # sps'" "matches_loop CaseSensitive (n + ?k) (drop ?k s) pat = (True, sps')"
          using Cons.prems(1) star False \<open>s = ch # s'\<close>
          by (cases "matches_loop CaseSensitive (n + ?k) (drop ?k s) pat") (auto simp: Let_def)
        have "drop (n + ?k) str = drop ?k s" using Cons.prems(2) by (metis add.commute drop_drop)
        then have "fill str pat sps' = drop ?k s" by (rule Cons.IH [OF sps(2)])
        then show ?thesis using sps(1) star Cons.prems(2) by simp
      qed
    next
      case any
      obtain sps' where sps: "sps = (n, 1) # sps'" "matches_loop CaseSensitive (n + 1) s' pat = (True, sps')"
        using Cons.prems(1) any \<open>s = ch # s'\<close> by (cases "matches_loop CaseSensitive (n + 1) s' pat") auto
      have "drop (n + 1) str = s'" using Cons.prems(2) \<open>s = ch # s'\<close> by (metis drop_Suc_Cons drop_drop drop0 plus_1_eq_Suc)
      then show ?thesis using Cons.IH [OF sps(2)] sps(1) any Cons.prems(2) \<open>s = ch # s'\<close> by simp
    next
      case char
      have run: "matches_loop CaseSensitive (n + 1) s' pat = (True, sps)" "p = ch"
        using Cons.prems(1) char \<open>s = ch # s'\<close> by (auto simp: chars_differ_def split: if_splits)
      have "drop (n + 1) str = s'" using Cons.prems(2) \<open>s = ch # s'\<close> by (metis drop_Suc_Cons drop_drop drop0 plus_1_eq_Suc)
      then show ?thesis using Cons.IH [OF run(1)] run(2) char \<open>s = ch # s'\<close> by simp
    qed
  qed
qed

text \<open>
  C33. A view matches a mask exactly as the reference says, in either mode of case, and a case-sensitive match
  reports spans that, put in place of the wildcards of the mask, give the view back.
\<close>

theorem matches_is_glob:
  assumes "\<not> is_null str" and "\<not> is_null pat"
  shows "(fst (matches cs str pat) \<longleftrightarrow> glob (same_char cs) (chars pat) (chars str)) \<and>
    (\<forall>sps. matches CaseSensitive str pat = (True, sps) \<longrightarrow> fill (chars str) (chars pat) sps = chars str)"
proof -
  have "fill (chars str) (chars pat) sps = chars str" if "matches CaseSensitive str pat = (True, sps)" for sps
    using that assms matches_loop_fill [of 0 "chars str" "chars pat" sps "chars str"]
    by (auto simp: matches_def split: if_splits)
  then show ?thesis using assms matches_glob(1) by (simp add: matches_def del: matches_text.simps)
qed

lemma matches_is_glob_witness:
  "matches CaseSensitive \<lparr>m_characters = 1, chars = [97, 98, 99, 100]\<rparr> \<lparr>m_characters = 9, chars = [97, 42, 63]\<rparr> =
    (True, [(1, 2), (3, 1)]) \<and> glob (same_char CaseSensitive) [97, 42, 63] [97, 98, 99, 100]"
proof -
  let ?s = "\<lparr>m_characters = 1, chars = [97, 98, 99, 100 :: u8]\<rparr>" and ?m = "\<lparr>m_characters = 9, chars = [97, 42, 63 :: u8]\<rparr>"
  have "matches CaseSensitive ?s ?m = (True, [(1, 2), (3, 1)])"
    by (simp add: matches_def is_null_def chars_differ_def Let_def)
  then show ?thesis using matches_is_glob [of ?s ?m CaseSensitive] by (simp add: is_null_def del: glob.simps)
qed

section \<open>Numbers\<close>

definition is_digit :: "u8 \<Rightarrow> bool" where
  "is_digit c \<longleftrightarrow> 48 \<le> c \<and> c \<le> 57"

definition digits_value :: "nat \<Rightarrow> u8 list \<Rightarrow> nat" where
  "digits_value m cs = foldl (\<lambda>v c. 10 * v + (unat c - 48)) m cs"

lemma digits_value_simps [simp]:
  "digits_value m [] = m"
  "digits_value m (c # cs) = digits_value (10 * m + (unat c - 48)) cs"
  by (simp_all add: digits_value_def)

lemma digits_value_ge: "m \<le> digits_value m cs"
proof (induction cs arbitrary: m)
  case Nil
  then show ?case by simp
next
  case (Cons c cs)
  have "m \<le> 10 * m + (unat c - 48)" by simp
  also have "\<dots> \<le> digits_value (10 * m + (unat c - 48)) cs" by (rule Cons.IH)
  finally show ?case by simp
qed

lemma in_type_smaller:
  assumes "in_type t (sign * int n)" and "m \<le> n" and "sign = 1 \<or> sign = -1" and "0 < width t"
  shows "in_type t (sign * int m)"
proof -
  have "type_min t \<le> 0" "0 \<le> type_max t" by (simp_all add: type_min_def type_max_def)
  moreover have "int m \<le> int n" "0 \<le> int m" using assms(2) by simp_all
  ultimately show ?thesis using assms(1,3) unfolding in_type_def by (elim disjE conjE) simp_all
qed

lemma add_digits_signed_exact:
  assumes "sign = 1 \<or> sign = -1" and "0 < width t" and "in_type t (sign * int m)"
  shows "add_digits_signed t sign cs (sign * int m) =
    (if list_all is_digit cs \<and> in_type t (sign * int (digits_value m cs)) then Some (sign * int (digits_value m cs)) else None)"
  using assms(3)
proof (induction cs arbitrary: m)
  case Nil
  then show ?case by simp
next
  case (Cons c cs)
  show ?case
  proof (cases "is_digit c")
    case False
    then show ?thesis by (auto simp: is_digit_def not_le)
  next
    case True
    let ?m = "10 * m + (unat c - 48)"
    have digit: "\<not> (c < 48 \<or> c > 57)" "int (unat c) - 48 = int (unat c - 48)"
      using True by (simp_all add: is_digit_def not_less word_le_nat_alt of_nat_diff)
    have next_value: "sign * int m * 10 + sign * (int (unat c) - 48) = sign * int ?m"
      unfolding digit(2) by (simp add: algebra_simps)
    have bigger: "?m \<le> digits_value ?m cs" by (rule digits_value_ge)
    show ?thesis
    proof (cases "in_type t (sign * int ?m)")
      case fits: True
      have "in_type t (sign * int (10 * m))" by (rule in_type_smaller [OF fits _ assms(1,2)]) simp
      then have "in_type t (sign * int m * 10)" by (simp add: mult.assoc mult.commute)
      then have "add_digits_signed t sign (c # cs) (sign * int m) = add_digits_signed t sign cs (sign * int ?m)"
        using digit(1) fits next_value convert_in_type [OF _ assms(2)]
        by (simp add: builtin_overflow_def Let_def del: of_nat_add of_nat_mult)
      then show ?thesis using Cons.IH [OF fits] True by simp
    next
      case False
      then have "\<not> in_type t (sign * int (digits_value ?m cs))"
        using in_type_smaller [OF _ bigger assms(1,2)] by blast
      moreover have "add_digits_signed t sign (c # cs) (sign * int m) = None"
        using digit(1) False next_value convert_in_type [OF _ assms(2), of "sign * int m * 10"]
        by (auto simp: builtin_overflow_def Let_def simp del: of_nat_add of_nat_mult)
      ultimately show ?thesis by simp
    qed
  qed
qed

text \<open>The number a text denotes in decimal: digits, with an optional sign for signed numbers.\<close>

definition natural_of :: "u8 list \<Rightarrow> int option" where
  "natural_of cs = (if cs \<noteq> [] \<and> list_all is_digit cs then Some (int (digits_value 0 cs)) else None)"

definition integer_of :: "u8 list \<Rightarrow> int option" where
  "integer_of cs =
    (if cs \<noteq> [] \<and> hd cs = 45 then map_option uminus (natural_of (tl cs))
     else if cs \<noteq> [] \<and> hd cs = 43 then natural_of (tl cs)
     else natural_of cs)"

definition fitting :: "int_type \<Rightarrow> int option \<Rightarrow> int option" where
  "fitting t r = (case r of None \<Rightarrow> None | Some v \<Rightarrow> if in_type t v then Some v else None)"

lemma zero_in_type: "0 < width t \<Longrightarrow> in_type t 0"
  by (simp add: in_type_def type_min_def type_max_def)

lemma add_digits_signed_zero:
  assumes "sign = 1 \<or> sign = -1" and "0 < width t" and "cs \<noteq> []"
  shows "add_digits_signed t sign cs 0 = fitting t (map_option ((*) sign) (natural_of cs))"
  using add_digits_signed_exact [OF assms(1,2), of 0 cs] zero_in_type [OF assms(2)] assms(3)
  by (simp add: fitting_def natural_of_def)

lemma convert_number_value:
  assumes "0 < width t"
  shows "convert_to_uint t str False = Inr (fitting t (natural_of (chars str))) \<and>
    convert_to_int t str False = Inr (fitting t (integer_of (chars str)))"
proof (cases "chars str")
  case Nil
  then show ?thesis
    by (simp add: convert_to_uint_def convert_to_int_def trimmed_def view_is_empty_def natural_of_def integer_of_def fitting_def)
next
  case (Cons c cs)
  have one: "map_option ((*) 1) r = r" for r :: "int option" by (cases r) simp_all
  have minus: "map_option ((*) (- 1)) r = map_option uminus r" for r :: "int option" by (cases r) simp_all
  have plus: "add_digits_signed t 1 ds 0 = fitting t (natural_of ds)" if "ds \<noteq> []" for ds
    using add_digits_signed_zero [of 1 t ds] that assms by (simp add: one)
  have negative: "add_digits_signed t (- 1) ds 0 = fitting t (map_option uminus (natural_of ds))" if "ds \<noteq> []" for ds
    using add_digits_signed_zero [of "- 1" t ds] that assms by (simp add: minus)
  have none: "fitting t (natural_of []) = None" "fitting t (map_option uminus (natural_of [])) = None"
    by (simp_all add: fitting_def natural_of_def)
  have "convert_to_uint t str False = Inr (fitting t (natural_of (chars str)))"
    using Cons plus [of "c # cs"] by (simp add: convert_to_uint_def trimmed_def view_is_empty_def del: add_digits_signed.simps)
  moreover have "convert_to_int t str False = Inr (fitting t (integer_of (chars str)))"
    using Cons plus [of "c # cs"] plus [of cs] negative [of cs] none
    by (cases "cs = []")
      (simp_all add: convert_to_int_def integer_of_def trimmed_def view_is_empty_def del: add_digits_signed.simps)
  ultimately show ?thesis ..
qed

text \<open>
  C34. Without trimming, the conversions return the number the text denotes, with an optional sign for the
  signed one, exactly when the text is such a number and it fits the type, and nothing otherwise.
\<close>

theorem convert_number_exact:
  assumes "0 < width t"
  shows "convert_to_uint t str False = Inr (fitting t (natural_of (chars str))) \<and>
    convert_to_int t str False = Inr (fitting t (integer_of (chars str)))"
  using assms by (rule convert_number_value)

lemma convert_number_exact_witness:
  "convert_to_int \<lparr>width = 8, is_signed = True\<rparr> \<lparr>m_characters = 1, chars = [45, 49, 50, 56]\<rparr> False = Inr (Some (- 128)) \<and>
    convert_to_uint \<lparr>width = 8, is_signed = False\<rparr> \<lparr>m_characters = 1, chars = [50, 53, 54]\<rparr> False = Inr None"
  using convert_number_exact [of "\<lparr>width = 8, is_signed = True\<rparr>" "\<lparr>m_characters = 1, chars = [45, 49, 50, 56]\<rparr>"]
    convert_number_exact [of "\<lparr>width = 8, is_signed = False\<rparr>" "\<lparr>m_characters = 1, chars = [50, 53, 54]\<rparr>"]
  by (simp add: integer_of_def natural_of_def fitting_def is_digit_def in_type_def type_min_def type_max_def)

text \<open>Hexadecimal and octal texts: digits of \<open>k\<close> bits with values below \<open>2 ^ k\<close>.\<close>

fun shifted_value :: "nat \<Rightarrow> (u8 \<Rightarrow> u8 option) \<Rightarrow> u8 list \<Rightarrow> nat \<Rightarrow> nat option" where
  "shifted_value k digit_value [] m = Some m"
| "shifted_value k digit_value (c # cs) m =
    (case digit_value c of None \<Rightarrow> None | Some d \<Rightarrow> shifted_value k digit_value cs (m * 2 ^ k + unat d))"

lemma shifted_value_ge: "shifted_value k digit_value cs m = Some n \<Longrightarrow> m \<le> n"
proof (induction cs arbitrary: m)
  case Nil
  then show ?case by simp
next
  case (Cons c cs)
  then obtain d where "digit_value c = Some d" "m * 2 ^ k + unat d \<le> n" by (auto split: option.splits)
  moreover have "m \<le> m * 2 ^ k" by simp
  ultimately show ?case by linarith
qed

lemma add_digits_shifted_exact:
  fixes v :: "'a::len word"
  assumes digits: "\<And>c d. digit_value c = Some d \<Longrightarrow> unat d < 2 ^ k" and "k \<le> LENGTH('a)"
  shows "add_digits_shifted k digit_value cs v =
    (case shifted_value k digit_value cs (unat v) of None \<Rightarrow> None
     | Some n \<Rightarrow> if n < 2 ^ LENGTH('a) then Some (of_nat n) else None)"
proof (induction cs arbitrary: v)
  case Nil
  show ?case using unsigned_less [of v] by simp
next
  case (Cons c cs)
  have power: "(2 :: nat) ^ LENGTH('a) = 2 ^ (LENGTH('a) - k) * 2 ^ k" using assms(2) by (simp flip: power_add)
  have limit: "unat (drop_bit k (- 1 :: 'a word)) = 2 ^ (LENGTH('a) - k) - 1"
    by (subst unat_drop_bit_eq) (simp only: unsigned_minus_1_eq_mask drop_bit_mask_eq,
        simp only: mask_eq_exp_minus_1)
  have "(0 :: nat) < 2 ^ (LENGTH('a) - k)" by simp
  then have bound: "v > drop_bit k (- 1) \<longleftrightarrow> 2 ^ (LENGTH('a) - k) \<le> unat v"
    unfolding word_less_nat_alt limit by linarith
  show ?case
  proof (cases "digit_value c")
    case None
    then show ?thesis by simp
  next
    case (Some d)
    have d: "unat d < 2 ^ k" using digits Some by blast
    show ?thesis
    proof (cases "2 ^ (LENGTH('a) - k) \<le> unat v")
      case True
      then have "2 ^ LENGTH('a) \<le> unat v * 2 ^ k + unat d" unfolding power by (simp add: trans_le_add1)
      then have "\<not> n < 2 ^ LENGTH('a)" if "shifted_value k digit_value cs (unat v * 2 ^ k + unat d) = Some n" for n
        using shifted_value_ge [OF that] by linarith
      then show ?thesis using Some True bound by (simp split: option.splits)
    next
      case False
      then have "Suc (unat v) * 2 ^ k \<le> 2 ^ (LENGTH('a) - k) * 2 ^ k" by (intro mult_le_mono1) simp
      then have small: "unat v * 2 ^ k + unat d < 2 ^ LENGTH('a)" using d unfolding power by simp
      have "push_bit k v + ucast d = of_nat (unat v * 2 ^ k + unat d)"
        by (simp add: push_bit_eq_mult)
      then have "unat (push_bit k v + ucast d) = unat v * 2 ^ k + unat d"
        using small by (simp only: unat_of_nat mod_less)
      then show ?thesis using Some False bound Cons.IH [of "push_bit k v + ucast d"] by simp
    qed
  qed
qed

lemma digit_value_small:
  "hex_digit_value c = Some d \<Longrightarrow> unat d < 2 ^ 4" "octal_digit_value c = Some d \<Longrightarrow> unat d < 2 ^ 3"
proof -
  show "unat d < 2 ^ 4" if "hex_digit_value c = Some d"
  proof -
    have "unat d < 16" using that by (simp split: if_splits; unat_arith)
    then show ?thesis by simp
  qed
  show "unat d < 2 ^ 3" if "octal_digit_value c = Some d"
  proof -
    have "unat d < 8" using that by (simp split: if_splits; unat_arith)
    then show ?thesis by simp
  qed
qed

lemma convert_hex_exact:
  assumes "4 \<le> LENGTH('a::len)"
  shows "(convert_to_uint_from_hex str False :: 'a word option error_or) = Inr (if chars str = [] then None else
    case shifted_value 4 hex_digit_value (chars str) 0 of None \<Rightarrow> None
    | Some n \<Rightarrow> if n < 2 ^ LENGTH('a) then Some (of_nat n) else None)"
  using add_digits_shifted_exact [of hex_digit_value 4 "chars str" 0, OF digit_value_small(1) assms]
  by (simp add: convert_to_uint_from_hex_def trimmed_def view_is_empty_def)

lemma convert_octal_exact:
  assumes "3 \<le> LENGTH('a::len)"
  shows "(convert_to_uint_from_octal str False :: 'a word option error_or) = Inr (if chars str = [] then None else
    case shifted_value 3 octal_digit_value (chars str) 0 of None \<Rightarrow> None
    | Some n \<Rightarrow> if n < 2 ^ LENGTH('a) then Some (of_nat n) else None)"
  using add_digits_shifted_exact [of octal_digit_value 3 "chars str" 0, OF digit_value_small(2) assms]
  by (simp add: convert_to_uint_from_octal_def trimmed_def view_is_empty_def)

section \<open>Trimming loses what it should keep\<close>

lemma trim_end_other_chars:
  "\<forall>c\<in>set str. c \<notin> set characters \<Longrightarrow> i < length str \<Longrightarrow> i < n \<Longrightarrow> trim_end characters str i n = Some (n - i)"
  by (induction i arbitrary: n) auto

lemma trim_without_whitespace:
  assumes "in_memory s" and "chars s \<noteq> []" and "\<forall>c\<in>set (chars s). c \<notin> set whitespace_chars"
  shows "trim_whitespace s TrimBoth = Inr \<lparr>m_characters = m_characters s, chars = [hd (chars s)]\<rparr>"
proof -
  obtain c cs where cs: "chars s = c # cs" using assms(2) by (cases "chars s") auto
  have start: "trim_start whitespace_chars (chars s) 0 (length (chars s)) = Some (0, length (chars s))"
    using assms(3) cs by simp
  have stop: "trim_end whitespace_chars (chars s) (length (chars s) - 1) (length (chars s)) = Some 1"
    using trim_end_other_chars [OF assms(3), of "length (chars s) - 1" "length (chars s)"] cs by simp
  have "substring_view s 0 1 = Inr \<lparr>m_characters = m_characters s, chars = [c]\<rparr>"
    using substring_view_inside [OF assms(1), of 0 1] cs by simp
  then show ?thesis using start stop cs by (simp add: trim_whitespace_def trim_view_def)
qed

lemma digit_not_whitespace: "is_digit c \<Longrightarrow> c \<notin> set whitespace_chars"
  by (auto simp: is_digit_def whitespace_chars_def)

lemma to_uint_first_digit:
  assumes "in_memory s" and "chars s \<noteq> []" and "list_all is_digit (chars s)" and "8 \<le> width t"
  shows "to_uint t s = Inr (Some (int (unat (hd (chars s)) - 48)))"
proof -
  obtain c cs where cs: "chars s = c # cs" using assms(2) by (cases "chars s") auto
  have digit: "is_digit c" using assms(3) cs by simp
  let ?v = "unat c - 48"
  have "?v \<le> 9" using digit unfolding is_digit_def word_le_nat_alt by simp linarith
  moreover have "9 \<le> type_max t"
  proof -
    have "(2 :: int) ^ 7 \<le> 2 ^ (width t - 1)" "(2 :: int) ^ 8 \<le> 2 ^ width t" using assms(4) by (intro power_increasing; simp)+
    then show ?thesis by (simp add: type_max_def)
  qed
  moreover have "type_min t \<le> 0" by (simp add: type_min_def)
  ultimately have fits: "in_type t (int ?v)" by (simp add: in_type_def)
  have "\<forall>c\<in>set (chars s). c \<notin> set whitespace_chars"
    using assms(3) digit_not_whitespace by (auto simp: list_all_iff)
  then have trimmed: "trim_whitespace s TrimBoth = Inr \<lparr>m_characters = m_characters s, chars = [c]\<rparr>"
    using trim_without_whitespace [OF assms(1,2)] cs by simp
  have "add_digits_signed t 1 [c] 0 = Some (int ?v)"
    using add_digits_signed_zero [of 1 t "[c]"] assms(4) digit fits by (simp add: fitting_def natural_of_def)
  then show ?thesis
    using cs by (simp add: to_uint_def convert_to_uint_def trimmed_def trimmed view_is_empty_def del: add_digits_signed.simps)
qed

text \<open>
  C35. The default conversion to a number trims first, and trimming removes every character but the first from a
  text without whitespace: a number is read as its first digit, a wrong result from two digits on.
\<close>

theorem to_uint_reads_first_digit:
  assumes "in_memory s" and "chars s \<noteq> []" and "list_all is_digit (chars s)" and "8 \<le> width t"
  shows "to_uint t s = Inr (Some (int (unat (hd (chars s)) - 48))) \<and>
    (2 \<le> length (chars s) \<and> hd (chars s) \<noteq> 48 \<longrightarrow> to_uint t s \<noteq> Inr (natural_of (chars s)))"
proof -
  obtain c cs where cs: "chars s = c # cs" using assms(2) by (cases "chars s") auto
  have digit: "is_digit c" using assms(3) cs by simp
  let ?v = "unat c - 48"
  have first: "to_uint t s = Inr (Some (int ?v))" using to_uint_first_digit [OF assms] cs by simp
  have "digits_value 0 (chars s) \<noteq> ?v" if cs_nonempty: "cs \<noteq> []" and first_nonzero: "c \<noteq> 48"
  proof -
    obtain d ds where ds: "cs = d # ds" using cs_nonempty by (cases cs) auto
    have "48 < c" using digit first_nonzero by (simp add: is_digit_def order_less_le)
    then have "48 < unat c" by (simp add: word_less_nat_alt)
    then have "?v < 10 * ?v + (unat d - 48)" by simp
    also have "\<dots> \<le> digits_value 0 (chars s)" using digits_value_ge [of "10 * ?v + (unat d - 48)" ds] cs ds by simp
    finally show ?thesis by simp
  qed
  then show ?thesis using first cs by (auto simp: natural_of_def Suc_le_eq numeral_2_eq_2)
qed

lemma to_uint_reads_first_digit_witness:
  "to_uint \<lparr>width = 32, is_signed = False\<rparr> \<lparr>m_characters = 4096, chars = [50, 53, 53]\<rparr> = Inr (Some 2)"
  using to_uint_reads_first_digit [of "\<lparr>m_characters = 4096, chars = [50, 53, 53]\<rparr>" "\<lparr>width = 32, is_signed = False\<rparr>"]
  by (simp add: in_memory_def is_digit_def)

section \<open>Occurrences\<close>

lemma find_view_first:
  "searchable env (chars needle) \<Longrightarrow> start \<le> length (chars haystack) \<Longrightarrow> find_view env haystack needle start =
    Some (Inr (map_option (\<lambda>i. i + start) (first_occurrence (chars needle) (drop start (chars haystack)))))"
  by (simp add: find_view_def searchable_def)

lemma occurs_at_drop:
  "k \<le> length haystack \<Longrightarrow> occurs_at needle (drop k haystack) i \<longleftrightarrow> occurs_at needle haystack (k + i)"
  by (auto simp: occurs_at_def add.commute)

lemma filter_first:
  assumes "P j" and "\<forall>i. k \<le> i \<and> i < j \<longrightarrow> \<not> P i" and "k \<le> j" and "j < n"
  shows "filter P [k..<n] = j # filter P [Suc j..<n]"
proof -
  have "[k..<n] = [k..<j] @ j # [Suc j..<n]" using assms(3,4) by (metis upt_add_eq_append upt_conv_Cons le_add_diff_inverse less_imp_le_nat)
  moreover have "filter P [k..<j] = []" using assms(2) by (auto simp: filter_empty_conv)
  ultimately show ?thesis using assms(1) by simp
qed

text \<open>All positions at which the needle occurs, overlapping ones included, in increasing order.\<close>

lemma find_all_from_correct:
  assumes found: "searchable env needle" and "k \<le> Suc (length haystack)"
  shows "find_all_from env haystack needle k =
    Some (Inr (filter (occurs_at needle haystack) [k..<Suc (length haystack)]))"
  using assms(2)
proof (induction "Suc (length haystack) - k" arbitrary: k rule: less_induct)
  case less
  show ?case
  proof (cases "k \<le> length haystack")
    case False
    then show ?thesis by (subst find_all_from.simps) simp
  next
    case True
    have search: "memmem_optional env (drop k haystack) needle = Some (Inr (first_occurrence needle (drop k haystack)))"
      using found by (simp add: searchable_def)
    show ?thesis
    proof (cases "first_occurrence needle (drop k haystack)")
      case None
      then have "\<not> occurs_at needle haystack i" if "k \<le> i" for i
        using that occurs_at_drop [OF True, of needle "i - k"] by (simp add: first_occurrence_None)
      then have "filter (occurs_at needle haystack) [k..<Suc (length haystack)] = []" by (auto simp: filter_empty_conv)
      then show ?thesis using True search None by (subst find_all_from.simps) (simp del: upt_Suc)
    next
      case (Some j)
      then have j: "occurs_at needle haystack (k + j)" "\<forall>i<j. \<not> occurs_at needle haystack (k + i)"
        by (simp_all add: first_occurrence_Some occurs_at_drop [OF True])
      then have "k + j \<le> length haystack" by (simp add: occurs_at_def)
      moreover have "\<forall>i. k \<le> i \<and> i < k + j \<longrightarrow> \<not> occurs_at needle haystack i"
        using j(2) by (metis add_less_cancel_left le_add_diff_inverse)
      ultimately have "filter (occurs_at needle haystack) [k..<Suc (length haystack)] =
          (k + j) # filter (occurs_at needle haystack) [Suc (k + j)..<Suc (length haystack)]"
        by (intro filter_first j(1)) simp_all
      moreover have "find_all_from env haystack needle (k + (j + 1)) =
          Some (Inr (filter (occurs_at needle haystack) [Suc (k + j)..<Suc (length haystack)]))"
        using less(1) [of "k + (j + 1)"] \<open>k + j \<le> length haystack\<close> by simp
      ultimately show ?thesis using True search Some by (subst find_all_from.simps) (simp del: upt_Suc)
    qed
  qed
qed

lemma find_all_correct:
  "searchable env (chars needle) \<Longrightarrow> find_all env haystack needle =
    Some (Inr (filter (occurs_at (chars needle) (chars haystack)) [0..<Suc (length (chars haystack))]))"
  unfolding find_all_def by (rule find_all_from_correct) simp_all

section \<open>Splitting\<close>

fun join :: "'a list \<Rightarrow> 'a list list \<Rightarrow> 'a list" where
  "join separator [] = []"
| "join separator [part] = part"
| "join separator (part # parts) = part @ separator @ join separator parts"

lemma join_Cons: "parts \<noteq> [] \<Longrightarrow> join separator (part # parts) = part @ separator @ join separator parts"
  by (cases parts) simp_all

lemma split_loop_step:
  assumes "in_memory view" and "chars separator \<noteq> []" and "searchable env (chars separator)"
  shows "split_loop env separator view keep_empty =
    (case first_occurrence (chars separator) (chars view) of
       None \<Rightarrow> Some (Inr (if keep_empty \<or> \<not> view_is_empty view then [view] else []))
     | Some i \<Rightarrow>
         and_then (split_loop env separator
           \<lparr>m_characters = m_characters view + (i + length (chars separator)),
            chars = drop (i + length (chars separator)) (chars view)\<rparr> keep_empty)
         (\<lambda>parts. Some (Inr ((if keep_empty \<or> i > 0 then [\<lparr>m_characters = m_characters view, chars = take i (chars view)\<rparr>] else [])
            @ parts))))"
proof (cases "first_occurrence (chars separator) (chars view)")
  case None
  then show ?thesis using find_view_first [OF assms(3), of 0 view] by (subst split_loop.simps) simp
next
  case (Some i)
  let ?n = "i + length (chars separator)"
  have n: "?n \<le> length (chars view)" using Some by (simp add: first_occurrence_Some occurs_at_def)
  let ?part = "\<lparr>m_characters = m_characters view, chars = take ?n (chars view)\<rparr>"
  have part: "substring_view view 0 ?n = Inr ?part" using substring_view_inside [OF assms(1), of 0 ?n] n by simp
  have "in_memory ?part" using assms(1) n by (simp add: in_memory_def)
  then have head: "substring_view ?part 0 i = Inr \<lparr>m_characters = m_characters view, chars = take i (chars view)\<rparr>"
    using substring_view_inside [of ?part 0 i] n by (simp add: min_def)
  have rest: "substring_view_starting_after_substring view ?part =
      Inr \<lparr>m_characters = m_characters view + ?n, chars = drop ?n (chars view)\<rparr>"
    using n by (simp add: substring_view_starting_after_substring_def rest_from_def)
  show ?thesis
    using find_view_first [OF assms(3), of 0 view] Some part head rest
    by (subst split_loop.simps) simp
qed

lemma split_loop_correct:
  assumes "chars separator \<noteq> []" and "in_memory view" and "searchable env (chars separator)"
  shows "\<exists>parts. split_loop env separator view True = Some (Inr parts) \<and> parts \<noteq> [] \<and>
    join (chars separator) (map chars parts) = chars view \<and>
    (\<forall>part\<in>set parts. \<forall>i. \<not> occurs_at (chars separator) (chars part) i) \<and>
    (\<forall>part\<in>set parts. in_memory part) \<and>
    split_loop env separator view False = Some (Inr (filter (\<lambda>part. \<not> view_is_empty part) parts))"
  using assms(2)
proof (induction "length (chars view)" arbitrary: view rule: less_induct)
  case less
  show ?case
  proof (cases "first_occurrence (chars separator) (chars view)")
    case None
    then have "\<forall>i. \<not> occurs_at (chars separator) (chars view) i" by (simp add: first_occurrence_None)
    then show ?thesis
      using None less(2) by (intro exI [of _ "[view]"]) (simp add: split_loop_step [OF less(2) assms(1,3)])
  next
    case (Some i)
    let ?n = "i + length (chars separator)"
    let ?rest = "\<lparr>m_characters = m_characters view + ?n, chars = drop ?n (chars view)\<rparr>"
    have occ: "occurs_at (chars separator) (chars view) i" "\<forall>j<i. \<not> occurs_at (chars separator) (chars view) j"
      using Some by (simp_all add: first_occurrence_Some)
    then have n: "?n \<le> length (chars view)" by (simp add: occurs_at_def)
    have "length (chars ?rest) < length (chars view)" using n assms(1) by (cases "chars separator") auto
    moreover have "in_memory ?rest" using less(2) n by (simp add: in_memory_def)
    ultimately obtain parts where parts: "split_loop env separator ?rest True = Some (Inr parts)" "parts \<noteq> []"
        "join (chars separator) (map chars parts) = drop ?n (chars view)"
        "\<forall>part\<in>set parts. \<forall>i. \<not> occurs_at (chars separator) (chars part) i"
        "\<forall>part\<in>set parts. in_memory part"
        "split_loop env separator ?rest False = Some (Inr (filter (\<lambda>part. \<not> view_is_empty part) parts))"
      using less(1) by (metis string_view.select_convs(2))
    let ?head = "\<lparr>m_characters = m_characters view, chars = take i (chars view)\<rparr>"
    have "chars view = take i (chars view) @ chars separator @ drop ?n (chars view)"
    proof -
      have "drop i (chars view) = take (length (chars separator)) (drop i (chars view)) @ drop (length (chars separator)) (drop i (chars view))"
        by (rule append_take_drop_id [symmetric])
      then have "drop i (chars view) = chars separator @ drop ?n (chars view)"
        using occ(1) by (simp add: occurs_at_def add.commute)
      then show ?thesis by (metis append_take_drop_id)
    qed
    moreover have "\<not> occurs_at (chars separator) (take i (chars view)) j" for j
    proof
      assume o: "occurs_at (chars separator) (take i (chars view)) j"
      then have "j < i" using n assms(1) by (cases "chars separator") (auto simp: occurs_at_def)
      moreover have "occurs_at (chars separator) (chars view) j"
        using o n by (force simp: occurs_at_nth)
      ultimately show False using occ(2) by blast
    qed
    moreover have "in_memory ?head" using less(2) n by (simp add: in_memory_def)
    ultimately show ?thesis
      using split_loop_step [OF less(2) assms(1,3)] Some parts n
      by (intro exI [of _ "?head # parts"]) (auto simp: join_Cons view_is_empty_def)
  qed
qed

text \<open>
  C36. Splitting a view at a separator below \<open>2 ^ 31\<close> bytes, for which the search can allocate its table,
  returns parts none of which contains the separator and which, joined by it, give the view back; without the
  empty parts it returns the others in the same order.
\<close>

theorem split_view_round_trip:
  assumes "in_memory str" and "chars str \<noteq> []" and "chars separator \<noteq> []"
    and "length (chars separator) < 2 ^ 31" and "alloc_ok env" and "table_fits env (length (chars separator))"
  shows "\<exists>parts. split_view env str separator True = Some (Inr parts) \<and>
    join (chars separator) (map chars parts) = chars str \<and>
    (\<forall>part\<in>set parts. \<forall>i. \<not> occurs_at (chars separator) (chars part) i) \<and>
    split_view env str separator False = Some (Inr (filter (\<lambda>part. \<not> view_is_empty part) parts))"
  using split_loop_correct [OF assms(3,1) searchable_fits [OF assms(4-6)]] assms(2,3) by (auto simp: split_view_def view_is_empty_def)

lemma split_view_round_trip_witness:
  "\<exists>parts. split_view no_memory \<lparr>m_characters = 64, chars = [49, 46, 46, 50]\<rparr> \<lparr>m_characters = 1, chars = [46]\<rparr> True = Some (Inr parts) \<and>
    join [46] (map chars parts) = [49, 46, 46, 50]"
  using split_view_round_trip [of "\<lparr>m_characters = 64, chars = [49, 46, 46, 50]\<rparr>" "\<lparr>m_characters = 1, chars = [46]\<rparr>" no_memory]
    no_memory_ok by (auto simp: in_memory_def table_fits_def)

section \<open>Defects\<close>

text \<open>
  The search that ignores case skips places after a partial match; \<open>ends_with\<close> compares the end of the
  view with its own beginning; replacing overlapping occurrences stops the program; the order of views
  calls a proper prefix greater, and the result of \<open>invert_case\<close> is in lower case.
\<close>

lemma contains_from_misses: "\<not> contains_from [97, 97, 97, 98] [97, 97, 98] 0"
  by (simp add: contains_from.simps compare_from.simps lower_def to_ascii_lowercase_def is_ascii_upper_alpha_def)

lemma ends_with_compares_itself:
  "ends_with_view \<lparr>m_characters = 9, chars = [97, 98, 97]\<rparr> \<lparr>m_characters = 1, chars = [99]\<rparr> CaseInsensitive"
  by (simp add: ends_with_view_def view_is_empty_def)

lemma prefix_is_greater:
  "view_greater \<lparr>m_characters = 9, chars = [97]\<rparr> \<lparr>m_characters = 1, chars = [97, 98]\<rparr> \<and>
   view_greater \<lparr>m_characters = 1, chars = [97, 98]\<rparr> \<lparr>m_characters = 9, chars = [97]\<rparr>"
  by (simp add: view_greater_def compare_views_def)

lemma invert_case_lowers: "invert_case str = map (\<lambda>ch. ucast (lower ch)) (chars str)"
  by (simp add: invert_case_def lower_def)

lemma replace_overlapping_stops:
  "replace_view env \<lparr>m_characters = 64, chars = [97, 97, 97]\<rparr> \<lparr>m_characters = 9, chars = [97, 97]\<rparr>
     \<lparr>m_characters = 9, chars = [98]\<rparr> ReplaceAll = Some (Inl VerifyFailed)"
  by (simp add: replace_view_def view_is_empty_def find_all_correct searchable_short occurs_at_def upt_rec size_minus_def
      substring_view_def)

end
