(* ===== verification/IPv4Address.thy ===== *)
theory IPv4Address
  imports StringUtils_Correct HashFunctions
begin

unbundle bit_operations_syntax

text \<open>
  \<open>AK/IPv4Address.h\<close>: an address is its 32-bit word, the first octet in the lowest byte.
\<close>

definition ipv4_new :: "u32 \<Rightarrow> u32 \<Rightarrow> u32 \<Rightarrow> u32 \<Rightarrow> u32" where
  "ipv4_new a b c d = push_bit 24 d OR push_bit 16 c OR push_bit 8 b OR a"

definition ipv4_of_bytes :: "u8 list \<Rightarrow> u32" where
  "ipv4_of_bytes data =
    push_bit 24 (ucast (data ! 3)) OR push_bit 16 (ucast (data ! 2)) OR push_bit 8 (ucast (data ! 1)) OR ucast (data ! 0)"

definition octet :: "u32 \<Rightarrow> nat \<Rightarrow> u32" where
  "octet m_data subnet = drop_bit (8 * subnet) m_data AND 0xFF"

definition octet_at :: "u32 \<Rightarrow> int \<Rightarrow> u8 error_or" where
  "octet_at m_data i = verify (i \<ge> 0 \<and> i < 4) (Inr (ucast (octet m_data (nat i))))"

definition netmask_from_cidr :: "int \<Rightarrow> u32 error_or" where
  "netmask_from_cidr cidr =
    verify (cidr \<ge> 0 \<and> cidr \<le> 32)
      (let v = ucast (push_bit (nat (32 - cidr)) (0xFFFFFFFF :: u64)) :: u32
       in Inr (ipv4_new (drop_bit 24 (v AND 0xFF000000)) (drop_bit 16 (v AND 0xFF0000)) (drop_bit 8 (v AND 0xFF00)) (v AND 0xFF)))"

definition ipv4_is_zero :: "u32 \<Rightarrow> bool" where
  "ipv4_is_zero m_data \<longleftrightarrow> m_data = 0"

definition ipv4_hash :: "u32 \<Rightarrow> u32" where
  "ipv4_hash address = int_hash address"

definition u32_type :: int_type where
  "u32_type = \<lparr>width = 32, is_signed = False\<rparr>"

text \<open>\<open>to_uint().value_or(256)\<close> of a part.\<close>

definition part_value :: "string_view \<Rightarrow> int error_or" where
  "part_value part =
    try_then (to_uint u32_type part) (\<lambda>v. Inr (case v of None \<Rightarrow> 256 | Some v \<Rightarrow> v))"

definition address_of :: "int \<Rightarrow> int \<Rightarrow> int \<Rightarrow> int \<Rightarrow> u32 option" where
  "address_of a b c d =
    (if a > 255 \<or> b > 255 \<or> c > 255 \<or> d > 255 then None
     else Some (ipv4_new (word_of_int a) (word_of_int b) (word_of_int c) (word_of_int d)))"

definition ipv4_from_string :: "allocator \<Rightarrow> string_view \<Rightarrow> u32 option outcome" where
  "ipv4_from_string env str =
    (if is_null str then Some (Inr None)
     else and_then (split_view env str \<lparr>m_characters = 1, chars = [46]\<rparr> False) (\<lambda>parts. Some
       (case parts of
          [p0] \<Rightarrow> try_then (part_value p0) (\<lambda>d. Inr (address_of 0 0 0 d))
        | [p0, p1] \<Rightarrow> try_then (part_value p0) (\<lambda>a. try_then (part_value p1) (\<lambda>b. Inr (address_of a b 0 0)))
        | [p0, p1, p2] \<Rightarrow>
            try_then (part_value p0) (\<lambda>a. try_then (part_value p1) (\<lambda>b. try_then (part_value p2) (\<lambda>d.
              Inr (address_of a b 0 d))))
        | [p0, p1, p2, p3] \<Rightarrow>
            try_then (part_value p0) (\<lambda>a. try_then (part_value p1) (\<lambda>b. try_then (part_value p2) (\<lambda>c.
              try_then (part_value p3) (\<lambda>d. Inr (address_of a b c d)))))
        | _ \<Rightarrow> Inr None)))"

section \<open>Octets\<close>

lemma bit_255 [simp]: "bit (255 :: int) n \<longleftrightarrow> n < 8"
proof -
  have "(255 :: int) = mask 8" by (simp only: mask_eq_exp_minus_1) simp
  then show ?thesis by (simp only: bit_mask_iff) simp
qed

text \<open>The octets of an address are the bytes it was made of, in order.\<close>

theorem ipv4_octets:
  assumes "i < 4"
  shows "octet (ipv4_new (ucast a) (ucast b) (ucast c) (ucast d)) i = ucast ([a, b, c, d :: u8] ! i) \<and>
    octet_at (ipv4_of_bytes [a, b, c, d]) (int i) = Inr ([a, b, c, d] ! i)"
proof -
  have byte: "octet (push_bit 24 (ucast d) OR push_bit 16 (ucast c) OR push_bit 8 (ucast b) OR ucast a) i =
      ucast ([a, b, c, d] ! i)"
  proof (rule bit_word_eqI)
    fix n :: nat
    assume "n < LENGTH(32)"
    have upper: "bit w k \<Longrightarrow> k < 8" for w :: u8 and k using bit_imp_le_length [of w k] by simp
    consider "i = 0" | "i = 1" | "i = 2" | "i = 3" using assms by linarith
    then show "bit (octet (push_bit 24 (ucast d) OR push_bit 16 (ucast c) OR push_bit 8 (ucast b) OR ucast a) i) n =
        bit (ucast ([a, b, c, d] ! i) :: u32) n"
      by cases (auto simp: octet_def bit_and_iff bit_or_iff bit_push_bit_iff bit_drop_bit_eq bit_unsigned_iff dest: upper)
  qed
  have "i = 0 \<or> i = 1 \<or> i = 2 \<or> i = 3" using assms by linarith
  then have "ucast (ucast ([a, b, c, d] ! i) :: u32) = [a, b, c, d] ! i" by (simp add: unsigned_ucast_eq take_bit_word_eq_self)
  then show ?thesis using byte assms by (simp add: ipv4_new_def octet_at_def ipv4_of_bytes_def)
qed

lemma netmask_value_bit:
  assumes "0 \<le> cidr" and "cidr \<le> 32" and "n < 32"
  shows "bit (ucast (push_bit (nat (32 - cidr)) (0xFFFFFFFF :: u64)) :: u32) n \<longleftrightarrow> 32 - cidr \<le> int n"
proof -
  have ones: "(0xFFFFFFFF :: u64) = mask 32" by (simp only: mask_eq_exp_minus_1) simp
  show ?thesis
    unfolding ones using assms
    by (auto simp: bit_unsigned_iff bit_push_bit_iff bit_mask_iff nat_le_iff)
qed

text \<open>The bits of a netmask, octet by octet and from the highest bit of each, are \<open>cidr\<close> ones, then zeros.\<close>

lemma bit_mask_literals [simp]:
  "bit (0xFF000000 :: int) n \<longleftrightarrow> 24 \<le> n \<and> n < 32" "bit (0xFF0000 :: int) n \<longleftrightarrow> 16 \<le> n \<and> n < 24"
  "bit (0xFF00 :: int) n \<longleftrightarrow> 8 \<le> n \<and> n < 16"
proof -
  have shift: "bit (push_bit k (255 :: int)) n \<longleftrightarrow> k \<le> n \<and> n < k + 8" for k
    by (auto simp: bit_push_bit_iff)
  show "bit (0xFF000000 :: int) n \<longleftrightarrow> 24 \<le> n \<and> n < 32" using shift [of 24] by simp
  show "bit (0xFF0000 :: int) n \<longleftrightarrow> 16 \<le> n \<and> n < 24" using shift [of 16] by simp
  show "bit (0xFF00 :: int) n \<longleftrightarrow> 8 \<le> n \<and> n < 16" using shift [of 8] by simp
qed

theorem netmask_bits:
  assumes "0 \<le> cidr" and "cidr \<le> 32" and "i < 4" and "k < 8"
  shows "\<exists>m. netmask_from_cidr cidr = Inr m \<and> (bit (octet m i) k \<longleftrightarrow> int (8 * i + (7 - k)) < cidr)"
proof -
  define v where "v = (ucast (push_bit (nat (32 - cidr)) (0xFFFFFFFF :: u64)) :: u32)"
  note v_bit = netmask_value_bit [OF assms(1,2), folded v_def]
  consider "i = 0" | "i = 1" | "i = 2" | "i = 3" using assms(3) by linarith
  then have "bit (octet (ipv4_new (drop_bit 24 (v AND 0xFF000000)) (drop_bit 16 (v AND 0xFF0000))
      (drop_bit 8 (v AND 0xFF00)) (v AND 0xFF)) i) k \<longleftrightarrow> bit v (8 * (3 - i) + k)"
    using assms(4)
    by cases (auto simp: octet_def ipv4_new_def bit_and_iff bit_or_iff bit_push_bit_iff bit_drop_bit_eq)
  moreover have "bit v (8 * (3 - i) + k) \<longleftrightarrow> int (8 * i + (7 - k)) < cidr"
    using v_bit [of "8 * (3 - i) + k"] assms(3,4) by (auto simp: of_nat_diff)
  ultimately show ?thesis using assms(1,2) by (simp add: netmask_from_cidr_def v_def Let_def)
qed

section \<open>Reading an address\<close>

lemma join_unique:
  assumes "ps \<noteq> []" and "qs \<noteq> []" and "\<forall>p\<in>set ps. x \<notin> set p" and "\<forall>q\<in>set qs. x \<notin> set q"
    and "join [x] ps = join [x] qs"
  shows "ps = qs"
  using assms
proof (induction ps arbitrary: qs)
  case (Cons p ps)
  obtain q qs' where qs: "qs = q # qs'" using Cons.prems(2) by (cases qs) auto
  have split: "p = q \<and> s = t" if "p @ x # s = q @ x # t" for s t
    using that Cons.prems(3,4) qs by (auto simp: append_eq_append_conv2 append_eq_Cons_conv Cons_eq_append_conv)
  show ?case
  proof (cases "ps = [] \<or> qs' = []")
    case True
    then show ?thesis
      using Cons.prems(3-5) qs by (cases ps; cases qs') (auto simp: join_Cons)
  next
    case False
    then show ?thesis
      using split [of "join [x] ps" "join [x] qs'"] Cons.IH [of qs'] Cons.prems(3-5) qs by (simp add: join_Cons)
  qed
qed simp

definition first_digit :: "u8 list \<Rightarrow> u32" where
  "first_digit digits = of_nat (unat (hd digits) - 48)"

lemma part_value_digits:
  assumes "in_memory part" and "chars part \<noteq> []" and "list_all is_digit (chars part)"
  shows "part_value part = Inr (int (unat (hd (chars part)) - 48))"
  using to_uint_first_digit [OF assms, of u32_type] by (simp add: part_value_def u32_type_def)

text \<open>
  Four numbers joined by points are read as an address whose octets are the first digits of the numbers, so
  an address with a number of two digits or more that does not begin with zero is read wrongly.
\<close>

theorem ipv4_from_string_reads_first_digits:
  assumes "in_memory str" and "\<not> is_null str" and "chars str = join [46] [a, b, c, d]"
    and "\<forall>digits\<in>{a, b, c, d}. digits \<noteq> [] \<and> list_all is_digit digits"
  shows "ipv4_from_string env str = Some (Inr (Some (ipv4_new (first_digit a) (first_digit b) (first_digit c) (first_digit d))))"
proof -
  let ?sep = "\<lparr>m_characters = 1, chars = [46]\<rparr> :: string_view"
  obtain parts where parts: "split_loop env ?sep str False = Some (Inr (filter (\<lambda>part. \<not> view_is_empty part) parts))"
      "parts \<noteq> []" "join [46] (map chars parts) = chars str" "\<forall>part\<in>set parts. in_memory part"
      "\<forall>part\<in>set parts. \<forall>i. \<not> occurs_at [46] (chars part) i"
    using split_loop_correct [OF _ assms(1), of ?sep env] searchable_short [of "[46]" env] by auto
  have point: "46 \<notin> set cs" if "\<forall>i. \<not> occurs_at [46] cs i" for cs :: "u8 list"
  proof
    assume "46 \<in> set cs"
    then obtain i where "i < length cs" "cs ! i = 46" by (auto simp: in_set_conv_nth)
    then have "occurs_at [46] cs i" by (simp add: occurs_at_def take_Suc_conv_app_nth hd_drop_conv_nth take_Suc)
    then show False using that by blast
  qed
  have no_point: "46 \<notin> set digits" if "list_all is_digit digits" for digits :: "u8 list"
    using that by (auto simp: list_all_iff is_digit_def)
  have "map chars parts = [a, b, c, d]"
    using parts assms(3,4) by (intro join_unique [where x = 46]) (auto dest: point no_point)
  then obtain p0 p1 p2 p3 where p: "parts = [p0, p1, p2, p3]" "chars p0 = a" "chars p1 = b" "chars p2 = c" "chars p3 = d"
    by (auto simp: map_eq_Cons_conv)
  have one_digit: "part_value p = Inr (int (unat (hd (chars p)) - 48)) \<and> int (unat (hd (chars p)) - 48) \<le> 9"
    if "p \<in> {p0, p1, p2, p3}" for p
  proof -
    have "chars p \<noteq> []" "list_all is_digit (chars p)" "in_memory p" using that p assms(4) parts(4) by auto
    moreover from this(1,2) have "unat (hd (chars p)) - 48 \<le> 9"
      by (cases "chars p") (auto simp: is_digit_def word_le_nat_alt)
    then have "int (unat (hd (chars p)) - 48) \<le> 9" by linarith
    ultimately show ?thesis using part_value_digits [of p] by blast
  qed
  have nonempty: "chars str \<noteq> []" "filter (\<lambda>part. \<not> view_is_empty part) parts = parts"
    using assms(3,4) p by (auto simp: view_is_empty_def)
  have part_values: "part_value p0 = Inr (int (unat (hd a) - 48))" "part_value p1 = Inr (int (unat (hd b) - 48))"
      "part_value p2 = Inr (int (unat (hd c) - 48))" "part_value p3 = Inr (int (unat (hd d) - 48))"
    using one_digit p by auto
  have small: "int (unat (hd a) - 48) \<le> 9" "int (unat (hd b) - 48) \<le> 9" "int (unat (hd c) - 48) \<le> 9"
      "int (unat (hd d) - 48) \<le> 9"
    using one_digit p by auto
  have "split_view env str ?sep False = Some (Inr parts)"
    using parts(1) nonempty by (simp add: split_view_def view_is_empty_def)
  then show ?thesis
    using assms(2) part_values small p(1) by (simp add: ipv4_from_string_def address_of_def first_digit_def)
qed

end
