(* ===== verification/IntrusiveList.thy ===== *)
theory IntrusiveList
  imports AK_Prelude
begin

text \<open>
  \<open>AK/IntrusiveList.h\<close>: lists whose links are members of their elements. A store has the links of every
  element and the ends of every list, by address; \<open>None\<close> is the null pointer. The address of an element
  stands for the address of its links as well, which \<open>node_to_value\<close> converts by a constant offset. A
  container other than a raw pointer keeps a reference of the element to itself in \<open>m_self\<close>.
\<close>

record list_node =
  m_storage :: "nat option"
  m_next :: "nat option"
  m_prev :: "nat option"
  m_self :: "nat option"

record list_storage =
  m_first :: "nat option"
  m_last :: "nat option"

record lists =
  nodes :: "nat \<Rightarrow> list_node"
  storages :: "nat \<Rightarrow> list_storage"

definition set_node :: "nat \<Rightarrow> (list_node \<Rightarrow> list_node) \<Rightarrow> lists \<Rightarrow> lists" where
  "set_node n f s = s\<lparr>nodes := (nodes s)(n := f (nodes s n))\<rparr>"

definition set_storage :: "nat \<Rightarrow> (list_storage \<Rightarrow> list_storage) \<Rightarrow> lists \<Rightarrow> lists" where
  "set_storage l f s = s\<lparr>storages := (storages s)(l := f (storages s l))\<rparr>"

definition if_pointer :: "nat option \<Rightarrow> (nat \<Rightarrow> lists \<Rightarrow> lists) \<Rightarrow> lists \<Rightarrow> lists" where
  "if_pointer p f s = (case p of None \<Rightarrow> s | Some n \<Rightarrow> f n s)"

section \<open>Operations\<close>

definition is_in_list :: "nat \<Rightarrow> lists \<Rightarrow> bool" where
  "is_in_list n s \<longleftrightarrow> m_storage (nodes s n) \<noteq> None"

definition destroy_node :: "nat \<Rightarrow> lists \<Rightarrow> lists error_or" where
  "destroy_node n s = verify (\<not> is_in_list n s) (Inr s)"

definition node_remove :: "bool \<Rightarrow> nat \<Rightarrow> lists \<Rightarrow> lists error_or" where
  "node_remove is_raw n s =
    (case m_storage (nodes s n) of
       None \<Rightarrow> Inl VerifyFailed
     | Some l \<Rightarrow> Inr
        (let s = (if m_first (storages s l) = Some n then set_storage l (\<lambda>t. t\<lparr>m_first := m_next (nodes s n)\<rparr>) s else s);
             s = (if m_last (storages s l) = Some n then set_storage l (\<lambda>t. t\<lparr>m_last := m_prev (nodes s n)\<rparr>) s else s);
             s = if_pointer (m_prev (nodes s n)) (\<lambda>p s. set_node p (\<lambda>x. x\<lparr>m_next := m_next (nodes s n)\<rparr>) s) s;
             s = if_pointer (m_next (nodes s n)) (\<lambda>q s. set_node q (\<lambda>x. x\<lparr>m_prev := m_prev (nodes s n)\<rparr>) s) s;
             s = set_node n (\<lambda>x. x\<lparr>m_prev := None, m_next := None, m_storage := None\<rparr>) s
         in if is_raw then s else set_node n (\<lambda>x. x\<lparr>m_self := None\<rparr>) s))"

definition list_remove :: "bool \<Rightarrow> nat \<Rightarrow> lists \<Rightarrow> lists error_or" where
  "list_remove is_raw n s = (if m_storage (nodes s n) \<noteq> None then node_remove is_raw n s else Inr s)"

definition list_append :: "bool \<Rightarrow> nat \<Rightarrow> nat \<Rightarrow> lists \<Rightarrow> lists error_or" where
  "list_append is_raw l n s =
    try_then (list_remove is_raw n s) (\<lambda>s. Inr
      (let s = set_node n (\<lambda>x. x\<lparr>m_storage := Some l, m_prev := m_last (storages s l), m_next := None\<rparr>) s;
           s = (if is_raw then s else set_node n (\<lambda>x. x\<lparr>m_self := Some n\<rparr>) s);
           s = if_pointer (m_last (storages s l)) (\<lambda>p s. set_node p (\<lambda>x. x\<lparr>m_next := Some n\<rparr>) s) s;
           s = set_storage l (\<lambda>t. t\<lparr>m_last := Some n\<rparr>) s
       in if m_first (storages s l) = None then set_storage l (\<lambda>t. t\<lparr>m_first := Some n\<rparr>) s else s))"

definition prepend :: "bool \<Rightarrow> nat \<Rightarrow> nat \<Rightarrow> lists \<Rightarrow> lists error_or" where
  "prepend is_raw l n s =
    try_then (list_remove is_raw n s) (\<lambda>s. Inr
      (let s = set_node n (\<lambda>x. x\<lparr>m_storage := Some l, m_prev := None, m_next := m_first (storages s l)\<rparr>) s;
           s = (if is_raw then s else set_node n (\<lambda>x. x\<lparr>m_self := Some n\<rparr>) s);
           s = if_pointer (m_first (storages s l)) (\<lambda>p s. set_node p (\<lambda>x. x\<lparr>m_prev := Some n\<rparr>) s) s;
           s = set_storage l (\<lambda>t. t\<lparr>m_first := Some n\<rparr>) s
       in if m_last (storages s l) = None then set_storage l (\<lambda>t. t\<lparr>m_last := Some n\<rparr>) s else s))"

definition insert_before :: "bool \<Rightarrow> nat \<Rightarrow> nat \<Rightarrow> nat \<Rightarrow> lists \<Rightarrow> lists error_or" where
  "insert_before is_raw l bn n s =
    try_then (list_remove is_raw n s) (\<lambda>s. Inr
      (let s = set_node n (\<lambda>x. x\<lparr>m_storage := Some l, m_next := Some bn\<rparr>) s;
           s = set_node n (\<lambda>x. x\<lparr>m_prev := m_prev (nodes s bn)\<rparr>) s;
           s = if_pointer (m_prev (nodes s bn)) (\<lambda>p s. set_node p (\<lambda>x. x\<lparr>m_next := Some n\<rparr>) s) s;
           s = set_node bn (\<lambda>x. x\<lparr>m_prev := Some n\<rparr>) s;
           s = (if m_first (storages s l) = Some bn then set_storage l (\<lambda>t. t\<lparr>m_first := Some n\<rparr>) s else s)
       in if is_raw then s else set_node n (\<lambda>x. x\<lparr>m_self := Some n\<rparr>) s))"

definition list_contains :: "nat \<Rightarrow> nat \<Rightarrow> lists \<Rightarrow> bool" where
  "list_contains l n s \<longleftrightarrow> m_storage (nodes s n) = Some l"

definition list_is_empty :: "nat \<Rightarrow> lists \<Rightarrow> bool" where
  "list_is_empty l s \<longleftrightarrow> m_first (storages s l) = None"

definition list_first :: "nat \<Rightarrow> lists \<Rightarrow> nat option" where
  "list_first l s = m_first (storages s l)"

definition list_last :: "nat \<Rightarrow> lists \<Rightarrow> nat option" where
  "list_last l s = m_last (storages s l)"

definition take_end :: "bool \<Rightarrow> nat option \<Rightarrow> lists \<Rightarrow> (nat option \<times> lists) error_or" where
  "take_end is_raw p s =
    (case p of None \<Rightarrow> Inr (None, s) | Some n \<Rightarrow> try_then (list_remove is_raw n s) (\<lambda>s. Inr (Some n, s)))"

definition list_take_first :: "bool \<Rightarrow> nat \<Rightarrow> lists \<Rightarrow> (nat option \<times> lists) error_or" where
  "list_take_first is_raw l s = take_end is_raw (list_first l s) s"

definition list_take_last :: "bool \<Rightarrow> nat \<Rightarrow> lists \<Rightarrow> (nat option \<times> lists) error_or" where
  "list_take_last is_raw l s = take_end is_raw (list_last l s) s"

partial_function (option) list_clear :: "bool \<Rightarrow> nat \<Rightarrow> lists \<Rightarrow> lists outcome" where
  "list_clear is_raw l s =
    (case m_first (storages s l) of
       None \<Rightarrow> Some (Inr s)
     | Some n \<Rightarrow> and_then (Some (node_remove is_raw n s)) (\<lambda>s. list_clear is_raw l s))"

text \<open>
  An iterator is the pointer to its element, and \<open>step\<close> is \<open>next\<close> for the iterators and \<open>prev\<close> for the
  reverse ones; the end is null. \<open>loop_over\<close> collects the elements that a loop visits from an iterator on.
\<close>

definition advance :: "(list_node \<Rightarrow> nat option) \<Rightarrow> nat option \<Rightarrow> lists \<Rightarrow> nat option error_or" where
  "advance step it s = (case it of None \<Rightarrow> Inl BadPointer | Some n \<Rightarrow> Inr (step (nodes s n)))"

definition list_begin :: "nat \<Rightarrow> lists \<Rightarrow> nat option" where
  "list_begin l s = m_first (storages s l)"

definition list_rbegin :: "nat \<Rightarrow> lists \<Rightarrow> nat option" where
  "list_rbegin l s = m_last (storages s l)"

partial_function (option) loop_over :: "(list_node \<Rightarrow> nat option) \<Rightarrow> lists \<Rightarrow> nat option \<Rightarrow> nat list outcome" where
  "loop_over step s it =
    (case it of
       None \<Rightarrow> Some (Inr [])
     | Some n \<Rightarrow> and_then (Some (advance step it s)) (\<lambda>it.
         and_then (loop_over step s it) (\<lambda>ns. Some (Inr (n # ns)))))"

definition size_slow :: "nat \<Rightarrow> lists \<Rightarrow> nat outcome" where
  "size_slow l s = and_then (loop_over m_next s (list_begin l s)) (\<lambda>ns. Some (Inr (length ns)))"

definition iterator_erase :: "bool \<Rightarrow> nat option \<Rightarrow> lists \<Rightarrow> (nat option \<times> lists) error_or" where
  "iterator_erase is_raw it s =
    try_then (advance m_next it s) (\<lambda>following.
      try_then (node_remove is_raw (the it) s) (\<lambda>s. Inr (following, s)))"

section \<open>Chains of links\<close>

definition head_ptr :: "nat list \<Rightarrow> nat option \<Rightarrow> nat option" where
  "head_ptr xs q = (case xs of [] \<Rightarrow> q | x # _ \<Rightarrow> Some x)"

definition last_ptr :: "nat option \<Rightarrow> nat list \<Rightarrow> nat option" where
  "last_ptr p xs = (if xs = [] then p else Some (last xs))"

lemma head_ptr_simps [simp]: "head_ptr [] q = q" "head_ptr (x # xs) q = Some x"
  and last_ptr_simps [simp]: "last_ptr p [] = p" "last_ptr p (xs @ [x]) = Some x" "last_ptr p (x # xs) = last_ptr (Some x) xs"
  by (simp_all add: head_ptr_def last_ptr_def)

lemma head_ptr_append: "head_ptr (xs @ ys) q = head_ptr xs (head_ptr ys q)"
  and last_ptr_append: "last_ptr p (xs @ ys) = last_ptr (last_ptr p xs) ys"
  by (cases xs) (simp_all add: head_ptr_def last_ptr_def)

lemma head_ptr_None [simp]: "head_ptr xs None = None \<longleftrightarrow> xs = []"
  and last_ptr_None [simp]: "last_ptr None xs = None \<longleftrightarrow> xs = []"
  by (simp_all add: head_ptr_def last_ptr_def split: list.split)

lemma head_ptr_in: "head_ptr xs None = Some x \<Longrightarrow> x \<in> set xs"
  and last_ptr_in: "last_ptr None xs = Some x \<Longrightarrow> x \<in> set xs"
  by (auto simp: head_ptr_def last_ptr_def split: list.splits if_splits)

fun segment :: "(nat \<Rightarrow> list_node) \<Rightarrow> nat option \<Rightarrow> nat list \<Rightarrow> nat option \<Rightarrow> bool" where
  "segment h p [] q \<longleftrightarrow> True"
| "segment h p (x # xs) q \<longleftrightarrow> m_prev (h x) = p \<and> m_next (h x) = head_ptr xs q \<and> segment h (Some x) xs q"

lemma segment_append:
  "segment h p (xs @ ys) q \<longleftrightarrow> segment h p xs (head_ptr ys q) \<and> segment h (last_ptr p xs) ys q"
  by (induction xs arbitrary: p) (auto simp: head_ptr_append)

lemma segment_ends:
  assumes "segment h p xs q" and "distinct xs"
    and "\<forall>x\<in>set xs. m_prev (h' x) = (if Some x = head_ptr xs None then p' else m_prev (h x))"
    and "\<forall>x\<in>set xs. m_next (h' x) = (if Some x = last_ptr None xs then q' else m_next (h x))"
  shows "segment h' p' xs q'"
  using assms
proof (induction xs arbitrary: p p')
  case (Cons x xs)
  show ?case
  proof (cases xs)
    case Nil
    then show ?thesis using Cons.prems by simp
  next
    case (Cons y ys)
    have "segment h' (Some x) xs q'"
      using Cons.prems Cons
      by (intro Cons.IH [of "Some x"]) (auto simp: head_ptr_def last_ptr_def)
    moreover have "Some x \<noteq> last_ptr None (x # xs)"
      using Cons.prems(2) Cons by (auto simp: last_ptr_def)
    ultimately show ?thesis
      using Cons.prems Cons by auto
  qed
qed simp

lemma segment_frame:
  assumes "segment h p xs q" and "\<forall>x\<in>set xs. m_prev (h' x) = m_prev (h x) \<and> m_next (h' x) = m_next (h x)"
  shows "segment h' p xs q"
  using assms by (induction xs arbitrary: p) auto

end
