(* ===== verification/IntrusiveList_Correct.thy ===== *)
theory IntrusiveList_Correct
  imports IntrusiveList
begin

text \<open>
  The store represents a family of lists: the ends and links of each list are those of its elements in
  order, an element is in the list it points to, and one that points to none has no links. A reference to
  itself is held exactly by the elements of a list, when the container holds references.
\<close>

definition represents_lists :: "bool \<Rightarrow> lists \<Rightarrow> (nat \<Rightarrow> nat list) \<Rightarrow> bool" where
  "represents_lists is_raw s f \<longleftrightarrow>
    (\<forall>l. distinct (f l) \<and> segment (nodes s) None (f l) None \<and>
      m_first (storages s l) = head_ptr (f l) None \<and> m_last (storages s l) = last_ptr None (f l)) \<and>
    (\<forall>n l. m_storage (nodes s n) = Some l \<longleftrightarrow> n \<in> set (f l)) \<and>
    (\<forall>n. m_storage (nodes s n) = None \<longrightarrow> m_next (nodes s n) = None \<and> m_prev (nodes s n) = None) \<and>
    (\<forall>n. m_self (nodes s n) = (if is_raw \<or> m_storage (nodes s n) = None then None else Some n))"

lemma represents_listsD:
  assumes "represents_lists is_raw s f"
  shows "distinct (f l)" and "segment (nodes s) None (f l) None"
    and "m_first (storages s l) = head_ptr (f l) None" and "m_last (storages s l) = last_ptr None (f l)"
    and "m_storage (nodes s n) = Some l \<longleftrightarrow> n \<in> set (f l)"
    and "m_storage (nodes s n) = None \<Longrightarrow> m_next (nodes s n) = None \<and> m_prev (nodes s n) = None"
    and "m_self (nodes s n) = (if is_raw \<or> m_storage (nodes s n) = None then None else Some n)"
  using assms by (simp_all add: represents_lists_def)

lemma represents_lists_disjoint:
  assumes "represents_lists is_raw s f" and "n \<in> set (f l)"
  shows "n \<in> set (f k) \<longleftrightarrow> k = l"
  using represents_listsD(5) [OF assms(1), of n] assms(2) by (metis option.inject)

definition without :: "nat \<Rightarrow> (nat \<Rightarrow> nat list) \<Rightarrow> nat \<Rightarrow> nat list" where
  "without n f l = removeAll n (f l)"

lemma segment_new_next:
  assumes "segment h p xs q" and "distinct xs"
    and "\<forall>x\<in>set xs. m_prev (h' x) = m_prev (h x)"
    and "\<forall>x\<in>set xs. m_next (h' x) = (if Some x = last_ptr None xs then q' else m_next (h x))"
  shows "segment h' p xs q'"
  using assms(1,3,4) by (intro segment_ends [OF assms(1,2)]) (cases xs; auto)+

lemma last_next: "segment h p xs q \<Longrightarrow> Some x = last_ptr None xs \<Longrightarrow> m_next (h x) = q"
  by (induction xs arbitrary: p rule: rev_induct) (auto simp: segment_append)

lemma segment_new_prev:
  assumes "segment h p xs q" and "distinct xs"
    and "\<forall>x\<in>set xs. m_next (h' x) = m_next (h x)"
    and "\<forall>x\<in>set xs. m_prev (h' x) = (if Some x = head_ptr xs None then p' else m_prev (h x))"
  shows "segment h' p' xs q"
  using assms(3,4) last_next [OF assms(1)] by (intro segment_ends [OF assms(1,2)]) auto

section \<open>Removal\<close>

lemma node_remove_result:
  assumes "m_storage (nodes s n) = Some l" and "m_prev (nodes s n) \<noteq> Some n" and "m_next (nodes s n) \<noteq> Some n"
  shows "\<exists>s'. node_remove is_raw n s = Inr s' \<and>
    (\<forall>x. nodes s' x =
      (if x = n then \<lparr>m_storage = None, m_next = None, m_prev = None, m_self = if is_raw then m_self (nodes s n) else None\<rparr>
       else (nodes s x)\<lparr>m_next := if m_prev (nodes s n) = Some x then m_next (nodes s n) else m_next (nodes s x),
                        m_prev := if m_next (nodes s n) = Some x then m_prev (nodes s n) else m_prev (nodes s x)\<rparr>)) \<and>
    (\<forall>k. storages s' k =
      (if k = l then \<lparr>m_first = if m_first (storages s l) = Some n then m_next (nodes s n) else m_first (storages s l),
                      m_last = if m_last (storages s l) = Some n then m_prev (nodes s n) else m_last (storages s l)\<rparr>
       else storages s k))"
  using assms
  by (cases "m_prev (nodes s n)"; cases "m_next (nodes s n)")
    (auto simp: node_remove_def if_pointer_def set_node_def set_storage_def Let_def)

lemma node_remove_correct:
  assumes "represents_lists is_raw s f" and "n \<in> set (f l)"
  shows "\<exists>s'. node_remove is_raw n s = Inr s' \<and> represents_lists is_raw s' (without n f)"
proof -
  note r = represents_listsD [OF assms(1)]
  obtain as bs where fl: "f l = as @ n # bs" using assms(2) by (metis split_list)
  then have notin: "n \<notin> set as" "n \<notin> set bs" "set as \<inter> set bs = {}" "distinct as" "distinct bs" using r(1) [of l] by auto
  have seg: "segment (nodes s) None as (Some n)" "m_prev (nodes s n) = last_ptr None as"
      "m_next (nodes s n) = head_ptr bs None" "segment (nodes s) (Some n) bs None"
    using r(2) [of l] by (simp_all add: fl segment_append)
  have neq: "m_prev (nodes s n) \<noteq> Some n" "m_next (nodes s n) \<noteq> Some n"
    using seg notin last_ptr_in [of as n] head_ptr_in [of bs n] by auto
  obtain s' where s': "node_remove is_raw n s = Inr s'"
    and h: "\<And>x. nodes s' x =
      (if x = n then \<lparr>m_storage = None, m_next = None, m_prev = None, m_self = if is_raw then m_self (nodes s n) else None\<rparr>
       else (nodes s x)\<lparr>m_next := if m_prev (nodes s n) = Some x then m_next (nodes s n) else m_next (nodes s x),
                        m_prev := if m_next (nodes s n) = Some x then m_prev (nodes s n) else m_prev (nodes s x)\<rparr>)"
    and t: "\<And>k. storages s' k =
      (if k = l then \<lparr>m_first = if m_first (storages s l) = Some n then m_next (nodes s n) else m_first (storages s l),
                      m_last = if m_last (storages s l) = Some n then m_prev (nodes s n) else m_last (storages s l)\<rparr>
       else storages s k)"
    using node_remove_result [OF _ neq, of l is_raw] r(5) [of n l] assms(2) by blast
  have ends: "last_ptr None as = Some x \<Longrightarrow> x \<in> set as" "head_ptr bs None = Some x \<Longrightarrow> x \<in> set bs" for x
    by (rule last_ptr_in, assumption) (rule head_ptr_in, assumption)
  have at_l: "without n f l = as @ bs" using notin by (simp add: without_def fl)
  have elsewhere: "without n f k = f k" if "k \<noteq> l" for k
    using represents_lists_disjoint [OF assms, of k] that by (simp add: without_def)
  have "segment (nodes s') None as (head_ptr bs None)"
    using notin ends by (intro segment_new_next [OF seg(1)]) (auto simp: h seg(2,3))
  moreover have "segment (nodes s') (last_ptr None as) bs None"
    using notin ends by (intro segment_new_prev [OF seg(4)]) (auto simp: h seg(2,3))
  ultimately have chain: "segment (nodes s') None (as @ bs) None" by (simp add: segment_append)
  have outside: "x \<noteq> n \<and> x \<notin> set as \<and> x \<notin> set bs" if "k \<noteq> l" and "x \<in> set (f k)" for k x
    using represents_lists_disjoint [OF assms(1) that(2), of l] that(1) fl by auto
  have other: "segment (nodes s') None (f k) None" if "k \<noteq> l" for k
  proof (rule segment_frame [OF r(2)], rule ballI)
    fix x
    assume "x \<in> set (f k)"
    then have "x \<noteq> n" "m_prev (nodes s n) \<noteq> Some x" "m_next (nodes s n) \<noteq> Some x"
      using outside [OF that] ends unfolding seg(2,3) by blast+
    then show "m_prev (nodes s' x) = m_prev (nodes s x) \<and> m_next (nodes s' x) = m_next (nodes s x)" by (simp add: h)
  qed
  have first: "m_first (storages s' l) = head_ptr (as @ bs) None"
    using r(3) [of l] notin by (cases as) (auto simp: t fl seg(3) head_ptr_append)
  have last: "m_last (storages s' l) = last_ptr None (as @ bs)"
    using r(4) [of l] notin by (cases bs rule: rev_cases) (auto simp: t fl seg(2) last_ptr_append)
  have "represents_lists is_raw s' (without n f)"
    unfolding represents_lists_def
  proof (intro conjI allI impI)
    show "distinct (without n f k)" for k using r(1) [of k] by (simp add: without_def distinct_removeAll)
    show "segment (nodes s') None (without n f k) None" for k
      using chain other at_l elsewhere by (cases "k = l") auto
    show "m_first (storages s' k) = head_ptr (without n f k) None" for k
      using first r(3) [of k] at_l elsewhere by (cases "k = l") (auto simp: t)
    show "m_last (storages s' k) = last_ptr None (without n f k)" for k
      using last r(4) [of k] at_l elsewhere by (cases "k = l") (auto simp: t)
    show "m_storage (nodes s' x) = Some k \<longleftrightarrow> x \<in> set (without n f k)" for x k
      using r(5) [of x k] by (auto simp: h without_def)
    show "m_next (nodes s' x) = None" "m_prev (nodes s' x) = None" if "m_storage (nodes s' x) = None" for x
    proof -
      have "x = n \<or> x \<notin> set (f l) \<and> m_storage (nodes s x) = None"
        using that r(5) [of x l] by (auto simp: h)
      then show "m_next (nodes s' x) = None" "m_prev (nodes s' x) = None"
        using r(6) [of x] ends fl by (auto simp: h seg(2,3))
    qed
    show "m_self (nodes s' x) = (if is_raw \<or> m_storage (nodes s' x) = None then None else Some x)" for x
      using r(7) [of x] r(7) [of n] by (auto simp: h)
  qed
  then show ?thesis using s' by blast
qed

lemma list_remove_correct:
  assumes "represents_lists is_raw s f"
  shows "\<exists>s'. list_remove is_raw n s = Inr s' \<and> represents_lists is_raw s' (without n f)"
proof (cases "m_storage (nodes s n)")
  case None
  then have "without n f = f"
    using represents_listsD(5) [OF assms, of n] by (auto simp: without_def fun_eq_iff)
  then show ?thesis using None assms by (simp add: list_remove_def)
next
  case (Some l)
  then show ?thesis
    using node_remove_correct [OF assms] represents_listsD(5) [OF assms, of n l] by (simp add: list_remove_def)
qed

section \<open>Insertion\<close>

lemma insert_correct:
  assumes "represents_lists is_raw s f" and "m_storage (nodes s n) = None" and "f l = as @ bs"
    and h: "\<And>x. nodes s' x =
      (if x = n then \<lparr>m_storage = Some l, m_next = head_ptr bs None, m_prev = last_ptr None as,
                      m_self = if is_raw then None else Some n\<rparr>
       else (nodes s x)\<lparr>m_next := if last_ptr None as = Some x then Some n else m_next (nodes s x),
                        m_prev := if head_ptr bs None = Some x then Some n else m_prev (nodes s x)\<rparr>)"
    and t: "\<And>k. storages s' k =
      (if k = l then \<lparr>m_first = head_ptr (as @ [n]) None, m_last = last_ptr (Some n) bs\<rparr> else storages s k)"
  shows "represents_lists is_raw s' (f(l := as @ n # bs))"
proof -
  note r = represents_listsD [OF assms(1)]
  have new: "n \<notin> set (f k)" for k using r(5) [of n k] assms(2) by auto
  then have notin: "n \<notin> set as" "n \<notin> set bs" "set as \<inter> set bs = {}" "distinct as" "distinct bs"
    using r(1) [of l] new [of l] unfolding assms(3) by auto
  have seg: "segment (nodes s) None as (head_ptr bs None)" "segment (nodes s) (last_ptr None as) bs None"
    using r(2) [of l] by (simp_all add: assms(3) segment_append)
  have ends: "last_ptr None as = Some x \<Longrightarrow> x \<in> set as" "head_ptr bs None = Some x \<Longrightarrow> x \<in> set bs" for x
    by (rule last_ptr_in, assumption) (rule head_ptr_in, assumption)
  have "segment (nodes s') None as (Some n)"
    using notin ends by (intro segment_new_next [OF seg(1)]) (auto simp: h)
  moreover have "segment (nodes s') (Some n) bs None"
    using notin ends by (intro segment_new_prev [OF seg(2)]) (auto simp: h)
  ultimately have chain: "segment (nodes s') None (as @ n # bs) None" by (simp add: segment_append h)
  have outside: "x \<noteq> n \<and> x \<notin> set as \<and> x \<notin> set bs" if "k \<noteq> l" and "x \<in> set (f k)" for k x
    using represents_lists_disjoint [OF assms(1) that(2), of l] that new [of k] assms(3) by auto
  have other: "segment (nodes s') None (f k) None" if "k \<noteq> l" for k
  proof (rule segment_frame [OF r(2)], rule ballI)
    fix x
    assume "x \<in> set (f k)"
    then have "x \<noteq> n" "last_ptr None as \<noteq> Some x" "head_ptr bs None \<noteq> Some x"
      using outside [OF that] ends by blast+
    then show "m_prev (nodes s' x) = m_prev (nodes s x) \<and> m_next (nodes s' x) = m_next (nodes s x)" by (simp add: h)
  qed
  show ?thesis
    unfolding represents_lists_def
  proof (intro conjI allI impI)
    show "distinct ((f(l := as @ n # bs)) k)" for k using r(1) [of k] notin by auto
    show "segment (nodes s') None ((f(l := as @ n # bs)) k) None" for k using chain other by auto
    show "m_first (storages s' k) = head_ptr ((f(l := as @ n # bs)) k) None" for k
      using r(3) [of k] by (simp add: t head_ptr_append)
    show "m_last (storages s' k) = last_ptr None ((f(l := as @ n # bs)) k)" for k
      using r(4) [of k] by (simp add: t last_ptr_append)
    show "m_storage (nodes s' x) = Some k \<longleftrightarrow> x \<in> set ((f(l := as @ n # bs)) k)" for x k
      using r(5) [of x k] new [of k] by (auto simp: h assms(3))
    show "m_next (nodes s' x) = None" "m_prev (nodes s' x) = None" if "m_storage (nodes s' x) = None" for x
    proof -
      have "x \<noteq> n \<and> x \<notin> set (f l) \<and> m_storage (nodes s x) = None"
        using that r(5) [of x l] by (auto simp: h split: if_splits)
      then show "m_next (nodes s' x) = None" "m_prev (nodes s' x) = None"
        using r(6) [of x] ends assms(3) by (auto simp: h)
    qed
    show "m_self (nodes s' x) = (if is_raw \<or> m_storage (nodes s' x) = None then None else Some x)" for x
      using r(7) [of x] by (simp add: h)
  qed
qed

lemma removed_is_free:
  assumes "represents_lists is_raw s (without n f)"
  shows "m_storage (nodes s n) = None" and "m_self (nodes s n) = None"
proof -
  have "n \<notin> set (without n f l)" for l by (simp add: without_def)
  then show free: "m_storage (nodes s n) = None" using represents_listsD(5) [OF assms, of n] by (cases "m_storage (nodes s n)") auto
  then show "m_self (nodes s n) = None" using represents_listsD(7) [OF assms, of n] by simp
qed

lemma list_append_correct:
  assumes "represents_lists is_raw s f"
  shows "\<exists>s'. list_append is_raw l n s = Inr s' \<and> represents_lists is_raw s' ((without n f)(l := without n f l @ [n]))"
proof -
  obtain s1 where s1: "list_remove is_raw n s = Inr s1" "represents_lists is_raw s1 (without n f)"
    using list_remove_correct [OF assms] by blast
  note r = represents_listsD [OF s1(2)] removed_is_free [OF s1(2)]
  have other: "last_ptr None (without n f l) \<noteq> Some n" using last_ptr_in [of "without n f l" n] by (auto simp: without_def)
  show ?thesis
    using s1(1) other r(3,4) [of l] r(9)
    by (intro exI conjI, simp add: list_append_def)
      (rule insert_correct [OF s1(2) r(8)];
       auto simp: Let_def if_pointer_def set_node_def set_storage_def last_ptr_def head_ptr_def split: list.splits if_splits)
qed

lemma prepend_correct:
  assumes "represents_lists is_raw s f"
  shows "\<exists>s'. prepend is_raw l n s = Inr s' \<and> represents_lists is_raw s' ((without n f)(l := n # without n f l))"
proof -
  obtain s1 where s1: "list_remove is_raw n s = Inr s1" "represents_lists is_raw s1 (without n f)"
    using list_remove_correct [OF assms] by blast
  note r = represents_listsD [OF s1(2)] removed_is_free [OF s1(2)]
  have other: "head_ptr (without n f l) None \<noteq> Some n" using head_ptr_in [of "without n f l" n] by (auto simp: without_def)
  have "represents_lists is_raw s2 ((without n f)(l := [] @ n # without n f l))"
    if "prepend is_raw l n s = Inr s2" for s2
    using s1(1) other r(3,4) [of l] r(9) that
    by (intro insert_correct [OF s1(2) r(8)])
      (auto simp: prepend_def Let_def if_pointer_def set_node_def set_storage_def last_ptr_def head_ptr_def
        split: list.splits if_splits)
  then show ?thesis using s1(1) by (simp add: prepend_def)
qed

lemma insert_before_correct:
  assumes "represents_lists is_raw s f" and "without n f l = as @ bn # bs"
  shows "\<exists>s'. insert_before is_raw l bn n s = Inr s' \<and> represents_lists is_raw s' ((without n f)(l := as @ n # bn # bs))"
proof -
  obtain s1 where s1: "list_remove is_raw n s = Inr s1" "represents_lists is_raw s1 (without n f)"
    using list_remove_correct [OF assms(1)] by blast
  note r = represents_listsD [OF s1(2)] removed_is_free [OF s1(2)]
  have "n \<notin> set (without n f l)" by (simp add: without_def)
  then have other: "bn \<noteq> n" "last_ptr None as \<noteq> Some n" using assms(2) last_ptr_in [of as n] by auto
  have distinct: "last_ptr None as \<noteq> Some bn" "as \<noteq> [] \<Longrightarrow> hd as \<noteq> bn"
    using r(1) [of l] last_ptr_in [of as bn] unfolding assms(2) by auto
  have prev: "m_prev (nodes s1 bn) = last_ptr None as"
    using r(2) [of l] by (simp add: assms(2) segment_append)
  have ends: "storages s1 l = \<lparr>m_first = Some (if as = [] then bn else hd as), m_last = Some (last (bn # bs))\<rparr>"
    using r(3,4) [of l] by (cases as) (simp_all add: assms(2) last_ptr_def)
  have first: "head_ptr (as @ [n]) None = Some (if as = [] then n else hd as)" by (cases as) simp_all
  have "represents_lists is_raw s2 ((without n f)(l := as @ n # bn # bs))"
    if "insert_before is_raw l bn n s = Inr s2" for s2
    using s1(1) other distinct prev ends r(9) that
    by (intro insert_correct [OF s1(2) r(8) assms(2)])
      (auto simp: insert_before_def Let_def if_pointer_def set_node_def set_storage_def last_ptr_def first
        split: if_splits)
  then show ?thesis using s1(1) by (simp add: insert_before_def)
qed

section \<open>The ends, loops and clearing\<close>

lemma list_take_first_correct:
  assumes "represents_lists is_raw s f"
  shows "f l = [] \<Longrightarrow> list_take_first is_raw l s = Inr (None, s)"
    and "f l = n # ns \<Longrightarrow> \<exists>s'. list_take_first is_raw l s = Inr (Some n, s') \<and> represents_lists is_raw s' (f(l := ns))"
proof -
  note r = represents_listsD [OF assms]
  show "f l = [] \<Longrightarrow> list_take_first is_raw l s = Inr (None, s)"
    using r(3) [of l] by (simp add: list_take_first_def list_first_def take_end_def)
  assume l: "f l = n # ns"
  then have "without n f = f(l := ns)"
    using r(1) [of l] represents_lists_disjoint [OF assms, of n l] by (auto simp: without_def fun_eq_iff)
  then show "\<exists>s'. list_take_first is_raw l s = Inr (Some n, s') \<and> represents_lists is_raw s' (f(l := ns))"
    using list_remove_correct [OF assms, of n] r(3) [of l] l by (auto simp: list_take_first_def list_first_def take_end_def)
qed

lemma list_take_last_correct:
  assumes "represents_lists is_raw s f"
  shows "f l = [] \<Longrightarrow> list_take_last is_raw l s = Inr (None, s)"
    and "f l = ns @ [n] \<Longrightarrow> \<exists>s'. list_take_last is_raw l s = Inr (Some n, s') \<and> represents_lists is_raw s' (f(l := ns))"
proof -
  note r = represents_listsD [OF assms]
  show "f l = [] \<Longrightarrow> list_take_last is_raw l s = Inr (None, s)"
    using r(4) [of l] by (simp add: list_take_last_def list_last_def take_end_def)
  assume l: "f l = ns @ [n]"
  then have "without n f = f(l := ns)"
    using r(1) [of l] represents_lists_disjoint [OF assms, of n l] by (auto simp: without_def fun_eq_iff)
  then show "\<exists>s'. list_take_last is_raw l s = Inr (Some n, s') \<and> represents_lists is_raw s' (f(l := ns))"
    using list_remove_correct [OF assms, of n] r(4) [of l] l by (auto simp: list_take_last_def list_last_def take_end_def)
qed

lemma list_clear_correct:
  assumes "represents_lists is_raw s f"
  shows "\<exists>s'. list_clear is_raw l s = Some (Inr s') \<and> represents_lists is_raw s' (f(l := []))"
  using assms
proof (induction "f l" arbitrary: s f)
  case Nil
  then have "f(l := []) = f" by (auto simp: fun_eq_iff)
  then show ?case
    using Nil represents_listsD(3) [OF Nil(2), of l] by (subst list_clear.simps) simp
next
  case (Cons n ns)
  note r = represents_listsD [OF Cons(3)]
  have "n \<in> set (f l)" using Cons(2) by (metis list.set_intros(1))
  then obtain s1 where s1: "node_remove is_raw n s = Inr s1" "represents_lists is_raw s1 (without n f)"
    using node_remove_correct [OF Cons(3)] by blast
  have "without n f = f(l := ns)"
    using r(1) [of l] represents_lists_disjoint [OF Cons(3), of n l] Cons(2) [symmetric] by (auto simp: without_def fun_eq_iff)
  then obtain s' where "list_clear is_raw l s1 = Some (Inr s')" "represents_lists is_raw s' (f(l := []))"
    using Cons(1) [of "without n f"] s1(2) by auto
  then show ?case
    using s1(1) r(3) [of l] Cons(2) [symmetric] by (subst list_clear.simps) simp
qed

lemma loop_over_next: "segment (nodes s) p xs None \<Longrightarrow> loop_over m_next s (head_ptr xs None) = Some (Inr xs)"
  by (induction xs arbitrary: p) (auto simp: loop_over.simps [of m_next s "Some _"] loop_over.simps [of m_next s None] advance_def)

lemma loop_over_prev: "segment (nodes s) None xs q \<Longrightarrow> loop_over m_prev s (last_ptr None xs) = Some (Inr (rev xs))"
  by (induction xs arbitrary: q rule: rev_induct)
    (auto simp: loop_over.simps [of m_prev s "Some _"] loop_over.simps [of m_prev s None] advance_def segment_append)

lemma iterator_erase_correct:
  assumes "represents_lists is_raw s f" and "f l = as @ n # bs"
  shows "\<exists>s'. iterator_erase is_raw (Some n) s = Inr (head_ptr bs None, s') \<and> represents_lists is_raw s' (f(l := as @ bs))"
proof -
  note r = represents_listsD [OF assms(1)]
  obtain s' where s': "node_remove is_raw n s = Inr s'" "represents_lists is_raw s' (without n f)"
    using node_remove_correct [OF assms(1)] assms(2) by (metis in_set_conv_decomp)
  moreover have "without n f = f(l := as @ bs)"
    using r(1) [of l] represents_lists_disjoint [OF assms(1), of n l] assms(2) by (auto simp: without_def fun_eq_iff)
  moreover have "m_next (nodes s n) = head_ptr bs None"
    using r(2) [of l] by (simp add: assms(2) segment_append)
  ultimately show ?thesis by (simp add: iterator_erase_def advance_def)
qed

section \<open>Sequences of requests\<close>

text \<open>
  The requests to a family of lists, what the code does for them, and what they do to the lists as values.
  Inserting before an element is legal when that element is in the list and is not the inserted one; taking
  from the end of a list removes the element.
\<close>

datatype list_request =
    Append nat nat
  | Prepend nat nat
  | InsertBefore nat nat nat
  | Remove nat
  | TakeFirst nat
  | TakeLast nat
  | Clear nat

fun perform :: "bool \<Rightarrow> list_request \<Rightarrow> lists \<Rightarrow> lists outcome" where
  "perform is_raw (Append l n) s = Some (list_append is_raw l n s)"
| "perform is_raw (Prepend l n) s = Some (prepend is_raw l n s)"
| "perform is_raw (InsertBefore l bn n) s = Some (insert_before is_raw l bn n s)"
| "perform is_raw (Remove n) s = Some (list_remove is_raw n s)"
| "perform is_raw (TakeFirst l) s = Some (try_then (list_take_first is_raw l s) (\<lambda>(_, s). Inr s))"
| "perform is_raw (TakeLast l) s = Some (try_then (list_take_last is_raw l s) (\<lambda>(_, s). Inr s))"
| "perform is_raw (Clear l) s = list_clear is_raw l s"

fun effect :: "list_request \<Rightarrow> (nat \<Rightarrow> nat list) \<Rightarrow> nat \<Rightarrow> nat list" where
  "effect (Append l n) f = (without n f)(l := without n f l @ [n])"
| "effect (Prepend l n) f = (without n f)(l := n # without n f l)"
| "effect (InsertBefore l bn n) f =
    (without n f)(l := takeWhile (\<lambda>x. x \<noteq> bn) (without n f l) @ n # dropWhile (\<lambda>x. x \<noteq> bn) (without n f l))"
| "effect (Remove n) f = without n f"
| "effect (TakeFirst l) f = f(l := tl (f l))"
| "effect (TakeLast l) f = f(l := butlast (f l))"
| "effect (Clear l) f = f(l := [])"

fun legal :: "list_request \<Rightarrow> (nat \<Rightarrow> nat list) \<Rightarrow> bool" where
  "legal (InsertBefore l bn n) f \<longleftrightarrow> bn \<noteq> n \<and> bn \<in> set (f l)"
| "legal _ f \<longleftrightarrow> True"

fun perform_all :: "bool \<Rightarrow> list_request list \<Rightarrow> lists \<Rightarrow> lists outcome" where
  "perform_all is_raw [] s = Some (Inr s)"
| "perform_all is_raw (r # rs) s = and_then (perform is_raw r s) (perform_all is_raw rs)"

fun legal_all :: "list_request list \<Rightarrow> (nat \<Rightarrow> nat list) \<Rightarrow> bool" where
  "legal_all [] f \<longleftrightarrow> True"
| "legal_all (r # rs) f \<longleftrightarrow> legal r f \<and> legal_all rs (effect r f)"

definition fresh_lists :: lists where
  "fresh_lists =
    \<lparr>nodes = (\<lambda>_. \<lparr>m_storage = None, m_next = None, m_prev = None, m_self = None\<rparr>),
     storages = (\<lambda>_. \<lparr>m_first = None, m_last = None\<rparr>)\<rparr>"

lemma perform_correct:
  assumes "represents_lists is_raw s f" and "legal r f"
  shows "\<exists>s'. perform is_raw r s = Some (Inr s') \<and> represents_lists is_raw s' (effect r f)"
proof (cases r)
  case (InsertBefore l bn n)
  then have "bn \<in> set (without n f l)" using assms(2) by (simp add: without_def)
  then obtain as bs where split: "without n f l = as @ bn # bs" "bn \<notin> set as" by (metis split_list_first)
  have "takeWhile (\<lambda>x. x \<noteq> bn) (without n f l) = as" "dropWhile (\<lambda>x. x \<noteq> bn) (without n f l) = bn # bs"
    using split by (auto simp: takeWhile_append dropWhile_append)
  then show ?thesis using insert_before_correct [OF assms(1) split(1)] InsertBefore by simp
next
  case (TakeFirst l)
  then show ?thesis using list_take_first_correct [OF assms(1), of l] assms(1) by (cases "f l") (auto simp: fun_upd_idem)
next
  case (TakeLast l)
  then show ?thesis
    using list_take_last_correct [OF assms(1), of l] assms(1) by (cases "f l" rule: rev_cases) (auto simp: fun_upd_idem)
qed (use list_append_correct prepend_correct list_remove_correct list_clear_correct assms(1) in \<open>fastforce+\<close>)

lemma perform_all_correct:
  "represents_lists is_raw s f \<Longrightarrow> legal_all rs f \<Longrightarrow>
    \<exists>s'. perform_all is_raw rs s = Some (Inr s') \<and> represents_lists is_raw s' (fold effect rs f)"
proof (induction rs arbitrary: s f)
  case (Cons r rs)
  then obtain s' where "perform is_raw r s = Some (Inr s')" "represents_lists is_raw s' (effect r f)"
    using perform_correct by (metis legal_all.simps(2))
  then show ?case using Cons by simp
qed simp

lemma represents_lists_fresh: "represents_lists is_raw fresh_lists (\<lambda>_. [])"
  by (simp add: represents_lists_def fresh_lists_def)

text \<open>
  C37. After any legal sequence of requests, of which none fails or keeps running, the lists are those that the
  requests give as values: loops in both directions visit their elements in order, and length, emptiness,
  membership, the ends and the references of the elements to themselves agree.
\<close>

theorem intrusive_lists_are_lists:
  assumes "legal_all rs (\<lambda>_. [])"
  shows "\<exists>s. perform_all is_raw rs fresh_lists = Some (Inr s) \<and>
    (\<forall>l. let xs = fold effect rs (\<lambda>_. []) l in
      loop_over m_next s (list_begin l s) = Some (Inr xs) \<and>
      loop_over m_prev s (list_rbegin l s) = Some (Inr (rev xs)) \<and>
      list_first l s = head_ptr xs None \<and> list_last l s = last_ptr None xs \<and>
      size_slow l s = Some (Inr (length xs)) \<and> (list_is_empty l s \<longleftrightarrow> xs = []) \<and>
      (\<forall>n. list_contains l n s \<longleftrightarrow> n \<in> set xs)) \<and>
    (\<forall>n. is_in_list n s \<longleftrightarrow> (\<exists>l. n \<in> set (fold effect rs (\<lambda>_. []) l))) \<and>
    (\<forall>n. m_self (nodes s n) = (if is_raw \<or> \<not> is_in_list n s then None else Some n))"
proof -
  obtain s where s: "perform_all is_raw rs fresh_lists = Some (Inr s)" "represents_lists is_raw s (fold effect rs (\<lambda>_. []))"
    using perform_all_correct [OF represents_lists_fresh assms] by blast
  note r = represents_listsD [OF s(2)]
  have forward: "loop_over m_next s (m_first (storages s l)) = Some (Inr (fold effect rs (\<lambda>_. []) l))" for l
    using loop_over_next [OF r(2)] r(3) by simp
  moreover have "loop_over m_prev s (m_last (storages s l)) = Some (Inr (rev (fold effect rs (\<lambda>_. []) l)))" for l
    using loop_over_prev [OF r(2)] r(4) by simp
  moreover have "is_in_list n s \<longleftrightarrow> (\<exists>l. n \<in> set (fold effect rs (\<lambda>_. []) l))" for n
    using r(5) [of n] by (auto simp: is_in_list_def)
  moreover have "m_self (nodes s n) = (if is_raw \<or> \<not> is_in_list n s then None else Some n)" for n
    using r(7) by (simp add: is_in_list_def)
  ultimately show ?thesis
    using s(1) r(3,4,5) by (auto simp: Let_def list_begin_def list_rbegin_def list_first_def list_last_def size_slow_def list_is_empty_def list_contains_def)
qed

lemma intrusive_lists_are_lists_witness:
  "\<exists>s. perform_all False [Append 1 10, Append 1 11, InsertBefore 1 11 12, Prepend 2 11, TakeFirst 1] fresh_lists = Some (Inr s) \<and>
    loop_over m_next s (list_begin 1 s) = Some (Inr [12]) \<and> list_contains 2 11 s"
proof -
  let ?rs = "[Append 1 10, Append 1 11, InsertBefore 1 11 12, Prepend 2 11, TakeFirst 1]"
  have "legal_all ?rs (\<lambda>_. [])" by (simp add: without_def)
  moreover have "fold effect ?rs (\<lambda>_. []) 1 = [12]" "11 \<in> set (fold effect ?rs (\<lambda>_. []) 2)" by (simp_all add: without_def)
  ultimately show ?thesis using intrusive_lists_are_lists [of ?rs False] by (force simp: Let_def)
qed

end
