(* ===== verification/Url.thy ===== *)
theory Url
  imports StringUtils IPv4Address
begin

unbundle bit_operations_syntax

text \<open>
  \<open>AK/URL.cpp\<close> and \<open>AK/URL.h\<close>. A \<open>String\<close> is null or a list of bytes. Views of literals, strings and
  builders lie at addresses of their own, which only the comparison of pointers in \<open>starts_with\<close> looks at.
  The formatting of a number as \<open>%{:02X}\<close> is done by a file that the repository does not have and is the
  parameter \<open>format_hex\<close>.
\<close>

type_synonym ak_string = "u8 list option"

definition literal :: "string \<Rightarrow> u8 list" where
  "literal s = map of_char s"

definition literal_view :: "string \<Rightarrow> string_view" where
  "literal_view s = \<lparr>m_characters = 1, chars = literal s\<rparr>"

definition text_view :: "ak_string \<Rightarrow> string_view" where
  "text_view t = (case t of None \<Rightarrow> null_view | Some cs \<Rightarrow> \<lparr>m_characters = 2, chars = cs\<rparr>)"

definition builder_view :: "u8 list \<Rightarrow> string_view" where
  "builder_view cs = \<lparr>m_characters = 3, chars = cs\<rparr>"

definition string_of_view :: "string_view \<Rightarrow> ak_string" where
  "string_of_view v = (if is_null v then None else Some (chars v))"

definition text_is_empty :: "ak_string \<Rightarrow> bool" where
  "text_is_empty t \<longleftrightarrow> chars (text_view t) = []"

record url =
  m_valid :: bool
  m_scheme :: ak_string
  m_username :: ak_string
  m_password :: ak_string
  m_host :: ak_string
  m_port :: "u16 option"
  m_paths :: "ak_string list"
  m_query :: ak_string
  m_fragment :: ak_string
  m_cannot_be_a_base_url :: bool
  m_data_payload_is_base64 :: bool
  m_data_mime_type :: ak_string
  m_data_payload :: ak_string

definition default_url :: url where
  "default_url = \<lparr>m_valid = False, m_scheme = None, m_username = None, m_password = None, m_host = None,
    m_port = None, m_paths = [], m_query = None, m_fragment = None, m_cannot_be_a_base_url = False,
    m_data_payload_is_base64 = False, m_data_mime_type = None, m_data_payload = None\<rparr>"

definition data_url :: "ak_string \<Rightarrow> ak_string \<Rightarrow> bool \<Rightarrow> url" where
  "data_url mime_type payload is_base64 = default_url\<lparr>m_valid := True, m_scheme := Some (literal ''data''),
    m_data_payload_is_base64 := is_base64, m_data_mime_type := mime_type, m_data_payload := payload\<rparr>"

section \<open>Schemes and ports\<close>

definition is_one_of :: "ak_string \<Rightarrow> string list \<Rightarrow> bool" where
  "is_one_of t names \<longleftrightarrow> t \<in> (\<lambda>s. Some (literal s)) ` set names"

definition is_special_scheme :: "ak_string \<Rightarrow> bool" where
  "is_special_scheme scheme \<longleftrightarrow> is_one_of scheme [''ftp'', ''file'', ''http'', ''https'', ''ws'', ''wss'']"

definition is_special :: "url \<Rightarrow> bool" where
  "is_special u \<longleftrightarrow> is_special_scheme (m_scheme u)"

definition default_port_for_scheme :: "ak_string \<Rightarrow> u16" where
  "default_port_for_scheme scheme =
    (if scheme = Some (literal ''http'') then 80
     else if scheme = Some (literal ''https'') then 443
     else if scheme = Some (literal ''gemini'') then 1965
     else if scheme = Some (literal ''irc'') then 6667
     else if scheme = Some (literal ''ircs'') then 6697
     else if scheme = Some (literal ''ws'') then 80
     else if scheme = Some (literal ''wss'') then 443
     else 0)"

definition scheme_requires_port :: "ak_string \<Rightarrow> bool" where
  "scheme_requires_port scheme \<longleftrightarrow> default_port_for_scheme scheme \<noteq> 0"

definition port_or_default :: "url \<Rightarrow> u16" where
  "port_or_default u = (case m_port u of None \<Rightarrow> default_port_for_scheme (m_scheme u) | Some p \<Rightarrow> p)"

section \<open>Validity and setters\<close>

definition compute_validity :: "url \<Rightarrow> bool error_or" where
  "compute_validity u =
    (let host_check = Inr (\<not> (m_scheme u = Some (literal ''file'') \<and> m_host u = None))
     in if text_is_empty (m_scheme u) then Inr False
        else if m_scheme u = Some (literal ''data'')
        then if text_is_empty (m_data_mime_type u) then Inr False
             else if m_data_payload_is_base64 u
             then if length (chars (text_view (m_data_payload u))) mod 4 \<noteq> 0 then Inr False
                  else if list_ex (\<lambda>character. \<not> is_ascii_alphanumeric (scast character) \<or> character = 0x2B \<or>
                        character = 0x2F \<or> character = 0x3D) (chars (text_view (m_data_payload u)))
                  then Inr False
                  else host_check
             else host_check
        else if m_cannot_be_a_base_url u
        then if length (m_paths u) \<noteq> 1 then Inr False
             else if text_is_empty (m_paths u ! 0) then Inr False
             else host_check
        else if is_one_of (m_scheme u) [''about'', ''mailto''] then Inr False
        else if length (m_paths u) = 0 then Inr False
        else host_check)"

definition revalidated :: "url \<Rightarrow> url error_or" where
  "revalidated u = try_then (compute_validity u) (\<lambda>v. Inr (u\<lparr>m_valid := v\<rparr>))"

definition set_scheme :: "ak_string \<Rightarrow> url \<Rightarrow> url error_or" where
  "set_scheme scheme u = revalidated (u\<lparr>m_scheme := scheme\<rparr>)"

definition set_username :: "ak_string \<Rightarrow> url \<Rightarrow> url error_or" where
  "set_username username u = revalidated (u\<lparr>m_username := username\<rparr>)"

definition set_password :: "ak_string \<Rightarrow> url \<Rightarrow> url error_or" where
  "set_password password u = revalidated (u\<lparr>m_password := password\<rparr>)"

definition set_host :: "ak_string \<Rightarrow> url \<Rightarrow> url error_or" where
  "set_host host u = revalidated (u\<lparr>m_host := host\<rparr>)"

definition set_port :: "u16 option \<Rightarrow> url \<Rightarrow> url error_or" where
  "set_port port u =
    (if port = Some (default_port_for_scheme (m_scheme u)) then Inr (u\<lparr>m_port := None\<rparr>)
     else revalidated (u\<lparr>m_port := port\<rparr>))"

definition set_paths :: "ak_string list \<Rightarrow> url \<Rightarrow> url error_or" where
  "set_paths paths u = revalidated (u\<lparr>m_paths := paths\<rparr>)"

definition set_query :: "ak_string \<Rightarrow> url \<Rightarrow> url" where
  "set_query query u = u\<lparr>m_query := query\<rparr>"

definition set_fragments :: "ak_string \<Rightarrow> url \<Rightarrow> url" where
  "set_fragments fragment u = u\<lparr>m_fragment := fragment\<rparr>"

definition append_path :: "ak_string \<Rightarrow> url \<Rightarrow> url" where
  "append_path path u = u\<lparr>m_paths := m_paths u @ [path]\<rparr>"

definition url_path :: "url \<Rightarrow> ak_string error_or" where
  "url_path u =
    (if m_cannot_be_a_base_url u then verify (0 < length (m_paths u)) (Inr (m_paths u ! 0))
     else Inr (Some (concat (map (\<lambda>path. literal ''/'' @ chars (text_view path)) (m_paths u)))))"

definition basename :: "url \<Rightarrow> ak_string" where
  "basename u = (if \<not> m_valid u then None else if m_paths u = [] then None else last (m_paths u))"

section \<open>Percent encoding\<close>

datatype percent_encode_set =
    C0Control
  | FragmentSet
  | QuerySet
  | SpecialQuerySet
  | PathSet
  | UserinfoSet
  | ComponentSet
  | FormUrlencodedSet
  | EncodeURISet

text \<open>The cases of \<open>code_point_is_in_percent_encode_set\<close>; a code point is looked for as a \<open>char\<close>.\<close>

definition one_of_chars :: "string \<Rightarrow> u32 \<Rightarrow> bool" where
  "one_of_chars s code_point \<longleftrightarrow> view_contains_char (literal_view s) (ucast code_point)"

definition in_c0_control :: "u32 \<Rightarrow> bool" where
  "in_c0_control code_point \<longleftrightarrow> code_point < 0x20 \<or> code_point > 0x7E"

definition in_query_set :: "u32 \<Rightarrow> bool" where
  "in_query_set code_point \<longleftrightarrow> in_c0_control code_point \<or> one_of_chars (CHR 0x22 # '' #<>'') code_point"

definition in_path_set :: "u32 \<Rightarrow> bool" where
  "in_path_set code_point \<longleftrightarrow> in_query_set code_point \<or> one_of_chars (CHR 0x60 # ''?{}'') code_point"

definition in_userinfo_set :: "u32 \<Rightarrow> bool" where
  "in_userinfo_set code_point \<longleftrightarrow> in_path_set code_point \<or> one_of_chars (CHR 0x5C # ''/:;=@[]^|'') code_point"

definition in_component_set :: "u32 \<Rightarrow> bool" where
  "in_component_set code_point \<longleftrightarrow> in_userinfo_set code_point \<or> one_of_chars ''$%&+,'' code_point"

definition code_point_is_in_percent_encode_set :: "u32 \<Rightarrow> percent_encode_set \<Rightarrow> bool" where
  "code_point_is_in_percent_encode_set code_point pset =
    (case pset of
       C0Control \<Rightarrow> in_c0_control code_point
     | FragmentSet \<Rightarrow> in_c0_control code_point \<or> one_of_chars (CHR 0x22 # CHR 0x60 # '' <>'') code_point
     | QuerySet \<Rightarrow> in_query_set code_point
     | SpecialQuerySet \<Rightarrow> in_query_set code_point \<or> code_point = 0x27
     | PathSet \<Rightarrow> in_path_set code_point
     | UserinfoSet \<Rightarrow> in_userinfo_set code_point
     | ComponentSet \<Rightarrow> in_component_set code_point
     | FormUrlencodedSet \<Rightarrow> in_component_set code_point \<or> one_of_chars (CHR 0x27 # ''!()~'') code_point
     | EncodeURISet \<Rightarrow> code_point \<ge> 0x7E \<or>
         (\<not> is_ascii_alphanumeric code_point \<and> \<not> one_of_chars (CHR 0x27 # '';,/?:@&=+$-_.!~*()#'') code_point))"

definition append_percent_encoded :: "(u32 \<Rightarrow> u8 list) \<Rightarrow> u32 \<Rightarrow> u8 list error_or" where
  "append_percent_encoded format_hex code_point =
    (if code_point \<le> 0x7F then Inr (format_hex code_point)
     else if code_point \<le> 0x7FF
     then Inr (format_hex ((drop_bit 6 code_point AND 0x1F) OR 0xC0) @ format_hex ((code_point AND 0x3F) OR 0x80))
     else if code_point \<le> 0xFFFF
     then Inr (format_hex ((drop_bit 12 code_point AND 0x0F) OR 0xE0) @
       format_hex ((drop_bit 6 code_point AND 0x3F) OR 0x80) @ format_hex ((code_point AND 0x3F) OR 0x80))
     else if code_point \<le> 0x10FFFF
     then Inr (format_hex ((drop_bit 18 code_point AND 0x07) OR 0xF0) @
       format_hex ((drop_bit 12 code_point AND 0x3F) OR 0x80) @
       format_hex ((drop_bit 6 code_point AND 0x3F) OR 0x80) @ format_hex ((code_point AND 0x3F) OR 0x80))
     else Inl VerifyFailed)"

definition append_percent_encoded_if_necessary ::
    "(u32 \<Rightarrow> u8 list) \<Rightarrow> u32 \<Rightarrow> percent_encode_set \<Rightarrow> u8 list error_or" where
  "append_percent_encoded_if_necessary format_hex code_point pset =
    (if code_point_is_in_percent_encode_set code_point pset then append_percent_encoded format_hex code_point
     else Inr (append_code_point code_point))"

text \<open>
  \<open>percent_encode\<close> fills a builder and ends without a return statement, so that it has no result: the
  program is undefined from there.
\<close>

fun percent_encode_loop ::
    "(u32 \<Rightarrow> u8 list) \<Rightarrow> percent_encode_set \<Rightarrow> bool \<Rightarrow> u32 list \<Rightarrow> u8 list error_or" where
  "percent_encode_loop format_hex pset space_as_plus [] = Inr []"
| "percent_encode_loop format_hex pset space_as_plus (code_point # cs) =
    try_then (if space_as_plus \<and> code_point = 0x20 then Inr [0x2B]
              else append_percent_encoded_if_necessary format_hex code_point pset)
      (\<lambda>out. try_then (percent_encode_loop format_hex pset space_as_plus cs) (\<lambda>rest. Inr (out @ rest)))"

definition percent_encode ::
    "(u32 \<Rightarrow> u8 list) \<Rightarrow> string_view \<Rightarrow> percent_encode_set \<Rightarrow> bool \<Rightarrow> ak_string error_or" where
  "percent_encode format_hex input pset space_as_plus =
    try_then (percent_encode_loop format_hex pset space_as_plus (code_points (chars input)))
      (\<lambda>_. Inl (Panic ''percent_encode ends without a return''))"

fun percent_decode_loop :: "u8 list \<Rightarrow> u8 list error_or" where
  "percent_decode_loop [] = Inr []"
| "percent_decode_loop (b # rest) =
    (let append_one = \<lambda>c. try_then (percent_decode_loop rest) (\<lambda>out. Inr (append_code_point c @ out));
         is_hex = \<lambda>c. is_ascii_hex_digit (case c of None \<Rightarrow> 0 | Some c \<Rightarrow> c)
     in try_then (dereference (b # rest)) (\<lambda>c.
        if c \<noteq> 0x25 then append_one c
        else try_then (peek (b # rest) 1) (\<lambda>first.
          if \<not> is_hex first then append_one c
          else try_then (peek (b # rest) 2) (\<lambda>second.
            if \<not> is_hex second then append_one c
            else (case rest of
                d1 # d2 # rest' \<Rightarrow>
                  try_then (dereference (d1 # d2 # rest')) (\<lambda>c1. try_then (parse_ascii_hex_digit c1) (\<lambda>h1.
                  try_then (dereference (d2 # rest')) (\<lambda>c2. try_then (parse_ascii_hex_digit c2) (\<lambda>h2.
                  try_then (percent_decode_loop rest') (\<lambda>out.
                    Inr ((ucast (push_bit 4 h1) + ucast h2) # out))))))
              | _ \<Rightarrow> Inl VerifyFailed)))))"

definition percent_decode :: "string_view \<Rightarrow> ak_string error_or" where
  "percent_decode input =
    (if \<not> view_contains_char input 0x25 then Inr (string_of_view input)
     else try_then (percent_decode_loop (chars input)) (\<lambda>out. Inr (Some out)))"

section \<open>Serialization\<close>

text \<open>The format \<open>:{}\<close> of a port is the parameter \<open>format_port\<close>. The objects that are compared are different ones.\<close>

definition includes_credentials :: "url \<Rightarrow> bool" where
  "includes_credentials u \<longleftrightarrow> \<not> text_is_empty (m_username u) \<or> \<not> text_is_empty (m_password u)"

definition encoded :: "(u32 \<Rightarrow> u8 list) \<Rightarrow> percent_encode_set \<Rightarrow> ak_string \<Rightarrow> u8 list error_or" where
  "encoded format_hex pset t =
    try_then (percent_encode format_hex (text_view t) pset False) (\<lambda>r. Inr (chars (text_view r)))"

fun concatenated :: "u8 list error_or list \<Rightarrow> u8 list error_or" where
  "concatenated [] = Inr []"
| "concatenated (part # parts) = try_then part (\<lambda>out. try_then (concatenated parts) (\<lambda>rest. Inr (out @ rest)))"

definition serialize_data_url :: "(u32 \<Rightarrow> u8 list) \<Rightarrow> url \<Rightarrow> ak_string error_or" where
  "serialize_data_url format_hex u =
    verify (m_scheme u = Some (literal ''data'')) (verify (m_data_mime_type u \<noteq> None) (verify (m_data_payload u \<noteq> None)
      (try_then (concatenated
        [Inr (chars (text_view (m_scheme u))), Inr (literal '':''), Inr (chars (text_view (m_data_mime_type u))),
         Inr (if m_data_payload_is_base64 u then literal '';base64'' else []), Inr (literal '',''),
         encoded format_hex C0Control (m_data_payload u)]) (\<lambda>out. Inr (Some out)))))"

definition serialized_path :: "(u32 \<Rightarrow> u8 list) \<Rightarrow> url \<Rightarrow> u8 list error_or" where
  "serialized_path format_hex u =
    (if m_cannot_be_a_base_url u
     then verify (0 < length (m_paths u)) (encoded format_hex PathSet (m_paths u ! 0))
     else concatenated
       (Inr (if m_host u = None \<and> length (m_paths u) > 1 \<and> text_is_empty (m_paths u ! 0) then literal ''/.'' else []) #
        concat (map (\<lambda>segment. [Inr (literal ''/''), encoded format_hex PathSet segment]) (m_paths u))))"

definition serialized_query :: "(u32 \<Rightarrow> u8 list) \<Rightarrow> url \<Rightarrow> u8 list error_or" where
  "serialized_query format_hex u =
    (if m_query u = None then Inr []
     else concatenated [Inr (literal ''?''),
       encoded format_hex (if is_special u then SpecialQuerySet else QuerySet) (m_query u)])"

definition serialized_fragment :: "(u32 \<Rightarrow> u8 list) \<Rightarrow> url \<Rightarrow> u8 list error_or" where
  "serialized_fragment format_hex u =
    (if m_fragment u = None then Inr []
     else concatenated [Inr (literal ''#''), encoded format_hex FragmentSet (m_fragment u)])"

definition serialized_credentials :: "(u32 \<Rightarrow> u8 list) \<Rightarrow> url \<Rightarrow> u8 list error_or" where
  "serialized_credentials format_hex u =
    (if includes_credentials u
     then concatenated [encoded format_hex UserinfoSet (m_username u),
       if text_is_empty (m_password u) then Inr []
       else concatenated [Inr (literal '':''), encoded format_hex UserinfoSet (m_password u)],
       Inr (literal ''@'')]
     else Inr [])"

definition serialized_host :: "(u16 \<Rightarrow> u8 list) \<Rightarrow> url \<Rightarrow> u8 list" where
  "serialized_host format_port u =
    chars (text_view (m_host u)) @ (case m_port u of None \<Rightarrow> [] | Some p \<Rightarrow> format_port p)"

definition serialize :: "(u32 \<Rightarrow> u8 list) \<Rightarrow> (u16 \<Rightarrow> u8 list) \<Rightarrow> bool \<Rightarrow> url \<Rightarrow> ak_string error_or" where
  "serialize format_hex format_port exclude_fragment u =
    (if m_scheme u = Some (literal ''data'') then serialize_data_url format_hex u
     else try_then (concatenated
       [Inr (chars (text_view (m_scheme u))), Inr (literal '':''),
        if m_host u = None then Inr []
        else concatenated [Inr (literal ''//''), serialized_credentials format_hex u, Inr (serialized_host format_port u)],
        serialized_path format_hex u, serialized_query format_hex u,
        if exclude_fragment then Inr [] else serialized_fragment format_hex u]) (\<lambda>out. Inr (Some out)))"

definition serialize_for_display :: "(u32 \<Rightarrow> u8 list) \<Rightarrow> (u16 \<Rightarrow> u8 list) \<Rightarrow> url \<Rightarrow> ak_string error_or" where
  "serialize_for_display format_hex format_port u =
    verify (m_valid u)
      (if m_scheme u = Some (literal ''data'') then serialize_data_url format_hex u
       else try_then (concatenated
         [Inr (chars (text_view (m_scheme u))), Inr (literal '':''),
          if m_host u = None then Inr [] else Inr (literal ''//'' @ serialized_host format_port u),
          serialized_path format_hex u, serialized_query format_hex u, serialized_fragment format_hex u])
         (\<lambda>out. Inr (Some out)))"

definition url_equals :: "(u32 \<Rightarrow> u8 list) \<Rightarrow> (u16 \<Rightarrow> u8 list) \<Rightarrow> bool \<Rightarrow> url \<Rightarrow> url \<Rightarrow> bool error_or" where
  "url_equals format_hex format_port exclude_fragment u other =
    (if \<not> m_valid u \<or> \<not> m_valid other then Inr False
     else try_then (serialize format_hex format_port exclude_fragment u) (\<lambda>a.
       try_then (serialize format_hex format_port exclude_fragment other) (\<lambda>b. Inr (a = b))))"

end
