(* ===== verification/UrlParser.thy ===== *)
theory UrlParser
  imports Url
begin

unbundle bit_operations_syntax

text \<open>
  \<open>AK/URLParser.cpp\<close>: the state machine that reads a URL. \<open>position\<close> is the distance of the iterator from
  the beginning of the input; a step looks at the code point there and says whether the iterator moves
  (\<open>Advance\<close>, a \<open>break\<close>), stays (\<open>Again\<close>, a \<open>continue\<close>) or the parser returns. The messages about
  validation errors are left out. \<open>env\<close> is the allocator, from which the search for a long text takes its
  table; the functions that format numbers (\<open>Format.cpp\<close>) are not under \<open>src/\<close> and are parameters.
\<close>

datatype parser_state =
    SchemeStart
  | Scheme
  | NoScheme
  | SpecialRelativeOrAuthority
  | PathOrAuthority
  | Relative
  | RelativeSlash
  | SpecialAuthoritySlashes
  | SpecialAuthorityIgnoreSlashes
  | Authority
  | Host
  | Hostname
  | Port
  | File
  | FileSlash
  | FileHost
  | PathStart
  | Path
  | CannotBeABaseUrlPath
  | Query
  | Fragment

record parser =
  the_url :: url
  parser_state :: parser_state
  buffer :: "u8 list"
  at_sign_seen :: bool
  inside_brackets :: bool
  password_token_seen :: bool
  position :: nat

datatype action = Advance | Again | Finish url

definition end_of_file :: u32 where
  "end_of_file = 0xFFFFFFFF"

section \<open>Hosts, drive letters and path segments\<close>

definition forbidden_host_code_points_excluding_percent :: "u8 list" where
  "forbidden_host_code_points_excluding_percent =
    [0, 0x09, 0x0A, 0x0D, 0x20, 0x23, 0x2F, 0x3A, 0x3C, 0x3E, 0x3F, 0x40, 0x5B, 0x5C, 0x5D, 0x5E, 0x7C]"

definition forbidden_host_code_points :: "u8 list" where
  "forbidden_host_code_points =
    [0, 0x09, 0x0A, 0x0D, 0x20, 0x23, 0x25, 0x2F, 0x3A, 0x3C, 0x3E, 0x3F, 0x40, 0x5B, 0x5C, 0x5D, 0x5E, 0x7C]"

definition parse_opaque_host :: "(u32 \<Rightarrow> u8 list) \<Rightarrow> string_view \<Rightarrow> ak_string option error_or" where
  "parse_opaque_host format_hex input =
    (if list_ex (view_contains_char input) forbidden_host_code_points_excluding_percent then Inr None
     else try_then (percent_encode format_hex input C0Control False) (\<lambda>host. Inr (Some host)))"

definition parse_ipv4_address :: "string_view \<Rightarrow> ak_string option" where
  "parse_ipv4_address input = Some (string_of_view input)"

definition parse_host :: "(u32 \<Rightarrow> u8 list) \<Rightarrow> string_view \<Rightarrow> bool \<Rightarrow> ak_string option error_or" where
  "parse_host format_hex input is_not_special =
    (if starts_with_char input 0x5B
     then if \<not> ends_with_char input 0x5D then Inr None else Inl (Panic ''TODO'')
     else if is_not_special then parse_opaque_host format_hex input
     else verify (\<not> view_is_empty input)
       (try_then (percent_decode input) (\<lambda>domain.
          if list_ex (view_contains_char (text_view domain)) forbidden_host_code_points then Inr None
          else Inr (parse_ipv4_address (text_view domain)))))"

definition starts_with_windows_drive_letter :: "u8 list \<Rightarrow> bool" where
  "starts_with_windows_drive_letter input =
    (if length input < 2 then False
     else if \<not> is_ascii_alpha (scast (input ! 0)) \<and> \<not> (input ! 1 = 0x3A \<or> input ! 1 = 0x7C) then False
     else if length input = 2 then True
     else input ! 2 \<in> {0x2F, 0x5C, 0x3F, 0x23})"

definition is_windows_drive_letter :: "u8 list \<Rightarrow> bool" where
  "is_windows_drive_letter input \<longleftrightarrow>
    length input = 2 \<and> is_ascii_alpha (scast (input ! 0)) \<and> (input ! 1 = 0x3A \<or> input ! 1 = 0x7C)"

definition is_normalized_windows_drive_letter :: "u8 list \<Rightarrow> bool" where
  "is_normalized_windows_drive_letter input \<longleftrightarrow>
    length input = 2 \<and> is_ascii_alpha (scast (input ! 0)) \<and> input ! 1 = 0x3A"

definition is_single_dot_path_segment :: "string_view \<Rightarrow> bool" where
  "is_single_dot_path_segment input \<longleftrightarrow>
    chars input = literal ''.'' \<or> equals_ignoring_case input (literal_view ''%2e'')"

definition is_double_dot_path_segment :: "string_view \<Rightarrow> bool" where
  "is_double_dot_path_segment input \<longleftrightarrow>
    chars input = literal ''..'' \<or> equals_ignoring_case input (literal_view ''.%2e'') \<or>
    equals_ignoring_case input (literal_view ''%2e.'') \<or> equals_ignoring_case input (literal_view ''%2e%2e'')"

text \<open>
  A \<open>char\<close> is signed: a byte from 0x80 on is a large code point and is formatted by \<open>format_byte\<close>, the
  format \<open>%{:02X}\<close> of a \<open>char\<close>.
\<close>

fun percent_encode_bytes :: "(u8 \<Rightarrow> u8 list) \<Rightarrow> percent_encode_set \<Rightarrow> bool \<Rightarrow> u8 list \<Rightarrow> u8 list" where
  "percent_encode_bytes format_byte pset space_as_plus [] = []"
| "percent_encode_bytes format_byte pset space_as_plus (byte # input) =
    (if space_as_plus \<and> byte = 0x20 then [0x2B]
     else if \<not> code_point_is_in_percent_encode_set (scast byte) pset then append_code_point (scast byte)
     else format_byte byte) @ percent_encode_bytes format_byte pset space_as_plus input"

definition percent_encode_after_encoding ::
    "(u8 \<Rightarrow> u8 list) \<Rightarrow> string_view \<Rightarrow> percent_encode_set \<Rightarrow> bool \<Rightarrow> ak_string" where
  "percent_encode_after_encoding format_byte input pset space_as_plus =
    Some (percent_encode_bytes format_byte pset space_as_plus (chars input))"

section \<open>Data URLs\<close>

definition base64_ending :: "string_view \<Rightarrow> (bool \<times> string_view) error_or" where
  "base64_ending mime_type =
    (if ends_with_view mime_type (literal_view ''base64'') CaseInsensitive
     then try_then (substring_view mime_type 0 (size_minus (length (chars mime_type)) 6)) (\<lambda>start.
          try_then (trim_view start (literal '' '') TrimRight) (\<lambda>start.
            if ends_with_char start 0x3B
            then try_then (substring_view start 0 (size_minus (length (chars start)) 1)) (\<lambda>m. Inr (True, m))
            else Inr (False, mime_type)))
     else Inr (False, mime_type))"

definition parse_data_url :: "string_view \<Rightarrow> url option error_or" where
  "parse_data_url raw_input =
    verify (starts_with_view raw_input (literal_view ''data:'') CaseSensitive)
      (try_then (substring_view_from raw_input 5) (\<lambda>input.
        case find_char input 0x2C 0 of
          None \<Rightarrow> Inr None
        | Some comma_offset \<Rightarrow>
            try_then (substring_view input 0 comma_offset) (\<lambda>before_comma.
            try_then (trim_view before_comma [0x09, 0x0A, 0x0C, 0x0D, 0x20] TrimBoth) (\<lambda>mime_type.
            try_then (substring_view_from input (comma_offset + 1)) (\<lambda>encoded_body.
            try_then (percent_decode encoded_body) (\<lambda>body.
            try_then (base64_ending mime_type) (\<lambda>(is_base64_encoded, mime_type).
            let mime_type = (if starts_with_view mime_type (literal_view '';'') CaseSensitive \<or> view_is_empty mime_type
                  then builder_view (literal ''text/plain'' @ chars mime_type) else mime_type)
            in try_then (trim_view mime_type [0x0A, 0x0D, 0x09, 0x20] TrimBoth) (\<lambda>mime_type.
              Inr (Some (data_url (string_of_view mime_type) body is_base64_encoded))))))))))"

section \<open>The states\<close>

text \<open>
  \<open>ends_authority\<close> is the condition of the three states that end an authority. \<open>get_remaining\<close> is what
  follows the code point of the iterator.
\<close>

definition code_point_at :: "u8 list \<Rightarrow> nat \<Rightarrow> u32 error_or" where
  "code_point_at input pos = (if pos \<ge> length input then Inr end_of_file else dereference (drop pos input))"

definition get_remaining :: "u8 list \<Rightarrow> nat \<Rightarrow> string_view error_or" where
  "get_remaining input pos =
    try_then (underlying_code_point_length_in_bytes (drop pos input)) (\<lambda>n.
      substring_view (text_view (Some input)) (pos + n) (size_minus (length input) (pos + n)))"

definition remaining_starts_with :: "u8 list \<Rightarrow> nat \<Rightarrow> string \<Rightarrow> bool error_or" where
  "remaining_starts_with input pos start =
    try_then (get_remaining input pos) (\<lambda>v. Inr (starts_with_view v (literal_view start) CaseSensitive))"

definition iterator_moved :: "u8 list \<Rightarrow> parser \<Rightarrow> parser error_or" where
  "iterator_moved input p = verify (position p < length input) (Inr (p\<lparr>position := position p + 1\<rparr>))"

abbreviation with_url :: "(url \<Rightarrow> url) \<Rightarrow> parser \<Rightarrow> parser" where
  "with_url f p \<equiv> p\<lparr>the_url := f (the_url p)\<rparr>"

definition ends_authority :: "url \<Rightarrow> u32 \<Rightarrow> bool" where
  "ends_authority u code_point \<longleftrightarrow> code_point = end_of_file \<or> code_point = 0x2F \<or> code_point = 0x3F \<or>
    code_point = 0x23 \<or> (is_special u \<and> code_point = 0x5C)"

definition append_as_lowercase :: "u8 \<Rightarrow> u8 list" where
  "append_as_lowercase ch = (if 0x41 \<le> ch \<and> ch \<le> 0x5A then [ch + 0x20] else [ch])"

definition scheme_start :: "u32 \<Rightarrow> parser \<Rightarrow> (action \<times> parser) error_or" where
  "scheme_start code_point p = Inr
    (if is_ascii_alpha code_point
     then (Advance, p\<lparr>buffer := buffer p @ append_as_lowercase (ucast code_point), parser_state := Scheme\<rparr>)
     else (Again, p\<lparr>parser_state := NoScheme\<rparr>))"

definition scheme_state :: "u8 list \<Rightarrow> url option \<Rightarrow> u32 \<Rightarrow> parser \<Rightarrow> (action \<times> parser) error_or" where
  "scheme_state input base_url code_point p =
    (if is_ascii_alphanumeric code_point \<or> code_point = 0x2B \<or> code_point = 0x2D \<or> code_point = 0x2E
     then Inr (Advance, p\<lparr>buffer := buffer p @ append_as_lowercase (ucast code_point)\<rparr>)
     else if code_point = 0x3A
     then let p = (with_url (m_scheme_update (\<lambda>_. Some (buffer p))) p)\<lparr>buffer := []\<rparr>
          in if m_scheme (the_url p) = Some (literal ''file'')
             then try_then (get_remaining input (position p)) (\<lambda>_. Inr (Advance, p\<lparr>parser_state := File\<rparr>))
             else if is_special (the_url p)
             then Inr (Advance, p\<lparr>parser_state :=
               if \<exists>base. base_url = Some base \<and> m_scheme base = m_scheme (the_url p)
               then SpecialRelativeOrAuthority else SpecialAuthoritySlashes\<rparr>)
             else try_then (remaining_starts_with input (position p) ''/'') (\<lambda>slash.
               if slash then try_then (iterator_moved input (p\<lparr>parser_state := PathOrAuthority\<rparr>)) (\<lambda>p. Inr (Advance, p))
               else Inr (Advance, (with_url (\<lambda>u. append_path (Some []) (u\<lparr>m_cannot_be_a_base_url := True\<rparr>)) p)
                 \<lparr>parser_state := CannotBeABaseUrlPath\<rparr>))
     else Inr (Again, p\<lparr>buffer := [], parser_state := NoScheme, position := 0\<rparr>))"

definition no_scheme :: "url option \<Rightarrow> u32 \<Rightarrow> parser \<Rightarrow> (action \<times> parser) error_or" where
  "no_scheme base_url code_point p = Inr
    (case base_url of
       None \<Rightarrow> (Finish default_url, p)
     | Some base \<Rightarrow>
         if m_cannot_be_a_base_url base \<and> code_point \<noteq> 0x23 then (Finish default_url, p)
         else if m_cannot_be_a_base_url base \<and> code_point = 0x23
         then (Advance, (with_url (\<lambda>u. u\<lparr>m_scheme := m_scheme base, m_paths := m_paths base, m_query := m_query base,
           m_fragment := Some [], m_cannot_be_a_base_url := True\<rparr>) p)\<lparr>parser_state := Fragment\<rparr>)
         else if m_scheme base \<noteq> Some (literal ''file'') then (Again, p\<lparr>parser_state := Relative\<rparr>)
         else (Again, p\<lparr>parser_state := File\<rparr>))"

definition special_relative_or_authority :: "u8 list \<Rightarrow> u32 \<Rightarrow> parser \<Rightarrow> (action \<times> parser) error_or" where
  "special_relative_or_authority input code_point p =
    try_then (if code_point = 0x2F then remaining_starts_with input (position p) ''/'' else Inr False) (\<lambda>slashes.
      if slashes
      then try_then (iterator_moved input (p\<lparr>parser_state := SpecialAuthorityIgnoreSlashes\<rparr>)) (\<lambda>p. Inr (Advance, p))
      else Inr (Again, p\<lparr>parser_state := Relative\<rparr>))"

definition path_or_authority :: "u32 \<Rightarrow> parser \<Rightarrow> (action \<times> parser) error_or" where
  "path_or_authority code_point p = Inr
    (if code_point = 0x2F then (Advance, p\<lparr>parser_state := Authority\<rparr>) else (Again, p\<lparr>parser_state := Path\<rparr>))"

text \<open>The base URL is dereferenced without a check where it may be null.\<close>

definition relative_state :: "url option \<Rightarrow> u32 \<Rightarrow> parser \<Rightarrow> (action \<times> parser) error_or" where
  "relative_state base_url code_point p =
    (case base_url of None \<Rightarrow> Inl BadPointer | Some base \<Rightarrow> Inr
      (let p = with_url (m_scheme_update (\<lambda>_. m_scheme base)) p
       in if code_point = 0x2F then (Advance, p\<lparr>parser_state := RelativeSlash\<rparr>)
          else if is_special (the_url p) \<and> code_point = 0x5C then (Advance, p\<lparr>parser_state := RelativeSlash\<rparr>)
          else let p = with_url (\<lambda>u. u\<lparr>m_username := m_username base, m_password := m_password base, m_host := m_host base,
                     m_port := m_port base, m_paths := m_paths base, m_query := m_query base\<rparr>) p
               in if code_point = 0x3F then (Advance, (with_url (m_query_update (\<lambda>_. Some [])) p)\<lparr>parser_state := Query\<rparr>)
                  else if code_point = 0x23
                  then (Advance, (with_url (m_fragment_update (\<lambda>_. Some [])) p)\<lparr>parser_state := Fragment\<rparr>)
                  else if code_point \<noteq> end_of_file
                  then (Again, (with_url (\<lambda>u. u\<lparr>m_query := None, m_paths := butlast (m_paths u)\<rparr>) p)\<lparr>parser_state := Path\<rparr>)
                  else (Advance, p)))"

definition relative_slash :: "url option \<Rightarrow> u32 \<Rightarrow> parser \<Rightarrow> (action \<times> parser) error_or" where
  "relative_slash base_url code_point p =
    (if is_special (the_url p) \<and> (code_point = 0x2F \<or> code_point = 0x5C)
     then Inr (Advance, p\<lparr>parser_state := SpecialAuthorityIgnoreSlashes\<rparr>)
     else if code_point = 0x2F then Inr (Advance, p\<lparr>parser_state := Authority\<rparr>)
     else case base_url of None \<Rightarrow> Inl BadPointer | Some base \<Rightarrow>
       Inr (Again, (with_url (\<lambda>u. u\<lparr>m_username := m_username base, m_password := m_password base, m_host := m_host base,
         m_port := m_port base\<rparr>) p)\<lparr>parser_state := Path\<rparr>))"

definition special_authority_slashes :: "u8 list \<Rightarrow> u32 \<Rightarrow> parser \<Rightarrow> (action \<times> parser) error_or" where
  "special_authority_slashes input code_point p =
    try_then (if code_point = 0x2F then remaining_starts_with input (position p) ''/'' else Inr False) (\<lambda>slashes.
      let p = p\<lparr>parser_state := SpecialAuthorityIgnoreSlashes\<rparr>
      in if slashes then try_then (iterator_moved input p) (\<lambda>p. Inr (Advance, p)) else Inr (Again, p))"

definition special_authority_ignore_slashes :: "u32 \<Rightarrow> parser \<Rightarrow> (action \<times> parser) error_or" where
  "special_authority_ignore_slashes code_point p = Inr
    (if code_point \<noteq> 0x2F \<and> code_point \<noteq> 0x5C then (Again, p\<lparr>parser_state := Authority\<rparr>) else (Advance, p))"

text \<open>
  The user information is read from a builder that was just made, so the loop of \<open>add_credentials\<close> has
  nothing to read.
\<close>

definition add_credential :: "(u32 \<Rightarrow> u8 list) \<Rightarrow> u32 \<Rightarrow> parser \<Rightarrow> parser error_or" where
  "add_credential format_hex c p =
    (if c = 0x3A \<and> \<not> password_token_seen p then Inr (p\<lparr>password_token_seen := True\<rparr>)
     else try_then (append_percent_encoded_if_necessary format_hex c UserinfoSet) (\<lambda>out.
       if password_token_seen p
       then try_then (percent_decode (builder_view (chars (text_view (m_password (the_url p))) @ out))) (\<lambda>t.
         Inr (with_url (m_password_update (\<lambda>_. t)) p))
       else try_then (percent_decode (builder_view (chars (text_view (m_username (the_url p))) @ out))) (\<lambda>t.
         Inr (with_url (m_username_update (\<lambda>_. t)) p))))"

fun add_credentials :: "(u32 \<Rightarrow> u8 list) \<Rightarrow> u32 list \<Rightarrow> parser \<Rightarrow> parser error_or" where
  "add_credentials format_hex [] p = Inr p"
| "add_credentials format_hex (c # cs) p = try_then (add_credential format_hex c p) (add_credentials format_hex cs)"

definition authority_state :: "(u32 \<Rightarrow> u8 list) \<Rightarrow> u8 list \<Rightarrow> u32 \<Rightarrow> parser \<Rightarrow> (action \<times> parser) error_or" where
  "authority_state format_hex input code_point p =
    (if code_point = 0x40
     then let p = p\<lparr>buffer := (if at_sign_seen p then literal ''%40'' @ buffer p else buffer p), at_sign_seen := True\<rparr>
          in try_then (add_credentials format_hex (code_points []) p) (\<lambda>p. Inr (Advance, p\<lparr>buffer := []\<rparr>))
     else if ends_authority (the_url p) code_point
     then if at_sign_seen p \<and> buffer p = [] then Inr (Finish default_url, p)
          else let it = iterator_at_byte_offset input (size_minus (size_minus (position p) (length (buffer p))) 1)
               in Inr (Advance, p\<lparr>position := length input - length it, buffer := [], parser_state := Host\<rparr>)
     else Inr (Advance, p\<lparr>buffer := buffer p @ append_code_point code_point\<rparr>))"

definition finish_host :: "(u32 \<Rightarrow> u8 list) \<Rightarrow> action \<Rightarrow> parser \<Rightarrow> (action \<times> parser) error_or" where
  "finish_host format_hex act p =
    try_then (parse_host format_hex (builder_view (buffer p)) (\<not> is_special (the_url p))) (\<lambda>host. Inr
      (case host of None \<Rightarrow> (Finish default_url, p)
       | Some host \<Rightarrow> (act, (with_url (m_host_update (\<lambda>_. host)) p)\<lparr>buffer := [], parser_state := Port\<rparr>)))"

definition host_state :: "(u32 \<Rightarrow> u8 list) \<Rightarrow> u32 \<Rightarrow> parser \<Rightarrow> (action \<times> parser) error_or" where
  "host_state format_hex code_point p =
    (if code_point = 0x3A \<and> \<not> inside_brackets p
     then if buffer p = [] then Inr (Finish default_url, p) else finish_host format_hex Advance p
     else if ends_authority (the_url p) code_point
     then if is_special (the_url p) \<and> buffer p = [] then Inr (Finish default_url, p) else finish_host format_hex Again p
     else if code_point = 0x5B then Inr (Advance, p\<lparr>inside_brackets := True\<rparr>)
     else if code_point = 0x5D then Inr (Advance, p\<lparr>inside_brackets := False\<rparr>)
     else Inr (Advance, p\<lparr>buffer := buffer p @ append_code_point code_point\<rparr>))"

definition port_state :: "u32 \<Rightarrow> parser \<Rightarrow> (action \<times> parser) error_or" where
  "port_state code_point p =
    (if is_ascii_digit code_point then Inr (Advance, p\<lparr>buffer := buffer p @ append_code_point code_point\<rparr>)
     else if ends_authority (the_url p) code_point
     then if buffer p = [] then Inr (Again, p\<lparr>parser_state := PathStart\<rparr>)
          else try_then (to_uint u32_type (builder_view (buffer p))) (\<lambda>port. Inr
            (case port of None \<Rightarrow> (Finish default_url, p)
             | Some port \<Rightarrow>
                if port > 65535 then (Finish default_url, p)
                else (Again, (with_url (m_port_update (\<lambda>_.
                  if port = uint (default_port_for_scheme (m_scheme (the_url p))) then None else Some (word_of_int port))) p)
                  \<lparr>buffer := [], parser_state := PathStart\<rparr>)))
     else Inr (Finish default_url, p))"

text \<open>Dropping the last path unless it is a drive letter of a file, as the code does in two places.\<close>

definition shorten_path :: "url \<Rightarrow> url" where
  "shorten_path u =
    (if m_paths u \<noteq> [] \<and> \<not> (m_scheme u = Some (literal ''file'') \<and> length (m_paths u) = 1 \<and>
       is_normalized_windows_drive_letter (chars (text_view (m_paths u ! 0))))
     then u\<lparr>m_paths := butlast (m_paths u)\<rparr> else u)"

definition substring_from_pointer :: "u8 list \<Rightarrow> nat \<Rightarrow> string_view error_or" where
  "substring_from_pointer input pos = substring_view (text_view (Some input)) pos (size_minus (length input) pos)"

definition base_file :: "url option \<Rightarrow> url option" where
  "base_file base_url =
    (case base_url of None \<Rightarrow> None | Some base \<Rightarrow> if m_scheme base = Some (literal ''file'') then Some base else None)"

definition file_state :: "u8 list \<Rightarrow> url option \<Rightarrow> u32 \<Rightarrow> parser \<Rightarrow> (action \<times> parser) error_or" where
  "file_state input base_url code_point p =
    (let p = with_url (\<lambda>u. u\<lparr>m_scheme := Some (literal ''file''), m_host := Some []\<rparr>) p
     in if code_point = 0x2F \<or> code_point = 0x5C then Inr (Advance, p\<lparr>parser_state := FileSlash\<rparr>)
        else case base_file base_url of None \<Rightarrow> Inr (Advance, p) | Some base \<Rightarrow>
          (let p = with_url (\<lambda>u. u\<lparr>m_host := m_host base, m_paths := m_paths base, m_query := m_query base\<rparr>) p
           in if code_point = 0x3F then Inr (Advance, (with_url (m_query_update (\<lambda>_. Some [])) p)\<lparr>parser_state := Query\<rparr>)
              else if code_point = 0x23
              then Inr (Advance, (with_url (m_fragment_update (\<lambda>_. Some [])) p)\<lparr>parser_state := Fragment\<rparr>)
              else if code_point \<noteq> end_of_file
              then try_then (substring_from_pointer input (position p)) (\<lambda>rest. Inr
                (Again, (with_url (\<lambda>u.
                   if \<not> starts_with_windows_drive_letter (chars rest) then shorten_path (u\<lparr>m_query := None\<rparr>)
                   else u\<lparr>m_query := None, m_paths := []\<rparr>) p)\<lparr>parser_state := Path\<rparr>))
              else Inr (Advance, p)))"

definition file_slash :: "u8 list \<Rightarrow> url option \<Rightarrow> u32 \<Rightarrow> parser \<Rightarrow> (action \<times> parser) error_or" where
  "file_slash input base_url code_point p =
    (if code_point = 0x2F \<or> code_point = 0x5C then Inr (Advance, p\<lparr>parser_state := FileHost\<rparr>)
     else case base_file base_url of None \<Rightarrow> Inr (Advance, p) | Some base \<Rightarrow>
       (let p = with_url (m_host_update (\<lambda>_. m_host base)) p
        in try_then (substring_from_pointer input (position p)) (\<lambda>rest.
           if \<not> starts_with_windows_drive_letter (chars rest)
           then verify (0 < length (m_paths base)) (Inr
             (Again, (with_url (\<lambda>u. if is_normalized_windows_drive_letter (chars (text_view (m_paths base ! 0)))
                        then append_path (m_paths base ! 0) u else u) p)\<lparr>parser_state := Path\<rparr>))
           else Inr (Again, p\<lparr>parser_state := Path\<rparr>))))"

definition file_host :: "(u32 \<Rightarrow> u8 list) \<Rightarrow> u32 \<Rightarrow> parser \<Rightarrow> (action \<times> parser) error_or" where
  "file_host format_hex code_point p =
    (if code_point = end_of_file \<or> code_point = 0x2F \<or> code_point = 0x5C \<or> code_point = 0x3F \<or> code_point = 0x23
     then if is_windows_drive_letter (buffer p) then Inr (Again, p\<lparr>parser_state := Path\<rparr>)
          else if buffer p = []
          then Inr (Again, (with_url (m_host_update (\<lambda>_. Some [])) p)\<lparr>parser_state := PathStart\<rparr>)
          else try_then (parse_host format_hex (builder_view (buffer p)) True) (\<lambda>host. Inr
            (case host of None \<Rightarrow> (Finish default_url, p)
             | Some host \<Rightarrow> (Again, (with_url (m_host_update (\<lambda>_. if host = Some (literal ''localhost'') then Some [] else host)) p)
                 \<lparr>buffer := [], parser_state := PathStart\<rparr>)))
     else Inr (Advance, p\<lparr>buffer := buffer p @ append_code_point code_point\<rparr>))"

definition path_start :: "u32 \<Rightarrow> parser \<Rightarrow> (action \<times> parser) error_or" where
  "path_start code_point p = Inr
    (if is_special (the_url p)
     then (if code_point \<noteq> 0x2F \<and> code_point \<noteq> 0x5C then Again else Advance, p\<lparr>parser_state := Path\<rparr>)
     else if code_point = 0x3F then (Advance, (with_url (m_query_update (\<lambda>_. Some [])) p)\<lparr>parser_state := Query\<rparr>)
     else if code_point = 0x23 then (Advance, (with_url (m_fragment_update (\<lambda>_. Some [])) p)\<lparr>parser_state := Fragment\<rparr>)
     else if code_point \<noteq> end_of_file
     then (if code_point \<noteq> 0x2F then Again else Advance, p\<lparr>parser_state := Path\<rparr>)
     else (Advance, p))"

text \<open>\<open>slash\<close> is whether the code point separates two segments.\<close>

definition finish_segment :: "bool \<Rightarrow> u8 list \<Rightarrow> url \<Rightarrow> url error_or" where
  "finish_segment slash segment u =
    (let view = builder_view segment
     in if is_double_dot_path_segment view
        then Inr (let u = shorten_path u in if \<not> slash then append_path (Some []) u else u)
        else if is_single_dot_path_segment view \<and> \<not> slash then Inr (append_path (Some []) u)
        else if \<not> is_single_dot_path_segment view
        then let segment = (if m_scheme u = Some (literal ''file'') \<and> m_paths u = [] \<and> is_windows_drive_letter segment
                            then [segment ! 0, 0x3A] else segment)
             in try_then (percent_decode (builder_view segment)) (\<lambda>path. Inr (append_path path u))
        else Inr u)"

definition path_state :: "(u32 \<Rightarrow> u8 list) \<Rightarrow> u32 \<Rightarrow> parser \<Rightarrow> (action \<times> parser) error_or" where
  "path_state format_hex code_point p =
    (let slash = (code_point = 0x2F \<or> (is_special (the_url p) \<and> code_point = 0x5C))
     in if ends_authority (the_url p) code_point
        then try_then (finish_segment slash (buffer p) (the_url p)) (\<lambda>u.
          let p = p\<lparr>the_url := u, buffer := []\<rparr>
          in if code_point = 0x3F then Inr (Advance, (with_url (m_query_update (\<lambda>_. Some [])) p)\<lparr>parser_state := Query\<rparr>)
             else if code_point = 0x23
             then Inr (Advance, (with_url (m_fragment_update (\<lambda>_. Some [])) p)\<lparr>parser_state := Fragment\<rparr>)
             else Inr (Advance, p))
        else try_then (append_percent_encoded_if_necessary format_hex code_point PathSet) (\<lambda>out.
          Inr (Advance, p\<lparr>buffer := buffer p @ out\<rparr>)))"

definition cannot_be_a_base_url_path :: "(u32 \<Rightarrow> u8 list) \<Rightarrow> u32 \<Rightarrow> parser \<Rightarrow> (action \<times> parser) error_or" where
  "cannot_be_a_base_url_path format_hex code_point p =
    verify (length (m_paths (the_url p)) = 1 \<and> text_is_empty (m_paths (the_url p) ! 0))
      (if code_point = 0x3F \<or> code_point = 0x23 \<or> code_point = end_of_file
       then try_then (percent_decode (builder_view (buffer p))) (\<lambda>path.
         let p = with_url (\<lambda>u. u\<lparr>m_paths := (m_paths u)[0 := path]\<rparr>) p
         in if code_point = 0x3F then Inr (Advance, (with_url (m_query_update (\<lambda>_. Some [])) p)\<lparr>parser_state := Query\<rparr>)
            else if code_point = 0x23
            then Inr (Advance, (with_url (m_fragment_update (\<lambda>_. Some [])) p)\<lparr>parser_state := Fragment\<rparr>)
            else Inr (Advance, p))
       else try_then (append_percent_encoded_if_necessary format_hex code_point C0Control) (\<lambda>out.
         Inr (Advance, p\<lparr>buffer := buffer p @ out\<rparr>)))"

definition query_state :: "(u8 \<Rightarrow> u8 list) \<Rightarrow> u32 \<Rightarrow> parser \<Rightarrow> (action \<times> parser) error_or" where
  "query_state format_byte code_point p =
    (if code_point = end_of_file \<or> code_point = 0x23
     then verify (m_query (the_url p) = Some [])
       (let p = (with_url (\<lambda>u. u\<lparr>m_query := percent_encode_after_encoding format_byte (builder_view (buffer p))
              (if is_special u then SpecialQuerySet else QuerySet) False\<rparr>) p)\<lparr>buffer := []\<rparr>
        in if code_point = 0x23 then Inr (Advance, (with_url (m_fragment_update (\<lambda>_. Some [])) p)\<lparr>parser_state := Fragment\<rparr>)
           else Inr (Advance, p))
     else Inr (Advance, p\<lparr>buffer := buffer p @ append_code_point code_point\<rparr>))"

definition fragment_state :: "u32 \<Rightarrow> parser \<Rightarrow> (action \<times> parser) error_or" where
  "fragment_state code_point p =
    (if code_point \<noteq> end_of_file then Inr (Advance, p\<lparr>buffer := buffer p @ append_code_point code_point\<rparr>)
     else try_then (percent_decode (builder_view (buffer p))) (\<lambda>t.
       Inr (Advance, (with_url (m_fragment_update (\<lambda>_. t)) p)\<lparr>buffer := []\<rparr>)))"

section \<open>The parser\<close>

definition parser_step :: "(u32 \<Rightarrow> u8 list) \<Rightarrow> (u8 \<Rightarrow> u8 list) \<Rightarrow> u8 list \<Rightarrow> url option \<Rightarrow> u32 \<Rightarrow> parser \<Rightarrow>
    (action \<times> parser) error_or" where
  "parser_step format_hex format_byte input base_url c p =
    (case parser_state p of
       SchemeStart \<Rightarrow> scheme_start c p
     | Scheme \<Rightarrow> scheme_state input base_url c p
     | NoScheme \<Rightarrow> no_scheme base_url c p
     | SpecialRelativeOrAuthority \<Rightarrow> special_relative_or_authority input c p
     | PathOrAuthority \<Rightarrow> path_or_authority c p
     | Relative \<Rightarrow> relative_state base_url c p
     | RelativeSlash \<Rightarrow> relative_slash base_url c p
     | SpecialAuthoritySlashes \<Rightarrow> special_authority_slashes input c p
     | SpecialAuthorityIgnoreSlashes \<Rightarrow> special_authority_ignore_slashes c p
     | Authority \<Rightarrow> authority_state format_hex input c p
     | Host \<Rightarrow> host_state format_hex c p
     | Hostname \<Rightarrow> host_state format_hex c p
     | Port \<Rightarrow> port_state c p
     | File \<Rightarrow> file_state input base_url c p
     | FileSlash \<Rightarrow> file_slash input base_url c p
     | FileHost \<Rightarrow> file_host format_hex c p
     | PathStart \<Rightarrow> path_start c p
     | Path \<Rightarrow> path_state format_hex c p
     | CannotBeABaseUrlPath \<Rightarrow> cannot_be_a_base_url_path format_hex c p
     | Query \<Rightarrow> query_state format_byte c p
     | Fragment \<Rightarrow> fragment_state c p)"

partial_function (option) parser_loop :: "(u32 \<Rightarrow> u8 list) \<Rightarrow> (u8 \<Rightarrow> u8 list) \<Rightarrow> u8 list \<Rightarrow> url option \<Rightarrow> parser \<Rightarrow>
    url outcome" where
  "parser_loop format_hex format_byte input base_url p =
    and_then (Some (try_then (code_point_at input (position p)) (\<lambda>c. parser_step format_hex format_byte input base_url c p)))
      (\<lambda>(act, p). case act of
         Finish u \<Rightarrow> Some (Inr u)
       | Again \<Rightarrow> parser_loop format_hex format_byte input base_url p
       | Advance \<Rightarrow>
           if position p \<ge> length input then Some (Inr ((the_url p)\<lparr>m_valid := True\<rparr>))
           else parser_loop format_hex format_byte input base_url (p\<lparr>position := position p + 1\<rparr>))"

definition leading_spaces :: "u8 list \<Rightarrow> nat" where
  "leading_spaces input = length (takeWhile (\<lambda>ch. ch \<le> 0x20) input)"

text \<open>Removing the tabs and newlines, when there are any.\<close>

definition process_input :: "allocator \<Rightarrow> u8 list \<Rightarrow> u8 list outcome" where
  "process_input env input =
    (let tab = \<lparr>m_characters = 1, chars = [0x09]\<rparr>; newline = \<lparr>m_characters = 1, chars = [0x0A]\<rparr>
     in and_then (contains_view env (text_view (Some input)) tab CaseSensitive) (\<lambda>tabs.
        and_then (if tabs then Some (Inr True) else contains_view env (text_view (Some input)) newline CaseSensitive) (\<lambda>found.
        if found
        then and_then (replace_view env (text_view (Some input)) tab (literal_view []) ReplaceAll) (\<lambda>input.
             replace_view env (text_view (Some input)) newline (literal_view []) ReplaceAll)
        else Some (Inr input))))"

definition url_parse :: "allocator \<Rightarrow> (u32 \<Rightarrow> u8 list) \<Rightarrow> (u8 \<Rightarrow> u8 list) \<Rightarrow> string_view \<Rightarrow> url option \<Rightarrow> url option \<Rightarrow>
    parser_state option \<Rightarrow> url outcome" where
  "url_parse env format_hex format_byte raw_input base_url u state_override =
    (if view_is_empty raw_input then Some (Inr default_url)
     else if starts_with_view raw_input (literal_view ''data:'') CaseSensitive
     then Some (try_then (parse_data_url raw_input) (\<lambda>maybe_url. Inr (case maybe_url of None \<Rightarrow> default_url | Some u \<Rightarrow> u)))
     else let cs = chars raw_input;
              start_index = (if u = None then leading_spaces cs else 0);
              end_index = (if u = None then length cs - leading_spaces (rev cs) else length cs)
          in if start_index \<ge> end_index then Some (Inr default_url)
             else and_then (Some (substring_view raw_input start_index (end_index - start_index))) (\<lambda>processed.
               and_then (process_input env (chars processed)) (\<lambda>input.
                 parser_loop format_hex format_byte input base_url
                   \<lparr>the_url = (case u of None \<Rightarrow> default_url | Some u \<Rightarrow> u),
                    parser_state = (case state_override of None \<Rightarrow> SchemeStart | Some st \<Rightarrow> st),
                    buffer = [], at_sign_seen = False, inside_brackets = False, password_token_seen = False,
                    position = 0\<rparr>)))"

definition complete_url :: "allocator \<Rightarrow> (u32 \<Rightarrow> u8 list) \<Rightarrow> (u8 \<Rightarrow> u8 list) \<Rightarrow> url \<Rightarrow> ak_string \<Rightarrow> url outcome" where
  "complete_url env format_hex format_byte u string =
    (if \<not> m_valid u then Some (Inr default_url)
     else url_parse env format_hex format_byte (text_view string) (Some u) None None)"

end
