(* ===== verification/UrlParser_Correct.thy ===== *)
theory UrlParser_Correct
  imports UrlParser StringUtils_Correct
begin

section \<open>The parser returns\<close>

text \<open>
  The states can be numbered so that a step either goes to a state with a lower number or stays in its state
  and moves the iterator on. Only then may it move the iterator back, as the states that read the scheme
  and the authority do.
\<close>

fun rank :: "parser_state \<Rightarrow> nat" where
  "rank SchemeStart = 19"
| "rank Scheme = 18"
| "rank NoScheme = 17"
| "rank SpecialRelativeOrAuthority = 16"
| "rank PathOrAuthority = 15"
| "rank Relative = 14"
| "rank RelativeSlash = 13"
| "rank SpecialAuthoritySlashes = 12"
| "rank SpecialAuthorityIgnoreSlashes = 11"
| "rank Authority = 10"
| "rank Host = 9"
| "rank Hostname = 9"
| "rank Port = 8"
| "rank File = 7"
| "rank FileSlash = 6"
| "rank FileHost = 5"
| "rank PathStart = 4"
| "rank Path = 3"
| "rank CannotBeABaseUrlPath = 2"
| "rank Query = 1"
| "rank Fragment = 0"

lemma with_url_simps [simp]:
  "parser_state (with_url f p) = parser_state p" "position (with_url f p) = position p"
  by simp_all

lemma add_credentials_state:
  "add_credentials format_hex cs p = Inr p' \<Longrightarrow> parser_state p' = parser_state p \<and> position p' = position p"
proof (induction cs arbitrary: p)
  case (Cons c cs)
  then obtain q where "add_credential format_hex c p = Inr q" "add_credentials format_hex cs q = Inr p'"
    by (auto simp: try_then_eq_Inr_iff)
  moreover from this(1) have "parser_state q = parser_state p \<and> position q = position p"
    by (auto simp: add_credential_def try_then_eq_Inr_iff split: if_splits)
  ultimately show ?case using Cons.IH by simp
qed simp

definition progresses :: "u8 list \<Rightarrow> parser \<Rightarrow> action \<Rightarrow> parser \<Rightarrow> bool" where
  "progresses input p act p' \<longleftrightarrow> (case act of
     Finish u \<Rightarrow> True
   | Again \<Rightarrow> rank (parser_state p') < rank (parser_state p) \<and> position p' \<le> length input
   | Advance \<Rightarrow> position p' \<le> length input \<and>
       (rank (parser_state p') < rank (parser_state p) \<or>
        rank (parser_state p') = rank (parser_state p) \<and> position p' = position p))"

lemma progresses_simps [simp]:
  "progresses input p (Finish u) p'"
  "progresses input p Again p' \<longleftrightarrow> rank (parser_state p') < rank (parser_state p) \<and> position p' \<le> length input"
  "progresses input p Advance p' \<longleftrightarrow> position p' \<le> length input \<and>
     (rank (parser_state p') < rank (parser_state p) \<or>
      rank (parser_state p') = rank (parser_state p) \<and> position p' = position p)"
  by (simp_all add: progresses_def)

lemma iterator_moved_Inr: "iterator_moved input p = Inr p' \<longleftrightarrow> position p < length input \<and> p' = p\<lparr>position := position p + 1\<rparr>"
  by (auto simp: iterator_moved_def)

lemma iterator_from_length: "length (iterator_from view offset n) \<le> length view"
  by (induction view arbitrary: offset) (auto intro: le_SucI)

lemmas reads_scheme = scheme_start_def scheme_state_def no_scheme_def special_relative_or_authority_def
  path_or_authority_def relative_state_def relative_slash_def special_authority_slashes_def
  special_authority_ignore_slashes_def

lemmas reads_authority = authority_state_def host_state_def finish_host_def

lemmas reads_rest = file_state_def file_slash_def file_host_def path_start_def path_state_def
  cannot_be_a_base_url_path_def query_state_def fragment_state_def

lemma port_state_progresses:
  assumes "port_state c p = Inr (act, p')" and "position p \<le> length input" and "parser_state p = Port"
  shows "progresses input p act p'"
proof (cases "is_ascii_digit c \<or> \<not> ends_authority (the_url p) c \<or> buffer p = []")
  case True
  then show ?thesis using assms by (auto simp: port_state_def split: if_splits)
next
  case False
  then obtain port where "to_uint u32_type (builder_view (buffer p)) = Inr port"
    using assms(1) by (auto simp: port_state_def try_then_eq_Inr_iff)
  then show ?thesis
    using False assms by (cases port) (auto simp: port_state_def split: if_splits)
qed

lemma parser_step_progresses:
  assumes "parser_step format_hex format_byte input base_url c p = Inr (act, p')" and "position p \<le> length input"
  shows "progresses input p act p'"
proof -
  note step = assms(1) [unfolded parser_step_def]
  show ?thesis
  proof (cases "parser_state p \<in> {Authority, Host, Hostname, Port}")
    case True
    then show ?thesis
      using port_state_progresses [of c p act p' input] step assms(2)
      by (auto simp: reads_authority Let_def try_then_eq_Inr_iff dest!: add_credentials_state split: if_splits option.splits)
  next
    case False
    show ?thesis
    proof (cases "parser_state p \<in> {SchemeStart, Scheme, NoScheme, SpecialRelativeOrAuthority, PathOrAuthority,
        Relative, RelativeSlash, SpecialAuthoritySlashes, SpecialAuthorityIgnoreSlashes}")
      case True
      then show ?thesis
        using step assms(2)
        by (auto simp: reads_scheme Let_def try_then_eq_Inr_iff iterator_moved_Inr split: if_splits option.splits)
    next
      case no: False
      then show ?thesis
        using step False assms(2)
        by (cases "parser_state p")
          (auto simp: reads_rest Let_def try_then_eq_Inr_iff split: if_splits option.splits)
    qed
  qed
qed

lemma parser_loop_returns:
  assumes "position p \<le> length input"
  shows "parser_loop format_hex format_byte input base_url p \<noteq> None"
  using assms
proof (induction "(rank (parser_state p), length input - position p)" arbitrary: p
    rule: wf_induct_rule [OF wf_lex_prod [OF wf_less_than wf_less_than]])
  case (1 p)
  show ?case
  proof (cases "try_then (code_point_at input (position p)) (\<lambda>c. parser_step format_hex format_byte input base_url c p)")
    case (Inl e)
    then show ?thesis by (subst parser_loop.simps) simp
  next
    case (Inr r)
    obtain act p' where r: "r = (act, p')" by (cases r)
    have progress: "progresses input p act p'"
      using Inr r parser_step_progresses [OF _ 1(2)] by (auto simp: try_then_eq_Inr_iff)
    show ?thesis
    proof (cases act)
      case Advance
      show ?thesis
      proof (cases "position p' \<ge> length input")
        case True
        then show ?thesis using Inr r Advance by (subst parser_loop.simps) simp
      next
        case False
        then have "parser_loop format_hex format_byte input base_url (p'\<lparr>position := position p' + 1\<rparr>) \<noteq> None"
          using progress Advance by (intro 1(1)) auto
        then show ?thesis using Inr r Advance False by (subst parser_loop.simps) simp
      qed
    next
      case Again
      then have "parser_loop format_hex format_byte input base_url p' \<noteq> None"
        using progress by (intro 1(1)) auto
      then show ?thesis using Inr r Again by (subst parser_loop.simps) simp
    next
      case (Finish u)
      then show ?thesis using Inr r by (subst parser_loop.simps) simp
    qed
  qed
qed

lemma contains_view_correct:
  assumes "\<not> is_null str" and "\<not> is_null needle" and "chars needle \<noteq> []"
    and "searchable env (chars needle)"
  shows "contains_view env str needle CaseSensitive = Some (Inr (\<exists>i. occurs_at (chars needle) (chars str) i))"
proof -
  have "memmem_optional env (chars str) (chars needle) = Some (Inr (first_occurrence (chars needle) (chars str)))"
    using assms(4) by (simp add: searchable_def)
  then have "and_then (memmem env (chars str) (chars needle)) (\<lambda>r. Some (Inr (r \<noteq> None))) =
      Some (Inr (\<exists>i. occurs_at (chars needle) (chars str) i))"
    by (cases "first_occurrence (chars needle) (chars str)")
      (auto simp: memmem_def first_occurrence_None first_occurrence_Some)
  then show ?thesis
    using assms by (auto simp: contains_view_def view_is_empty_def occurs_at_def)
qed

lemma replace_view_returns:
  "searchable env (chars needle) \<Longrightarrow> replace_view env str needle replacement ReplaceAll \<noteq> None"
  by (simp add: replace_view_def find_all_correct)

lemma and_then_returns: "r \<noteq> None \<Longrightarrow> (\<And>x. r = Some (Inr x) \<Longrightarrow> f x \<noteq> None) \<Longrightarrow> and_then r f \<noteq> None"
  by (cases r; cases "the r") auto

lemma process_input_correct:
  "process_input env input \<noteq> None"
  "0x09 \<notin> set input \<Longrightarrow> 0x0A \<notin> set input \<Longrightarrow> process_input env input = Some (Inr input)"
proof -
  have contains: "contains_view env (text_view (Some input)) \<lparr>m_characters = 1, chars = [c]\<rparr> CaseSensitive =
      Some (Inr (c \<in> set input))" for c
  proof -
    have "c \<in> set input \<longleftrightarrow> (\<exists>i. occurs_at [c] input i)"
      by (auto simp: in_set_conv_nth occurs_at_nth Suc_le_eq)
    then show ?thesis
      by (subst contains_view_correct) (simp_all add: is_null_def text_view_def searchable_short)
  qed
  show "process_input env input \<noteq> None"
    unfolding process_input_def Let_def contains
    by (intro and_then_returns) (simp_all add: contains replace_view_returns searchable_short and_then_returns split: if_split del: not_None_eq)
  show "0x09 \<notin> set input \<Longrightarrow> 0x0A \<notin> set input \<Longrightarrow> process_input env input = Some (Inr input)"
    by (simp only: process_input_def Let_def contains) simp
qed

text \<open>
  C38. Parsing returns on every input, with every base URL, every URL to fill in and from every state: the parser
  does not run for ever although it moves its iterator back.
\<close>

theorem url_parse_returns:
  "url_parse env format_hex format_byte raw_input base_url u state_override \<noteq> None"
proof -
  have "and_then (Some (substring_view raw_input start_index n)) (\<lambda>processed. and_then (process_input env (chars processed)) (\<lambda>input.
      parser_loop format_hex format_byte input base_url p)) \<noteq> None" if "position p = 0" for start_index n p
    using that by (intro and_then_returns process_input_correct(1) parser_loop_returns) simp_all
  then show ?thesis by (simp add: url_parse_def Let_def del: not_None_eq)
qed

end
