(* ===== verification/UrlParser_Simple.thy ===== *)
theory UrlParser_Simple
  imports UrlParser_Correct
begin

text \<open>
  The run of the parser over the text of a URL in ASCII whose scheme is special.
\<close>

definition ascii_byte :: "u8 \<Rightarrow> bool" where
  "ascii_byte b \<longleftrightarrow> b < 0x80"

section \<open>Bytes as code points\<close>

lemma uint_ucast_byte [simp]: "uint (ucast (b :: u8) :: u32) = uint b"
  by (simp add: unsigned_ucast_eq take_bit_int_eq_self uint_lt2p [of b, THEN less_le_trans])

lemma ucast_ucast_byte [simp]: "ucast (ucast (b :: u8) :: u32) = b"
  by (rule bit_word_eqI) (auto simp: bit_unsigned_iff)

lemmas as_uint = word_le_def word_less_def word_uint_eq_iff

lemma ascii_first_byte:
  assumes "ascii_byte b"
  shows "decode_first_byte b = Some (1, ucast b)"
proof -
  have "\<not> bit b 7" using high_bits_clear [of "ucast b" 7 7] assms
    by (simp add: ascii_byte_def as_uint bit_simps flip: nat_uint_eq)
  then show ?thesis by (simp add: decode_first_byte_def)
qed

lemma ascii_byte_read [simp]:
  assumes "ascii_byte b"
  shows "dereference (b # rest) = Inr (ucast b)" and "underlying_code_point_length_in_bytes (b # rest) = Inr 1"
    and "append_code_point (ucast b) = [b]" and "(scast b :: u32) = ucast b"
proof -
  show "dereference (b # rest) = Inr (ucast b)" "underlying_code_point_length_in_bytes (b # rest) = Inr 1"
    using ascii_first_byte [OF assms] by (simp_all add: dereference_def underlying_code_point_length_in_bytes_def)
  show "append_code_point (ucast b) = [b]"
    using assms by (simp add: append_code_point_def code_point_to_utf8_def ascii_byte_def word_le_def word_less_def)
  have "- 128 \<le> uint b" using uint_ge_0 [of b] by linarith
  then have "sint b = uint b"
    using assms signed_take_bit_int_eq_self [of 7 "uint b"] by (simp add: ascii_byte_def as_uint sint_uint)
  then show "(scast b :: u32) = ucast b" by (metis of_int_sint of_int_uint)
qed

lemma iterator_from_ascii:
  "list_all ascii_byte view \<Longrightarrow> k \<le> n \<Longrightarrow> iterator_from view k n = drop (n - k) view"
proof (induction view arbitrary: k)
  case (Cons b view)
  show ?case
  proof (cases "k = n")
    case False
    then obtain m where "n = Suc (k + m)" using Cons.prems(2) by (metis le_neq_implies_less less_iff_Suc_add)
    then show ?thesis using Cons by simp
  qed simp
qed simp

section \<open>Runs\<close>

definition parser_at :: "url \<Rightarrow> parser_state \<Rightarrow> u8 list \<Rightarrow> nat \<Rightarrow> parser" where
  "parser_at u st buf n = \<lparr>the_url = u, parser_state = st, buffer = buf, at_sign_seen = False,
    inside_brackets = False, password_token_seen = False, position = n\<rparr>"

lemma parser_at_simps [simp]:
  "the_url (parser_at u st buf n) = u" "parser_state (parser_at u st buf n) = st" "buffer (parser_at u st buf n) = buf"
  "at_sign_seen (parser_at u st buf n) = False" "inside_brackets (parser_at u st buf n) = False"
  "password_token_seen (parser_at u st buf n) = False" "position (parser_at u st buf n) = n"
  "(parser_at u st buf n)\<lparr>the_url := u'\<rparr> = parser_at u' st buf n"
  "(parser_at u st buf n)\<lparr>parser_state := st'\<rparr> = parser_at u st' buf n"
  "(parser_at u st buf n)\<lparr>buffer := buf'\<rparr> = parser_at u st buf' n"
  "(parser_at u st buf n)\<lparr>position := m\<rparr> = parser_at u st buf m"
  by (simp_all add: parser_at_def)

lemma code_point_at_ascii:
  "ascii_byte b \<Longrightarrow> code_point_at (pre @ b # rest) (length pre) = Inr (ucast b)"
  "code_point_at input (length input) = Inr end_of_file"
  by (simp_all add: code_point_at_def)

lemma loop_advance:
  assumes "input = pre @ b # rest" and "ascii_byte b"
    and "parser_step fh fb input base (ucast b) (parser_at u st buf (length pre)) = Inr (Advance, p)"
    and "position p < length input"
  shows "parser_loop fh fb input base (parser_at u st buf (length pre)) =
    parser_loop fh fb input base (p\<lparr>position := position p + 1\<rparr>)"
  using assms by (subst parser_loop.simps) (simp add: code_point_at_ascii)

lemma loop_again:
  assumes "code_point_at input n = Inr c" and "parser_step fh fb input base c (parser_at u st buf n) = Inr (Again, p)"
  shows "parser_loop fh fb input base (parser_at u st buf n) = parser_loop fh fb input base p"
  using assms by (subst parser_loop.simps) simp

lemma loop_end:
  assumes "parser_step fh fb input base end_of_file (parser_at u st buf (length input)) = Inr (Advance, parser_at u' st' buf' n)"
    and "n = length input"
  shows "parser_loop fh fb input base (parser_at u st buf (length input)) = Some (Inr (u'\<lparr>m_valid := True\<rparr>))"
  using assms by (subst parser_loop.simps) (simp add: code_point_at_ascii)

lemma loop_accumulates:
  assumes "\<And>c buf n. c \<in> set cs \<Longrightarrow> parser_step fh fb input base (ucast c) (parser_at u st buf n) =
      Inr (Advance, parser_at u st (buf @ [c]) n)"
    and "list_all ascii_byte cs" and "input = pre @ cs @ rest"
  shows "parser_loop fh fb input base (parser_at u st buf (length pre)) =
    parser_loop fh fb input base (parser_at u st (buf @ cs) (length pre + length cs))"
  using assms
proof (induction cs arbitrary: pre buf)
  case (Cons c cs)
  have "parser_loop fh fb input base (parser_at u st buf (length pre)) =
      parser_loop fh fb input base (parser_at u st (buf @ [c]) (length (pre @ [c])))"
    using Cons.prems(2,3) loop_advance [of input pre c "cs @ rest" fh fb base u st buf, OF _ _ Cons.prems(1)] by simp
  also have "\<dots> = parser_loop fh fb input base (parser_at u st ((buf @ [c]) @ cs) (length (pre @ [c]) + length cs))"
    using Cons.prems by (intro Cons.IH) simp_all
  finally show ?case by simp
qed simp

section \<open>Plain parts of a URL\<close>

text \<open>
  The bytes that the parts of a URL may have so that the parser keeps them as they are, and the text of a URL
  made of such parts.
\<close>

definition host_byte :: "u8 \<Rightarrow> bool" where
  "host_byte b \<longleftrightarrow> b < 0x80 \<and> b \<notin> set forbidden_host_code_points"

definition path_byte :: "u8 \<Rightarrow> bool" where
  "path_byte b \<longleftrightarrow> \<not> in_path_set (ucast b) \<and> b \<notin> {0x25, 0x2F, 0x5C}"

definition query_byte :: "u8 \<Rightarrow> bool" where
  "query_byte b \<longleftrightarrow> \<not> code_point_is_in_percent_encode_set (ucast b) SpecialQuerySet \<and> b \<noteq> 0x20"

definition fragment_byte :: "u8 \<Rightarrow> bool" where
  "fragment_byte b \<longleftrightarrow> 0x20 < b \<and> b < 0x7F \<and> b \<noteq> 0x25"

definition prefixed :: "u8 \<Rightarrow> u8 list option \<Rightarrow> u8 list" where
  "prefixed c part = (case part of None \<Rightarrow> [] | Some cs \<Rightarrow> c # cs)"

definition url_text :: "u8 list \<Rightarrow> u8 list \<Rightarrow> u8 list option \<Rightarrow> u8 list list \<Rightarrow> u8 list option \<Rightarrow> u8 list option \<Rightarrow> u8 list" where
  "url_text scheme host port segments query fragment =
    scheme @ literal ''://'' @ host @ prefixed 0x3A port @ concat (map (Cons 0x2F) segments) @
    prefixed 0x3F query @ prefixed 0x23 fragment"

lemma in_query_set_iff:
  "in_query_set (ucast b) \<longleftrightarrow> b < 0x21 \<or> b > 0x7E \<or> b \<in> {0x22, 0x23, 0x3C, 0x3E}" for b :: u8
  by (auto simp: in_query_set_def in_c0_control_def one_of_chars_def view_contains_char_def literal_view_def literal_def as_uint)

lemma in_path_set_iff:
  "in_path_set (ucast b) \<longleftrightarrow> in_query_set (ucast b) \<or> b \<in> {0x3F, 0x60, 0x7B, 0x7D}" for b :: u8
  by (auto simp: in_path_set_def one_of_chars_def view_contains_char_def literal_view_def literal_def as_uint)

section \<open>Scheme and slashes\<close>

definition lower_letter :: "u8 \<Rightarrow> bool" where
  "lower_letter c \<longleftrightarrow> 0x61 \<le> c \<and> c \<le> 0x7A"

lemma special_scheme_letters:
  assumes "is_special_scheme (Some s)"
  shows "s \<noteq> [] \<and> list_all lower_letter s"
  using assms by (auto simp: is_special_scheme_def is_one_of_def literal_def lower_letter_def)

lemma lower_letter_ascii: "lower_letter c \<Longrightarrow> ascii_byte c"
  by (simp add: lower_letter_def ascii_byte_def as_uint)

lemma scheme_step:
  assumes "lower_letter c"
  shows "parser_step fh fb input base (ucast c) (parser_at u SchemeStart buf n) = Inr (Advance, parser_at u Scheme (buf @ [c]) n)"
    and "parser_step fh fb input base (ucast c) (parser_at u Scheme buf n) = Inr (Advance, parser_at u Scheme (buf @ [c]) n)"
proof -
  have "is_ascii_alpha (ucast c)"
    using assms by (simp add: is_ascii_alpha_def is_ascii_lower_alpha_def lower_letter_def word_le_def)
  moreover have "append_as_lowercase c = [c]"
    using assms by (simp add: append_as_lowercase_def lower_letter_def word_le_def)
  ultimately show
    "parser_step fh fb input base (ucast c) (parser_at u SchemeStart buf n) = Inr (Advance, parser_at u Scheme (buf @ [c]) n)"
    "parser_step fh fb input base (ucast c) (parser_at u Scheme buf n) = Inr (Advance, parser_at u Scheme (buf @ [c]) n)"
    by (simp_all add: parser_step_def scheme_start_def scheme_state_def is_ascii_alphanumeric_def)
qed

definition after_special_scheme :: "url option \<Rightarrow> u8 list \<Rightarrow> parser_state" where
  "after_special_scheme base s =
    (if \<exists>b. base = Some b \<and> m_scheme b = Some s then SpecialRelativeOrAuthority else SpecialAuthoritySlashes)"

lemma colon_step:
  assumes "is_special_scheme (Some s)" and "s \<noteq> literal ''file''"
  shows "parser_step fh fb input base 0x3A (parser_at u Scheme s n) =
    Inr (Advance, parser_at (u\<lparr>m_scheme := Some s\<rparr>) (after_special_scheme base s) [] n)"
  using assms
  by (simp add: parser_step_def scheme_state_def is_ascii_alphanumeric_def is_ascii_alpha_def is_ascii_lower_alpha_def
      is_ascii_upper_alpha_def is_ascii_digit_def is_special_def after_special_scheme_def Let_def)

lemma size_minus_small:
  assumes "b \<le> a" and "a < 2 ^ 64"
  shows "size_minus a b = a - b"
proof -
  have "a + 2 ^ 64 - b = (a - b) + 2 ^ 64" using assms(1) by simp
  then have "size_minus a b = (a - b) mod 2 ^ 64" unfolding size_minus_def by (simp only: mod_add_self2)
  then show ?thesis using assms(2) by simp
qed

lemma remaining_slash:
  assumes "input = pre @ 0x2F # 0x2F # rest" and "length input + 2 < 2 ^ 64"
  shows "remaining_starts_with input (length pre) ''/'' = Inr True"
proof -
  have "ascii_byte 0x2F" by (simp add: ascii_byte_def)
  then have at: "underlying_code_point_length_in_bytes (drop (length pre) input) = Inr 1"
    using assms(1) by simp
  have minus: "size_minus (length input) (length pre + 1) = length input - (length pre + 1)"
    using assms by (intro size_minus_small) simp_all
  have "substring_view (text_view (Some input)) (length pre + 1) (size_minus (length input) (length pre + 1)) =
      Inr \<lparr>m_characters = 2 + (length pre + 1), chars = 0x2F # rest\<rparr>"
    unfolding minus
    using substring_view_inside [of "text_view (Some input)" "length pre + 1" "length input - (length pre + 1)"] assms
    by (simp add: in_memory_def text_view_def)
  then show ?thesis
    using at by (simp add: remaining_starts_with_def get_remaining_def starts_with_view_def literal_view_def literal_def
        view_is_empty_def)
qed

lemma slashes_run:
  assumes "input = pre @ 0x2F # 0x2F # h # rest" and "length input + 2 < 2 ^ 64" and "h \<noteq> 0x2F" and "h \<noteq> 0x5C"
    and "ascii_byte h"
  shows "parser_loop fh fb input base (parser_at u (after_special_scheme b s) [] (length pre)) =
    parser_loop fh fb input base (parser_at u Authority [] (length pre + 2))"
proof -
  have slash: "ascii_byte 0x2F" by (simp add: ascii_byte_def)
  have "parser_step fh fb input base (ucast (0x2F :: u8)) (parser_at u (after_special_scheme b s) [] (length pre)) =
      Inr (Advance, parser_at u SpecialAuthorityIgnoreSlashes [] (length pre + 1))"
    using remaining_slash [OF assms(1,2)] assms(1)
    by (simp add: parser_step_def after_special_scheme_def special_relative_or_authority_def
        special_authority_slashes_def iterator_moved_def Let_def)
  from loop_advance [OF assms(1) slash this]
  have "parser_loop fh fb input base (parser_at u (after_special_scheme b s) [] (length pre)) =
      parser_loop fh fb input base (parser_at u SpecialAuthorityIgnoreSlashes [] (length pre + 2))"
    using assms(1) by simp
  also have "\<dots> = parser_loop fh fb input base (parser_at u Authority [] (length pre + 2))"
  proof (rule loop_again)
    show "code_point_at input (length pre + 2) = Inr (ucast h)"
      using code_point_at_ascii(1) [OF assms(5), of "pre @ [0x2F, 0x2F]" rest] assms(1) by simp
    show "parser_step fh fb input base (ucast h) (parser_at u SpecialAuthorityIgnoreSlashes [] (length pre + 2)) =
        Inr (Again, parser_at u Authority [] (length pre + 2))"
      using assms(3,4) by (simp add: parser_step_def special_authority_ignore_slashes_def word_uint_eq_iff)
  qed
  finally show ?thesis .
qed

section \<open>Authority, host and port\<close>

text \<open>What may be in an authority, which ends at the first slash.\<close>

definition authority_byte :: "u8 \<Rightarrow> bool" where
  "authority_byte b \<longleftrightarrow> b < 0x80 \<and> b \<notin> {0x40, 0x2F, 0x3F, 0x23, 0x5C}"

lemma authority_run:
  assumes "input = pre @ auth @ 0x2F # rest" and "pre \<noteq> []" and "list_all authority_byte auth"
    and "list_all ascii_byte input" and "length input < 2 ^ 64"
  shows "parser_loop fh fb input base (parser_at u Authority [] (length pre)) =
    parser_loop fh fb input base (parser_at u Host [] (length pre))"
proof -
  have chars: "parser_step fh fb input base (ucast c) (parser_at u Authority buf n) =
      Inr (Advance, parser_at u Authority (buf @ [c]) n)" if "c \<in> set auth" for c buf n
  proof -
    have c: "authority_byte c" "ascii_byte c" using that assms(3) by (auto simp: list_all_iff authority_byte_def ascii_byte_def)
    then have "\<not> ends_authority u (ucast c)" "ucast c \<noteq> (0x40 :: u32)"
      by (auto simp: ends_authority_def authority_byte_def end_of_file_def as_uint)
    then show ?thesis using c(2) by (simp add: parser_step_def authority_state_def)
  qed
  have ascii: "list_all ascii_byte auth" "ascii_byte 0x2F" using assms(1,4) by auto
  have "parser_loop fh fb input base (parser_at u Authority [] (length pre)) =
      parser_loop fh fb input base (parser_at u Authority auth (length (pre @ auth)))"
    using loop_accumulates [OF chars ascii(1) assms(1), of "[]"] by simp
  also have "\<dots> = parser_loop fh fb input base (parser_at u Host [] (length pre))"
  proof -
    have offset: "size_minus (size_minus (length (pre @ auth)) (length auth)) 1 = length pre - 1"
      using assms(1,2,5) by (simp add: size_minus_small Suc_le_eq)
    have "iterator_at_byte_offset input (length pre - 1) = drop (length pre - 1) input"
      using iterator_from_ascii [OF assms(4), of 0 "length pre - 1"] by (simp add: iterator_at_byte_offset_def)
    then have "parser_step fh fb input base (ucast (0x2F :: u8)) (parser_at u Authority auth (length (pre @ auth))) =
        Inr (Advance, parser_at u Host [] (length pre - 1))"
      using offset assms(1) by (simp add: parser_step_def authority_state_def ends_authority_def Let_def)
    from loop_advance [OF _ ascii(2) this, of rest]
    show ?thesis using assms(1,2) by simp
  qed
  finally show ?thesis .
qed

lemma parse_plain_host:
  assumes "host \<noteq> []" and "list_all host_byte host"
  shows "parse_host fh (builder_view host) False = Inr (Some (Some host))"
proof -
  have "host_byte b \<Longrightarrow> b \<noteq> 0x25 \<and> b \<noteq> 0x5B" for b by (auto simp: host_byte_def forbidden_host_code_points_def)
  then have "0x25 \<notin> set host" "hd host \<noteq> 0x5B" using assms by (auto simp: list_all_iff)
  moreover have "\<not> list_ex (view_contains_char (text_view (Some host))) forbidden_host_code_points"
    using assms(2) by (auto simp: list_ex_iff list_all_iff host_byte_def view_contains_char_def text_view_def)
  ultimately show ?thesis
    using assms(1)
    by (simp add: parse_host_def starts_with_char_def builder_view_def view_is_empty_def percent_decode_def
        view_contains_char_def string_of_view_def is_null_def hd_conv_nth parse_ipv4_address_def text_view_def)
qed

lemma host_accumulates:
  assumes "list_all host_byte host" and "input = pre @ host @ rest"
  shows "parser_loop fh fb input base (parser_at u Host [] (length pre)) =
    parser_loop fh fb input base (parser_at u Host host (length (pre @ host)))"
proof -
  have "parser_step fh fb input base (ucast c) (parser_at u Host buf n) = Inr (Advance, parser_at u Host (buf @ [c]) n)"
    if "c \<in> set host" for c buf n
  proof -
    have c: "host_byte c" "ascii_byte c" using that assms(1) by (auto simp: list_all_iff host_byte_def ascii_byte_def)
    then have "c \<notin> {0x2F, 0x3F, 0x23, 0x5C, 0x3A, 0x5B, 0x5D}"
      by (auto simp: host_byte_def forbidden_host_code_points_def)
    then have "\<not> ends_authority u (ucast c)" "ucast c \<noteq> (0x3A :: u32)" "ucast c \<noteq> (0x5B :: u32)" "ucast c \<noteq> (0x5D :: u32)"
      using c(2) by (auto simp: ends_authority_def end_of_file_def as_uint ascii_byte_def)
    then show ?thesis using c(2) by (simp add: parser_step_def host_state_def)
  qed
  moreover have "list_all ascii_byte host" using assms(1) by (auto simp: list_all_iff host_byte_def ascii_byte_def)
  ultimately show ?thesis using loop_accumulates [OF _ _ assms(2), of fh fb base u Host "[]"] by simp
qed

text \<open>The port that the parser reads: the first digit, unless it is the default port.\<close>

definition port_of :: "u8 list \<Rightarrow> u8 list option \<Rightarrow> u16 option" where
  "port_of scheme port =
    (case port of None \<Rightarrow> None | Some digits \<Rightarrow>
       let first = of_nat (unat (hd digits) - 48)
       in if first = default_port_for_scheme (Some scheme) then None else Some first)"

lemma special_url: "is_special_scheme (Some s) \<Longrightarrow> m_scheme u = Some s \<Longrightarrow> is_special u"
  by (simp add: is_special_def)

lemma slash_ends [simp]: "ends_authority u 0x2F" "ends_authority u end_of_file" "ends_authority u 0x3F" "ends_authority u 0x23"
  by (simp_all add: ends_authority_def)

lemma host_end:
  assumes "host \<noteq> []" and "list_all host_byte host" and "is_special u"
  shows "parser_step fh fb input base 0x2F (parser_at u Host host n) = Inr (Again, parser_at (u\<lparr>m_host := Some host\<rparr>) Port [] n)"
    and "parser_step fh fb input base 0x3A (parser_at u Host host n) = Inr (Advance, parser_at (u\<lparr>m_host := Some host\<rparr>) Port [] n)"
  using assms parse_plain_host [OF assms(1,2), of fh]
  by (simp_all add: parser_step_def host_state_def finish_host_def)

lemma port_step:
  assumes "port \<noteq> []" and "list_all is_digit port" and "length port + 3 < 2 ^ 64" and "m_scheme u = Some s"
  shows "parser_step fh fb input base 0x2F (parser_at u Port port n) =
    Inr (Again, parser_at (u\<lparr>m_port := port_of s (Some port)\<rparr>) PathStart [] n)"
proof -
  let ?k = "unat (hd port) - 48"
  have "is_digit (hd port)" using assms(1,2) by (cases port) auto
  then have small: "?k \<le> 9" by (auto simp: is_digit_def word_le_nat_alt)
  have read: "to_uint u32_type (builder_view port) = Inr (Some (int ?k))"
    using to_uint_first_digit [of "builder_view port" u32_type] assms by (simp add: builder_view_def in_memory_def u32_type_def)
  define k where "k = ?k"
  have k: "k \<le> 9" "to_uint u32_type (builder_view port) = Inr (Some (int k))" using small read by (simp_all add: k_def)
  have "uint (of_nat k :: u16) = int k" using k(1) by (simp add: unsigned_of_nat take_bit_nat_eq_self uint_nat)
  then have "of_nat k = d \<longleftrightarrow> int k = uint d" for d :: u16 by (simp add: word_uint_eq_iff)
  then have port: "port_of s (Some port) =
      (if int k = uint (default_port_for_scheme (Some s)) then None else Some (word_of_int (int k)))"
    unfolding port_of_def Let_def k_def [symmetric] option.case by simp
  have "\<not> is_ascii_digit 0x2F" by (simp add: is_ascii_digit_def)
  moreover have "\<not> int k > 65535" using k(1) by linarith
  ultimately show ?thesis
    using assms(1,4) k(2) by (simp add: parser_step_def port_state_def port)
qed

lemma port_accumulates:
  assumes "list_all is_digit port" and "input = pre @ port @ rest"
  shows "parser_loop fh fb input base (parser_at u Port [] (length pre)) =
    parser_loop fh fb input base (parser_at u Port port (length (pre @ port)))"
proof -
  have "parser_step fh fb input base (ucast c) (parser_at u Port buf n) = Inr (Advance, parser_at u Port (buf @ [c]) n)"
    if "c \<in> set port" for c buf n
  proof -
    have c: "is_digit c" using that assms(1) by (auto simp: list_all_iff)
    then have "ascii_byte c" "is_ascii_digit (ucast c)"
      by (auto simp: is_digit_def ascii_byte_def is_ascii_digit_def word_le_def word_less_def)
    then show ?thesis by (simp add: parser_step_def port_state_def)
  qed
  moreover have "list_all ascii_byte port"
    using assms(1) by (auto simp: list_all_iff is_digit_def ascii_byte_def word_le_def word_less_def)
  ultimately show ?thesis using loop_accumulates [OF _ _ assms(2), of fh fb base u Port "[]"] by simp
qed

lemma path_start_run:
  assumes "input = pre @ 0x2F # rest" and "is_special u"
  shows "parser_loop fh fb input base (parser_at u PathStart [] (length pre)) =
    parser_loop fh fb input base (parser_at u Path [] (length pre + 1))"
proof -
  have slash: "ascii_byte 0x2F" by (simp add: ascii_byte_def)
  have "parser_step fh fb input base (ucast (0x2F :: u8)) (parser_at u PathStart [] (length pre)) =
      Inr (Advance, parser_at u Path [] (length pre))"
    using assms(2) by (simp add: parser_step_def path_start_def)
  from loop_advance [OF assms(1) slash this] show ?thesis using assms(1) by simp
qed

lemma host_run:
  assumes "input = pre @ host @ prefixed 0x3A port @ 0x2F # rest" and "host \<noteq> []" and "list_all host_byte host"
    and "\<forall>digits. port = Some digits \<longrightarrow> digits \<noteq> [] \<and> list_all is_digit digits"
    and "is_special_scheme (Some s)" and "m_scheme u = Some s" and "m_port u = None" and "length input + 3 < 2 ^ 64"
  shows "parser_loop fh fb input base (parser_at u Host [] (length pre)) =
    parser_loop fh fb input base (parser_at (u\<lparr>m_host := Some host, m_port := port_of s port\<rparr>) Path []
      (length (pre @ host @ prefixed 0x3A port) + 1))"
proof -
  have special: "is_special u" "is_special (u\<lparr>m_host := Some host\<rparr>)"
      "is_special (u\<lparr>m_host := Some host, m_port := port_of s port\<rparr>)"
    using assms(5,6) by (simp_all add: is_special_def)
  have slash: "ascii_byte 0x2F" "ascii_byte 0x3A" by (simp_all add: ascii_byte_def)
  note host = host_accumulates [OF assms(3,1), of fh fb base u]
  note host_end = host_end [OF assms(2,3) special(1), of fh fb input base "length (pre @ host)"]
  show ?thesis
  proof (cases port)
    case None
    then have input: "input = (pre @ host) @ 0x2F # rest" using assms(1) by (simp add: prefixed_def)
    have at: "code_point_at input (length (pre @ host)) = Inr 0x2F"
      using code_point_at_ascii(1) [OF slash(1), of "pre @ host" rest] input by simp
    have "parser_step fh fb input base 0x2F (parser_at (u\<lparr>m_host := Some host\<rparr>) Port [] (length (pre @ host))) =
        Inr (Again, parser_at (u\<lparr>m_host := Some host\<rparr>) PathStart [] (length (pre @ host)))"
      by (simp add: parser_step_def port_state_def is_ascii_digit_def)
    then have "parser_loop fh fb input base (parser_at u Host [] (length pre)) =
        parser_loop fh fb input base (parser_at (u\<lparr>m_host := Some host\<rparr>) PathStart [] (length (pre @ host)))"
      using host loop_again [OF at host_end(1)] loop_again [OF at] by simp
    moreover have "\<dots> = parser_loop fh fb input base (parser_at (u\<lparr>m_host := Some host\<rparr>) Path [] (length (pre @ host) + 1))"
      by (rule path_start_run [OF input special(2)])
    moreover have "u\<lparr>m_host := Some host\<rparr> = u\<lparr>m_host := Some host, m_port := None\<rparr>" using assms(7) by (cases u) simp
    ultimately show ?thesis using None by (simp add: prefixed_def port_of_def)
  next
    case (Some digits)
    then have input: "input = (pre @ host) @ 0x3A # digits @ 0x2F # rest"
        "input = (pre @ host @ [0x3A]) @ digits @ 0x2F # rest" "input = (pre @ host @ 0x3A # digits) @ 0x2F # rest"
      using assms(1) by (simp_all add: prefixed_def)
    have digits: "digits \<noteq> []" "list_all is_digit digits" using assms(4) Some by auto
    let ?u = "u\<lparr>m_host := Some host\<rparr>"
    have "parser_loop fh fb input base (parser_at u Host [] (length pre)) =
        parser_loop fh fb input base (parser_at ?u Port [] (length (pre @ host @ [0x3A])))"
      using host loop_advance [OF input(1) slash(2), of fh fb base u Host host] host_end(2) input(1) by simp
    also have "\<dots> = parser_loop fh fb input base (parser_at ?u Port digits (length (pre @ host @ 0x3A # digits)))"
      using port_accumulates [OF digits(2) input(2), of fh fb base ?u] by simp
    also have "\<dots> = parser_loop fh fb input base (parser_at (?u\<lparr>m_port := port_of s port\<rparr>) PathStart []
        (length (pre @ host @ 0x3A # digits)))"
    proof (rule loop_again)
      show "code_point_at input (length (pre @ host @ 0x3A # digits)) = Inr 0x2F"
        using code_point_at_ascii(1) [OF slash(1), of "pre @ host @ 0x3A # digits" rest] input(3) by simp
      show "parser_step fh fb input base 0x2F (parser_at ?u Port digits (length (pre @ host @ 0x3A # digits))) =
          Inr (Again, parser_at (?u\<lparr>m_port := port_of s port\<rparr>) PathStart [] (length (pre @ host @ 0x3A # digits)))"
        using port_step [OF digits, of ?u s] assms(6,8) input(1) Some by simp
    qed
    also have "\<dots> = parser_loop fh fb input base (parser_at (?u\<lparr>m_port := port_of s port\<rparr>) Path []
        (length (pre @ host @ 0x3A # digits) + 1))"
      using special(3) by (intro path_start_run [OF input(3)]) simp
    finally show ?thesis using Some by (simp add: prefixed_def)
  qed
qed

section \<open>Path, query and fragment\<close>

definition plain_segment :: "u8 list \<Rightarrow> bool" where
  "plain_segment segment \<longleftrightarrow> list_all path_byte segment \<and> segment \<noteq> literal ''.'' \<and> segment \<noteq> literal ''..''"

lemma path_byte_cases:
  assumes "path_byte c"
  shows "ascii_byte c" and "c \<notin> {0x2F, 0x3F, 0x23, 0x5C, 0x25}" and "0x20 < c"
  using assms by (auto simp: path_byte_def in_path_set_iff in_query_set_iff ascii_byte_def as_uint)

lemma plain_byte_continues:
  assumes "ascii_byte c" and "c \<notin> {0x2F, 0x3F, 0x23, 0x5C}"
  shows "\<not> ends_authority u (ucast c)" and "ucast c \<noteq> end_of_file" and "ucast c \<noteq> (0x23 :: u32)"
  using assms by (auto simp: ends_authority_def end_of_file_def as_uint ascii_byte_def)

lemma lower_percent: "lower c = lower 0x25 \<Longrightarrow> c = 0x25"
  by (auto simp: lower_def to_ascii_lowercase_def is_ascii_upper_alpha_def as_uint uint_word_ariths split: if_splits)

lemma no_percent_differs:
  assumes "0x25 \<notin> set segment" and "CHR ''%'' \<in> set s"
  shows "\<not> equals_ignoring_case (builder_view segment) (literal_view s)"
proof
  assume eq: "equals_ignoring_case (builder_view segment) (literal_view s)"
  obtain i where i: "i < length s" "s ! i = CHR ''%''" using assms(2) by (metis in_set_conv_nth)
  then have "lower (segment ! i) = lower 0x25" "i < length segment"
    using eq by (auto simp: equals_ignoring_case_def builder_view_def literal_view_def literal_def split: if_splits)
  then show False using lower_percent assms(1) nth_mem by metis
qed

lemma finish_plain_segment:
  assumes "plain_segment segment" and "m_scheme u \<noteq> Some (literal ''file'')"
  shows "finish_segment slash segment u = Inr (append_path (Some segment) u)"
proof -
  have no_percent: "0x25 \<notin> set segment"
    using assms(1) path_byte_cases(2) by (auto simp: plain_segment_def list_all_iff)
  then show ?thesis
    using assms no_percent_differs [OF no_percent]
    by (simp add: finish_segment_def is_double_dot_path_segment_def is_single_dot_path_segment_def Let_def plain_segment_def
        percent_decode_def view_contains_char_def builder_view_def string_of_view_def is_null_def)
qed

lemma path_accumulates:
  assumes "list_all path_byte segment" and "input = pre @ segment @ rest"
  shows "parser_loop fh fb input base (parser_at u Path [] (length pre)) =
    parser_loop fh fb input base (parser_at u Path segment (length (pre @ segment)))"
proof -
  have "parser_step fh fb input base (ucast c) (parser_at u Path buf n) = Inr (Advance, parser_at u Path (buf @ [c]) n)"
    if "c \<in> set segment" for c buf n
  proof -
    have c: "path_byte c" using that assms(1) by (auto simp: list_all_iff)
    have "append_percent_encoded_if_necessary fh (ucast c) PathSet = Inr [c]"
      using c path_byte_cases(1) [OF c]
      by (simp add: append_percent_encoded_if_necessary_def code_point_is_in_percent_encode_set_def path_byte_def)
    then show ?thesis
      using plain_byte_continues(1) [of c u] path_byte_cases [OF c] by (simp add: parser_step_def path_state_def Let_def)
  qed
  moreover have "list_all ascii_byte segment" using assms(1) path_byte_cases(1) by (auto simp: list_all_iff)
  ultimately show ?thesis using loop_accumulates [OF _ _ assms(2), of fh fb base u Path "[]"] by simp
qed

lemma path_end:
  assumes "plain_segment segment" and "m_scheme u \<noteq> Some (literal ''file'')"
  shows "parser_step fh fb input base 0x2F (parser_at u Path segment n) = Inr (Advance, parser_at (append_path (Some segment) u) Path [] n)"
    and "parser_step fh fb input base end_of_file (parser_at u Path segment n) =
      Inr (Advance, parser_at (append_path (Some segment) u) Path [] n)"
    and "parser_step fh fb input base 0x3F (parser_at u Path segment n) =
      Inr (Advance, parser_at ((append_path (Some segment) u)\<lparr>m_query := Some []\<rparr>) Query [] n)"
    and "parser_step fh fb input base 0x23 (parser_at u Path segment n) =
      Inr (Advance, parser_at ((append_path (Some segment) u)\<lparr>m_fragment := Some []\<rparr>) Fragment [] n)"
  using finish_plain_segment [OF assms]
  by (simp_all add: parser_step_def path_state_def Let_def end_of_file_def ends_authority_def)

lemma path_run:
  assumes "input = pre @ segment @ concat (map (Cons 0x2F) segments) @ rest" and "list_all plain_segment (segment # segments)"
    and "m_scheme u \<noteq> Some (literal ''file'')"
  shows "parser_loop fh fb input base (parser_at u Path [] (length pre)) =
    parser_loop fh fb input base (parser_at (u\<lparr>m_paths := m_paths u @ map Some (butlast (segment # segments))\<rparr>) Path
      (last (segment # segments)) (length input - length rest))"
  using assms
proof (induction segments arbitrary: pre segment u)
  case Nil
  then show ?case using path_accumulates [of segment input pre rest fh fb base u] by (simp add: plain_segment_def)
next
  case (Cons s segments)
  have slash: "ascii_byte 0x2F" by (simp add: ascii_byte_def)
  have plain: "plain_segment segment" "list_all path_byte segment" using Cons.prems(2) by (simp_all add: plain_segment_def)
  have input: "input = pre @ segment @ 0x2F # s @ concat (map (Cons 0x2F) segments) @ rest"
      "input = (pre @ segment) @ 0x2F # s @ concat (map (Cons 0x2F) segments) @ rest"
      "input = (pre @ segment @ [0x2F]) @ s @ concat (map (Cons 0x2F) segments) @ rest"
    using Cons.prems(1) by simp_all
  have "parser_loop fh fb input base (parser_at u Path [] (length pre)) =
      parser_loop fh fb input base (parser_at (append_path (Some segment) u) Path [] (length (pre @ segment @ [0x2F])))"
    using path_accumulates [OF plain(2) input(1), of fh fb base u]
      loop_advance [OF input(2) slash, of fh fb base u Path segment] path_end(1) [OF plain(1) Cons.prems(3)] input(1) by simp
  also have "\<dots> = parser_loop fh fb input base (parser_at
      ((append_path (Some segment) u)\<lparr>m_paths := m_paths (append_path (Some segment) u) @ map Some (butlast (s # segments))\<rparr>) Path
      (last (s # segments)) (length input - length rest))"
    using Cons.prems by (intro Cons.IH [OF input(3)]) (simp_all add: append_path_def)
  finally show ?case by (simp add: append_path_def)
qed

lemma percent_encode_plain_query:
  "list_all query_byte query \<Longrightarrow> percent_encode_bytes fb SpecialQuerySet False query = query"
proof (induction query)
  case (Cons c query)
  then have "ascii_byte c"
    by (auto simp: query_byte_def code_point_is_in_percent_encode_set_def in_query_set_iff ascii_byte_def as_uint)
  then show ?case using Cons by (simp add: query_byte_def)
qed simp

lemma query_byte_cases:
  assumes "query_byte c"
  shows "ascii_byte c" and "c \<noteq> 0x23" and "0x20 < c"
  using assms by (auto simp: query_byte_def code_point_is_in_percent_encode_set_def in_query_set_iff ascii_byte_def as_uint)

lemma query_accumulates:
  assumes "list_all query_byte query" and "input = pre @ query @ rest"
  shows "parser_loop fh fb input base (parser_at u Query [] (length pre)) =
    parser_loop fh fb input base (parser_at u Query query (length (pre @ query)))"
proof -
  have "parser_step fh fb input base (ucast c) (parser_at u Query buf n) = Inr (Advance, parser_at u Query (buf @ [c]) n)"
    if "c \<in> set query" for c buf n
  proof -
    have c: "ascii_byte c" "c \<noteq> 0x23" using that assms(1) query_byte_cases by (auto simp: list_all_iff)
    then have "ucast c \<noteq> end_of_file" "ucast c \<noteq> (0x23 :: u32)" by (auto simp: end_of_file_def as_uint ascii_byte_def)
    then show ?thesis using c(1) by (simp add: parser_step_def query_state_def)
  qed
  moreover have "list_all ascii_byte query" using assms(1) query_byte_cases(1) by (auto simp: list_all_iff)
  ultimately show ?thesis using loop_accumulates [OF _ _ assms(2), of fh fb base u Query "[]"] by simp
qed

lemma query_end:
  assumes "list_all query_byte query" and "is_special u" and "m_query u = Some []"
  shows "parser_step fh fb input base end_of_file (parser_at u Query query n) =
      Inr (Advance, parser_at (u\<lparr>m_query := Some query\<rparr>) Query [] n)"
    and "parser_step fh fb input base 0x23 (parser_at u Query query n) =
      Inr (Advance, parser_at (u\<lparr>m_query := Some query, m_fragment := Some []\<rparr>) Fragment [] n)"
  using assms percent_encode_plain_query [OF assms(1), of fb]
  by (simp_all add: parser_step_def query_state_def end_of_file_def percent_encode_after_encoding_def builder_view_def Let_def)

lemma fragment_run:
  assumes "list_all fragment_byte fragment" and "input = pre @ fragment"
  shows "parser_loop fh fb input base (parser_at u Fragment [] (length pre)) =
    Some (Inr (u\<lparr>m_fragment := Some fragment, m_valid := True\<rparr>))"
proof -
  have "parser_step fh fb input base (ucast c) (parser_at u Fragment buf n) = Inr (Advance, parser_at u Fragment (buf @ [c]) n)"
    if "c \<in> set fragment" for c buf n
  proof -
    have c: "ascii_byte c" using that assms(1) by (auto simp: list_all_iff fragment_byte_def ascii_byte_def as_uint)
    then have "ucast c \<noteq> end_of_file" by (auto simp: end_of_file_def as_uint ascii_byte_def)
    then show ?thesis using c by (simp add: parser_step_def fragment_state_def)
  qed
  moreover have "list_all ascii_byte fragment"
    using assms(1) by (auto simp: list_all_iff fragment_byte_def ascii_byte_def as_uint)
  ultimately have "parser_loop fh fb input base (parser_at u Fragment [] (length pre)) =
      parser_loop fh fb input base (parser_at u Fragment fragment (length input))"
    using loop_accumulates [of fragment fh fb input base u Fragment pre "[]" "[]"] assms(2) by simp
  also have "\<dots> = Some (Inr ((u\<lparr>m_fragment := Some fragment\<rparr>)\<lparr>m_valid := True\<rparr>))"
  proof (rule loop_end)
    have "0x25 \<notin> set fragment" using assms(1) by (auto simp: list_all_iff fragment_byte_def)
    then show "parser_step fh fb input base end_of_file (parser_at u Fragment fragment (length input)) =
        Inr (Advance, parser_at (u\<lparr>m_fragment := Some fragment\<rparr>) Fragment [] (length input))"
      by (simp add: parser_step_def fragment_state_def percent_decode_def view_contains_char_def builder_view_def
          string_of_view_def is_null_def)
  qed simp
  finally show ?thesis by simp
qed

lemma tail_run:
  assumes "input = pre @ prefixed 0x3F query @ prefixed 0x23 fragment" and "plain_segment segment"
    and "is_special u" and "m_scheme u \<noteq> Some (literal ''file'')" and "m_query u = None" and "m_fragment u = None"
    and "\<forall>q. query = Some q \<longrightarrow> list_all query_byte q" and "\<forall>f. fragment = Some f \<longrightarrow> list_all fragment_byte f"
  shows "parser_loop fh fb input base (parser_at u Path segment (length pre)) =
    Some (Inr ((append_path (Some segment) u)\<lparr>m_query := query, m_fragment := fragment, m_valid := True\<rparr>))"
proof -
  let ?u = "append_path (Some segment) u"
  have marks: "ascii_byte 0x3F" "ascii_byte 0x23" by (simp_all add: ascii_byte_def)
  have fields: "is_special (?u\<lparr>m_query := Some []\<rparr>)" "m_query ?u = None" "m_fragment ?u = None"
    using assms(3,5,6) by (simp_all add: append_path_def is_special_def)
  have no_query: "?u\<lparr>m_query := None\<rparr> = ?u" using fields(2) by (cases ?u) simp
  have no_fragment: "v\<lparr>m_fragment := None\<rparr> = v" if "m_fragment v = None" for v :: url
    using that by (cases v) simp
  note step = path_end [OF assms(2,4), of fh fb input base]
  show ?thesis
  proof (cases query)
    case None
    show ?thesis
    proof (cases fragment)
      case None
      then have "input = pre" using assms(1) \<open>query = None\<close> by (simp add: prefixed_def)
      then show ?thesis
        using loop_end [OF step(2) refl] None \<open>query = None\<close> no_query no_fragment [OF fields(3)] fields(3) by simp
    next
      case (Some f)
      then have input: "input = pre @ 0x23 # f" "input = (pre @ [0x23]) @ f" using assms(1) None by (simp_all add: prefixed_def)
      have "list_all fragment_byte f" using assms(8) Some by simp
      then show ?thesis
        using loop_advance [OF input(1) marks(2), of fh fb base u Path segment] step(4) input(1)
          fragment_run [OF _ input(2)] Some None no_query by simp
    qed
  next
    case (Some q)
    have q: "list_all query_byte q" using assms(7) Some by simp
    have input: "input = pre @ 0x3F # q @ prefixed 0x23 fragment" "input = (pre @ [0x3F]) @ q @ prefixed 0x23 fragment"
      using assms(1) Some by (simp_all add: prefixed_def)
    note at_end = query_end [OF q fields(1), simplified, of fh fb input base]
    have run: "parser_loop fh fb input base (parser_at u Path segment (length pre)) =
        parser_loop fh fb input base (parser_at (?u\<lparr>m_query := Some []\<rparr>) Query q (length (pre @ 0x3F # q)))"
      using loop_advance [OF input(1) marks(1), of fh fb base u Path segment] step(3) input(1)
        query_accumulates [OF q input(2), of fh fb base "?u\<lparr>m_query := Some []\<rparr>"] by simp
    show ?thesis
    proof (cases fragment)
      case None
      then have "input = pre @ 0x3F # q" using input by (simp add: prefixed_def)
      then show ?thesis
        using run loop_end [OF at_end(1)] Some None no_fragment [of "?u\<lparr>m_query := Some q, m_valid := True\<rparr>"] fields(3)
        by (simp add: append_path_def)
    next
      case (Some f)
      then have input: "input = (pre @ 0x3F # q) @ 0x23 # f" "input = (pre @ 0x3F # q @ [0x23]) @ f"
        using assms(1) \<open>query = Some q\<close> by (simp_all add: prefixed_def)
      have "list_all fragment_byte f" using assms(8) Some by simp
      then show ?thesis
        using run loop_advance [OF input(1) marks(2), of fh fb base "?u\<lparr>m_query := Some []\<rparr>" Query q] at_end(2) input(1)
          fragment_run [OF _ input(2)] Some \<open>query = Some q\<close> by simp
    qed
  qed
qed

section \<open>The whole text\<close>

lemma special_scheme_first:
  assumes "is_special_scheme (Some s)"
  shows "s \<noteq> [] \<and> hd s \<noteq> 0x64"
  using assms by (auto simp: is_special_scheme_def is_one_of_def literal_def)

lemma plain_loop:
  assumes "is_special_scheme (Some s)" and "s \<noteq> literal ''file''" and "host \<noteq> []" and "list_all host_byte host"
    and "\<forall>digits. port = Some digits \<longrightarrow> digits \<noteq> [] \<and> list_all is_digit digits"
    and "segments \<noteq> []" and "list_all plain_segment segments"
    and "\<forall>q. query = Some q \<longrightarrow> list_all query_byte q" and "\<forall>f. fragment = Some f \<longrightarrow> list_all fragment_byte f"
    and "input = url_text s host port segments query fragment" and "list_all ascii_byte input" and "length input + 3 < 2 ^ 64"
  shows "parser_loop fh fb input base (parser_at default_url SchemeStart [] 0) =
    Some (Inr (default_url\<lparr>m_valid := True, m_scheme := Some s, m_host := Some host, m_port := port_of s port,
      m_paths := map Some segments, m_query := query, m_fragment := fragment\<rparr>))"
proof -
  obtain c cs where s: "s = c # cs" and letters: "lower_letter c" "list_all lower_letter cs"
    using special_scheme_letters [OF assms(1)] by (cases s) auto
  obtain h hs where h: "host = h # hs" using assms(3) by (cases host) auto
  obtain segment rest where segs: "segments = segment # rest" using assms(6) by (cases segments) auto
  let ?tail = "prefixed 0x3F query @ prefixed 0x23 fragment"
  let ?path = "concat (map (Cons 0x2F) rest) @ ?tail"
  define pre where "pre = s @ [0x3A, 0x2F, 0x2F]"
  have input: "input = [] @ c # cs @ 0x3A # 0x2F # 0x2F # host @ prefixed 0x3A port @ 0x2F # segment @ ?path"
    "input = [c] @ cs @ 0x3A # 0x2F # 0x2F # host @ prefixed 0x3A port @ 0x2F # segment @ ?path"
    "input = s @ 0x3A # 0x2F # 0x2F # host @ prefixed 0x3A port @ 0x2F # segment @ ?path"
    "input = (s @ [0x3A]) @ 0x2F # 0x2F # h # hs @ prefixed 0x3A port @ 0x2F # segment @ ?path"
    "input = pre @ (host @ prefixed 0x3A port) @ 0x2F # segment @ ?path"
    "input = pre @ host @ prefixed 0x3A port @ 0x2F # segment @ ?path"
    "input = (pre @ host @ prefixed 0x3A port @ [0x2F]) @ segment @ concat (map (Cons 0x2F) rest) @ ?tail"
    using assms(10) by (simp_all add: url_text_def s segs pre_def literal_def h)
  have h_byte: "h \<noteq> 0x2F" "h \<noteq> 0x5C" "ascii_byte h"
    using assms(4) by (auto simp: h host_byte_def forbidden_host_code_points_def ascii_byte_def)
  have colon: "ascii_byte 0x3A" by (simp add: ascii_byte_def)
  have lengths: "length input + 2 < 2 ^ 64" "length input < 2 ^ 64" using assms(12) by simp_all
  let ?u = "default_url\<lparr>m_scheme := Some s\<rparr>"
  have "parser_loop fh fb input base (parser_at default_url SchemeStart [] 0) =
      parser_loop fh fb input base (parser_at default_url Scheme [c] (length [c]))"
    using loop_advance [OF input(1) lower_letter_ascii [OF letters(1)], of fh fb base default_url SchemeStart "[]"]
      scheme_step(1) [OF letters(1), of fh fb input base default_url "[]" 0] input(1) by simp
  also have "\<dots> = parser_loop fh fb input base (parser_at default_url Scheme s (length s))"
    using loop_accumulates [OF _ _ input(2), of fh fb base default_url Scheme "[c]"] letters(2) scheme_step(2) lower_letter_ascii
    by (simp add: s list_all_iff)
  also have "\<dots> = parser_loop fh fb input base (parser_at ?u (after_special_scheme base s) [] (length (s @ [0x3A])))"
    using loop_advance [OF input(3) colon, of fh fb base default_url Scheme s] colon_step [OF assms(1,2)] input(3) by simp
  also have "\<dots> = parser_loop fh fb input base (parser_at ?u Authority [] (length pre))"
    using slashes_run [OF input(4) lengths(1) h_byte, of fh fb base ?u base s] by (simp add: pre_def)
  also have "\<dots> = parser_loop fh fb input base (parser_at ?u Host [] (length pre))"
  proof (rule authority_run [OF input(5) _ _ assms(11) lengths(2)])
    have "list_all authority_byte host"
      using assms(4) by (auto simp: list_all_iff host_byte_def authority_byte_def forbidden_host_code_points_def)
    moreover have "is_digit d \<Longrightarrow> authority_byte d" for d
      by (auto simp: is_digit_def authority_byte_def word_le_def word_less_def)
    then have "list_all authority_byte (prefixed 0x3A port)"
      using assms(5) by (cases port) (auto simp: prefixed_def list_all_iff authority_byte_def)
    ultimately show "list_all authority_byte (host @ prefixed 0x3A port)" by simp
  qed (simp add: pre_def)
  also have "\<dots> = parser_loop fh fb input base (parser_at (?u\<lparr>m_host := Some host, m_port := port_of s port\<rparr>) Path []
      (length (pre @ host @ prefixed 0x3A port @ [0x2F])))"
    using host_run [OF input(6) assms(3,4,5,1) _ _ assms(12), of ?u fh fb base] by (simp add: default_url_def)
  also have "\<dots> = parser_loop fh fb input base (parser_at (?u\<lparr>m_host := Some host, m_port := port_of s port,
      m_paths := map Some (butlast segments)\<rparr>) Path (last segments) (length input - length ?tail))"
    using path_run [OF input(7), of "?u\<lparr>m_host := Some host, m_port := port_of s port\<rparr>" fh fb base] assms(2,7)
    by (simp add: segs default_url_def)
  also have "\<dots> = Some (Inr (default_url\<lparr>m_valid := True, m_scheme := Some s, m_host := Some host, m_port := port_of s port,
      m_paths := map Some segments, m_query := query, m_fragment := fragment\<rparr>))"
  proof -
    let ?v = "?u\<lparr>m_host := Some host, m_port := port_of s port, m_paths := map Some (butlast segments)\<rparr>"
    let ?front = "take (length input - length ?tail) input"
    have "input = ?front @ ?tail" "length ?front = length input - length ?tail" using input(7) by simp_all
    moreover have "plain_segment (last segments)" using assms(6,7) by (simp add: list_all_iff)
    moreover have "map Some (butlast segments) @ [Some (last segments)] = map Some segments"
      using arg_cong [OF append_butlast_last_id [OF assms(6)], of "map Some"] by simp
    ultimately show ?thesis
      using tail_run [of input ?front query fragment "last segments" ?v fh fb base] assms(1,2,8,9)
      by (simp add: is_special_def default_url_def append_path_def)
  qed
  finally show ?thesis .
qed

lemma fragment_byte_cases: "fragment_byte b \<Longrightarrow> ascii_byte b \<and> 0x20 < b"
  by (simp add: fragment_byte_def ascii_byte_def word_less_def)

lemma tail_byte:
  assumes "segments \<noteq> []" and "list_all plain_segment segments"
    and "\<forall>q. query = Some q \<longrightarrow> list_all query_byte q" and "\<forall>f. fragment = Some f \<longrightarrow> list_all fragment_byte f"
  defines "rest \<equiv> concat (map (Cons 0x2F) segments) @ prefixed 0x3F query @ prefixed 0x23 fragment"
  shows "rest \<noteq> [] \<and> (\<forall>b\<in>set rest. ascii_byte b \<and> 0x20 < b)"
proof -
  have "\<forall>b\<in>set (concat (map (Cons 0x2F) segments)). ascii_byte b \<and> 0x20 < b"
    using assms(2) path_byte_cases(1,3) by (auto simp: list_all_iff plain_segment_def ascii_byte_def)
  moreover have "\<forall>b\<in>set (prefixed 0x3F query). ascii_byte b \<and> 0x20 < b"
    using assms(3) query_byte_cases(1,3) by (auto simp: prefixed_def list_all_iff ascii_byte_def split: option.splits)
  moreover have "\<forall>b\<in>set (prefixed 0x23 fragment). ascii_byte b \<and> 0x20 < b"
    using assms(4) fragment_byte_cases by (auto simp: prefixed_def list_all_iff ascii_byte_def split: option.splits)
  ultimately show ?thesis using assms(1) by (cases segments) (auto simp: rest_def)
qed

lemma leading_spaces_none: "xs \<noteq> [] \<Longrightarrow> 0x20 < hd xs \<Longrightarrow> leading_spaces xs = 0"
  by (cases xs) (auto simp: leading_spaces_def not_le)

text \<open>
  C39. The text of a URL with a special scheme, a host, maybe a port, a path of segments, maybe a query and maybe a
  fragment, of characters that need no encoding, is parsed into these parts, with any base URL. The port
  alone is not the one of the text: it is read as its first digit.
\<close>

theorem url_parse_plain:
  assumes "is_special_scheme (Some scheme)" and "scheme \<noteq> literal ''file''" and "host \<noteq> []" and "list_all host_byte host"
    and "\<forall>digits. port = Some digits \<longrightarrow> digits \<noteq> [] \<and> list_all is_digit digits"
    and "segments \<noteq> []" and "list_all plain_segment segments"
    and "\<forall>q. query = Some q \<longrightarrow> list_all query_byte q" and "\<forall>f. fragment = Some f \<longrightarrow> list_all fragment_byte f"
    and "chars raw = url_text scheme host port segments query fragment" and "in_memory raw" and "3 < m_characters raw"
  shows "url_parse env format_hex format_byte raw base None None =
    Some (Inr (default_url\<lparr>m_valid := True, m_scheme := Some scheme, m_host := Some host, m_port := port_of scheme port,
      m_paths := map Some segments, m_query := query, m_fragment := fragment\<rparr>))"
proof -
  let ?rest = "concat (map (Cons 0x2F) segments) @ prefixed 0x3F query @ prefixed 0x23 fragment"
  let ?front = "scheme @ literal ''://'' @ host @ prefixed 0x3A port"
  note rest = tail_byte [OF assms(6-9)]
  have parts: "chars raw = ?front @ ?rest" using assms(10) by (simp only: url_text_def append_assoc)
  have scheme: "scheme \<noteq> []" "list_all lower_letter scheme" "hd scheme \<noteq> 0x64"
    using special_scheme_letters [OF assms(1)] special_scheme_first [OF assms(1)] by auto
  have front: "\<forall>b\<in>set ?front. ascii_byte b \<and> b \<noteq> 0x09 \<and> b \<noteq> 0x0A"
  proof -
    have "\<forall>b\<in>set scheme. ascii_byte b \<and> b \<noteq> 0x09 \<and> b \<noteq> 0x0A"
      using scheme(2) lower_letter_ascii by (auto simp: list_all_iff lower_letter_def)
    moreover have "\<forall>b\<in>set host. ascii_byte b \<and> b \<noteq> 0x09 \<and> b \<noteq> 0x0A"
      using assms(4) by (auto simp: list_all_iff host_byte_def forbidden_host_code_points_def ascii_byte_def)
    moreover have "is_digit d \<Longrightarrow> ascii_byte d \<and> d \<noteq> 0x09 \<and> d \<noteq> 0x0A" for d
      by (auto simp: is_digit_def ascii_byte_def word_le_def word_less_def)
    then have "\<forall>b\<in>set (prefixed 0x3A port). ascii_byte b \<and> b \<noteq> 0x09 \<and> b \<noteq> 0x0A"
      using assms(5) by (cases port) (auto simp: prefixed_def list_all_iff ascii_byte_def)
    moreover have "\<forall>b\<in>set (literal ''://''). ascii_byte b \<and> b \<noteq> 0x09 \<and> b \<noteq> 0x0A"
      by (simp add: literal_def ascii_byte_def)
    ultimately show ?thesis unfolding set_append by blast
  qed
  have "ascii_byte b \<and> b \<noteq> 0x09 \<and> b \<noteq> 0x0A" if "b \<in> set ?rest" for b
  proof -
    have "ascii_byte b" "0x20 < b" using rest that by blast+
    then show ?thesis by auto
  qed
  then have "\<forall>b\<in>set (chars raw). ascii_byte b \<and> b \<noteq> 0x09 \<and> b \<noteq> 0x0A"
    unfolding parts set_append [of ?front] using front by blast
  then have bytes: "list_all ascii_byte (chars raw)" "0x09 \<notin> set (chars raw)" "0x0A \<notin> set (chars raw)"
    unfolding list_all_iff by blast+
  have "hd (chars raw) = hd scheme" using scheme(1) by (simp add: parts)
  then have first: "0x20 < hd (chars raw)" "hd (chars raw) \<noteq> 0x64"
    using scheme by (cases scheme; auto simp: lower_letter_def word_le_def word_less_def)+
  have "hd (rev (xs @ ys)) = last ys" if "ys \<noteq> []" for xs ys :: "u8 list" using that by (simp add: hd_append hd_rev)
  then have "hd (rev (chars raw)) = last ?rest" unfolding parts using rest by blast
  then have last: "0x20 < hd (rev (chars raw))" using rest last_in_set by metis
  have nonempty: "chars raw \<noteq> []" using scheme(1) by (simp add: parts)
  have "take (length (literal ''data:'')) (chars raw) \<noteq> literal ''data:''" using first(2) nonempty by (cases "chars raw") (auto simp: literal_def)
  then have no_data: "\<not> starts_with_view raw (literal_view ''data:'') CaseSensitive"
    using assms(12) nonempty by (simp add: starts_with_view_def literal_view_def view_is_empty_def) (simp add: literal_def)
  have whole: "substring_view raw 0 (length (chars raw)) = Inr raw"
    using substring_view_inside [OF assms(11), of 0 "length (chars raw)"] by simp
  have "length (chars raw) + 3 < 2 ^ 64" using assms(11,12) by (simp add: in_memory_def)
  from plain_loop [OF assms(1-9) assms(10) bytes(1) this, of format_hex format_byte base]
  have "parser_loop format_hex format_byte (chars raw) base (parser_at default_url SchemeStart [] 0) =
      Some (Inr (default_url\<lparr>m_valid := True, m_scheme := Some scheme, m_host := Some host, m_port := port_of scheme port,
        m_paths := map Some segments, m_query := query, m_fragment := fragment\<rparr>))" .
  then show ?thesis
    using no_data nonempty whole process_input_correct(2) [OF bytes(2,3)] leading_spaces_none [OF nonempty first(1)]
      leading_spaces_none [OF _ last]
    by (simp add: url_parse_def view_is_empty_def parser_at_def)
qed

lemma url_parse_plain_witness:
  "url_parse no_memory (\<lambda>_. []) (\<lambda>_. []) \<lparr>m_characters = 4096, chars = literal ''http://ab.c:80/x/?q#f''\<rparr> None None None =
    Some (Inr (default_url\<lparr>m_valid := True, m_scheme := Some (literal ''http''), m_host := Some (literal ''ab.c''),
      m_port := Some 8, m_paths := [Some (literal ''x''), Some []], m_query := Some (literal ''q''),
      m_fragment := Some (literal ''f'')\<rparr>))"
  using url_parse_plain [of "literal ''http''" "literal ''ab.c''" "Some (literal ''80'')" "[literal ''x'', []]"
      "Some (literal ''q'')" "Some (literal ''f'')" "\<lparr>m_characters = 4096, chars = literal ''http://ab.c:80/x/?q#f''\<rparr>"
      no_memory "\<lambda>_. []" "\<lambda>_. []" None]
  by (simp add: is_special_scheme_def is_one_of_def literal_def host_byte_def forbidden_host_code_points_def is_digit_def
      plain_segment_def path_byte_def in_path_set_def in_query_set_def in_c0_control_def one_of_chars_def
      view_contains_char_def literal_view_def query_byte_def
      code_point_is_in_percent_encode_set_def fragment_byte_def url_text_def prefixed_def in_memory_def port_of_def
      default_port_for_scheme_def)

section \<open>Defects\<close>

text \<open>
  The authority never sets a user name or a password; a URL with a path has no serialization, since
  \<open>percent_encode\<close> returns nothing; and a base64 payload that has a letter or digit and a padding character is
  invalid.
\<close>

lemma authority_keeps_url:
  "authority_state format_hex input c p = Inr (act, p') \<Longrightarrow> the_url p' = the_url p"
  by (auto simp: authority_state_def Let_def code_points.simps [of "[]"] split: if_splits)

lemma percent_encode_fails: "\<exists>e. percent_encode format_hex input pset space_as_plus = Inl e"
  by (cases "percent_encode_loop format_hex pset space_as_plus (code_points (chars input))") (simp_all add: percent_encode_def)

lemma serialize_fails:
  assumes "m_scheme u \<noteq> Some (literal ''data'')" and "\<not> m_cannot_be_a_base_url u" and "m_paths u \<noteq> []"
  shows "\<exists>e. serialize format_hex format_port exclude_fragment u = Inl e"
proof -
  have encoded: "\<exists>e. encoded format_hex pset t = Inl e" for pset t
    using percent_encode_fails [of format_hex "text_view t" pset False] by (auto simp: encoded_def)
  have concatenated: "\<exists>e. concatenated parts = Inl e" if "\<exists>e. Inl e \<in> set parts" for parts
    using that
  proof (induction parts)
    case (Cons part parts)
    then show ?case by (cases part) auto
  qed simp
  obtain segment rest where "m_paths u = segment # rest" using assms(3) by (cases "m_paths u") auto
  then have "\<exists>e. serialized_path format_hex u = Inl e"
    unfolding serialized_path_def using assms(2) encoded [of PathSet segment] by (auto intro!: concatenated)
  then obtain e where "serialized_path format_hex u = Inl e" ..
  then have "\<exists>e. Inl e \<in> set [Inr (chars (text_view (m_scheme u))), Inr (literal '':''),
        if m_host u = None then Inr []
        else concatenated [Inr (literal ''//''), serialized_credentials format_hex u, Inr (serialized_host format_port u)],
        serialized_path format_hex u, serialized_query format_hex u,
        if exclude_fragment then Inr [] else serialized_fragment format_hex u]" by auto
  from concatenated [OF this] show ?thesis using assms(1) by (auto simp: serialize_def)
qed

end
