(* ===== verification/Printf.thy ===== *)
theory Printf
  imports StringUtils
begin

unbundle bit_operations_syntax

text \<open>
  \<open>AK/PrintfImplementation.h\<close> as the kernel compiles it, without floating point and wide characters. What is
  put is a list of bytes; numbers that count characters are natural numbers, and where one is assigned
  to a 32-bit variable it is truncated.
\<close>

section \<open>Numbers\<close>

text \<open>
  A padding loop runs from zero to the difference of the field width and what is needed. A width that the
  truncation made too small gives a difference that wraps to more than the counter of the loop can
  reach, and the loop does not end: \<open>None\<close>.
\<close>

definition pad_amount :: "nat \<Rightarrow> nat \<Rightarrow> nat option" where
  "pad_amount field_width needed = (if needed \<le> field_width then Some (field_width - needed) else None)"

definition actual_width :: "nat \<Rightarrow> nat \<Rightarrow> nat" where
  "actual_width field_width needed = (if field_width = 0 \<or> field_width < needed then needed mod 2 ^ 32 else field_width)"

text \<open>The common end of the functions that print numbers: prefix, padding, zeros of the precision, digits.\<close>

definition print_padded ::
    "u8 list \<Rightarrow> bool \<Rightarrow> bool \<Rightarrow> nat \<Rightarrow> bool \<Rightarrow> nat \<Rightarrow> u8 list \<Rightarrow> (u8 list \<times> nat) option" where
  "print_padded prefix left_pad zero_pad field_width has_precision precision buf =
    (let zeros = (if has_precision then precision else 0);
         needed = length buf + zeros + length prefix;
         field_width = actual_width field_width needed
     in case pad_amount field_width needed of None \<Rightarrow> None
        | Some n \<Rightarrow> Some
          ((if zero_pad \<and> \<not> has_precision then prefix else []) @
           (if \<not> left_pad then replicate n (if zero_pad \<and> \<not> has_precision then 0x30 else 0x20) else []) @
           (if \<not> (zero_pad \<and> \<not> has_precision) then prefix else []) @
           replicate zeros 0x30 @ buf @ (if left_pad then replicate n 0x20 else []), field_width))"

function hex_digit_count :: "u64 \<Rightarrow> nat" where
  "hex_digit_count n = (if n > 0 then hex_digit_count (drop_bit 4 n) + 1 else 0)"
  by pat_completeness auto
termination
proof (relation "measure unat")
  fix n :: u64
  assume "0 < n"
  then have "0 < unat n" by (simp add: word_less_nat_alt)
  then show "(drop_bit 4 n, n) \<in> measure unat" by (simp add: drop_bit_eq_div unat_div)
qed simp

declare hex_digit_count.simps [simp del]

definition hex_digit_char :: "bool \<Rightarrow> u64 \<Rightarrow> u8" where
  "hex_digit_char upper_case n =
    map of_char (if upper_case then ''0123456789ABCDEF'' else ''0123456789abcdef'') ! unat (n AND 0x0F)"

fun hex_digits :: "bool \<Rightarrow> u64 \<Rightarrow> nat \<Rightarrow> u8 list" where
  "hex_digits upper_case number 0 = []"
| "hex_digits upper_case number (Suc n) =
    hex_digit_char upper_case (drop_bit (4 * n) number) # hex_digits upper_case number n"

definition print_hex :: "u64 \<Rightarrow> bool \<Rightarrow> bool \<Rightarrow> bool \<Rightarrow> bool \<Rightarrow> nat \<Rightarrow> bool \<Rightarrow> nat \<Rightarrow> (u8 list \<times> nat) option" where
  "print_hex number upper_case alternate_form left_pad zero_pad field_width has_precision precision =
    (let digits = (if hex_digit_count number = 0 then 1 else hex_digit_count number);
         buf = (if has_precision \<and> precision = 0 \<and> number = 0 then []
                else if number = 0 then [0x30] else hex_digits upper_case number digits)
     in print_padded (if alternate_form \<and> number \<noteq> 0 then [0x30, 0x78] else []) left_pad zero_pad field_width
          has_precision (precision - length buf) buf)"

text \<open>
  The loop that divides by falling powers of the base and leaves out leading zeros. The divisor starts
  at a power, so it is never zero.
\<close>

function divisor_loop :: "nat \<Rightarrow> nat \<Rightarrow> nat \<Rightarrow> bool \<Rightarrow> u8 list" where
  "divisor_loop base number divisor padding =
    (let ch = of_nat (0x30 + number div divisor) :: u8;
         number = number mod divisor;
         padding = (padding \<and> ch = 0x30);
         out = (if \<not> padding \<or> divisor = 1 then [ch] else [])
     in if divisor \<le> 1 \<or> base \<le> 1 then out else out @ divisor_loop base number (divisor div base) padding)"
  by pat_completeness auto
termination by (relation "measure (\<lambda>(base, number, divisor, padding). divisor)") auto

declare divisor_loop.simps [simp del]

definition print_decimal :: "u64 \<Rightarrow> bool \<Rightarrow> bool \<Rightarrow> bool \<Rightarrow> bool \<Rightarrow> nat \<Rightarrow> bool \<Rightarrow> nat \<Rightarrow> (u8 list \<times> nat) option" where
  "print_decimal number sign always_sign left_pad zero_pad field_width has_precision precision =
    (let buf = (if has_precision \<and> precision = 0 \<and> number = 0 then []
                else divisor_loop 10 (unat number) 10000000000000000000 True)
     in print_padded (if sign then [0x2D] else if always_sign then [0x2B] else []) left_pad zero_pad field_width
          has_precision (precision - length buf) buf)"

definition print_octal_number :: "u64 \<Rightarrow> bool \<Rightarrow> bool \<Rightarrow> bool \<Rightarrow> nat \<Rightarrow> bool \<Rightarrow> nat \<Rightarrow> (u8 list \<times> nat) option" where
  "print_octal_number number alternate_form left_pad zero_pad field_width has_precision precision =
    (let first = (if alternate_form then [0x30] else []);
         precision = precision - length first;
         rest = (if has_precision \<and> precision = 0 \<and> number = 0 then []
                 else divisor_loop 8 (unat number) 134217728 True)
     in print_padded [] left_pad zero_pad field_width has_precision (precision - length rest) (first @ rest))"

definition print_signed_number :: "u64 \<Rightarrow> bool \<Rightarrow> bool \<Rightarrow> bool \<Rightarrow> nat \<Rightarrow> bool \<Rightarrow> nat \<Rightarrow> (u8 list \<times> nat) option" where
  "print_signed_number number always_sign left_pad zero_pad field_width has_precision precision =
    print_decimal (if number <s 0 then 0 - number else number) (number <s 0) always_sign left_pad zero_pad field_width
      has_precision precision"

section \<open>Strings\<close>

definition print_string :: "u8 list \<Rightarrow> bool \<Rightarrow> nat \<Rightarrow> bool \<Rightarrow> nat \<Rightarrow> bool \<Rightarrow> u8 list \<times> nat" where
  "print_string str left_pad field_width dot precision has_fraction =
    (let len = (if has_fraction then min (length str) precision else length str);
         field_width = (if \<not> dot \<and> (field_width = 0 \<or> field_width < len) then len else field_width);
         field_width = (if has_fraction \<and> field_width = 0 then len else field_width);
         pad = replicate (if field_width > len then field_width - len else 0) 0x20
     in ((if \<not> left_pad then pad else []) @ take (min len field_width) str @ (if left_pad then pad else []), field_width))"

section \<open>Formats\<close>

record modifier_state =
  left_pad :: bool
  zero_pad :: bool
  dot :: bool
  field_width :: u32
  has_precision :: bool
  precision :: u32
  long_qualifiers :: u32
  alternate_form :: bool
  always_sign :: bool

definition initial_modifiers :: modifier_state where
  "initial_modifiers = \<lparr>left_pad = False, zero_pad = False, dot = False, field_width = 0, has_precision = False,
    precision = 6, long_qualifiers = 0, alternate_form = False, always_sign = False\<rparr>"

text \<open>
  The arguments that are left: integers as the 64 bits they are passed in, strings or null, and pointers to
  a counter. Reading past the end or an argument of another kind is undefined.
\<close>

datatype argument = Integer u64 | Text "u8 list option" | Counter

fun next_integer :: "argument list \<Rightarrow> (u64 \<times> argument list) error_or" where
  "next_integer (Integer n # args) = Inr (n, args)"
| "next_integer _ = Inl BadPointer"

definition next_int :: "argument list \<Rightarrow> (u32 \<times> argument list) error_or" where
  "next_int args = try_then (next_integer args) (\<lambda>(n, args). Inr (ucast n, args))"

record printing =
  out :: "u8 list"
  written :: u32
  counters :: "u32 list"
  arguments :: "argument list"

definition put :: "u8 list \<times> nat \<Rightarrow> argument list \<Rightarrow> printing \<Rightarrow> printing" where
  "put r args s = s\<lparr>out := out s @ fst r, written := written s + of_nat (snd r), arguments := args\<rparr>"

definition put_number :: "(u8 list \<times> nat) option \<Rightarrow> argument list \<Rightarrow> printing \<Rightarrow> printing outcome" where
  "put_number r args s = (case r of None \<Rightarrow> None | Some r \<Rightarrow> Some (Inr (put r args s)))"

definition format_s :: "modifier_state \<Rightarrow> printing \<Rightarrow> printing outcome" where
  "format_s st s =
    (case arguments s of
       Text sp # args \<Rightarrow> Some (Inr (put
         (print_string (case sp of None \<Rightarrow> map of_char ''(null)'' | Some str \<Rightarrow> str) (left_pad st) (unat (field_width st))
           (dot st) (unat (precision st)) (has_precision st)) args s))
     | _ \<Rightarrow> Some (Inl BadPointer))"

definition format_d :: "modifier_state \<Rightarrow> printing \<Rightarrow> printing outcome" where
  "format_d st s =
    and_then (Some (next_integer (arguments s))) (\<lambda>(n, args).
      put_number (print_signed_number (if long_qualifiers st \<ge> 1 then n else scast (ucast n :: u32)) (always_sign st)
        (left_pad st) (zero_pad st) (unat (field_width st)) (has_precision st) (unat (precision st))) args s)"

definition unsigned_argument :: "modifier_state \<Rightarrow> u64 \<Rightarrow> u64" where
  "unsigned_argument st n = (if long_qualifiers st \<ge> 1 then n else ucast (ucast n :: u32))"

definition format_u :: "modifier_state \<Rightarrow> printing \<Rightarrow> printing outcome" where
  "format_u st s =
    and_then (Some (next_integer (arguments s))) (\<lambda>(n, args).
      put_number (print_decimal (unsigned_argument st n) False False (left_pad st) (zero_pad st)
        (unat (field_width st)) (has_precision st) (unat (precision st))) args s)"

definition format_Q :: "modifier_state \<Rightarrow> printing \<Rightarrow> printing outcome" where
  "format_Q st s =
    and_then (Some (next_integer (arguments s))) (\<lambda>(n, args).
      put_number (print_decimal n False False (left_pad st) (zero_pad st) (unat (field_width st)) (has_precision st)
        (unat (precision st))) args s)"

definition format_q :: "modifier_state \<Rightarrow> printing \<Rightarrow> printing outcome" where
  "format_q st s =
    and_then (Some (next_integer (arguments s))) (\<lambda>(n, args).
      put_number (print_hex n False False (left_pad st) (zero_pad st) 16 False 1) args s)"

definition format_o :: "modifier_state \<Rightarrow> printing \<Rightarrow> printing outcome" where
  "format_o st s =
    and_then (Some (next_int (arguments s))) (\<lambda>(n, args).
      put_number (print_octal_number (ucast n) (alternate_form st) (left_pad st) (zero_pad st) (unat (field_width st))
        (has_precision st) (unat (precision st))) args s)"

definition format_unsigned_hex :: "bool \<Rightarrow> modifier_state \<Rightarrow> printing \<Rightarrow> printing outcome" where
  "format_unsigned_hex upper_case st s =
    and_then (Some (next_integer (arguments s))) (\<lambda>(n, args).
      put_number (print_hex (unsigned_argument st n) upper_case (alternate_form st) (left_pad st) (zero_pad st)
        (unat (field_width st)) (has_precision st) (unat (precision st))) args s)"

definition format_n :: "printing \<Rightarrow> printing outcome" where
  "format_n s =
    (case arguments s of
       Counter # args \<Rightarrow> Some (Inr (s\<lparr>counters := counters s @ [written s], arguments := args\<rparr>))
     | _ \<Rightarrow> Some (Inl BadPointer))"

definition format_pointer :: "bool \<Rightarrow> printing \<Rightarrow> printing outcome" where
  "format_pointer upper_case s =
    and_then (Some (next_integer (arguments s))) (\<lambda>(n, args).
      put_number (print_hex n upper_case True False True 8 False 1) args s)"

definition format_c :: "modifier_state \<Rightarrow> printing \<Rightarrow> printing outcome" where
  "format_c st s =
    and_then (Some (next_int (arguments s))) (\<lambda>(n, args).
      Some (Inr (put (print_string [ucast n] (left_pad st) (unat (field_width st)) (dot st) (unat (precision st))
        (has_precision st)) args s)))"

definition format_op :: "u8 \<Rightarrow> modifier_state \<Rightarrow> printing \<Rightarrow> printing outcome" where
  "format_op op st s =
    (if op = of_char CHR ''%'' then Some (Inr (put ([0x25], 1) (arguments s) s))
     else if op = of_char CHR ''P'' then format_pointer True s
     else if op = of_char CHR ''Q'' then format_Q st s
     else if op = of_char CHR ''X'' then format_unsigned_hex True st s
     else if op = of_char CHR ''c'' then format_c st s
     else if op = of_char CHR ''d'' then format_d st s
     else if op = of_char CHR ''i'' then format_d st s
     else if op = of_char CHR ''n'' then format_n s
     else if op = of_char CHR ''o'' then format_o st s
     else if op = of_char CHR ''p'' then format_pointer False s
     else if op = of_char CHR ''q'' then format_q st s
     else if op = of_char CHR ''s'' then format_s st s
     else if op = of_char CHR ''u'' then format_u st s
     else if op = of_char CHR ''x'' then format_unsigned_hex False st s
     else Some (Inr s))"

text \<open>
  One character after the percent sign: \<open>None\<close> when it is no modifier, else the modifiers and arguments it leaves.
  The qualifiers that are read but not used are left out of the state.
\<close>

definition modifier :: "u8 \<Rightarrow> modifier_state \<Rightarrow> argument list \<Rightarrow> (modifier_state \<times> argument list) error_or option" where
  "modifier c st args =
    (if c = of_char CHR ''.'' then Some (Inr (st\<lparr>dot := True\<rparr>, args))
     else if c = of_char CHR ''-'' then Some (Inr (st\<lparr>left_pad := True\<rparr>, args))
     else if c = of_char CHR ''+'' then Some (Inr (st\<lparr>always_sign := True\<rparr>, args))
     else if \<not> zero_pad st \<and> field_width st = 0 \<and> \<not> dot st \<and> c = of_char CHR ''0''
     then Some (Inr (st\<lparr>zero_pad := True\<rparr>, args))
     else if of_char CHR ''0'' \<le> c \<and> c \<le> of_char CHR ''9''
     then Some (Inr (if \<not> dot st then st\<lparr>field_width := field_width st * 10 + (ucast c - 0x30)\<rparr>
       else let p = (if has_precision st then precision st else 0)
            in st\<lparr>has_precision := True, precision := p * 10 + (ucast c - 0x30)\<rparr>, args))
     else if c = of_char CHR ''*''
     then Some (try_then (next_int args) (\<lambda>(n, args). Inr
       (if dot st then st\<lparr>has_precision := True, zero_pad := True, precision := n\<rparr> else st\<lparr>field_width := n\<rparr>, args)))
     else if c = of_char CHR ''l'' then Some (Inr (st\<lparr>long_qualifiers := long_qualifiers st + 1\<rparr>, args))
     else if c \<in> of_char ` {CHR ''h'', CHR ''j'', CHR ''t'', CHR ''L'', CHR ''z''} then Some (Inr (st, args))
     else if c = of_char CHR ''#'' then Some (Inr (st\<lparr>alternate_form := True\<rparr>, args))
     else None)"

text \<open>The characters from \<open>one_more\<close> on: the operation that follows the modifiers, and what is left after it.\<close>

fun read_modifiers :: "u8 list \<Rightarrow> modifier_state \<Rightarrow> argument list \<Rightarrow>
    (u8 \<times> u8 list \<times> modifier_state \<times> argument list) error_or" where
  "read_modifiers [] st args = Inl BadPointer"
| "read_modifiers (c # rest) st args =
    (case modifier c st args of
       None \<Rightarrow> Inr (c, rest, st, args)
     | Some (Inl e) \<Rightarrow> Inl e
     | Some (Inr (st, args)) \<Rightarrow> if rest \<noteq> [] then read_modifiers rest st args else Inr (c, rest, st, args))"

lemma read_modifiers_shorter:
  "read_modifiers fmt st args = Inr (op, rest, st', args') \<Longrightarrow> length rest < length fmt"
  by (induction fmt arbitrary: st args) (fastforce split: option.splits sum.splits if_splits)+

function printf_loop :: "u8 list \<Rightarrow> printing \<Rightarrow> printing outcome" where
  "printf_loop [] s = Some (Inr s)"
| "printf_loop (p # rest) s =
    (if p = 0x25 \<and> rest \<noteq> []
     then case read_modifiers rest initial_modifiers (arguments s) of
            Inl e \<Rightarrow> Some (Inl e)
          | Inr (op, rest', st, args) \<Rightarrow> and_then (format_op op st (s\<lparr>arguments := args\<rparr>)) (printf_loop rest')
     else printf_loop rest (put ([p], 1) (arguments s) s))"
  by pat_completeness auto
termination by (relation "measure (\<lambda>(fmt, s). length fmt)") (auto dest: read_modifiers_shorter)

definition printf_internal :: "u8 list \<Rightarrow> argument list \<Rightarrow> printing outcome" where
  "printf_internal fmt ap = printf_loop fmt \<lparr>out = [], written = 0, counters = [], arguments = ap\<rparr>"

end
