(* ===== verification/Printf_Correct.thy ===== *)
theory Printf_Correct
  imports Printf StringUtils_Correct
begin

unbundle bit_operations_syntax

section \<open>What is returned\<close>

lemma print_padded_length: "print_padded prefix left zero fw has_prec prec buf = Some (bs, w) \<Longrightarrow> length bs = w"
  by (auto simp: print_padded_def pad_amount_def Let_def split: if_splits option.splits)

lemma print_string_length: "print_string str left fw dt prec has_fraction = (bs, w) \<Longrightarrow> length bs = w"
  by (auto simp: print_string_def Let_def min_def split: if_splits)

definition counted :: "printing \<Rightarrow> bool" where
  "counted s \<longleftrightarrow> written s = of_nat (length (out s))"

lemma counted_put: "counted s \<Longrightarrow> length (fst r) = snd r \<Longrightarrow> counted (put r args s)"
  by (cases r) (simp add: counted_def put_def)

lemma counted_put_number:
  assumes "counted s" and "\<And>bs w. r = Some (bs, w) \<Longrightarrow> length bs = w" and "put_number r args s = Some (Inr s')"
  shows "counted s'"
  using assms counted_put [of s] by (cases r) (auto simp: put_number_def)

lemmas print_numbers = print_hex_def print_decimal_def print_octal_number_def print_signed_number_def

lemma print_number_length:
  "print_hex n upper alt left zero fw has_prec prec = Some (bs, w) \<Longrightarrow> length bs = w"
  "print_decimal n sign always left zero fw has_prec prec = Some (bs, w) \<Longrightarrow> length bs = w"
  "print_octal_number n alt left zero fw has_prec prec = Some (bs, w) \<Longrightarrow> length bs = w"
  "print_signed_number n always left zero fw has_prec prec = Some (bs, w) \<Longrightarrow> length bs = w"
  by (auto simp: print_numbers Let_def dest!: print_padded_length)

lemma format_op_counted:
  assumes "counted s" and "format_op op st s = Some (Inr s')"
  shows "counted s'"
proof -
  have hex: "counted s'" if "put_number (print_hex n u alt l z w h p) args s = Some (Inr s')" for n u alt l z w h p args
    using counted_put_number [OF assms(1) _ that] print_number_length(1) by blast
  have decimal: "counted s'" if "put_number (print_decimal n u alt l z w h p) args s = Some (Inr s')" for n u alt l z w h p args
    using counted_put_number [OF assms(1) _ that] print_number_length(2) by blast
  have octal: "counted s'" if "put_number (print_octal_number n alt l z w h p) args s = Some (Inr s')" for n alt l z w h p args
    using counted_put_number [OF assms(1) _ that] print_number_length(3) by blast
  have signed: "counted s'" if "put_number (print_signed_number n alt l z w h p) args s = Some (Inr s')" for n alt l z w h p args
    using counted_put_number [OF assms(1) _ that] print_number_length(4) by blast
  note number = hex decimal octal signed
  have string: "counted (put (print_string str left fw dt prec has_fraction) args s)" for str left fw dt prec has_fraction args
    by (rule counted_put [OF assms(1)]) (metis print_string_length prod.collapse)
  have "format_pointer u s = Some (Inr s') \<Longrightarrow> counted s'" "format_unsigned_hex u st s = Some (Inr s') \<Longrightarrow> counted s'"
    "format_q st s = Some (Inr s') \<Longrightarrow> counted s'" "format_Q st s = Some (Inr s') \<Longrightarrow> counted s'"
    "format_u st s = Some (Inr s') \<Longrightarrow> counted s'" "format_d st s = Some (Inr s') \<Longrightarrow> counted s'"
    "format_o st s = Some (Inr s') \<Longrightarrow> counted s'" for u
    unfolding format_pointer_def format_unsigned_hex_def format_q_def format_Q_def format_u_def format_d_def format_o_def
    by (auto simp: and_then_eq_Inr_iff dest: number)
  moreover have "format_s st s = Some (Inr s') \<Longrightarrow> counted s'" "format_c st s = Some (Inr s') \<Longrightarrow> counted s'"
    using string by (auto simp: format_s_def format_c_def and_then_eq_Inr_iff split: list.splits argument.splits)
  moreover have "format_n s = Some (Inr s') \<Longrightarrow> counted s'"
    using assms(1) by (auto simp: format_n_def counted_def split: list.splits argument.splits)
  moreover have "counted (put ([0x25], 1) (arguments s) s)" by (rule counted_put [OF assms(1)]) simp
  ultimately show ?thesis using assms unfolding format_op_def by (auto split: if_splits)
qed

lemma printf_loop_counted: "counted s \<Longrightarrow> printf_loop fmt s = Some (Inr s') \<Longrightarrow> counted s'"
proof (induction fmt s rule: printf_loop.induct)
  case (2 p rest s)
  show ?case
  proof (cases "p = 0x25 \<and> rest \<noteq> []")
    case True
    then obtain op rest' st args s1 where read: "read_modifiers rest initial_modifiers (arguments s) = Inr (op, rest', st, args)"
      and op: "format_op op st (s\<lparr>arguments := args\<rparr>) = Some (Inr s1)" and rest: "printf_loop rest' s1 = Some (Inr s')"
      using 2(4) by (auto simp: and_then_eq_Inr_iff split: sum.splits)
    have "counted (s\<lparr>arguments := args\<rparr>)" using 2(3) by (simp add: counted_def)
    then show ?thesis using 2(1) [OF True read refl refl refl _ rest] format_op_counted [OF _ op] by simp
  next
    case False
    have "counted (put ([p], 1) (arguments s) s)" by (rule counted_put [OF 2(3)]) simp
    then show ?thesis using 2(2) [OF False] 2(4) False by auto
  qed
qed simp

text \<open>
  Whatever the format and the arguments, \<open>printf_internal\<close> returns the number of characters it put, as an
  \<open>int\<close>, when it returns.
\<close>

theorem printf_returns_length:
  assumes "printf_internal fmt ap = Some (Inr s)"
  shows "written s = of_nat (length (out s))"
  using printf_loop_counted [of "\<lparr>out = [], written = 0, counters = [], arguments = ap\<rparr>" fmt s] assms
  by (simp add: printf_internal_def counted_def)

lemma printf_returns_length_witness:
  "\<exists>s. printf_internal [97, 37, 99] [Integer 98] = Some (Inr s) \<and> out s = [97, 98] \<and> written s = 2"
proof -
  have run: "printf_internal [97, 37, 99] [Integer 98] =
      Some (Inr \<lparr>out = [97, 98], written = 2, counters = [], arguments = []\<rparr>)"
    by (simp add: printf_internal_def modifier_def initial_modifiers_def format_op_def format_c_def next_int_def put_def
        print_string_def)
  then show ?thesis using printf_returns_length [OF run] by simp
qed

section \<open>Digits\<close>

text \<open>The number that digits of a base denote, behind a number read before.\<close>

definition denoted :: "nat \<Rightarrow> nat \<Rightarrow> u8 list \<Rightarrow> nat" where
  "denoted base m cs = foldl (\<lambda>v c. v * base + (unat c - 48)) m cs"

definition digit_below :: "nat \<Rightarrow> u8 \<Rightarrow> bool" where
  "digit_below base c \<longleftrightarrow> 48 \<le> unat c \<and> unat c < 48 + base"

lemma denoted_simps [simp]:
  "denoted base m [] = m" "denoted base m (c # cs) = denoted base (m * base + (unat c - 48)) cs"
  by (simp_all add: denoted_def)

lemma denoted_zeros [simp]: "denoted base 0 (replicate n 0x30 @ cs) = denoted base 0 cs"
  by (induction n) simp_all

lemma digit_char:
  assumes "d < base" and "base \<le> 10"
  shows "unat (of_nat (0x30 + d) :: u8) = 48 + d" and "digit_below base (of_nat (0x30 + d))"
    and "(of_nat (0x30 + d) :: u8) = 0x30 \<longleftrightarrow> d = 0"
proof -
  have "48 + d < 2 ^ 8" using assms by simp
  then show unat: "unat (of_nat (0x30 + d) :: u8) = 48 + d"
    unfolding unat_of_nat by simp
  then show "digit_below base (of_nat (0x30 + d))" using assms(1) by (simp add: digit_below_def)
  show "(of_nat (0x30 + d) :: u8) = 0x30 \<longleftrightarrow> d = 0"
    unfolding word_unat_eq_iff unat by simp
qed

lemma divisor_loop_correct:
  assumes "n < base ^ Suc k" and "2 \<le> base" and "base \<le> 10"
  shows "divisor_loop base n (base ^ k) padding \<noteq> [] \<and> list_all (digit_below base) (divisor_loop base n (base ^ k) padding) \<and>
    (0 < n \<longrightarrow> padding \<longrightarrow> hd (divisor_loop base n (base ^ k) padding) \<noteq> 0x30) \<and>
    (\<forall>m. denoted base m (divisor_loop base n (base ^ k) padding) = m * base ^ length (divisor_loop base n (base ^ k) padding) + n)"
  using assms(1)
proof (induction k arbitrary: n padding)
  case 0
  then show ?case
    using digit_char [OF _ assms(3), of n] by (subst (1 2 3 4 5) divisor_loop.simps) (simp add: Let_def)
next
  case (Suc k)
  let ?d = "n div base ^ Suc k" let ?n = "n mod base ^ Suc k"
  let ?ch = "of_nat (0x30 + ?d) :: u8"
  let ?rest = "divisor_loop base ?n (base ^ k) (padding \<and> ?ch = 0x30)"
  have d: "?d < base" using Suc.prems by (simp add: less_mult_imp_div_less mult.commute)
  note ch = digit_char [OF d assms(3)]
  have power: "1 < base ^ Suc k" using assms(2) by (metis Suc_1 Suc_le_lessD one_less_power zero_less_Suc)
  have loop: "divisor_loop base n (base ^ Suc k) padding = (if padding \<and> ?ch = 0x30 then ?rest else ?ch # ?rest)"
    using power assms(2) by (subst divisor_loop.simps) (simp add: Let_def)
  have "?n < base ^ Suc k" by (rule mod_less_divisor) (use power in linarith)
  note rest = Suc.IH [OF this, of "padding \<and> ?ch = 0x30"]
  have n: "n = ?d * base ^ Suc k + ?n" by (simp only: div_mult_mod_eq)
  show ?case
  proof (cases "padding \<and> ?ch = 0x30")
    case True
    then have "?n = n" using n ch(3) by simp
    then show ?thesis using rest True unfolding loop by simp
  next
    case False
    have same: "length (divisor_loop base m (base ^ j) False) = Suc j" for m j
    proof (induction j arbitrary: m)
      case 0
      then show ?case by (subst divisor_loop.simps) (simp add: Let_def)
    next
      case (Suc j)
      have "1 < base ^ Suc j" using assms(2) by (metis Suc_1 Suc_le_lessD one_less_power zero_less_Suc)
      then show ?case using assms(2) Suc by (subst divisor_loop.simps) (simp add: Let_def)
    qed
    have rest_False: "(padding \<and> ?ch = 0x30) = False" using False by simp
    have value_of: "denoted base m (?ch # ?rest) = m * base ^ length (?ch # ?rest) + n" for m
    proof -
      have "denoted base m (?ch # ?rest) = (m * base + ?d) * base ^ length ?rest + ?n" using rest ch(1) by simp
      also have "\<dots> = m * base ^ length (?ch # ?rest) + (?d * base ^ Suc k + ?n)"
        using same [of ?n k] by (simp only: rest_False) (simp add: algebra_simps)
      finally show ?thesis using n by metis
    qed
    define C where "C = ?ch"
    define R where "R = ?rest"
    have step: "divisor_loop base n (base ^ Suc k) padding = C # R"
      unfolding C_def R_def loop by (rule if_not_P [OF False])
    have "list_all (digit_below base) (C # R)"
      using rest [THEN conjunct2, THEN conjunct1, folded R_def] ch(2) [folded C_def] by simp
    moreover have "padding \<longrightarrow> hd (C # R) \<noteq> 0x30" using False [folded C_def] by simp
    ultimately show ?thesis unfolding step using value_of [folded C_def R_def] by blast
  qed
qed

lemma divisor_loop_length: "2 \<le> base \<Longrightarrow> length (divisor_loop base n (base ^ k) padding) \<le> Suc k"
proof (induction k arbitrary: n padding)
  case 0
  then show ?case by (subst divisor_loop.simps) (simp add: Let_def)
next
  case (Suc k)
  have "1 < base ^ Suc k" using Suc.prems by (metis Suc_1 Suc_le_lessD one_less_power zero_less_Suc)
  moreover have "length (divisor_loop base m (base ^ k) p) \<le> Suc (Suc k)" for m p
    using Suc.IH [OF Suc.prems, of m p] by simp
  ultimately show ?case
    using Suc.prems Suc.IH by (subst divisor_loop.simps) (simp add: Let_def)
qed

lemma is_digit_iff: "is_digit c \<longleftrightarrow> digit_below 10 c"
  unfolding is_digit_def digit_below_def word_le_nat_alt by simp arith

lemma printed_decimal_digits:
  fixes n :: u64
  defines "ds \<equiv> divisor_loop 10 (unat n) 10000000000000000000 True"
  shows "ds \<noteq> [] \<and> list_all is_digit ds \<and> digits_value 0 ds = unat n \<and> length ds \<le> 20 \<and> (n \<noteq> 0 \<longrightarrow> hd ds \<noteq> 0x30)"
proof -
  have "unat n < 2 ^ 64" using unsigned_less [of n, where ?'a = nat] by simp
  also have "(2 :: nat) ^ 64 < 10 ^ Suc 19" by simp
  finally have "unat n < 10 ^ Suc 19" .
  note loop = divisor_loop_correct [OF this, of True] divisor_loop_length [of 10 "unat n" 19 True]
  have "digits_value 0 ds = denoted 10 0 ds" by (simp add: digits_value_def denoted_def mult.commute)
  moreover have "list_all is_digit ds \<longleftrightarrow> list_all (digit_below 10) ds"
    by (rule list_all_cong [OF refl]) (simp only: is_digit_iff)
  ultimately show ?thesis using loop by (simp add: ds_def unat_gt_0)
qed

lemma print_padded_zeros:
  assumes "fw = 0 \<or> (zero \<and> \<not> left \<and> \<not> has_prec)" and "length buf + prec + length prefix < 2 ^ 32"
  shows "\<exists>z w. print_padded prefix left zero fw has_prec prec buf = Some (prefix @ replicate z 0x30 @ buf, w)"
  using assms by (auto simp: print_padded_def actual_width_def pad_amount_def Let_def)

definition i64_type :: int_type where
  "i64_type = \<lparr>width = 64, is_signed = True\<rparr>"

definition u64_type :: int_type where
  "u64_type = \<lparr>width = 64, is_signed = False\<rparr>"

lemma natural_of_zeros:
  "ds \<noteq> [] \<Longrightarrow> list_all is_digit ds \<Longrightarrow> natural_of (replicate z 0x30 @ ds) = Some (int (digits_value 0 ds))"
proof -
  assume ds: "ds \<noteq> []" "list_all is_digit ds"
  have "digits_value 0 (replicate z 0x30 @ ds) = digits_value 0 ds" by (induction z) simp_all
  moreover have "list_all is_digit (replicate z 0x30)" by (induction z) (simp_all add: is_digit_def)
  ultimately show ?thesis using ds by (simp add: natural_of_def)
qed

lemma integer_of_digits: "natural_of cs = Some v \<Longrightarrow> integer_of cs = Some v"
  by (cases cs) (auto simp: integer_of_def natural_of_def is_digit_def split: if_splits)

lemma int_mod_wrap: "2 ^ 64 \<le> (a :: int) \<Longrightarrow> a < 2 * 2 ^ 64 \<Longrightarrow> a mod 2 ^ 64 = a - 2 ^ 64"
  using mod_pos_pos_trivial [of "a - 2 ^ 64" "2 ^ 64"] by simp

lemma sint_cases: "sint (n :: u64) = (if uint n < 2 ^ 63 then uint n else uint n - 2 ^ 64)"
proof -
  have range: "0 \<le> uint n" "uint n < 2 ^ 64" using uint_lt2p [of n] by simp_all
  have shift: "sint n = (uint n + 2 ^ 63) mod 2 ^ 64 - 2 ^ 63"
    by (simp add: sint_uint signed_take_bit_eq_take_bit_shift take_bit_eq_mod)
  show ?thesis
  proof (cases "uint n < 2 ^ 63")
    case True
    then have "(uint n + 2 ^ 63) mod 2 ^ 64 = uint n + 2 ^ 63" using range by (intro mod_pos_pos_trivial) simp_all
    then show ?thesis using shift True by simp
  next
    case False
    then have "(uint n + 2 ^ 63) mod 2 ^ 64 = uint n + 2 ^ 63 - 2 ^ 64"
      using range int_mod_wrap [of "uint n + 2 ^ 63"] by simp
    then show ?thesis using shift False by simp
  qed
qed

lemma negated_magnitude:
  fixes n :: u64
  assumes "n <s 0"
  shows "int (unat (0 - n)) = - sint n"
proof -
  have neg: "sint n < 0" using assms by (simp add: word_sless_alt)
  then have "n \<noteq> 0" by auto
  have "sint n = uint n - 2 ^ 64" using neg sint_cases [of n] by (cases "uint n < 2 ^ 63") simp_all
  moreover have "uint (0 - n) = 2 ^ 64 - uint n"
  proof -
    have "0 < uint n" "uint n < 2 ^ 64" using \<open>n \<noteq> 0\<close> uint_lt2p [of n] by (simp_all add: word_uint_eq_iff order_less_le)
    then have "(2 ^ 64 - uint n) mod 2 ^ 64 = 2 ^ 64 - uint n" by (intro mod_pos_pos_trivial) simp_all
    moreover have "uint (0 - n) = (2 ^ 64 - uint n) mod 2 ^ 64" by (simp add: uint_word_ariths)
    ultimately show ?thesis by (rule trans [rotated])
  qed
  moreover have "int (unat (0 - n)) = uint (0 - n)" by (rule of_nat_unat)
  ultimately show ?thesis by presburger
qed

lemma sint_range: "in_type i64_type (sint (n :: u64))"
  using sint_range_size [of n] by (simp add: in_type_def i64_type_def type_min_def type_max_def word_size)

lemma uint_range: "in_type u64_type (uint (n :: u64))"
  using uint_lt2p [of n] by (simp add: in_type_def u64_type_def type_min_def type_max_def)

text \<open>
  The flags under which a number stands alone: no padding, or padding with zeros, and no precision of zero,
  which prints nothing for zero.
\<close>

definition number_alone :: "bool \<Rightarrow> bool \<Rightarrow> nat \<Rightarrow> bool \<Rightarrow> nat \<Rightarrow> bool" where
  "number_alone left zero fw has_prec prec \<longleftrightarrow>
    (fw = 0 \<or> (zero \<and> \<not> left \<and> \<not> has_prec)) \<and> (has_prec \<longrightarrow> 0 < prec) \<and> prec < 2 ^ 31"

lemma print_padded_alone:
  assumes "number_alone left zero fw has_prec prec" and "length buf \<le> 20" and "length prefix \<le> 1"
  shows "\<exists>z w. print_padded prefix left zero fw has_prec (prec - length buf) buf = Some (prefix @ replicate z 0x30 @ buf, w)"
  using assms by (intro print_padded_zeros) (auto simp: number_alone_def)

lemma unat_ucast_up: "unat (ucast (n :: u32) :: u64) = unat n"
  using unsigned_less [of n, where ?'a = nat] by (simp add: unsigned_ucast_eq take_bit_nat_eq_self)

lemma print_decimal_text:
  assumes "number_alone left zero fw has_prec prec"
  shows "\<exists>z w. print_decimal n sign always left zero fw has_prec prec =
    Some ((if sign then [0x2D] else if always then [0x2B] else []) @ replicate z 0x30 @
      divisor_loop 10 (unat n) 10000000000000000000 True, w)"
proof -
  let ?ds = "divisor_loop 10 (unat n) 10000000000000000000 True"
  have buf: "(if has_prec \<and> prec = 0 \<and> n = 0 then [] else ?ds) = ?ds"
    using assms by (auto simp: number_alone_def)
  have "length ?ds \<le> 20" using printed_decimal_digits [of n] by simp
  then show ?thesis
    unfolding print_decimal_def buf Let_def using assms
    by (intro print_padded_alone) auto
qed

lemma print_signed_reads_back:
  assumes "number_alone left zero fw has_prec prec"
  shows "\<exists>bs w. print_signed_number n always left zero fw has_prec prec = Some (bs, w) \<and>
    convert_to_int i64_type \<lparr>m_characters = a, chars = bs\<rparr> False = Inr (Some (sint n))"
proof -
  let ?m = "if n <s 0 then 0 - n else n"
  obtain z w where print: "print_signed_number n always left zero fw has_prec prec =
      Some ((if n <s 0 then [0x2D] else if always then [0x2B] else []) @ replicate z 0x30 @
        divisor_loop 10 (unat ?m) 10000000000000000000 True, w)"
    using print_decimal_text [OF assms, of ?m "n <s 0" always] unfolding print_signed_number_def by blast
  have magnitude: "int (unat ?m) = (if n <s 0 then - sint n else sint n)"
    using negated_magnitude [of n] sint_cases [of n] uint_lt2p [of n]
    by (auto simp: word_sless_alt)
  have number: "natural_of (replicate z 0x30 @ divisor_loop 10 (unat ?m) 10000000000000000000 True) = Some (int (unat ?m))"
    using printed_decimal_digits [of ?m] natural_of_zeros by metis
  then have "integer_of ((if n <s 0 then [0x2D] else if always then [0x2B] else []) @ replicate z 0x30 @
      divisor_loop 10 (unat ?m) 10000000000000000000 True) = Some (sint n)"
    using magnitude integer_of_digits [OF number] by (auto simp: integer_of_def)
  then show ?thesis
    using print convert_number_value [of i64_type] sint_range [of n] by (simp add: i64_type_def fitting_def)
qed

lemma print_unsigned_reads_back:
  assumes "number_alone left zero fw has_prec prec"
  shows "\<exists>bs w. print_decimal n False False left zero fw has_prec prec = Some (bs, w) \<and>
    convert_to_uint u64_type \<lparr>m_characters = a, chars = bs\<rparr> False = Inr (Some (uint n))"
proof -
  obtain z w where print: "print_decimal n False False left zero fw has_prec prec =
      Some (replicate z 0x30 @ divisor_loop 10 (unat n) 10000000000000000000 True, w)"
    using print_decimal_text [OF assms, of n False False] by auto
  have "natural_of (replicate z 0x30 @ divisor_loop 10 (unat n) 10000000000000000000 True) = Some (uint n)"
    using printed_decimal_digits [of n] natural_of_zeros [of "divisor_loop 10 (unat n) 10000000000000000000 True" z] by simp
  then show ?thesis
    using print convert_number_value [of u64_type] uint_range [of n] by (simp add: u64_type_def fitting_def)
qed

section \<open>Digits of sixteen\<close>

lemma hex_char_values:
  "i < 16 \<Longrightarrow> hex_digit_value (map of_char (if upper_case then ''0123456789ABCDEF'' else ''0123456789abcdef'') ! i) = Some (of_nat i)"
proof -
  assume "i < 16"
  then have "i \<in> {0, 1, 2, 3, 4, 5, 6, 7, 8, 9, 10, 11, 12, 13, 14, 15}" by simp arith
  then show ?thesis by (elim insertE emptyE) (cases upper_case; simp)+
qed

declare hex_digit_value.simps [simp del] octal_digit_value.simps [simp del]

lemma hex_digit_char_value:
  "hex_digit_value (hex_digit_char upper_case n) = Some (of_nat (unat n mod 16))"
proof -
  have "n AND 0xF = take_bit 4 n" by (simp add: take_bit_eq_mask mask_eq_exp_minus_1)
  moreover have "unat (take_bit 4 n) = unat n mod 16" by (simp only: unsigned_take_bit_eq) (simp add: take_bit_eq_mod)
  ultimately have "unat (n AND 0xF) = unat n mod 16" by (simp only:)
  moreover have "unat n mod 16 < 16" by simp
  ultimately show ?thesis unfolding hex_digit_char_def using hex_char_values by metis
qed

lemma unat_shifted: "unat (drop_bit (4 * k) (n :: u64)) = unat n div 16 ^ k"
proof -
  have "take_bit 64 (unat n) = unat n"
    by (rule take_bit_nat_eq_self) (use unsigned_less [of n, where ?'a = nat] in simp)
  then have "unat (drop_bit (4 * k) n) = drop_bit (4 * k) (unat n)" by (simp add: unsigned_drop_bit_eq)
  also have "\<dots> = unat n div 2 ^ (4 * k)" by (rule drop_bit_eq_div)
  finally show ?thesis by (simp add: power_mult)
qed

lemma hex_digits_value:
  "shifted_value 4 hex_digit_value (hex_digits upper_case n k) m = Some (m * 16 ^ k + unat n mod 16 ^ k)"
proof (induction k arbitrary: m)
  case 0
  then show ?case by simp
next
  case (Suc k)
  have "unat n mod 16 ^ Suc k = (unat n div 16 ^ k mod 16) * 16 ^ k + unat n mod 16 ^ k"
    by (metis mod_mult2_eq mult.commute power_Suc2)
  moreover have "hex_digit_value (hex_digit_char upper_case (drop_bit (4 * k) n)) = Some (of_nat (unat n div 16 ^ k mod 16))"
    unfolding hex_digit_char_value unat_shifted ..
  moreover have "unat (of_nat (unat n div 16 ^ k mod 16) :: u8) = unat n div 16 ^ k mod 16"
    unfolding unat_of_nat by (rule mod_less) (rule less_trans [of _ 16], simp_all)
  ultimately show ?case using Suc.IH by (simp add: algebra_simps)
qed

lemma hex_digit_count_bound: "unat n < 16 ^ hex_digit_count n"
proof (induction n rule: hex_digit_count.induct)
  case (1 n)
  show ?case
  proof (cases "n > 0")
    case True
    have "unat n div 16 < 16 ^ hex_digit_count (drop_bit 4 n)"
      using 1 [OF True] by (simp add: drop_bit_eq_div unat_div)
    then have "unat n < 16 ^ Suc (hex_digit_count (drop_bit 4 n))" by (simp add: div_less_iff_less_mult mult.commute)
    then show ?thesis using True by (subst hex_digit_count.simps) simp
  next
    case False
    then have "n = 0" using word_gt_0 [of n] by blast
    then show ?thesis by (simp add: hex_digit_count.simps)
  qed
qed

lemma zero_digit: "hex_digit_value 0x30 = Some 0" "octal_digit_value 0x30 = Some 0"
  by (simp_all add: hex_digit_value.simps octal_digit_value.simps)

lemma shifted_value_zeros:
  "shifted_value 4 hex_digit_value (replicate z 0x30 @ cs) 0 = shifted_value 4 hex_digit_value cs 0"
  "shifted_value 3 octal_digit_value (replicate z 0x30 @ cs) 0 = shifted_value 3 octal_digit_value cs 0"
  by (induction z) (simp_all add: zero_digit)

lemma hex_digit_count_le: "hex_digit_count n \<le> 16"
proof -
  have "unat n < 16 ^ k \<Longrightarrow> hex_digit_count n \<le> k" for n k
  proof (induction k arbitrary: n)
    case 0
    then show ?case by (simp add: hex_digit_count.simps unat_eq_0)
  next
    case (Suc k)
    then have "unat (drop_bit 4 n) < 16 ^ k" by (simp add: drop_bit_eq_div unat_div div_less_iff_less_mult mult.commute)
    then show ?case using Suc.IH by (subst hex_digit_count.simps) simp
  qed
  then show ?thesis using unsigned_less [of n, where ?'a = nat] by simp
qed

lemma print_hex_reads_back:
  assumes "number_alone left zero fw has_prec prec"
  shows "\<exists>bs w. print_hex n upper_case False left zero fw has_prec prec = Some (bs, w) \<and>
    convert_to_uint_from_hex \<lparr>m_characters = a, chars = bs\<rparr> False = Inr (Some n)"
proof -
  define ds where "ds = (if n = 0 then [0x30] else hex_digits upper_case n (hex_digit_count n))"
  have count: "n = 0 \<or> hex_digit_count n \<noteq> 0"
    using hex_digit_count_bound [of n] by (cases "hex_digit_count n") (simp_all add: unat_eq_0)
  then have buf: "(if has_prec \<and> prec = 0 \<and> n = 0 then [] else if n = 0 then [0x30]
      else hex_digits upper_case n (if hex_digit_count n = 0 then 1 else hex_digit_count n)) = ds"
    using assms count by (auto simp: ds_def number_alone_def)
  have len: "length (hex_digits upper_case n k) = k" for k by (induction k) simp_all
  then have "length ds \<le> 16" using hex_digit_count_le [of n] by (simp add: ds_def)
  then obtain z w where print: "print_hex n upper_case False left zero fw has_prec prec = Some (replicate z 0x30 @ ds, w)"
    using print_padded_alone [OF assms, of ds "[]"] unfolding print_hex_def Let_def buf by auto
  have "shifted_value 4 hex_digit_value ds 0 = Some (unat n)"
    using hex_digits_value [of upper_case n "hex_digit_count n" 0] hex_digit_count_bound [of n]
    by (auto simp: ds_def zero_digit)
  moreover have "ds \<noteq> []" using len [of "hex_digit_count n"] count by (auto simp: ds_def)
  ultimately show ?thesis
    using print convert_hex_exact [where ?'a = 64, of "\<lparr>m_characters = a, chars = replicate z 0x30 @ ds\<rparr>"]
      shifted_value_zeros(1) [of z ds] unsigned_less [of n, where ?'a = nat]
    by simp
qed

section \<open>Octal digits\<close>

lemma octal_value:
  "list_all (digit_below 8) cs \<Longrightarrow> shifted_value 3 octal_digit_value cs m = Some (denoted 8 m cs)"
proof (induction cs arbitrary: m)
  case (Cons c cs)
  then have "octal_digit_value c = Some (c - 48)" "unat (c - 48) = unat c - 48"
    by (simp_all add: octal_digit_value.simps digit_below_def word_le_nat_alt unat_sub)
  then show ?case using Cons by simp
qed simp

lemma octal_first_wrong:
  fixes n :: u64
  assumes "2 ^ 30 \<le> unat n" and "unat n < 2 ^ 32"
  shows "\<exists>c cs. divisor_loop 8 (unat n) 134217728 True = c # cs \<and> octal_digit_value c = None"
proof -
  let ?q = "unat n div 134217728"
  have "8 \<le> ?q" "?q < 32" using assms by (simp_all add: less_eq_div_iff_mult_less_eq div_less_iff_less_mult)
  then have ch: "unat (of_nat (0x30 + ?q) :: u8) = 0x30 + ?q" "56 \<le> 0x30 + ?q" unfolding unat_of_nat by simp_all
  then have "octal_digit_value (of_nat (0x30 + ?q)) = None" "(of_nat (0x30 + ?q) :: u8) \<noteq> 0x30"
    unfolding octal_digit_value.simps word_le_nat_alt word_unat_eq_iff by auto
  then show ?thesis by (subst divisor_loop.simps) (simp add: Let_def)
qed

lemma octal_length: "length (divisor_loop 8 n 134217728 True) \<le> 10"
  using divisor_loop_length [of 8 n 9 True] by simp



text \<open>
  An octal number of 32 bits, as \<open>%o\<close> takes it, printed alone is read back by \<open>convert_to_uint_from_octal\<close> when
  it is below two to the 30; above, the first character printed is no octal digit, for the divisor starts at eight
  to the ninth, and what is printed is no number.
\<close>

theorem printed_octal_read_back:
  assumes "number_alone left zero fw has_prec prec"
  shows "\<exists>bs w. print_octal_number (ucast (n :: u32)) False left zero fw has_prec prec = Some (bs, w) \<and>
    convert_to_uint_from_octal \<lparr>m_characters = a, chars = bs\<rparr> False = Inr (if n < 0x40000000 then Some n else None)"
proof -
  let ?n = "ucast n :: u64"
  define ds where "ds = divisor_loop 8 (unat ?n) 134217728 True"
  have n: "unat ?n = unat n" by (rule unat_ucast_up)
  have buf: "(if has_prec \<and> prec - length [] = 0 \<and> ?n = 0 then [] else divisor_loop 8 (unat ?n) 134217728 True) = ds"
    using assms by (auto simp: ds_def number_alone_def)
  have "length ds \<le> 10" unfolding ds_def by (rule octal_length)
  then obtain z w where print: "print_octal_number ?n False left zero fw has_prec prec = Some (replicate z 0x30 @ ds, w)"
    using print_padded_alone [OF assms, of ds "[]"] buf unfolding print_octal_number_def Let_def by auto
  have "ds \<noteq> [] \<and> shifted_value 3 octal_digit_value ds 0 = (if n < 0x40000000 then Some (unat n) else None)"
  proof (cases "n < 0x40000000")
    case True
    then have "unat ?n < 8 ^ Suc 9" unfolding n word_less_nat_alt by simp
    from divisor_loop_correct [OF this, of True] show ?thesis using True n by (simp add: ds_def octal_value)
  next
    case False
    then have "2 ^ 30 \<le> unat ?n" "unat ?n < 2 ^ 32"
      using unsigned_less [of n, where ?'a = nat] unfolding n word_less_nat_alt by simp_all
    from octal_first_wrong [OF this] show ?thesis using False by (auto simp: ds_def)
  qed
  then show ?thesis
    using print convert_octal_exact [where ?'a = 32, of "\<lparr>m_characters = a, chars = replicate z 0x30 @ ds\<rparr>"]
      shifted_value_zeros(2) [of z ds] unsigned_less [of n, where ?'a = nat]
    by simp
qed

lemma printed_octal_read_back_witness:
  "number_alone False False 0 False 6 \<and> (\<exists>bs w. print_octal_number (ucast (8 :: u32)) False False False 0 False 6 = Some (bs, w) \<and>
    convert_to_uint_from_octal \<lparr>m_characters = 0, chars = bs\<rparr> False = Inr (Some (8 :: u32)))"
proof -
  have "number_alone False False 0 False 6" by (simp add: number_alone_def)
  then show ?thesis using printed_octal_read_back [of False False 0 False 6 8 0] by simp
qed

end
