(* ===== verification/Spec2Isabelle.thy ===== *)
theory Spec2Isabelle
  imports HashMap Vector_Properties QuickSort_Correct BinaryHeap BinarySearch UFixedBigInt_Properties MMU_Properties
    Base64_Correct Checked CircularQueue RedBlackTree_Remove MemMem Peripherals_Correct
    Interrupts BootLogo IPv4Address IntrusiveList_Correct UrlParser_Simple Printf_Correct
begin

text \<open>
  A verification development for the AK library and the aarch64 boot code of the kernel in this repository.

  What the program is. \<open>AK/\<close> is a freestanding C++ library (containers, integers, text and formats) on
  which the kernel is built; \<open>Kernel/Arch/aarch64\<close> brings a Raspberry Pi from reset to a mapped address
  space and drives its first devices; \<open>Kernel/API\<close> holds the definitions shared with user programs.
  \<open>HashMap\<close> is a \<open>HashTable\<close> of entries and \<open>Stack\<close> a \<open>Vector\<close> with inline storage; the search in memory keeps
  its table in a \<open>Vector\<close>, the views of strings search and split by it, and the URL parser is built on views,
  conversions and UTF-8. The boot code uses the bit layouts of the register structures.

  How it is modelled. Data are records and datatypes named as in the source; a machine integer is a word of
  its width or, for \<open>size_t\<close> values that index memory, a natural number with the wrap-around written where the
  code can reach it. Where the code computes indices in \<open>int\<close>, every result is checked and an overflow is
  the error \<open>IntOverflow\<close>. State is passed explicitly. A failed \<open>VERIFY\<close>, a panic, an \<open>ErrorOr\<close> error, a
  read outside an array and the use of a null pointer are values of \<open>ak_error\<close>, so every early exit is a
  branch. A loop is a structural or measured recursion where the code bounds it; where it does not, it is a
  \<open>partial_function\<close> whose result \<open>None\<close> is not returning, and the theorems state that it returns. Where the
  code takes a type argument, the model takes the operations of the type as a locale or as function
  arguments. Templates of mirrored code are written once for a side.

  What is a parameter. The allocator (\<open>env\<close>: which sizes it grants, and how it rounds them up), the hash and
  equality of a type, the devices (register reads and writes over a state of the device), the classes of
  interrupt handlers, the functions of \<open>Format.cpp\<close> that format a number: code that is not in the repository
  or not software. What is assumed of them is a named hypothesis with a witness.

  The theories, and the code they model:

  \<^item> \<open>AK_Prelude\<close>: machine types, errors, sequencing with early exit, the allocator, checked \<open>int\<close>, lemmas on
    bits, lists and iteration.
  \<^item> \<open>HashFunctions\<close>, \<open>ProbeCycle\<close>: \<open>AK/HashFunctions.h\<close>, \<open>AK/Traits.h\<close>. The probe step \<open>double_hash\<close> is one
    cycle over all hash values, by powers of its bit matrix.
  \<^item> \<open>HashTable\<close>, \<open>_Probing\<close>, \<open>_Correct\<close>, \<open>_InPlace\<close>, \<open>_Ops\<close>, \<open>_Properties\<close>, \<open>HashMap\<close>: \<open>AK/HasTable.h\<close>
    (unordered) and \<open>AK/HashMap.h\<close>. The locale of a table with hash and equality carries the invariant (states
    of buckets, reachability of each value along its probe sequence); rehashing in place, growth, insertion
    and removal keep it; a map is the partial function of its entries.
  \<^item> \<open>Vector\<close>, \<open>_Correct\<close>, \<open>_Properties\<close>: \<open>AK/Vector.h\<close>, \<open>AK/TypedTransfer.h\<close>, \<open>AK/Stack.h\<close>. Slots are empty or
    hold an object, so moves, constructions and destructions are visible; operations are list operations.
  \<^item> \<open>QuickSort\<close>, \<open>_Correct\<close>: \<open>AK/QuickSort.h\<close> with its \<open>int\<close> arithmetic and indices checked. The theories
    \<open>QuickSort_Unbounded\<close> and \<open>QuickSort_Sorted\<close> hold a reference over unbounded integers and its correctness;
    below two to the 31 elements the checked code follows the reference.
  \<^item> \<open>BinaryHeap\<close>, \<open>BinarySearch\<close>, \<open>CircularQueue\<close>, \<open>Checked\<close>, \<open>CharacterTypes\<close>: the headers of these names.
    The ring provides the locale \<open>bounded_queue\<close> for every capacity.
  \<^item> \<open>UFixedBigInt\<close>, \<open>_Correct\<close>, \<open>_Arith\<close>, \<open>_Properties\<close>: \<open>AK/UFixedBigInt.h\<close>, with the counting of zeroes from
    \<open>AK/BuiltinWrappers.h\<close>, undefined (\<open>None\<close>) at zero. The locale \<open>limb\<close> is what a half must provide; the
    doubled integer provides it again, and the interpretations climb from 64 to 512 bits.
  \<^item> \<open>Base64\<close>, \<open>_Correct\<close>: \<open>AK/Base64.cpp\<close>, encoder and decoder, and their round trip.
  \<^item> \<open>RedBlackTree\<close>, \<open>_Shape\<close>, \<open>_Rotate\<close>, \<open>_Insert\<close>, \<open>_Correct\<close>, \<open>_Properties\<close>, \<open>_Remove\<close>:
    \<open>AK/RedBlackTree.h\<close> over a store of nodes. A store represents a labelled tree, a pointer into it is a
    zipper; rotations and fixups become functions on zippers, which keep the order and restore the shape.
  \<^item> \<open>IntrusiveList\<close>, \<open>_Correct\<close>: \<open>AK/IntrusiveList.h\<close>, links by address, simulated by a family of lists.
  \<^item> \<open>MemMem\<close>: \<open>AK/MemMem.h\<close>, the bitap and the Knuth-Morris-Pratt search, against the first occurrence.
  \<^item> \<open>Utf8\<close>, \<open>StringView\<close>, \<open>StringUtils\<close>, \<open>StringUtils_Correct\<close>, \<open>IPv4Address\<close>: \<open>AK/UnicodeUtils.h\<close>,
    \<open>AK/Utf8View.cpp\<close>, \<open>AK/StringView.cpp\<close>, \<open>AK/StringUtils.cpp\<close>, \<open>AK/IPv4Address.h\<close>. Encoding and decoding,
    matching, numbers in texts, splitting.
  \<^item> \<open>Printf\<close>, \<open>_Correct\<close>: \<open>AK/PrintfImplementation.h\<close>, the interpreter of format strings. The result is the
    number of characters put (theorem \<open>printf_returns_length\<close>); numbers printed are read back.
  \<^item> \<open>Url\<close>, \<open>UrlParser\<close>, \<open>UrlParser_Correct\<close>, \<open>UrlParser_Simple\<close>: \<open>AK/URL.cpp\<close>, \<open>AK/URLParser.cpp\<close>. Every
    state of the parser is a function; a rank of the states shows that parsing returns, and the run on plain
    URLs is followed to the parts.
  \<^item> \<open>Registers\<close>, \<open>ExceptionLevels\<close>, \<open>MMU\<close>, \<open>MMU_Correct\<close>, \<open>MMU_Properties\<close>: \<open>Kernel/Arch/aarch64/\<close>
    \<open>Registers.h\<close>, \<open>Exceptions.cpp\<close>, \<open>MMU.cpp\<close>. Fields are read with the sign of their declared type. Three
    register writes whose instruction names no register are read as the writes meant. A table walk as the
    architecture makes it is defined beside the code, and the map that the code builds is shown to be the
    identity with the right attributes.
  \<^item> \<open>Peripherals\<close>, \<open>_Correct\<close>: the drivers of \<open>Kernel/Arch/aarch64/RPi\<close> over a device that answers register
    reads and writes: pins, timer, serial line, interrupt controller, mailbox, frame buffer.
  \<^item> \<open>Interrupts\<close>: \<open>Kernel/Arch/aarch64/Interrupts.cpp\<close>, the table of handlers as a state machine of boot,
    registrations, removals and interrupts.
  \<^item> \<open>BootLogo\<close>: \<open>Kernel/Arch/aarch64/BootPPMParser.cpp\<close> and \<open>draw_logo\<close>; every read of the image is checked
    against the buffer.

  Bounds and fuel. \<open>skip_spaces\<close>, the heap, the search and the sorts take the length of what is left as their
  measure or fuel. Code that indexes by \<open>int\<close> is shown correct below two to the 31 elements, where none of
  its sums overflows. Multiplication has one round of fuel more than the type has bits, which is shown to be
  enough. 518 pages of table memory are shown to suffice for the identity map. The number of probes is
  bounded by the cycle of \<open>double_hash\<close>. The parser of URLs decreases the rank of its state or advances; the
  authority moves back once.

  Not modelled. The ordered hash table, vector iterators, and the parts listed as such in the manifest: JSON,
  lexers and the remaining text parsers, heap strings, streams, times, floating point and vector arithmetic;
  ownership pointers, function objects and other wrappers that depend on the C++ object model; the
  formatters, whose definitions are not in the repository; the x86 processor code, which is inline assembly
  around hardware state; system call numbers and structure declarations; assembly and linker scripts. The
  successor exchange of \<open>BaseRedBlackTree::remove\<close> is modelled, but nothing is shown about it. A handler that
  registers or removes handlers while it runs is not modelled.
\<close>

end
